(* ===== verification/Fold_Error.thy ===== *)
theory Fold_Error
  imports Main
begin

text \<open>
  The error type of the stack (\<^verbatim>\<open>crates/lamfold/src/error.rs\<close>): one constructor per variant
  of \<^verbatim>\<open>FoldError\<close>, the log token of each (\<^verbatim>\<open>as_token\<close>) and its rendering
  (\<^verbatim>\<open>Display\<close>). The variants carry a static string in the source, here a \<open>string\<close>; the
  two sizes of \<^verbatim>\<open>FileTooLarge\<close> are \<^verbatim>\<open>u64\<close> values, here natural numbers.
\<close>

datatype fold_error =
    NotFound
  | NotDirectory
  | IsDirectory
  | InvalidPath string
  | Corrupt string
  | Unsupported string
  | FileTooLarge (ftl_size: nat) (ftl_max: nat)
  | Decompress string
  | VerifyFailed string
  | Io string

fun as_token :: "fold_error \<Rightarrow> string" where
  "as_token NotFound = ''not_found''"
| "as_token NotDirectory = ''not_directory''"
| "as_token IsDirectory = ''is_directory''"
| "as_token (InvalidPath _) = ''invalid_path''"
| "as_token (Corrupt _) = ''corrupt''"
| "as_token (Unsupported _) = ''unsupported''"
| "as_token (FileTooLarge _ _) = ''file_too_large''"
| "as_token (Decompress _) = ''decompress''"
| "as_token (VerifyFailed _) = ''verify_failed''"
| "as_token (Io _) = ''io''"

text \<open>Decimal digits, as the \<^verbatim>\<open>{size}\<close> and \<^verbatim>\<open>{max}\<close> placeholders print them.\<close>

fun decimal :: "nat \<Rightarrow> string" where
  "decimal n = (if n < 10 then [char_of (48 + n)] else decimal (n div 10) @ [char_of (48 + n mod 10)])"

declare decimal.simps [simp del]

fun display_error :: "fold_error \<Rightarrow> string" where
  "display_error NotFound = ''not found''"
| "display_error NotDirectory = ''not a directory''"
| "display_error IsDirectory = ''is a directory''"
| "display_error (InvalidPath w) = ''invalid path: '' @ w"
| "display_error (Corrupt w) = ''corrupt: '' @ w"
| "display_error (Unsupported w) = ''unsupported: '' @ w"
| "display_error (FileTooLarge sz mx) =
     ''file too large: '' @ decimal sz @ '' bytes exceeds cap '' @ decimal mx"
| "display_error (Decompress w) = ''decompress: '' @ w"
| "display_error (VerifyFailed w) = ''verify failed: '' @ w"
| "display_error (Io w) = ''io: '' @ w"

text \<open>
  The token identifies the variant: two errors have the same token only when they are built with
  the same constructor. The variant is numbered by the order of the declaration.
\<close>

fun variant_index :: "fold_error \<Rightarrow> nat" where
  "variant_index NotFound = 0"
| "variant_index NotDirectory = 1"
| "variant_index IsDirectory = 2"
| "variant_index (InvalidPath _) = 3"
| "variant_index (Corrupt _) = 4"
| "variant_index (Unsupported _) = 5"
| "variant_index (FileTooLarge _ _) = 6"
| "variant_index (Decompress _) = 7"
| "variant_index (VerifyFailed _) = 8"
| "variant_index (Io _) = 9"

lemma as_token_eq_iff: "as_token e = as_token e' \<longleftrightarrow> variant_index e = variant_index e'"
  by (cases e; cases e') simp_all

end
