(* ===== verification/Fold_Prelude.thy ===== *)
theory Fold_Prelude
  imports Fold_Error "HOL-Library.Word"
begin

unbundle bit_operations_syntax

text \<open>
  What the components share: the byte type, the outcome of a fallible Rust computation (a value,
  a \<^verbatim>\<open>FoldError\<close>, or a panic), the arithmetic of an overflow-checked build, slices and their
  bounds-checked accessors, and the little- and big-endian readers. Machine integers wider than a
  byte are natural numbers; every addition, subtraction or multiplication whose operands come from
  the medium or from a caller goes through an operation below that panics outside the width, so a
  result that is free of panics is also the result of a wrapping build. The target is 64-bit:
  \<^verbatim>\<open>usize\<close> and \<^verbatim>\<open>u64\<close> have the same range.
\<close>

type_synonym byte = "8 word"
type_synonym bytes = "byte list"

named_theorems no_panic_simps \<open>when an operation cannot panic\<close>
named_theorems result_simps \<open>how an operation returns Ok\<close>


section \<open>Outcomes\<close>

text \<open>
  What a Rust build with overflow checks panics of: the overflow of an addition, a multiplication,
  a subtraction or a shift, a division by zero, and an index or slice out of range.
\<close>

datatype panic_kind = AddOverflow | MulOverflow | SubOverflow | ShiftOverflow | DivideByZero | IndexOutOfRange

datatype 'a result = Ok (ok_value: 'a) | Err (err_value: fold_error) | Panic panic_kind

definition no_panic :: "'a result \<Rightarrow> bool" where
  "no_panic r \<longleftrightarrow> (case r of Panic _ \<Rightarrow> False | _ \<Rightarrow> True)"

text \<open>The \<^verbatim>\<open>?\<close> operator: the first error or panic ends the computation.\<close>

fun and_then :: "'a result \<Rightarrow> ('a \<Rightarrow> 'b result) \<Rightarrow> 'b result" where
  "and_then (Ok x) f = f x"
| "and_then (Err e) f = Err e"
| "and_then (Panic p) f = Panic p"

definition ok_or :: "'a option \<Rightarrow> fold_error \<Rightarrow> 'a result" where
  "ok_or x e = (case x of None \<Rightarrow> Err e | Some v \<Rightarrow> Ok v)"

lemma and_then_eq_Ok [result_simps]:
  "and_then r f = Ok y \<longleftrightarrow> (\<exists>x. r = Ok x \<and> f x = Ok y)"
  by (cases r) auto

lemma and_then_eq_Err:
  "and_then r f = Err e \<longleftrightarrow> r = Err e \<or> (\<exists>x. r = Ok x \<and> f x = Err e)"
  by (cases r) auto

lemma and_then_cong [cong, fundef_cong]:
  "r = r' \<Longrightarrow> (\<And>x. r' = Ok x \<Longrightarrow> f x = g x) \<Longrightarrow> and_then r f = and_then r' g"
  by (cases r') auto

lemma and_then_assoc: "and_then (and_then r f) g = and_then r (\<lambda>x. and_then (f x) g)"
  by (cases r) auto

lemma and_then_Ok_right: "and_then r Ok = r"
  by (cases r) simp_all

lemma ok_or_eq_Ok [result_simps]: "ok_or x e = Ok v \<longleftrightarrow> x = Some v"
  by (auto simp: ok_or_def split: option.splits)

lemma ok_or_simps [simp]: "ok_or (Some v) e = Ok v" "ok_or None e = Err e"
  by (simp_all add: ok_or_def)

lemma no_panic_constructors [simp]:
  "no_panic (Ok x)" "no_panic (Err e)" "\<not> no_panic (Panic p)"
  by (simp_all add: no_panic_def)

lemma no_panic_and_then [no_panic_simps]:
  "no_panic (and_then r f) \<longleftrightarrow> no_panic r \<and> (\<forall>x. r = Ok x \<longrightarrow> no_panic (f x))"
  by (cases r) auto

lemma no_panic_ok_or [no_panic_simps, simp]: "no_panic (ok_or x e)"
  by (simp add: ok_or_def split: option.splits)

text \<open>A loop over a list whose body may fail, collecting the results.\<close>

fun map_result :: "('a \<Rightarrow> 'b result) \<Rightarrow> 'a list \<Rightarrow> 'b list result" where
  "map_result f [] = Ok []"
| "map_result f (x # xs) = and_then (f x) (\<lambda>y. and_then (map_result f xs) (\<lambda>ys. Ok (y # ys)))"

lemma map_result_Ok: "(\<And>x. x \<in> set xs \<Longrightarrow> f x = Ok (g x)) \<Longrightarrow> map_result f xs = Ok (map g xs)"
  by (induction xs) auto

lemma no_panic_cases:
  assumes "no_panic r"
  obtains (Ok) x where "r = Ok x" | (Err) e where "r = Err e"
  using assms by (cases r) auto


section \<open>State-passing operations\<close>

text \<open>
  A method on \<^verbatim>\<open>&mut self\<close> takes the state and returns the outcome together with the state
  it leaves behind, which is kept when the method fails: interning done before an error stays.
\<close>

type_synonym ('s, 'a) op = "'s \<Rightarrow> 'a result \<times> 's"

definition op_return :: "'a result \<Rightarrow> ('s, 'a) op" where
  "op_return r s = (r, s)"

definition op_bind :: "('s, 'a) op \<Rightarrow> ('a \<Rightarrow> ('s, 'b) op) \<Rightarrow> ('s, 'b) op" where
  "op_bind m f s = (case m s of
       (Ok x, s') \<Rightarrow> f x s'
     | (Err e, s') \<Rightarrow> (Err e, s')
     | (Panic p, s') \<Rightarrow> (Panic p, s'))"

lemma op_return_simps [simp]: "fst (op_return r s) = r" "snd (op_return r s) = s"
  by (simp_all add: op_return_def)

lemma op_bind_Ok [result_simps]:
  "op_bind m f s = (Ok y, s') \<longleftrightarrow> (\<exists>x s1. m s = (Ok x, s1) \<and> f x s1 = (Ok y, s'))"
  by (auto simp: op_bind_def split: prod.splits result.splits)

lemma op_bind_return [simp]:
  "op_bind (op_return r) f s =
     (case r of Ok x \<Rightarrow> f x s | Err e \<Rightarrow> (Err e, s) | Panic p \<Rightarrow> (Panic p, s))"
  by (simp add: op_bind_def op_return_def split: result.splits)

lemma op_return_eq [result_simps]: "op_return r s = (r', s') \<longleftrightarrow> r' = r \<and> s' = s"
  by (auto simp: op_return_def)

lemma op_lift_Ok [result_simps]:
  "(case r of Ok x \<Rightarrow> f x | Err e \<Rightarrow> (Err e, s) | Panic p \<Rightarrow> (Panic p, s)) = (Ok y, s') \<longleftrightarrow>
     (\<exists>x. r = Ok x \<and> f x = (Ok y, s'))"
  by (cases r) auto

lemma no_panic_op_lift [no_panic_simps]:
  "no_panic (fst (case r of Ok x \<Rightarrow> f x | Err e \<Rightarrow> (Err e, s) | Panic p \<Rightarrow> (Panic p, s))) \<longleftrightarrow>
     no_panic r \<and> (\<forall>x. r = Ok x \<longrightarrow> no_panic (fst (f x)))"
  by (cases r) auto

lemma op_bind_cong [fundef_cong]:
  "m s = m' s' \<Longrightarrow> (\<And>x s1. m' s' = (Ok x, s1) \<Longrightarrow> f x s1 = f' x s1) \<Longrightarrow>
     op_bind m f s = op_bind m' f' s'"
  by (auto simp: op_bind_def split: prod.splits result.splits)

lemma op_bind_invariant:
  assumes "P s" and "\<And>s. P s \<Longrightarrow> P (snd (m s))"
    and "\<And>x s. P s \<Longrightarrow> P (snd (f x s))"
  shows "P (snd (op_bind m f s))"
proof -
  obtain r s' where ms: "m s = (r, s')" by fastforce
  with assms(1,2) have "P s'" by (metis snd_conv)
  then show ?thesis
    using ms assms(3) by (cases r) (auto simp: op_bind_def)
qed

lemma no_panic_op_bind [no_panic_simps]:
  "no_panic (fst (op_bind m f s)) \<longleftrightarrow>
     no_panic (fst (m s)) \<and> (\<forall>x s'. m s = (Ok x, s') \<longrightarrow> no_panic (fst (f x s')))"
  by (auto simp: op_bind_def split: prod.splits result.splits)

lemma op_bind_safe:
  assumes "no_panic (fst (m s))" and "\<And>x s'. m s = (Ok x, s') \<Longrightarrow> no_panic (fst (f x s'))"
  shows "no_panic (fst (op_bind m f s))"
  using assms by (simp add: no_panic_op_bind)


section \<open>Checked machine arithmetic\<close>

text \<open>
  \<open>uadd w\<close>, \<open>umul w\<close> and \<open>usub\<close> are \<^verbatim>\<open>+\<close>, \<^verbatim>\<open>*\<close> and \<^verbatim>\<open>-\<close> on an unsigned type of \<open>w\<close> bits
  as an overflow-checked build runs them; \<open>checked_add\<close> and \<open>checked_mul\<close> are the methods of that
  name, which the source uses where it handles the overflow itself.
\<close>

definition uadd :: "nat \<Rightarrow> nat \<Rightarrow> nat \<Rightarrow> nat result" where
  "uadd w a b = (if a + b < 2 ^ w then Ok (a + b) else Panic AddOverflow)"

definition umul :: "nat \<Rightarrow> nat \<Rightarrow> nat \<Rightarrow> nat result" where
  "umul w a b = (if a * b < 2 ^ w then Ok (a * b) else Panic MulOverflow)"

definition usub :: "nat \<Rightarrow> nat \<Rightarrow> nat result" where
  "usub a b = (if b \<le> a then Ok (a - b) else Panic SubOverflow)"

definition checked_add :: "nat \<Rightarrow> nat \<Rightarrow> nat \<Rightarrow> nat option" where
  "checked_add w a b = (if a + b < 2 ^ w then Some (a + b) else None)"

definition checked_mul :: "nat \<Rightarrow> nat \<Rightarrow> nat \<Rightarrow> nat option" where
  "checked_mul w a b = (if a * b < 2 ^ w then Some (a * b) else None)"

definition div_ceil :: "nat \<Rightarrow> nat \<Rightarrow> nat" where
  "div_ceil a b = (if a mod b = 0 then a div b else a div b + 1)"

text \<open>Division and \<^verbatim>\<open>div_ceil\<close> by a divisor that may be zero.\<close>

definition udiv :: "nat \<Rightarrow> nat \<Rightarrow> nat result" where
  "udiv a b = (if b = 0 then Panic DivideByZero else Ok (a div b))"

definition udiv_ceil :: "nat \<Rightarrow> nat \<Rightarrow> nat result" where
  "udiv_ceil a b = (if b = 0 then Panic DivideByZero else Ok (div_ceil a b))"

lemma uadd_eq_Ok [result_simps]: "uadd w a b = Ok c \<longleftrightarrow> c = a + b \<and> a + b < 2 ^ w"
  by (auto simp: uadd_def)

lemma umul_eq_Ok [result_simps]: "umul w a b = Ok c \<longleftrightarrow> c = a * b \<and> a * b < 2 ^ w"
  by (auto simp: umul_def)

lemma usub_eq_Ok [result_simps]: "usub a b = Ok c \<longleftrightarrow> c = a - b \<and> b \<le> a"
  by (auto simp: usub_def)

lemma no_panic_arith [no_panic_simps]:
  "no_panic (uadd w a b) \<longleftrightarrow> a + b < 2 ^ w"
  "no_panic (umul w a b) \<longleftrightarrow> a * b < 2 ^ w"
  "no_panic (usub a b) \<longleftrightarrow> b \<le> a"
  by (simp_all add: uadd_def umul_def usub_def)

lemma checked_add_eq_Some: "checked_add w a b = Some c \<longleftrightarrow> c = a + b \<and> a + b < 2 ^ w"
  by (auto simp: checked_add_def)

lemma checked_mul_eq_Some: "checked_mul w a b = Some c \<longleftrightarrow> c = a * b \<and> a * b < 2 ^ w"
  by (auto simp: checked_mul_def)

text \<open>
  An outcome whose only panic is the overflow of an addition or a multiplication: no index of the
  source is ever out of range, no subtraction goes below zero and no divisor is zero, whatever the
  medium holds.
\<close>

definition only_overflow :: "'a result \<Rightarrow> bool" where
  "only_overflow r \<longleftrightarrow> (\<forall>p. r = Panic p \<longrightarrow> p = AddOverflow \<or> p = MulOverflow)"

lemma only_overflow_simps [simp]:
  "only_overflow (Ok x)" "only_overflow (Err e)"
  "only_overflow (Panic p) \<longleftrightarrow> p = AddOverflow \<or> p = MulOverflow"
  "only_overflow (ok_or v e)" "only_overflow (uadd w a b)" "only_overflow (umul w a b)"
  by (simp_all add: only_overflow_def ok_or_def uadd_def umul_def split: option.splits)

lemma only_overflow_and_then:
  "only_overflow (and_then r f) \<longleftrightarrow> only_overflow r \<and> (\<forall>x. r = Ok x \<longrightarrow> only_overflow (f x))"
  by (cases r) (auto simp: only_overflow_def)

lemma no_panic_only_overflow: "no_panic r \<Longrightarrow> only_overflow r"
  by (auto simp: only_overflow_def no_panic_def)

lemma div_ceil_mult_ge: "0 < b \<Longrightarrow> a \<le> div_ceil a b * b"
proof -
  assume "0 < b"
  then have m: "a mod b < b" by simp
  have a: "a div b * b + a mod b = a" by (rule div_mult_mod_eq)
  have "a \<le> (a div b + 1) * b" using a m by (simp only: add_mult_distrib)
  with a show ?thesis by (auto simp: div_ceil_def)
qed

lemma div_ceil_0 [simp]: "div_ceil 0 b = 0"
  by (simp add: div_ceil_def)

lemma div_ceil_le: "0 < b \<Longrightarrow> div_ceil a b \<le> a"
proof -
  assume b: "0 < b"
  have "a div b \<le> a div b * b" using b by simp
  moreover have "a div b * b + a mod b = a" by (rule div_mult_mod_eq)
  ultimately have "a mod b = 0 \<longrightarrow> a div b \<le> a" "a mod b \<noteq> 0 \<longrightarrow> a div b + 1 \<le> a" by linarith+
  then show ?thesis by (simp add: div_ceil_def)
qed

lemma div_ceil_mult_less: "i < div_ceil a b \<Longrightarrow> i * b < a"
proof -
  assume i: "i < div_ceil a b"
  have a: "a div b * b + a mod b = a" by (rule div_mult_mod_eq)
  show ?thesis
  proof (cases "a mod b = 0")
    case True
    with i have "i < a div b" "0 < b" by (auto simp: div_ceil_def intro: gr0I)
    then have "i * b < a div b * b" by simp
    with a True show ?thesis by simp
  next
    case False
    with i have "i \<le> a div b" by (simp add: div_ceil_def)
    then have "i * b \<le> a div b * b" by simp
    with a False show ?thesis by linarith
  qed
qed


section \<open>Slices\<close>

text \<open>
  \<open>slice bs a b\<close> is \<^verbatim>\<open>bs[a..b]\<close>; \<open>get_range\<close>, \<open>get_from\<close> and \<open>get_at\<close> are the \<^verbatim>\<open>get\<close> accessors,
  which return an option; \<open>index_range\<close> and \<open>index_at\<close> are the indexing operators, which panic.
\<close>

definition slice :: "'a list \<Rightarrow> nat \<Rightarrow> nat \<Rightarrow> 'a list" where
  "slice bs a b = take (b - a) (drop a bs)"

definition get_range :: "'a list \<Rightarrow> nat \<Rightarrow> nat \<Rightarrow> 'a list option" where
  "get_range bs a b = (if a \<le> b \<and> b \<le> length bs then Some (slice bs a b) else None)"

definition get_from :: "'a list \<Rightarrow> nat \<Rightarrow> 'a list option" where
  "get_from bs a = (if a \<le> length bs then Some (drop a bs) else None)"

definition get_at :: "'a list \<Rightarrow> nat \<Rightarrow> 'a option" where
  "get_at bs i = (if i < length bs then Some (bs ! i) else None)"

definition index_range :: "'a list \<Rightarrow> nat \<Rightarrow> nat \<Rightarrow> 'a list result" where
  "index_range bs a b =
     (if a \<le> b \<and> b \<le> length bs then Ok (slice bs a b) else Panic IndexOutOfRange)"

definition index_at :: "'a list \<Rightarrow> nat \<Rightarrow> 'a result" where
  "index_at bs i = (if i < length bs then Ok (bs ! i) else Panic IndexOutOfRange)"

text \<open>The offset of the first element that satisfies \<open>P\<close> (\<^verbatim>\<open>iter().position\<close>).\<close>

fun position :: "('a \<Rightarrow> bool) \<Rightarrow> 'a list \<Rightarrow> nat option" where
  "position P [] = None"
| "position P (x # xs) = (if P x then Some 0 else map_option Suc (position P xs))"

definition starts_with :: "'a list \<Rightarrow> 'a list \<Rightarrow> bool" where
  "starts_with bs p \<longleftrightarrow> take (length p) bs = p"

text \<open>\<^verbatim>\<open>buf[i..i + n].copy_from_slice(bs)\<close>, where \<open>n\<close> is the length of \<open>bs\<close>.\<close>

definition overwrite :: "'a list \<Rightarrow> nat \<Rightarrow> 'a list \<Rightarrow> 'a list" where
  "overwrite buf i bs = take i buf @ bs @ drop (i + length bs) buf"

lemma starts_with_length: "starts_with bs p \<Longrightarrow> length p \<le> length bs"
  unfolding starts_with_def by (metis length_take min.absorb_iff2)

lemma length_slice [simp]: "a \<le> b \<Longrightarrow> b \<le> length bs \<Longrightarrow> length (slice bs a b) = b - a"
  by (simp add: slice_def)

lemma length_slice_le: "length (slice bs a b) \<le> b - a"
  by (simp add: slice_def)

lemma slice_append: "a \<le> b \<Longrightarrow> b \<le> c \<Longrightarrow> slice bs a b @ slice bs b c = slice bs a c"
proof -
  assume ab: "a \<le> b" and bc: "b \<le> c"
  have "slice bs a c = take ((b - a) + (c - b)) (drop a bs)"
    using ab bc by (simp add: slice_def)
  also have "\<dots> = take (b - a) (drop a bs) @ take (c - b) (drop (b - a) (drop a bs))"
    by (rule take_add)
  also have "\<dots> = slice bs a b @ slice bs b c"
    using ab by (simp add: slice_def)
  finally show ?thesis by simp
qed

lemma slice_0_length [simp]: "slice bs 0 (length bs) = bs"
  by (simp add: slice_def)

lemma slice_self [simp]: "slice bs a a = []"
  by (simp add: slice_def)

lemma diff_append_less: "length xs < n \<Longrightarrow> ys \<noteq> [] \<Longrightarrow> n - (length xs + length ys) < n - length xs"
  by (cases ys) auto

lemma take_pieces:
  assumes "k \<le> n"
  shows "take k xs @ take (n - length (take k xs)) (drop k xs) = take n xs"
proof (cases "k \<le> length xs")
  case True
  then show ?thesis using assms take_add [of k "n - k" xs] by simp
qed (use assms in simp)

lemma slice_append_left: "b \<le> length xs \<Longrightarrow> slice (xs @ ys) a b = slice xs a b"
  by (simp add: slice_def)

lemma slice_append_right: "length xs \<le> a \<Longrightarrow> slice (xs @ ys) a b = slice ys (a - length xs) (b - length xs)"
  by (simp add: slice_def)

lemma get_range_eq_Some [result_simps]:
  "get_range bs a b = Some s \<longleftrightarrow> s = slice bs a b \<and> a \<le> b \<and> b \<le> length bs"
  by (auto simp: get_range_def)

lemma get_from_eq_Some [result_simps]: "get_from bs a = Some s \<longleftrightarrow> s = drop a bs \<and> a \<le> length bs"
  by (auto simp: get_from_def)

lemma get_at_eq_Some [result_simps]: "get_at bs i = Some x \<longleftrightarrow> i < length bs \<and> x = bs ! i"
  by (auto simp: get_at_def)

lemma index_range_eq_Ok [result_simps]:
  "index_range bs a b = Ok s \<longleftrightarrow> s = slice bs a b \<and> a \<le> b \<and> b \<le> length bs"
  by (auto simp: index_range_def)

lemma index_at_eq_Ok [result_simps]: "index_at bs i = Ok x \<longleftrightarrow> i < length bs \<and> x = bs ! i"
  by (auto simp: index_at_def)

lemma no_panic_index [no_panic_simps]:
  "no_panic (index_range bs a b) \<longleftrightarrow> a \<le> b \<and> b \<le> length bs"
  "no_panic (index_at bs i) \<longleftrightarrow> i < length bs"
  by (auto simp: index_range_def index_at_def)

lemma position_eq_None: "position P xs = None \<longleftrightarrow> (\<forall>x \<in> set xs. \<not> P x)"
  by (induction xs) auto

lemma position_eq_SomeD:
  "position P xs = Some i \<Longrightarrow> i < length xs \<and> P (xs ! i) \<and> (\<forall>j < i. \<not> P (xs ! j))"
proof (induction xs arbitrary: i)
  case (Cons x xs)
  show ?case
  proof (cases "P x")
    case False
    with Cons.prems obtain k where k: "position P xs = Some k" "i = Suc k" by auto
    with Cons.IH have "k < length xs \<and> P (xs ! k) \<and> (\<forall>j < k. \<not> P (xs ! j))" by blast
    with k False show ?thesis by (auto simp: nth_Cons split: nat.splits)
  qed (use Cons.prems in auto)
qed simp

lemma position_less: "position P xs = Some i \<Longrightarrow> i < length xs"
  by (simp add: position_eq_SomeD)

lemma length_overwrite [simp]: "i + length bs \<le> length buf \<Longrightarrow> length (overwrite buf i bs) = length buf"
  by (simp add: overwrite_def)

lemma overwrite_0: "overwrite buf 0 bs = bs @ drop (length bs) buf"
  by (simp add: overwrite_def)

lemma overwrite_Nil [simp]: "overwrite buf i [] = buf"
  by (simp add: overwrite_def)

lemma overwrite_overwrite:
  assumes "i + length xs \<le> length buf"
  shows "overwrite (overwrite buf i xs) (i + length xs) ys = overwrite buf i (xs @ ys)"
  using assms by (simp add: overwrite_def ac_simps)

lemma overwrite_slices:
  assumes "a \<le> b" and "b \<le> c" and "b \<le> length xs" and "j = i + (b - a)" and "j \<le> length buf"
  shows "overwrite (overwrite buf i (slice xs a b)) j (slice xs b c) = overwrite buf i (slice xs a c)"
  using overwrite_overwrite [of i "slice xs a b" buf "slice xs b c"] slice_append [OF assms(1,2), of xs] assms
  by simp

lemma slice_slice: "a + i + k \<le> b \<Longrightarrow> slice (slice xs a b) i (i + k) = slice xs (a + i) (a + i + k)"
  by (simp add: slice_def drop_take add.commute min_def)

lemma take_overwrite:
  assumes "i + length bs \<le> length buf"
  shows "take (i + length bs) (overwrite buf i bs) = take i buf @ bs"
  using assms by (simp add: overwrite_def)


section \<open>Multi-byte integers\<close>

fun from_le :: "bytes \<Rightarrow> nat" where
  "from_le [] = 0"
| "from_le (b # bs) = unat b + 256 * from_le bs"

definition from_be :: "bytes \<Rightarrow> nat" where
  "from_be bs = from_le (rev bs)"

text \<open>The cast \<^verbatim>\<open>n as u8\<close>.\<close>

definition byte_of :: "nat \<Rightarrow> byte" where
  "byte_of n = word_of_nat n"

fun to_le :: "nat \<Rightarrow> nat \<Rightarrow> bytes" where
  "to_le 0 n = []"
| "to_le (Suc k) n = byte_of (n mod 256) # to_le k (n div 256)"

lemma unat_byte_of: "unat (byte_of n) = n mod 256"
  by (simp add: byte_of_def unat_of_nat)

lemma unat_byte_of_small [simp]: "n < 256 \<Longrightarrow> unat (byte_of n) = n"
  by (simp add: unat_byte_of)

lemma byte_of_unat [simp]: "byte_of (unat b) = b"
  by (simp add: byte_of_def)

lemma unat_byte_less [simp]: "unat (b :: byte) < 256"
  using unsigned_less [of b] by simp

lemma from_le_less: "from_le bs < 256 ^ length bs"
proof (induction bs)
  case (Cons b bs)
  have "unat b < 256" by simp
  with Cons show ?case by (simp del: unat_byte_less)
qed simp

lemma from_be_less: "from_be bs < 256 ^ length bs"
  using from_le_less [of "rev bs"] by (simp add: from_be_def)

lemma length_to_le [simp]: "length (to_le k n) = k"
  by (induction k arbitrary: n) auto

lemma from_le_to_le: "n < 256 ^ k \<Longrightarrow> from_le (to_le k n) = n"
proof (induction k arbitrary: n)
  case (Suc k)
  then have "n div 256 < 256 ^ k" by (simp add: less_mult_imp_div_less ac_simps)
  with Suc.IH show ?case by simp
qed simp

lemma to_le_from_le: "to_le (length bs) (from_le bs) = bs"
proof (induction bs)
  case (Cons b bs)
  have b: "unat b < 256" by simp
  have "(unat b + 256 * from_le bs) mod 256 = unat b" using b by simp
  moreover have "(unat b + 256 * from_le bs) div 256 = from_le bs" using b by simp
  ultimately show ?case using Cons by simp
qed simp

definition to_be :: "nat \<Rightarrow> nat \<Rightarrow> bytes" where
  "to_be k n = rev (to_le k n)"

lemma length_to_be [simp]: "length (to_be k n) = k"
  by (simp add: to_be_def)

lemma from_be_to_be: "n < 256 ^ k \<Longrightarrow> from_be (to_be k n) = n"
  by (simp add: from_be_def to_be_def from_le_to_le)

text \<open>A bounds-checked field of \<open>k\<close> bytes at offset \<open>i\<close>, with the error a frontend gives.\<close>

definition le_field :: "string \<Rightarrow> nat \<Rightarrow> bytes \<Rightarrow> nat \<Rightarrow> nat result" where
  "le_field msg k bs i = ok_or (map_option from_le (get_range bs i (i + k))) (Corrupt msg)"

definition be_field :: "string \<Rightarrow> nat \<Rightarrow> bytes \<Rightarrow> nat \<Rightarrow> nat result" where
  "be_field msg k bs i = ok_or (map_option from_be (get_range bs i (i + k))) (Corrupt msg)"

lemma le_field_eq_Ok [result_simps]:
  "le_field msg k bs i = Ok v \<longleftrightarrow> i + k \<le> length bs \<and> v = from_le (slice bs i (i + k))"
  by (auto simp: le_field_def ok_or_eq_Ok get_range_eq_Some)

lemma be_field_eq_Ok [result_simps]:
  "be_field msg k bs i = Ok v \<longleftrightarrow> i + k \<le> length bs \<and> v = from_be (slice bs i (i + k))"
  by (auto simp: be_field_def ok_or_eq_Ok get_range_eq_Some)

lemma no_panic_fields [no_panic_simps, simp]:
  "no_panic (le_field msg k bs i)" "no_panic (be_field msg k bs i)"
  by (simp_all add: le_field_def be_field_def)

lemma le_field_at:
  "slice bs i (i + k) = to_le k v \<Longrightarrow> i + k \<le> length bs \<Longrightarrow> v < 256 ^ k \<Longrightarrow> le_field msg k bs i = Ok v"
  by (simp add: le_field_eq_Ok from_le_to_le)

lemma le_field_at_0: "take k bs = to_le k v \<Longrightarrow> k \<le> length bs \<Longrightarrow> v < 256 ^ k \<Longrightarrow> le_field msg k bs 0 = Ok v"
  using le_field_at [of bs 0 k v] by (simp add: slice_def)

lemma slice_middle: "length pre = i \<Longrightarrow> slice (pre @ xs @ post) i (i + length xs) = xs"
  by (simp add: slice_def)

lemma from_le_slice_less: "from_le (slice bs i (i + k)) < 256 ^ k"
  by (rule less_le_trans [OF from_le_less]) (simp add: length_slice_le [of bs i "i + k", simplified])

lemma from_be_slice_less: "from_be (slice bs i (i + k)) < 256 ^ k"
  by (rule less_le_trans [OF from_be_less]) (simp add: length_slice_le [of bs i "i + k", simplified])

lemma le_field_less: "le_field msg k bs i = Ok v \<Longrightarrow> v < 256 ^ k"
  by (auto simp: le_field_eq_Ok from_le_slice_less)

lemma be_field_less: "be_field msg k bs i = Ok v \<Longrightarrow> v < 256 ^ k"
  by (auto simp: be_field_eq_Ok from_be_slice_less)


section \<open>Bit masks on unsigned integers\<close>

lemma nat_and_mask: "n AND (2 ^ k - 1) = n mod (2 ^ k :: nat)"
  using take_bit_eq_mask [of k n] by (simp add: take_bit_eq_mod mask_eq_exp_minus_1)

lemma nat_and_le: "(m :: nat) AND n \<le> n"
  by (metis and.commute and_nat_def nat_mono of_nat_0_le_iff AND_upper1 nat_int)

lemma nat_and_le': "(m :: nat) AND n \<le> m"
  using nat_and_le [of n m] by (simp add: and.commute)

lemma nat_and_high:
  assumes "n < 2 ^ (k + m)"
  shows "n AND (2 ^ (k + m) - 2 ^ k) = n div 2 ^ k * (2 ^ k :: nat)"
proof -
  have "(2 :: nat) ^ (k + m) - 2 ^ k = push_bit k (mask m)"
    by (simp add: push_bit_eq_mult mask_eq_exp_minus_1 power_add diff_mult_distrib2 mult.commute)
  moreover have "n = take_bit (k + m) n" using assms by (simp add: take_bit_nat_eq_self)
  ultimately have "n AND (2 ^ (k + m) - 2 ^ k) = take_bit (k + m) n AND push_bit k (mask m)" by simp
  also have "\<dots> = push_bit k (drop_bit k (take_bit (k + m) n))"
    by (rule bit_eqI) (auto simp: bit_simps)
  also have "\<dots> = n div 2 ^ k * 2 ^ k"
    using \<open>n = take_bit (k + m) n\<close> by (simp add: push_bit_eq_mult drop_bit_eq_div)
  finally show ?thesis .
qed

text \<open>ASCII literals of the source as byte strings.\<close>

definition ascii :: "string \<Rightarrow> bytes" where
  "ascii s = map of_char s"


section \<open>Chunks\<close>

text \<open>\<^verbatim>\<open>chunks_exact\<close>: the pieces of \<open>n\<close> elements, a shorter rest dropped.\<close>

function chunks_exact :: "nat \<Rightarrow> 'a list \<Rightarrow> 'a list list" where
  "chunks_exact n xs = (if n = 0 \<or> length xs < n then [] else take n xs # chunks_exact n (drop n xs))"
  by pat_completeness auto
termination
  by (relation "measure (\<lambda>(n, xs). length xs)") auto

declare chunks_exact.simps [simp del]

lemma chunks_exact_short: "length xs < n \<Longrightarrow> chunks_exact n xs = []"
  by (simp add: chunks_exact.simps)

lemma chunks_exact_append: "length c = n \<Longrightarrow> 0 < n \<Longrightarrow> chunks_exact n (c @ xs) = c # chunks_exact n xs"
  by (subst chunks_exact.simps) simp

lemma chunks_exact_concat:
  "\<forall>c \<in> set cs. length c = n \<Longrightarrow> 0 < n \<Longrightarrow> chunks_exact n (concat cs) = cs"
  by (induction cs) (simp_all add: chunks_exact_append chunks_exact_short)

lemma chunks_exact_length: "length (chunks_exact n xs) \<le> length xs"
proof (induction n xs rule: chunks_exact.induct)
  case (1 n xs)
  then show ?case by (subst chunks_exact.simps) auto
qed

lemma chunks_exact_mem: "c \<in> set (chunks_exact n xs) \<Longrightarrow> length c = n"
proof (induction n xs rule: chunks_exact.induct)
  case (1 n xs)
  then show ?case by (subst (asm) (2) chunks_exact.simps) (auto split: if_splits)
qed

end
