(* ===== verification/Block_Source.thy ===== *)
theory Block_Source
  imports Fold_Prelude
begin

text \<open>
  The byte source (\<^verbatim>\<open>crates/lamfold/src/source.rs\<close>). The trait \<^verbatim>\<open>BlockSource\<close> is a record of
  its two operations: the length and \<open>src_read s off n\<close>, which fills a buffer of \<open>n\<close> bytes from
  byte \<open>off\<close> or fails. The locale \<open>medium\<close> is the contract that the trait's comments give (a
  successful return fills the whole buffer, a read past the end is an error, the medium is
  read-only and byte-addressed); \<^verbatim>\<open>SliceSource\<close> is shown to satisfy it.
\<close>

record block_source =
  src_len :: nat
  src_read :: "nat \<Rightarrow> nat \<Rightarrow> bytes result"

definition src_is_empty :: "block_source \<Rightarrow> bool" where
  "src_is_empty s \<longleftrightarrow> src_len s = 0"

definition usize_max :: nat where
  "usize_max = 2 ^ 64 - 1"

definition slice_read_at :: "bytes \<Rightarrow> nat \<Rightarrow> nat \<Rightarrow> bytes result" where
  "slice_read_at data off n =
     and_then (if off \<le> usize_max then Ok off else Err (Io ''offset overflows usize'')) (\<lambda>start.
     and_then (ok_or (checked_add 64 start n) (Io ''offset+len overflow'')) (\<lambda>stop.
     if stop > length data then Err (Io ''read past end of source'')
     else Ok (slice data start stop)))"

definition slice_source :: "bytes \<Rightarrow> block_source" where
  "slice_source data = \<lparr>src_len = length data, src_read = slice_read_at data\<rparr>"

lemma slice_source_simps [simp]:
  "src_len (slice_source data) = length data" "src_read (slice_source data) = slice_read_at data"
  by (simp_all add: slice_source_def)

locale medium =
  fixes src :: block_source
  assumes read_fills: "src_read src off n = Ok bs \<Longrightarrow> length bs = n"
    and read_in_range: "src_read src off n = Ok bs \<Longrightarrow> off + n \<le> src_len src"
    and read_no_panic: "no_panic (src_read src off n)"
    and read_part: "src_read src off n = Ok bs \<Longrightarrow> i + k \<le> n \<Longrightarrow>
      src_read src (off + i) k = Ok (slice bs i (i + k))"
begin

lemma read_prefix:
  assumes "src_read src off n = Ok bs" and "k \<le> n"
  shows "src_read src off k = Ok (take k bs)"
  using read_part [OF assms(1), of 0 k] assms(2) by (simp add: slice_def)

lemma read_split:
  assumes "src_read src off (m + n) = Ok bs"
  shows "src_read src off m = Ok (take m bs)"
    and "src_read src (off + m) n = Ok (drop m bs)"
proof -
  show "src_read src off m = Ok (take m bs)"
    using read_prefix [OF assms, of m] by simp
  have "src_read src (off + m) n = Ok (slice bs m (m + n))"
    using read_part [OF assms, of m n] by simp
  moreover have "slice bs m (m + n) = drop m bs"
    using read_fills [OF assms] by (simp add: slice_def)
  ultimately show "src_read src (off + m) n = Ok (drop m bs)" by simp
qed

lemma read_outcome:
  obtains (Ok) bs where "src_read src off n = Ok bs" "length bs = n" "off + n \<le> src_len src"
    | (Err) e where "src_read src off n = Err e"
  using read_no_panic read_fills read_in_range by (metis no_panic_cases)

end

lemma slice_read_at_eq_Ok:
  "slice_read_at data off n = Ok bs \<longleftrightarrow>
     bs = slice data off (off + n) \<and> off + n \<le> length data \<and> off + n < 2 ^ 64"
  by (auto simp: slice_read_at_def result_simps checked_add_eq_Some usize_max_def
      split: if_splits)

lemma slice_read_at_no_panic: "no_panic (slice_read_at data off n)"
  by (simp add: slice_read_at_def no_panic_simps)

interpretation slice_medium: medium "slice_source data" for data
proof unfold_locales
  fix off n bs i k
  assume r: "src_read (slice_source data) off n = Ok bs"
  then have bs: "bs = slice data off (off + n)" "off + n \<le> length data" "off + n < 2 ^ 64"
    by (simp_all add: slice_source_def slice_read_at_eq_Ok)
  show "length bs = n" "off + n \<le> src_len (slice_source data)"
    using bs by (simp_all add: slice_source_def)
  assume "i + k \<le> n"
  moreover from this have "slice data (off + i) (off + i + k) = slice bs i (i + k)"
    using bs by (simp add: slice_def drop_take add.commute add.left_commute)
  ultimately show "src_read (slice_source data) (off + i) k = Ok (slice bs i (i + k))"
    using bs by (simp add: slice_source_def slice_read_at_eq_Ok)
qed (simp add: slice_source_def slice_read_at_no_panic)

text \<open>
  Every outcome of a read on a slice: the requested bytes exactly when they lie inside the slice,
  and otherwise an \<^verbatim>\<open>Io\<close> error, never a short read and never a panic.
\<close>

lemma slice_read_at_outcome:
  assumes "length data < 2 ^ 64"
  shows "slice_read_at data off n =
     (if off + n \<le> length data then Ok (slice data off (off + n))
      else if off > usize_max then Err (Io ''offset overflows usize'')
      else if off + n > usize_max then Err (Io ''offset+len overflow'')
      else Err (Io ''read past end of source''))"
  using assms by (auto simp: slice_read_at_def checked_add_def usize_max_def)

text \<open>
  A medium of less than half the address space. The bound keeps the sum of an offset inside the
  medium and a 32-bit length inside 64 bits; a real medium is far below it.
\<close>

definition sound_source :: "block_source \<Rightarrow> bool" where
  "sound_source src \<longleftrightarrow> medium src \<and> src_len src < 2 ^ 63"

lemma sound_slice_source: "length data < 2 ^ 63 \<Longrightarrow> sound_source (slice_source data)"
  using slice_medium.medium_axioms by (simp add: sound_source_def slice_source_def)

lemma sound_source_medium: "sound_source src \<Longrightarrow> medium src"
  by (simp add: sound_source_def)

lemmas src_read_fills = medium.read_fills [OF sound_source_medium]
lemmas src_read_in_range = medium.read_in_range [OF sound_source_medium]
lemmas src_read_part = medium.read_part [OF sound_source_medium]

lemma no_panic_src_read [no_panic_simps]: "sound_source src \<Longrightarrow> no_panic (src_read src off n)"
  by (simp add: medium.read_no_panic sound_source_def)

lemma src_read_bound: "sound_source src \<Longrightarrow> src_read src off n = Ok bs \<Longrightarrow> off + n < 2 ^ 63"
  by (meson le_less_trans sound_source_def src_read_in_range)

lemma length_overwrite_read:
  "sound_source src \<Longrightarrow> src_read src off n = Ok bs \<Longrightarrow> i + n \<le> length buf \<Longrightarrow>
     length (overwrite buf i bs) = length buf"
  using src_read_fills by (metis length_overwrite)

text \<open>The bytes \<open>bs\<close> stand on the medium from \<open>at\<close> on.\<close>

definition recorded :: "block_source \<Rightarrow> nat \<Rightarrow> bytes \<Rightarrow> bool" where
  "recorded src at bs \<longleftrightarrow> src_read src at (length bs) = Ok bs"

lemma recorded_append:
  assumes "sound_source src" and "recorded src at (xs @ ys)"
  shows "recorded src at xs" and "recorded src (at + length xs) ys"
proof -
  have r: "src_read src at (length xs + length ys) = Ok (xs @ ys)" using assms(2) by (simp add: recorded_def)
  show "recorded src at xs" using src_read_part [OF assms(1) r, of 0 "length xs"] by (simp add: recorded_def slice_def)
  show "recorded src (at + length xs) ys"
    using src_read_part [OF assms(1) r, of "length xs" "length ys"] by (simp add: recorded_def slice_def)
qed

lemma recorded_bound: "sound_source src \<Longrightarrow> recorded src at bs \<Longrightarrow> at + length bs < 2 ^ 63"
  using src_read_bound by (auto simp: recorded_def)

end
