(* ===== verification/Fold_Verify.thy ===== *)
theory Fold_Verify
  imports Block_Source
begin

text \<open>
  The verification seam (\<^verbatim>\<open>crates/lamfold/src/verify.rs\<close>): the trait \<^verbatim>\<open>Verifier\<close> has one
  method, so a verifier is the function \<^verbatim>\<open>verify_block\<close> from a node, an offset and the bytes of
  a block to a verdict; \<open>no_verifier\<close> is the one that accepts everything.
\<close>

type_synonym node_id = nat
type_synonym verifier = "node_id \<Rightarrow> nat \<Rightarrow> bytes \<Rightarrow> unit result"

definition no_verifier :: verifier where
  "no_verifier node offset data = Ok ()"

end
