(* ===== verification/Fold_Verity.thy ===== *)
theory Fold_Verity
  imports Fold_Verify
begin

text \<open>
  The fs-verity Merkle tree and the verifier over it (\<^verbatim>\<open>crates/lamfold/src/verity.rs\<close>). SHA-256
  is the \<^verbatim>\<open>sha2\<close> crate's and stands here as the parameter \<open>sha\<close>; its incremental interface
  (\<^verbatim>\<open>update\<close> then \<^verbatim>\<open>finalize\<close>) is the digest of the concatenated updates. What the theory relies
  on is that a digest has 32 bytes. The level-by-level loop of \<^verbatim>\<open>merkle_root\<close> need not end, so it
  is a partial function; it is shown to return for every block size of at least 64 bytes and to
  run forever for the smaller ones as soon as there is more than one block.
\<close>

type_synonym hash_fn = "bytes \<Rightarrow> bytes"

definition HASH_LEN :: nat where
  "HASH_LEN = 32"

definition SHA256_INPUT_BLOCK :: nat where
  "SHA256_INPUT_BLOCK = 64"

definition DEFAULT_BLOCK_LOG :: nat where
  "DEFAULT_BLOCK_LOG = 12"

text \<open>\<^verbatim>\<open>1usize << block_log\<close>: a shift by the width or more panics.\<close>

definition block_size_of :: "nat \<Rightarrow> nat result" where
  "block_size_of block_log = (if block_log < 64 then Ok (2 ^ block_log) else Panic ShiftOverflow)"

definition padded_salt :: "bytes \<Rightarrow> bytes" where
  "padded_salt salt =
     (if salt = [] then []
      else let rem = length salt mod SHA256_INPUT_BLOCK in
        if rem \<noteq> 0 then salt @ replicate (SHA256_INPUT_BLOCK - rem) 0 else salt)"

text \<open>The padding loop of \<^verbatim>\<open>hash_block\<close>, which feeds the hash at most 64 zeros at a time.\<close>

function pad_updates :: "nat \<Rightarrow> bytes" where
  "pad_updates pad =
     (if pad > 0 then let n = min pad SHA256_INPUT_BLOCK in replicate n 0 @ pad_updates (pad - n)
      else [])"
  by pat_completeness auto
termination
  by (relation "measure id") (auto simp: SHA256_INPUT_BLOCK_def)

declare pad_updates.simps [simp del]

definition hash_block :: "hash_fn \<Rightarrow> bytes \<Rightarrow> bytes \<Rightarrow> nat \<Rightarrow> bytes result" where
  "hash_block sha salt_prefix block bs =
     and_then (usub bs (length block)) (\<lambda>pad. Ok (sha (salt_prefix @ block @ pad_updates pad)))"

text \<open>The block digests of one level, in order (the \<^verbatim>\<open>for\<close> loop).\<close>

definition level_digests :: "hash_fn \<Rightarrow> nat \<Rightarrow> bytes \<Rightarrow> bytes \<Rightarrow> bytes list result" where
  "level_digests sha bs salt_prefix level =
     map_result (\<lambda>i. hash_block sha salt_prefix (slice level (i * bs) (min (i * bs + bs) (length level))) bs)
       [0..<div_ceil (length level) bs]"

partial_function (option) merkle_levels ::
  "hash_fn \<Rightarrow> nat \<Rightarrow> bytes \<Rightarrow> bytes \<Rightarrow> bytes result option" where
  "merkle_levels sha bs salt_prefix level =
     (if div_ceil (length level) bs \<le> 1 then Some (hash_block sha salt_prefix level bs)
      else case level_digests sha bs salt_prefix level of
        Ok next \<Rightarrow> merkle_levels sha bs salt_prefix (concat next)
      | Err e \<Rightarrow> Some (Err e)
      | Panic p \<Rightarrow> Some (Panic p))"

definition merkle_root :: "hash_fn \<Rightarrow> bytes \<Rightarrow> nat \<Rightarrow> bytes \<Rightarrow> bytes result option" where
  "merkle_root sha data bs salt_prefix =
     (if data = [] then Some (Ok (replicate HASH_LEN 0))
      else merkle_levels sha bs salt_prefix data)"

text \<open>The 256-byte descriptor; every range written lies inside it.\<close>

definition fsverity_descriptor :: "nat \<Rightarrow> bytes \<Rightarrow> nat \<Rightarrow> bytes \<Rightarrow> bytes" where
  "fsverity_descriptor block_log salt len root =
     (let desc = replicate 256 0;
          desc = desc[0 := 1, 1 := 1, 2 := byte_of block_log, 3 := byte_of (length salt)];
          desc = overwrite desc 8 (to_le 8 len);
          desc = overwrite desc 16 root;
          sl = min (length salt) 32
      in overwrite desc 80 (take sl salt))"

definition fsverity_digest_sha256 :: "hash_fn \<Rightarrow> bytes \<Rightarrow> nat \<Rightarrow> bytes \<Rightarrow> bytes result option" where
  "fsverity_digest_sha256 sha data block_log salt =
     (case block_size_of block_log of
        Ok bs \<Rightarrow>
          map_option (\<lambda>r. and_then r (\<lambda>root.
            Ok (sha (fsverity_descriptor block_log salt (length data) root))))
            (merkle_root sha data bs (padded_salt salt))
      | Err e \<Rightarrow> Some (Err e)
      | Panic p \<Rightarrow> Some (Panic p))"

record merkle_verifier =
  mv_block_size :: nat
  mv_salt_prefix :: bytes
  mv_leaves :: "bytes list"
  mv_measurement :: bytes

text \<open>
  The leaf loop of \<^verbatim>\<open>over\<close>: one digest per block, from offset \<open>i\<close> on. The block size is a power
  of two, so the second conjunct of the guard always holds.
\<close>

function leaves_from :: "hash_fn \<Rightarrow> bytes \<Rightarrow> nat \<Rightarrow> bytes \<Rightarrow> nat \<Rightarrow> bytes list result" where
  "leaves_from sha salt_prefix block_size data i =
     (if i < length data \<and> 0 < block_size then
        and_then (hash_block sha salt_prefix (slice data i (min (i + block_size) (length data))) block_size) (\<lambda>h.
        and_then (leaves_from sha salt_prefix block_size data (i + block_size)) (\<lambda>hs. Ok (h # hs)))
      else Ok [])"
  by pat_completeness auto
termination
  by (relation "measure (\<lambda>(sha, sp, bs, data, i). length data - i)") auto

declare leaves_from.simps [simp del]

definition merkle_over :: "hash_fn \<Rightarrow> bytes \<Rightarrow> nat \<Rightarrow> bytes \<Rightarrow> merkle_verifier result option" where
  "merkle_over sha data block_log salt =
     (case and_then (block_size_of block_log) (\<lambda>bs.
             and_then (leaves_from sha (padded_salt salt) bs data 0) (\<lambda>ls. Ok (bs, ls))) of
        Ok (bs, ls) \<Rightarrow>
          map_option (\<lambda>r. and_then r (\<lambda>m.
            Ok \<lparr>mv_block_size = bs, mv_salt_prefix = padded_salt salt, mv_leaves = ls, mv_measurement = m\<rparr>))
            (fsverity_digest_sha256 sha data block_log salt)
      | Err e \<Rightarrow> Some (Err e)
      | Panic p \<Rightarrow> Some (Panic p))"

definition verify_block :: "hash_fn \<Rightarrow> merkle_verifier \<Rightarrow> verifier" where
  "verify_block sha mv node offset data =
     (if offset mod mv_block_size mv \<noteq> 0 then Err (VerifyFailed ''unaligned verify offset'')
      else
        and_then (ok_or (get_at (mv_leaves mv) (offset div mv_block_size mv))
                   (VerifyFailed ''block past Merkle tree'')) (\<lambda>want.
        and_then (hash_block sha (mv_salt_prefix mv) data (mv_block_size mv)) (\<lambda>h.
          if h = want then Ok () else Err (VerifyFailed ''block hash mismatch''))))"


section \<open>Blocks and levels\<close>

text \<open>What is assumed of SHA-256: a digest has 32 bytes.\<close>

definition digest_fn :: "hash_fn \<Rightarrow> bool" where
  "digest_fn sha \<longleftrightarrow> (\<forall>x. length (sha x) = HASH_LEN)"

text \<open>
  The reference notions: the \<open>i\<close>-th block of a byte string, its zero padding, and one level of the
  tree as the concatenated digests of the padded blocks of the level below.
\<close>

definition chunk :: "bytes \<Rightarrow> nat \<Rightarrow> nat \<Rightarrow> bytes" where
  "chunk data bs i = slice data (i * bs) (min (i * bs + bs) (length data))"

definition pad_block :: "nat \<Rightarrow> bytes \<Rightarrow> bytes" where
  "pad_block bs block = block @ replicate (bs - length block) 0"

definition block_digest :: "hash_fn \<Rightarrow> bytes \<Rightarrow> nat \<Rightarrow> bytes \<Rightarrow> bytes" where
  "block_digest sha salt_prefix bs block = sha (salt_prefix @ pad_block bs block)"

definition level_up :: "hash_fn \<Rightarrow> nat \<Rightarrow> bytes \<Rightarrow> bytes \<Rightarrow> bytes" where
  "level_up sha bs salt_prefix level =
     concat (map (\<lambda>i. block_digest sha salt_prefix bs (chunk level bs i)) [0..<div_ceil (length level) bs])"

lemma pad_updates_eq: "pad_updates n = replicate n 0"
proof (induction n rule: pad_updates.induct)
  case (1 n)
  have split: "replicate n (0 :: byte) = replicate (min n k) 0 @ replicate (n - min n k) 0" for k
    by (simp add: replicate_add [symmetric])
  show ?case
    using 1 split [of SHA256_INPUT_BLOCK]
    by (subst pad_updates.simps) (auto simp: Let_def)
qed

lemma hash_block_eq:
  "hash_block sha salt_prefix block bs =
     (if length block \<le> bs then Ok (block_digest sha salt_prefix bs block) else Panic SubOverflow)"
  by (simp add: hash_block_def usub_def pad_updates_eq block_digest_def pad_block_def)

lemma length_chunk: "length (chunk data bs i) \<le> bs"
  by (simp add: chunk_def slice_def)

lemma length_pad_block: "length block \<le> bs \<Longrightarrow> length (pad_block bs block) = bs"
  by (simp add: pad_block_def)

lemma hash_chunk:
  "hash_block sha sp (slice data (i * bs) (min (i * bs + bs) (length data))) bs =
     Ok (block_digest sha sp bs (chunk data bs i))"
  using length_chunk [of data bs i] by (simp add: hash_block_eq chunk_def)

lemma level_digests_eq:
  "level_digests sha bs sp level =
     Ok (map (\<lambda>i. block_digest sha sp bs (chunk level bs i)) [0..<div_ceil (length level) bs])"
  unfolding level_digests_def by (rule map_result_Ok) (rule hash_chunk)

lemma merkle_levels_step:
  "merkle_levels sha bs sp level =
     (if div_ceil (length level) bs \<le> 1 then Some (hash_block sha sp level bs)
      else merkle_levels sha bs sp (level_up sha bs sp level))"
  by (subst merkle_levels.simps) (simp add: level_digests_eq level_up_def)

lemma length_level_up:
  assumes "digest_fn sha"
  shows "length (level_up sha bs sp level) = HASH_LEN * div_ceil (length level) bs"
  using assms by (simp add: level_up_def length_concat block_digest_def digest_fn_def comp_def
      sum_list_triv)

lemma one_block: "0 < bs \<Longrightarrow> div_ceil n bs \<le> 1 \<Longrightarrow> n \<le> bs"
  using div_ceil_mult_ge [of bs n] by (auto elim!: le_trans)

lemma level_up_shrinks:
  assumes len: "digest_fn sha" and bs: "64 \<le> bs" and many: "1 < div_ceil (length level) bs"
  shows "length (level_up sha bs sp level) < length level"
proof -
  let ?n = "div_ceil (length level) bs"
  from many have "(?n - 1) * bs < length level" by (intro div_ceil_mult_less) simp
  moreover have "(?n - 1) * 64 \<le> (?n - 1) * bs" using bs by simp
  ultimately have "(?n - 1) * 64 < length level" by linarith
  moreover have "HASH_LEN * ?n \<le> (?n - 1) * 64" using many by (simp add: HASH_LEN_def)
  ultimately show ?thesis by (simp add: length_level_up [OF len])
qed

text \<open>
  The loop returns, and the root is the digest of the first level that fits in one block.
\<close>

lemma merkle_levels_returns:
  assumes len: "digest_fn sha" and bs: "64 \<le> bs"
  shows "\<exists>k. merkle_levels sha bs sp level =
      Some (Ok (block_digest sha sp bs ((level_up sha bs sp ^^ k) level))) \<and>
    div_ceil (length ((level_up sha bs sp ^^ k) level)) bs \<le> 1 \<and>
    (\<forall>j < k. 1 < div_ceil (length ((level_up sha bs sp ^^ j) level)) bs)"
proof (induction "length level" arbitrary: level rule: less_induct)
  case less
  show ?case
  proof (cases "div_ceil (length level) bs \<le> 1")
    case True
    then have "length level \<le> bs" using bs by (simp add: one_block)
    with True show ?thesis
      by (intro exI [of _ 0]) (subst merkle_levels_step, simp add: hash_block_eq)
  next
    case False
    let ?up = "level_up sha bs sp level"
    from less [of ?up] obtain k where k:
      "merkle_levels sha bs sp ?up = Some (Ok (block_digest sha sp bs ((level_up sha bs sp ^^ k) ?up)))"
      "div_ceil (length ((level_up sha bs sp ^^ k) ?up)) bs \<le> 1"
      "\<forall>j < k. 1 < div_ceil (length ((level_up sha bs sp ^^ j) ?up)) bs"
      using level_up_shrinks [OF len bs] False by (metis not_le)
    have "1 < div_ceil (length ((level_up sha bs sp ^^ j) level)) bs" if "j < Suc k" for j
      using that False k(3) by (cases j) (simp_all add: funpow_Suc_right del: funpow.simps(2))
    then show ?thesis
      using False k(1,2) merkle_levels_step [of sha bs sp level]
      by (intro exI [of _ "Suc k"]) (simp add: funpow_Suc_right del: funpow.simps(2))
  qed
qed

text \<open>With blocks no larger than a digest, a level of several blocks never shrinks to one.\<close>

lemma level_up_grows:
  assumes len: "digest_fn sha" and bs: "0 < bs" "bs \<le> HASH_LEN"
    and many: "1 < div_ceil (length level) bs"
  shows "1 < div_ceil (length (level_up sha bs sp level)) bs"
proof (rule ccontr)
  assume "\<not> ?thesis"
  then have "length (level_up sha bs sp level) \<le> bs" using bs(1) by (simp only: one_block not_less)
  then have "HASH_LEN * div_ceil (length level) bs \<le> bs"
    by (simp only: length_level_up [OF len])
  then have "HASH_LEN * div_ceil (length level) bs \<le> HASH_LEN" using bs(2) by (rule order_trans)
  then have "div_ceil (length level) bs \<le> 1" by (simp add: HASH_LEN_def)
  with many show False by simp
qed

lemma merkle_levels_diverges:
  assumes len: "digest_fn sha" and bs: "0 < bs" "bs \<le> HASH_LEN"
    and many: "1 < div_ceil (length level) bs"
  shows "merkle_levels sha bs sp level = None"
proof -
  have "sha' = sha \<longrightarrow> bs' = bs \<longrightarrow> sp' = sp \<longrightarrow> \<not> 1 < div_ceil (length level) bs"
    if "merkle_levels sha' bs' sp' level = Some r" for r level sha' bs' sp'
  proof (rule merkle_levels.raw_induct [OF _ that], goal_cases)
    case (1 f sha' bs' sp' level r)
    show ?case
    proof (intro impI notI)
      assume eq: "sha' = sha" "bs' = bs" "sp' = sp" and many: "1 < div_ceil (length level) bs"
      with 1(2) have "f sha bs sp (level_up sha bs sp level) = Some r"
        by (simp add: level_digests_eq level_up_def)
      then have "\<not> 1 < div_ceil (length (level_up sha bs sp level)) bs"
        using 1(1) [of sha bs sp "level_up sha bs sp level" r] by simp
      with level_up_grows [OF len bs many] show False by simp
    qed
  qed
  with many show ?thesis by (cases "merkle_levels sha bs sp level") auto
qed


section \<open>The verifier over trusted content\<close>

lemma leaves_from_eq:
  assumes bs: "0 < bs"
  shows "leaves_from sha sp bs data (i * bs) =
     Ok (map (\<lambda>j. block_digest sha sp bs (chunk data bs j)) [i..<div_ceil (length data) bs])"
proof (induction "div_ceil (length data) bs - i" arbitrary: i)
  case 0
  then have "length data \<le> i * bs"
    using div_ceil_mult_ge [OF bs, of "length data"] mult_le_mono1 [of "div_ceil (length data) bs" i bs]
    by linarith
  with 0 show ?case by (simp add: leaves_from.simps [of _ _ _ _ "i * bs"])
next
  case (Suc n)
  then have i: "i < div_ceil (length data) bs" by simp
  then have "i * bs < length data" by (rule div_ceil_mult_less)
  moreover have "leaves_from sha sp bs data (i * bs + bs) =
      Ok (map (\<lambda>j. block_digest sha sp bs (chunk data bs j)) [Suc i..<div_ceil (length data) bs])"
    using Suc.hyps(1) [of "Suc i"] Suc.hyps(2) by (simp add: add.commute)
  ultimately show ?case
    using i bs by (subst leaves_from.simps) (simp add: hash_chunk upt_conv_Cons)
qed

lemma merkle_root_returns:
  assumes len: "digest_fn sha" and bs: "64 \<le> bs"
  shows "\<exists>d. merkle_root sha data bs sp = Some (Ok d) \<and> length d = HASH_LEN"
  using merkle_levels_returns [OF len bs, of sp data] len
  by (auto simp: merkle_root_def block_digest_def digest_fn_def)

lemma block_size_of_log: "6 \<le> l \<Longrightarrow> l < 64 \<Longrightarrow> block_size_of l = Ok (2 ^ l) \<and> 64 \<le> (2 :: nat) ^ l"
  using power_increasing [of 6 l "2 :: nat"] by (simp add: block_size_of_def)

lemma fsverity_digest_returns:
  assumes len: "digest_fn sha" and l: "6 \<le> l" "l < 64"
  shows "\<exists>d. fsverity_digest_sha256 sha data l salt = Some (Ok d) \<and> length d = HASH_LEN"
  using block_size_of_log [OF l] merkle_root_returns [OF len, of "2 ^ l" data "padded_salt salt"] len
  by (auto simp: fsverity_digest_sha256_def digest_fn_def)

definition leaf_count :: "bytes \<Rightarrow> nat \<Rightarrow> nat" where
  "leaf_count data bs = div_ceil (length data) bs"

lemma merkle_over_returns:
  assumes len: "digest_fn sha" and l: "6 \<le> l" "l < 64"
  shows "\<exists>m. merkle_over sha data l salt = Some (Ok
     \<lparr>mv_block_size = 2 ^ l, mv_salt_prefix = padded_salt salt,
      mv_leaves = map (\<lambda>i. block_digest sha (padded_salt salt) (2 ^ l) (chunk data (2 ^ l) i))
        [0..<leaf_count data (2 ^ l)],
      mv_measurement = m\<rparr>) \<and> fsverity_digest_sha256 sha data l salt = Some (Ok m)"
proof -
  from fsverity_digest_returns [OF len l] obtain m where
    m: "fsverity_digest_sha256 sha data l salt = Some (Ok m)" by blast
  have "leaves_from sha (padded_salt salt) (2 ^ l) data 0 =
      Ok (map (\<lambda>j. block_digest sha (padded_salt salt) (2 ^ l) (chunk data (2 ^ l) j))
        [0..<leaf_count data (2 ^ l)])"
    using leaves_from_eq [of "2 ^ l" sha "padded_salt salt" data 0] by (simp add: leaf_count_def)
  with m show ?thesis using block_size_of_log [OF l] by (simp add: merkle_over_def)
qed

text \<open>
  What the verifier over \<open>data\<close> accepts: an aligned offset inside the tree, and bytes whose padded
  block has the digest of the genuine block at that offset.
\<close>

lemma verify_block_eq_Ok:
  assumes mv: "mv_block_size mv = bs" "0 < bs"
    "mv_leaves mv = map (\<lambda>i. block_digest sha (mv_salt_prefix mv) bs (chunk data bs i)) [0..<leaf_count data bs]"
  shows "verify_block sha mv node off blk = Ok () \<longleftrightarrow>
     off mod bs = 0 \<and> off < length data \<and> length blk \<le> bs \<and>
     block_digest sha (mv_salt_prefix mv) bs blk = block_digest sha (mv_salt_prefix mv) bs (chunk data bs (off div bs))"
proof -
  have "off div bs < leaf_count data bs \<longleftrightarrow> off < length data" if "off mod bs = 0"
  proof
    assume "off div bs < leaf_count data bs"
    then have "off div bs * bs < length data" unfolding leaf_count_def by (rule div_ceil_mult_less)
    with that show "off < length data" using div_mult_mod_eq [of off bs] by simp
  next
    assume "off < length data"
    also have "\<dots> \<le> leaf_count data bs * bs" using mv(2) unfolding leaf_count_def by (rule div_ceil_mult_ge)
    finally show "off div bs < leaf_count data bs" by (simp add: less_mult_imp_div_less)
  qed
  with mv show ?thesis
    by (auto simp: verify_block_def and_then_eq_Ok ok_or_eq_Ok get_at_eq_Some hash_block_eq
        split: if_splits)
qed

section \<open>Properties\<close>

text \<open>A digest function for the witnesses: the first 32 bytes of its input.\<close>

definition toy_sha :: hash_fn where
  "toy_sha bs = take 32 (bs @ replicate 32 0)"

lemma digest_toy_sha: "digest_fn toy_sha"
  by (simp add: digest_fn_def toy_sha_def HASH_LEN_def min_def)

text \<open>
  C36. For a block size of 64 bytes or more the tree computation returns, without a panic, a
  32-byte root: the digest of the first level that fits in one block, where each level is the
  concatenation of the digests of the zero-padded, salt-prefixed blocks of the level below.
\<close>

theorem merkle_root_correct:
  assumes "digest_fn sha" and "64 \<le> bs" and "data \<noteq> []"
  shows "\<exists>k. let top = (level_up sha bs salt_prefix ^^ k) data in
     merkle_root sha data bs salt_prefix = Some (Ok (block_digest sha salt_prefix bs top)) \<and>
     length (block_digest sha salt_prefix bs top) = 32 \<and> length top \<le> bs \<and>
     (\<forall>j < k. bs < length ((level_up sha bs salt_prefix ^^ j) data))"
proof -
  have pos: "0 < bs" using assms(2) by simp
  have many: "bs < n" if "1 < div_ceil n bs" for n
    using div_ceil_mult_less [OF that] by simp
  from merkle_levels_returns [OF assms(1,2), of salt_prefix data] obtain k where
    "merkle_levels sha bs salt_prefix data =
       Some (Ok (block_digest sha salt_prefix bs ((level_up sha bs salt_prefix ^^ k) data)))"
    "div_ceil (length ((level_up sha bs salt_prefix ^^ k) data)) bs \<le> 1"
    "\<forall>j < k. 1 < div_ceil (length ((level_up sha bs salt_prefix ^^ j) data)) bs" by blast
  then show ?thesis
    using assms(1,3) many one_block [OF pos]
    by (intro exI [of _ k])
      (simp add: merkle_root_def Let_def digest_fn_def block_digest_def HASH_LEN_def)
qed

theorem merkle_root_correct_witness:
  "\<exists>k. merkle_root toy_sha (replicate 200 1) 64 [] =
     Some (Ok (block_digest toy_sha [] 64 ((level_up toy_sha 64 [] ^^ k) (replicate 200 1))))"
  using merkle_root_correct [OF digest_toy_sha, of 64 "replicate 200 1" "[]"]
  by (auto simp: Let_def)

text \<open>
  C37. With a block no larger than a digest (a block exponent of 5 or less), the computation of the
  measurement never returns once the file has more than one block.
\<close>

theorem fsverity_digest_diverges:
  assumes "digest_fn sha" and "block_log \<le> 5" and "2 ^ block_log < length data"
  shows "fsverity_digest_sha256 sha data block_log salt = None"
proof -
  have "(2 :: nat) ^ block_log \<le> 2 ^ 5" using assms(2) by (intro power_increasing) simp_all
  then have bs: "0 < (2 :: nat) ^ block_log" "(2 :: nat) ^ block_log \<le> HASH_LEN"
    by (simp_all add: HASH_LEN_def)
  have "1 < div_ceil (length data) (2 ^ block_log)"
    using one_block [OF bs(1), of "length data"] assms(3) by linarith
  from merkle_levels_diverges [OF assms(1) bs this] assms(2,3) show ?thesis
    by (auto simp: fsverity_digest_sha256_def block_size_of_def merkle_root_def)
qed

theorem fsverity_digest_diverges_witness:
  "fsverity_digest_sha256 toy_sha (replicate 40 0) 5 [] = None"
  using fsverity_digest_diverges [OF digest_toy_sha, of 5 "replicate 40 0" "[]"] by simp

text \<open>
  C4. The verifier built over trusted content (a block exponent from 6 to 63) accepts a block at
  an offset exactly when the offset is a multiple of the block size inside the content, the block
  is no longer than that size, and its padded, salted digest is that of the genuine block there.
\<close>

theorem merkle_verifier_exact:
  assumes "digest_fn sha" and "6 \<le> block_log" and "block_log < 64"
  shows "\<exists>mv. merkle_over sha data block_log salt = Some (Ok mv) \<and>
     fsverity_digest_sha256 sha data block_log salt = Some (Ok (mv_measurement mv)) \<and>
     (\<forall>node off blk. verify_block sha mv node off blk = Ok () \<longleftrightarrow>
        off mod 2 ^ block_log = 0 \<and> off < length data \<and> length blk \<le> 2 ^ block_log \<and>
        block_digest sha (padded_salt salt) (2 ^ block_log) blk =
        block_digest sha (padded_salt salt) (2 ^ block_log) (chunk data (2 ^ block_log) (off div 2 ^ block_log)))"
proof -
  from merkle_over_returns [OF assms] obtain m where m: "merkle_over sha data block_log salt = Some (Ok
     \<lparr>mv_block_size = 2 ^ block_log, mv_salt_prefix = padded_salt salt,
      mv_leaves = map (\<lambda>i. block_digest sha (padded_salt salt) (2 ^ block_log) (chunk data (2 ^ block_log) i))
        [0..<leaf_count data (2 ^ block_log)], mv_measurement = m\<rparr>)"
    "fsverity_digest_sha256 sha data block_log salt = Some (Ok m)" by blast
  then show ?thesis by (simp add: verify_block_eq_Ok [where data = data])
qed

theorem merkle_verifier_exact_witness:
  "\<exists>mv. merkle_over toy_sha (replicate 100 7) 6 [] = Some (Ok mv) \<and>
     verify_block toy_sha mv 0 64 (replicate 36 7) = Ok () \<and>
     verify_block toy_sha mv 0 64 (5 # replicate 35 7) \<noteq> Ok () \<and> verify_block toy_sha mv 0 128 [] \<noteq> Ok ()"
proof -
  have genuine: "block_digest toy_sha [] 64 (chunk (replicate 100 7) 64 1) = replicate 32 7"
    by (simp add: chunk_def slice_def block_digest_def toy_sha_def pad_block_def)
  have same: "block_digest toy_sha [] 64 (replicate 36 7) = replicate 32 7"
    by (simp add: block_digest_def toy_sha_def pad_block_def)
  have "hd (block_digest toy_sha [] 64 (5 # replicate 35 7)) = 5"
    by (simp add: block_digest_def toy_sha_def pad_block_def take_Cons')
  then have other: "block_digest toy_sha [] 64 (5 # replicate 35 7) \<noteq> replicate 32 7"
    by (auto dest: arg_cong [of _ _ hd])
  show ?thesis
    using merkle_verifier_exact [OF digest_toy_sha, of 6 "replicate 100 7" "[]"] genuine same other
    by (auto simp: padded_salt_def)
qed

end
