(* ===== verification/Btree_Map.thy ===== *)
theory Btree_Map
  imports Fold_Prelude "HOL-Library.List_Lexorder" "HOL-Library.Product_Lexorder"
begin

text \<open>
  \<^verbatim>\<open>alloc::collections::BTreeMap\<close> as the list of its entries in key order, which is the order its
  iterators yield. \<open>btree_map\<close> is the interface the frontends and the cache rely on: what a lookup
  returns after an insertion or a removal, and that the entries stay sorted.
\<close>

type_synonym ('k, 'v) btree = "('k \<times> 'v) list"

definition bm_get :: "('k, 'v) btree \<Rightarrow> 'k \<Rightarrow> 'v option" where
  "bm_get m k = map_of m k"

fun bm_insert :: "'k :: linorder \<Rightarrow> 'v \<Rightarrow> ('k, 'v) btree \<Rightarrow> ('k, 'v) btree" where
  "bm_insert k v [] = [(k, v)]"
| "bm_insert k v ((k', v') # m) =
     (if k < k' then (k, v) # (k', v') # m
      else if k = k' then (k, v) # m
      else (k', v') # bm_insert k v m)"

definition bm_remove :: "'k \<Rightarrow> ('k, 'v) btree \<Rightarrow> ('k, 'v) btree" where
  "bm_remove k m = filter (\<lambda>e. fst e \<noteq> k) m"

definition bm_ok :: "('k :: linorder, 'v) btree \<Rightarrow> bool" where
  "bm_ok m \<longleftrightarrow> sorted_wrt (<) (map fst m)"

locale btree_map =
  fixes get :: "'m \<Rightarrow> 'k \<Rightarrow> 'v option"
    and ins :: "'k \<Rightarrow> 'v \<Rightarrow> 'm \<Rightarrow> 'm"
    and rem :: "'k \<Rightarrow> 'm \<Rightarrow> 'm"
    and wf :: "'m \<Rightarrow> bool"
  assumes get_ins: "wf m \<Longrightarrow> get (ins k v m) = (get m)(k \<mapsto> v)"
    and get_rem: "wf m \<Longrightarrow> get (rem k m) = (get m)(k := None)"
    and wf_ins: "wf m \<Longrightarrow> wf (ins k v m)"
    and wf_rem: "wf m \<Longrightarrow> wf (rem k m)"
begin

lemma get_ins_same: "wf m \<Longrightarrow> get (ins k v m) k = Some v"
  by (simp add: get_ins)

lemma get_ins_other: "wf m \<Longrightarrow> k' \<noteq> k \<Longrightarrow> get (ins k v m) k' = get m k'"
  by (simp add: get_ins)

text \<open>Interning: keep the first value stored under a key.\<close>

lemma intern_keeps:
  assumes "wf m" and "get m k = Some v"
  shows "get (if get m k' = None then ins k' v' m else m) k = Some v"
  using assms by (cases "k' = k") (auto simp: get_ins)

end

lemma keys_bm_insert: "fst ` set (bm_insert k v m) = insert k (fst ` set m)"
proof (induction m)
  case (Cons e m)
  then show ?case by (cases e) (simp add: insert_commute)
qed simp

lemma bm_ok_insert: "bm_ok m \<Longrightarrow> bm_ok (bm_insert k v m)"
proof (induction m)
  case (Cons e m)
  obtain k' v' where e: "e = (k', v')" by fastforce
  show ?case
  proof (cases "k' < k")
    case True
    have "bm_ok (bm_insert k v m)" using Cons by (simp add: bm_ok_def)
    moreover have "\<forall>x \<in> fst ` set (bm_insert k v m). k' < x"
      using Cons.prems True e by (auto simp: keys_bm_insert bm_ok_def)
    ultimately show ?thesis using True e by (auto simp: bm_ok_def)
  next
    case False
    then show ?thesis using Cons.prems e by (auto simp: bm_ok_def)
  qed
qed (simp add: bm_ok_def)

lemma bm_get_insert: "bm_get (bm_insert k v m) = (bm_get m)(k \<mapsto> v)"
proof
  fix k'
  show "bm_get (bm_insert k v m) k' = ((bm_get m)(k \<mapsto> v)) k'"
    by (induction m) (auto simp: bm_get_def)
qed

lemma bm_get_remove: "bm_get (bm_remove k m) = (bm_get m)(k := None)"
proof
  fix k'
  show "bm_get (bm_remove k m) k' = ((bm_get m)(k := None)) k'"
    by (induction m) (auto simp: bm_get_def bm_remove_def)
qed

lemma bm_ok_remove: "bm_ok m \<Longrightarrow> bm_ok (bm_remove k m)"
  by (induction m) (auto simp: bm_ok_def bm_remove_def)

interpretation bm: btree_map bm_get bm_insert bm_remove bm_ok
  by unfold_locales (simp_all add: bm_get_insert bm_get_remove bm_ok_insert bm_ok_remove)

lemma bm_ok_Nil [simp]: "bm_ok []"
  by (simp add: bm_ok_def)

lemma bm_get_Nil [simp]: "bm_get [] k = None"
  by (simp add: bm_get_def)

lemma bm_ok_distinct: "bm_ok m \<Longrightarrow> distinct (map fst m)"
  by (simp add: bm_ok_def strict_sorted_iff)

lemma bm_get_mem: "bm_ok m \<Longrightarrow> bm_get m k = Some v \<longleftrightarrow> (k, v) \<in> set m"
  by (simp add: bm_get_def bm_ok_distinct map_of_eq_Some_iff)

lemma bm_remove_absent: "bm_get m k = None \<Longrightarrow> bm_remove k m = m"
  by (auto simp: bm_get_def bm_remove_def map_of_eq_None_iff intro!: filter_True)

lemma set_bm_insert_eq:
  "bm_ok m \<Longrightarrow> set (bm_insert k v m) = insert (k, v) (set (bm_remove k m))"
proof (induction m)
  case (Cons e m)
  obtain k' v' where e: "e = (k', v')" by fastforce
  have IH: "set (bm_insert k v m) = insert (k, v) (set (bm_remove k m))"
    using Cons by (simp add: bm_ok_def)
  have lt: "\<forall>x \<in> set m. k' < fst x" using Cons.prems e by (auto simp: bm_ok_def)
  have absent: "bm_remove k m = m" if "k \<le> k'"
    using lt that by (auto simp: bm_remove_def intro!: filter_True)
  show ?case
  proof (cases "k \<le> k'")
    case True
    have "k' \<notin> fst ` set m" using lt by auto
    with absent [OF True] True e show ?thesis by (auto simp: bm_remove_def image_iff)
  next
    case False
    with IH e show ?thesis by (auto simp: bm_remove_def)
  qed
qed (simp add: bm_remove_def)

end
