(* ===== verification/Block_Cache.thy ===== *)
theory Block_Cache
  imports Btree_Map "HOL-Library.Multiset"
begin

text \<open>
  The decompressed-block cache (\<^verbatim>\<open>crates/lamfold/src/cache.rs\<close>). The state is the source's
  struct: the entries in key order, the wrapping 64-bit clock, the capacity and the retained
  bytes. \<open>cache_ok\<close> is the invariant: \<open>bc_cur\<close> is the sum of the retained lengths and never
  passes the capacity. The second half shows that the cache refines the textbook LRU list
  \<open>lru_get\<close>/\<open>lru_insert\<close>, in which the entries stand in order of their last use, as long as the
  clock has not wrapped.
\<close>

record cache_entry =
  ce_data :: bytes
  ce_last :: "64 word"

record block_cache =
  bc_entries :: "(nat, cache_entry) btree"
  bc_tick :: "64 word"
  bc_cap :: nat
  bc_cur :: nat

definition cache_new :: "nat \<Rightarrow> block_cache" where
  "cache_new cap_bytes = \<lparr>bc_entries = [], bc_tick = 0, bc_cap = cap_bytes, bc_cur = 0\<rparr>"

definition cache_get :: "nat \<Rightarrow> block_cache \<Rightarrow> bytes option \<times> block_cache" where
  "cache_get key c =
     (let tick = bc_tick c + 1; c1 = c\<lparr>bc_tick := tick\<rparr> in
      case bm_get (bc_entries c1) key of
        None \<Rightarrow> (None, c1)
      | Some e \<Rightarrow>
          (Some (ce_data e),
           c1\<lparr>bc_entries := bm_insert key (e\<lparr>ce_last := tick\<rparr>) (bc_entries c1)\<rparr>))"

text \<open>\<^verbatim>\<open>iter().min_by_key\<close>: the first entry with the smallest \<^verbatim>\<open>last\<close>.\<close>

fun min_by_last :: "(nat, cache_entry) btree \<Rightarrow> (nat \<times> cache_entry) option" where
  "min_by_last [] = None"
| "min_by_last (x # xs) =
     (case min_by_last xs of
        None \<Rightarrow> Some x
      | Some y \<Rightarrow> if ce_last (snd y) < ce_last (snd x) then Some y else Some x)"

definition evict_one :: "block_cache \<Rightarrow> nat option \<times> block_cache" where
  "evict_one c =
     (case min_by_last (bc_entries c) of
        None \<Rightarrow> (None, c)
      | Some (victim, _) \<Rightarrow>
          (map_option (\<lambda>e. length (ce_data e)) (bm_get (bc_entries c) victim),
           c\<lparr>bc_entries := bm_remove victim (bc_entries c)\<rparr>))"

lemma min_by_last_mem: "min_by_last xs = Some x \<Longrightarrow> x \<in> set xs"
  by (induction xs arbitrary: x) (auto split: option.splits if_splits)

lemma min_by_last_None: "min_by_last xs = None \<longleftrightarrow> xs = []"
  by (cases xs) (auto split: option.splits)

lemma min_by_last_least:
  "min_by_last xs = Some x \<Longrightarrow> y \<in> set xs \<Longrightarrow> ce_last (snd x) \<le> ce_last (snd y)"
proof (induction xs arbitrary: x)
  case (Cons a xs)
  show ?case
  proof (cases "min_by_last xs")
    case None
    with Cons.prems show ?thesis by (auto simp: min_by_last_None)
  next
    case (Some z)
    with Cons.IH [OF Some] Cons.prems show ?thesis by (auto split: if_splits)
  qed
qed simp

lemma evict_one_shrinks:
  assumes "evict_one c = (Some n, c')"
  shows "length (bc_entries c') < length (bc_entries c)"
proof -
  from assms obtain k e where ke: "min_by_last (bc_entries c) = Some (k, e)"
    and c': "c' = c\<lparr>bc_entries := bm_remove k (bc_entries c)\<rparr>"
    by (auto simp: evict_one_def split: option.splits)
  have "(k, e) \<in> set (bc_entries c)" using ke by (rule min_by_last_mem)
  then have "length (filter (\<lambda>x. fst x \<noteq> k) (bc_entries c)) < length (bc_entries c)"
    by (intro length_filter_less [of "(k, e)"]) auto
  then show ?thesis by (simp add: c' bm_remove_def)
qed

text \<open>The loop of \<^verbatim>\<open>insert\<close> that evicts until \<open>n\<close> more bytes fit.\<close>

function evict_until_fits :: "nat \<Rightarrow> block_cache \<Rightarrow> block_cache result" where
  "evict_until_fits n c =
     (if bc_cur c + n > bc_cap c then
        (case evict_one c of
           (Some freed, c1) \<Rightarrow>
             and_then (usub (bc_cur c1) freed) (\<lambda>cur. evict_until_fits n (c1\<lparr>bc_cur := cur\<rparr>))
         | (None, c1) \<Rightarrow> Ok c1)
      else Ok c)"
  by pat_completeness auto
termination
proof (relation "measure (\<lambda>(n, c). length (bc_entries c))", goal_cases)
  case (2 n c x c1 freed cur)
  then have "evict_one c = (Some freed, c1)" by simp
  then show ?case using evict_one_shrinks by simp
qed simp

declare evict_until_fits.simps [simp del]

definition cache_insert :: "nat \<Rightarrow> bytes \<Rightarrow> block_cache \<Rightarrow> block_cache result" where
  "cache_insert key data c =
     (if bc_cap c = 0 \<or> length data > bc_cap c then Ok c
      else
        and_then
          (case bm_get (bc_entries c) key of
             None \<Rightarrow> Ok c
           | Some old \<Rightarrow>
               and_then (usub (bc_cur c) (length (ce_data old))) (\<lambda>cur.
                 Ok (c\<lparr>bc_entries := bm_remove key (bc_entries c), bc_cur := cur\<rparr>))) (\<lambda>c1.
        and_then (evict_until_fits (length data) c1) (\<lambda>c2.
          let tick = bc_tick c2 + 1 in
          Ok (c2\<lparr>bc_tick := tick, bc_cur := bc_cur c2 + length data,
                 bc_entries := bm_insert key \<lparr>ce_data = data, ce_last = tick\<rparr> (bc_entries c2)\<rparr>))))"

definition cache_len_bytes :: "block_cache \<Rightarrow> nat" where
  "cache_len_bytes c = bc_cur c"


section \<open>The invariant\<close>

definition entries_bytes :: "(nat, cache_entry) btree \<Rightarrow> nat" where
  "entries_bytes m = sum_list (map (\<lambda>e. length (ce_data (snd e))) m)"

definition cache_ok :: "block_cache \<Rightarrow> bool" where
  "cache_ok c \<longleftrightarrow>
     bm_ok (bc_entries c) \<and> bc_cur c = entries_bytes (bc_entries c) \<and> bc_cur c \<le> bc_cap c"

lemma entries_bytes_remove:
  assumes "bm_ok m" and "(k, e) \<in> set m"
  shows "entries_bytes m = length (ce_data e) + entries_bytes (bm_remove k m)"
  using assms
proof (induction m)
  case (Cons x m)
  show ?case
  proof (cases "x = (k, e)")
    case True
    with Cons.prems(1) have "bm_remove k m = m"
      by (auto simp: bm_ok_def bm_remove_def intro!: filter_True)
    with True show ?thesis by (simp add: entries_bytes_def bm_remove_def)
  next
    case False
    with Cons have m: "bm_ok m" "(k, e) \<in> set m" by (auto simp: bm_ok_def)
    then have "fst x \<noteq> k" using Cons.prems(1) by (auto simp: bm_ok_def)
    with Cons.IH [OF m] show ?thesis by (simp add: entries_bytes_def bm_remove_def)
  qed
qed simp

lemma entries_bytes_insert:
  assumes "bm_ok m" and "bm_get m k = None"
  shows "entries_bytes (bm_insert k e m) = length (ce_data e) + entries_bytes m"
  using assms
proof (induction m)
  case (Cons x m)
  obtain k' e' where x: "x = (k', e')" by fastforce
  with Cons.prems have "k' \<noteq> k" "bm_get m k = None" "bm_ok m"
    by (auto simp: bm_get_def bm_ok_def split: if_splits)
  with Cons.IH x show ?case by (auto simp: entries_bytes_def)
qed (simp add: entries_bytes_def)

lemma entries_bytes_touch:
  assumes "bm_ok m" and "bm_get m k = Some e"
  shows "entries_bytes (bm_insert k (e\<lparr>ce_last := t\<rparr>) m) = entries_bytes m"
  using assms
proof (induction m)
  case (Cons x m)
  obtain k' e' where x: "x = (k', e')" by fastforce
  show ?case
  proof (cases "k' = k")
    case True
    with x Cons.prems(2) show ?thesis by (simp add: bm_get_def entries_bytes_def)
  next
    case False
    with x Cons.prems have m: "bm_get m k = Some e" "bm_ok m"
      by (auto simp: bm_get_def bm_ok_def)
    then have "(k, e) \<in> set m" by (simp add: bm_get_mem)
    with Cons.prems(1) x have "k' < k" by (auto simp: bm_ok_def)
    with Cons.IH [OF m(2,1)] x False show ?thesis by (auto simp: entries_bytes_def)
  qed
qed (simp add: bm_get_def)

lemma cache_new_ok: "cache_ok (cache_new n)"
  by (simp add: cache_ok_def cache_new_def entries_bytes_def)

lemma cache_get_ok: "cache_ok c \<Longrightarrow> cache_ok (snd (cache_get k c))"
  by (auto simp: cache_ok_def cache_get_def Let_def bm.wf_ins entries_bytes_touch split: option.splits)

text \<open>Evicting one entry takes the smallest \<^verbatim>\<open>last\<close> and returns the bytes it held.\<close>

lemma evict_one_spec:
  assumes ok: "bm_ok (bc_entries c)" and ne: "bc_entries c \<noteq> []"
  obtains k e where "(k, e) \<in> set (bc_entries c)"
    and "\<forall>x \<in> set (bc_entries c). ce_last e \<le> ce_last (snd x)"
    and "evict_one c = (Some (length (ce_data e)), c\<lparr>bc_entries := bm_remove k (bc_entries c)\<rparr>)"
proof -
  from ne obtain k e where ke: "min_by_last (bc_entries c) = Some (k, e)"
    by (metis min_by_last_None not_None_eq surj_pair)
  have mem: "(k, e) \<in> set (bc_entries c)" using ke by (rule min_by_last_mem)
  moreover have "\<forall>x \<in> set (bc_entries c). ce_last e \<le> ce_last (snd x)"
    using min_by_last_least [OF ke] by simp
  moreover have "evict_one c = (Some (length (ce_data e)), c\<lparr>bc_entries := bm_remove k (bc_entries c)\<rparr>)"
    using ke mem ok by (simp add: evict_one_def bm_get_mem [THEN iffD2])
  ultimately show ?thesis by (rule that)
qed

lemma evict_until_fits_spec:
  assumes "bm_ok (bc_entries c)" and "bc_cur c = entries_bytes (bc_entries c)" and "n \<le> bc_cap c"
  shows "\<exists>c'. evict_until_fits n c = Ok c' \<and> bm_ok (bc_entries c') \<and>
     bc_cur c' = entries_bytes (bc_entries c') \<and> bc_cur c' + n \<le> bc_cap c \<and>
     bc_cap c' = bc_cap c \<and> bc_tick c' = bc_tick c \<and> set (bc_entries c') \<subseteq> set (bc_entries c)"
  using assms
proof (induction n c rule: evict_until_fits.induct)
  case (1 n c)
  show ?case
  proof (cases "bc_cur c + n > bc_cap c")
    case False
    with "1.prems" show ?thesis by (simp add: evict_until_fits.simps [of n c])
  next
    case True
    with "1.prems" have ne: "bc_entries c \<noteq> []" by (auto simp: entries_bytes_def)
    from "1.prems"(1) ne obtain k e where mem: "(k, e) \<in> set (bc_entries c)"
      and "\<forall>x \<in> set (bc_entries c). ce_last e \<le> ce_last (snd x)"
      and ev: "evict_one c = (Some (length (ce_data e)), c\<lparr>bc_entries := bm_remove k (bc_entries c)\<rparr>)"
      by (rule evict_one_spec)
    let ?c1 = "c\<lparr>bc_entries := bm_remove k (bc_entries c)\<rparr>"
    let ?cur = "bc_cur c - length (ce_data e)"
    have sz: "bc_cur c = length (ce_data e) + entries_bytes (bm_remove k (bc_entries c))"
      using entries_bytes_remove [OF "1.prems"(1) mem] "1.prems"(2) by simp
    then have us: "usub (bc_cur ?c1) (length (ce_data e)) = Ok ?cur" by (simp add: usub_def)
    have cur: "?cur = entries_bytes (bm_remove k (bc_entries c))" using sz by simp
    have "\<exists>c'. evict_until_fits n (?c1\<lparr>bc_cur := ?cur\<rparr>) = Ok c' \<and> bm_ok (bc_entries c') \<and>
       bc_cur c' = entries_bytes (bc_entries c') \<and> bc_cur c' + n \<le> bc_cap c \<and>
       bc_cap c' = bc_cap c \<and> bc_tick c' = bc_tick c \<and> set (bc_entries c') \<subseteq> set (bc_entries ?c1)"
      using "1.IH" [OF True ev [symmetric] refl us] "1.prems"(1,3) cur
      by (simp add: bm.wf_rem del: diff_is_0_eq)
    then show ?thesis
      using True ev us by (auto simp: evict_until_fits.simps [of n c] bm_remove_def)
  qed
qed

lemma cache_ok_drop_key:
  assumes "cache_ok c" and "bm_get (bc_entries c) k = Some e"
  shows "length (ce_data e) \<le> bc_cur c"
    and "bc_cur c - length (ce_data e) = entries_bytes (bm_remove k (bc_entries c))"
  using entries_bytes_remove [of "bc_entries c" k e] assms by (auto simp: cache_ok_def bm_get_mem)

text \<open>The cache with the key taken out, as \<^verbatim>\<open>insert\<close> prepares it.\<close>

definition without_key :: "nat \<Rightarrow> block_cache \<Rightarrow> block_cache" where
  "without_key k c = c\<lparr>bc_entries := bm_remove k (bc_entries c),
     bc_cur := entries_bytes (bm_remove k (bc_entries c))\<rparr>"

lemma cache_insert_unfold:
  assumes ok: "cache_ok c" and fits: "bc_cap c \<noteq> 0" "length data \<le> bc_cap c"
  obtains c2 where "evict_until_fits (length data) (without_key k c) = Ok c2"
    and "cache_insert k data c = Ok (c2\<lparr>bc_tick := bc_tick c + 1, bc_cur := bc_cur c2 + length data,
      bc_entries := bm_insert k \<lparr>ce_data = data, ce_last = bc_tick c + 1\<rparr> (bc_entries c2)\<rparr>)"
    and "bm_ok (bc_entries c2)" "bc_cur c2 = entries_bytes (bc_entries c2)"
    and "bc_cur c2 + length data \<le> bc_cap c" "bc_cap c2 = bc_cap c"
    and "set (bc_entries c2) \<subseteq> set (bm_remove k (bc_entries c))"
proof -
  let ?w = "without_key k c"
  have okw: "bm_ok (bc_entries ?w)" "bc_cur ?w = entries_bytes (bc_entries ?w)"
    "length data \<le> bc_cap ?w"
    using ok fits by (simp_all add: without_key_def cache_ok_def bm.wf_rem)
  obtain c2 where c2: "evict_until_fits (length data) ?w = Ok c2" "bm_ok (bc_entries c2)"
    "bc_cur c2 = entries_bytes (bc_entries c2)" "bc_cur c2 + length data \<le> bc_cap ?w"
    "bc_cap c2 = bc_cap ?w" "bc_tick c2 = bc_tick ?w" "set (bc_entries c2) \<subseteq> set (bc_entries ?w)"
    using evict_until_fits_spec [OF okw] by blast
  have prep: "(case bm_get (bc_entries c) k of
             None \<Rightarrow> Ok c
           | Some old \<Rightarrow>
               and_then (usub (bc_cur c) (length (ce_data old))) (\<lambda>cur.
                 Ok (c\<lparr>bc_entries := bm_remove k (bc_entries c), bc_cur := cur\<rparr>))) = Ok ?w"
    using ok cache_ok_drop_key [OF ok]
    by (auto simp: without_key_def usub_def cache_ok_def bm_remove_absent split: option.splits)
  show ?thesis
    using c2 fits prep by (intro that [of c2]) (simp_all add: cache_insert_def without_key_def Let_def)
qed

lemma key_absent_after_evict:
  "set m' \<subseteq> set (bm_remove k m) \<Longrightarrow> bm_get m' k = None"
  by (auto simp: bm_get_def bm_remove_def map_of_eq_None_iff)

lemma cache_insert_ok:
  assumes "cache_ok c"
  shows "\<exists>c'. cache_insert k data c = Ok c' \<and> cache_ok c' \<and> bc_cap c' = bc_cap c"
proof (cases "bc_cap c = 0 \<or> length data > bc_cap c")
  case True
  with assms show ?thesis by (simp add: cache_insert_def)
next
  case False
  then have "bc_cap c \<noteq> 0" "length data \<le> bc_cap c" by simp_all
  with assms obtain c2 where c2: "evict_until_fits (length data) (without_key k c) = Ok c2"
    "cache_insert k data c = Ok (c2\<lparr>bc_tick := bc_tick c + 1, bc_cur := bc_cur c2 + length data,
      bc_entries := bm_insert k \<lparr>ce_data = data, ce_last = bc_tick c + 1\<rparr> (bc_entries c2)\<rparr>)"
    "bm_ok (bc_entries c2)" "bc_cur c2 = entries_bytes (bc_entries c2)"
    "bc_cur c2 + length data \<le> bc_cap c" "bc_cap c2 = bc_cap c"
    "set (bc_entries c2) \<subseteq> set (bm_remove k (bc_entries c))"
    by (rule cache_insert_unfold)
  then show ?thesis
    by (auto simp: cache_ok_def bm.wf_ins entries_bytes_insert key_absent_after_evict)
qed


section \<open>The abstract LRU list\<close>

text \<open>The blocks in order of their last use, the most recent first.\<close>

type_synonym lru = "(nat \<times> bytes) list"

definition lru_bytes :: "lru \<Rightarrow> nat" where
  "lru_bytes L = sum_list (map (\<lambda>x. length (snd x)) L)"

definition lru_get :: "nat \<Rightarrow> lru \<Rightarrow> bytes option \<times> lru" where
  "lru_get k L =
     (case map_of L k of
        None \<Rightarrow> (None, L)
      | Some d \<Rightarrow> (Some d, (k, d) # filter (\<lambda>x. fst x \<noteq> k) L))"

text \<open>Drop the least recently used blocks until at most \<open>m\<close> bytes are left.\<close>

function lru_trim :: "nat \<Rightarrow> lru \<Rightarrow> lru" where
  "lru_trim m L = (if L \<noteq> [] \<and> m < lru_bytes L then lru_trim m (butlast L) else L)"
  by pat_completeness auto
termination
  by (relation "measure (\<lambda>(m, L). length L)") auto

declare lru_trim.simps [simp del]

definition lru_insert :: "nat \<Rightarrow> nat \<Rightarrow> bytes \<Rightarrow> lru \<Rightarrow> lru" where
  "lru_insert cap k d L =
     (if cap = 0 \<or> length d > cap then L
      else (k, d) # lru_trim (cap - length d) (filter (\<lambda>x. fst x \<noteq> k) L))"

datatype cache_op = CGet nat | CInsert nat bytes

fun lru_run :: "nat \<Rightarrow> cache_op list \<Rightarrow> lru \<Rightarrow> bytes option list" where
  "lru_run cap [] L = []"
| "lru_run cap (CGet k # ops) L = fst (lru_get k L) # lru_run cap ops (snd (lru_get k L))"
| "lru_run cap (CInsert k d # ops) L = lru_run cap ops (lru_insert cap k d L)"

text \<open>The answers of the \<^verbatim>\<open>get\<close> calls in a sequence of calls on the cache.\<close>

fun cache_run :: "cache_op list \<Rightarrow> block_cache \<Rightarrow> bytes option list result" where
  "cache_run [] c = Ok []"
| "cache_run (CGet k # ops) c =
     (case cache_get k c of (r, c') \<Rightarrow> and_then (cache_run ops c') (\<lambda>rs. Ok (r # rs)))"
| "cache_run (CInsert k d # ops) c = and_then (cache_insert k d c) (cache_run ops)"

text \<open>\<open>es\<close> lists the entries \<open>m\<close> by descending clock value.\<close>

definition recency :: "(nat, cache_entry) btree \<Rightarrow> (nat \<times> cache_entry) list \<Rightarrow> bool" where
  "recency m es \<longleftrightarrow> mset es = mset m \<and>
     sorted_wrt (\<lambda>x y. ce_last (snd y) < ce_last (snd x)) es"

definition payload :: "(nat \<times> cache_entry) list \<Rightarrow> lru" where
  "payload es = map (\<lambda>x. (fst x, ce_data (snd x))) es"

definition cache_refines :: "block_cache \<Rightarrow> lru \<Rightarrow> bool" where
  "cache_refines c L \<longleftrightarrow> cache_ok c \<and>
     (\<exists>es. recency (bc_entries c) es \<and> (\<forall>x \<in> set es. ce_last (snd x) \<le> bc_tick c) \<and> L = payload es)"

lemma cache_refinesI:
  assumes "cache_ok c" and "recency (bc_entries c) es" and "payload es = L"
    and "\<forall>x \<in> set es. ce_last (snd x) \<le> bc_tick c"
  shows "cache_refines c L"
  using assms by (auto simp: cache_refines_def)

lemma recency_set: "recency m es \<Longrightarrow> set es = set m"
  by (auto simp: recency_def dest: mset_eq_setD)

lemma recency_distinct: "recency m es \<Longrightarrow> bm_ok m \<Longrightarrow> distinct (map fst es)"
  unfolding recency_def by (metis bm_ok_distinct mset_eq_imp_distinct_iff mset_map)

lemma recency_remove: "recency m es \<Longrightarrow> recency (bm_remove k m) (filter (\<lambda>x. fst x \<noteq> k) es)"
  by (simp add: recency_def bm_remove_def sorted_wrt_filter)

lemma mset_bm_insert: "bm_ok m \<Longrightarrow> mset (bm_insert k v m) = add_mset (k, v) (mset (bm_remove k m))"
proof (induction m)
  case (Cons e m)
  obtain k' v' where e: "e = (k', v')" by fastforce
  have IH: "mset (bm_insert k v m) = add_mset (k, v) (mset (bm_remove k m))"
    using Cons by (simp add: bm_ok_def)
  have lt: "\<forall>x \<in> set m. k' < fst x" using Cons.prems e by (auto simp: bm_ok_def)
  show ?case
  proof (cases "k \<le> k'")
    case True
    with lt have "filter (\<lambda>x. fst x \<noteq> k) m = m" by (auto intro!: filter_True)
    then have "bm_remove k m = m" by (simp add: bm_remove_def)
    moreover have "bm_remove k (e # m) = (if k' = k then bm_remove k m else e # bm_remove k m)"
      using e by (simp add: bm_remove_def)
    ultimately show ?thesis using True e by (simp del: mset_filter)
  next
    case False
    with IH e show ?thesis by (auto simp: bm_remove_def)
  qed
qed (simp add: bm_remove_def)

lemma recency_push:
  assumes "recency m es" and "bm_ok m" and "\<forall>x \<in> set es. ce_last (snd x) < ce_last e"
  shows "recency (bm_insert k e m) ((k, e) # filter (\<lambda>x. fst x \<noteq> k) es)"
  using recency_remove [OF assms(1), of k] assms(2,3) by (simp add: recency_def mset_bm_insert)

lemma recency_last:
  assumes r: "recency m es" and ok: "bm_ok m" and mem: "(k, e) \<in> set m"
    and least: "\<forall>x \<in> set m. ce_last e \<le> ce_last (snd x)"
  shows "recency (bm_remove k m) (butlast es)" and "es \<noteq> []"
proof -
  have "(k, e) \<in> set es" using r mem by (simp add: recency_set)
  then show ne: "es \<noteq> []" by auto
  then have es: "es = butlast es @ [last es]" by simp
  have "sorted_wrt (\<lambda>x y. ce_last (snd y) < ce_last (snd x)) (butlast es @ [last es])"
    using r es by (simp add: recency_def)
  then have "\<forall>x \<in> set (butlast es). ce_last (snd (last es)) < ce_last (snd x)"
    by (simp add: sorted_wrt_append)
  moreover have "ce_last e \<le> ce_last (snd (last es))"
    using least ne r by (simp add: recency_set [symmetric])
  ultimately have "(k, e) \<notin> set (butlast es)" by fastforce
  with \<open>(k, e) \<in> set es\<close> have lst: "last es = (k, e)"
    by (metis es UnE empty_iff empty_set list.set(2) set_append insertE)
  have "distinct (map fst (butlast es @ [(k, e)]))"
    using recency_distinct [OF r ok] es lst by simp
  then have "\<forall>x \<in> set (butlast es). fst x \<noteq> k" by auto
  then have "filter (\<lambda>x. fst x \<noteq> k) (butlast es @ [(k, e)]) = butlast es" by simp
  then have "filter (\<lambda>x. fst x \<noteq> k) es = butlast es" by (metis es lst)
  then show "recency (bm_remove k m) (butlast es)" using recency_remove [OF r, of k] by simp
qed

lemma payload_bytes: "recency m es \<Longrightarrow> lru_bytes (payload es) = entries_bytes m"
proof -
  assume "recency m es"
  then have "mset es = mset m" by (simp add: recency_def)
  then have "mset (map (\<lambda>x. length (ce_data (snd x))) es) = mset (map (\<lambda>x. length (ce_data (snd x))) m)"
    by simp
  then have "sum_list (map (\<lambda>x. length (ce_data (snd x))) es) = sum_list (map (\<lambda>x. length (ce_data (snd x))) m)"
    by (metis sum_mset_sum_list)
  then show ?thesis by (simp add: lru_bytes_def payload_def entries_bytes_def comp_def)
qed

lemma payload_lookup:
  assumes "recency m es" and "bm_ok m"
  shows "map_of (payload es) k = map_option ce_data (bm_get m k)"
proof -
  have d: "distinct (map fst es)" using assms by (rule recency_distinct)
  have "map_of es = map_of m"
    using d bm_ok_distinct [OF assms(2)] recency_set [OF assms(1)]
    by (metis map_of_inject_set)
  moreover have "map_of (payload es) k = map_option ce_data (map_of es k)"
    by (induction es) (auto simp: payload_def)
  ultimately show ?thesis by (simp add: bm_get_def)
qed

lemma payload_filter: "payload (filter (\<lambda>x. fst x \<noteq> k) es) = filter (\<lambda>x. fst x \<noteq> k) (payload es)"
  by (simp add: payload_def filter_map comp_def)

lemma evict_refines:
  assumes "bm_ok (bc_entries c)" and "bc_cur c = entries_bytes (bc_entries c)" and "n \<le> bc_cap c"
    and "recency (bc_entries c) es"
  shows "\<exists>c' es'. evict_until_fits n c = Ok c' \<and> recency (bc_entries c') es' \<and>
     payload es' = lru_trim (bc_cap c - n) (payload es) \<and> set es' \<subseteq> set es"
  using assms
proof (induction n c arbitrary: es rule: evict_until_fits.induct)
  case (1 n c)
  have bytes: "lru_bytes (payload es) = bc_cur c"
    using payload_bytes [OF "1.prems"(4)] "1.prems"(2) by simp
  show ?case
  proof (cases "bc_cur c + n > bc_cap c")
    case False
    then have "\<not> bc_cap c - n < bc_cur c" by linarith
    then have "lru_trim (bc_cap c - n) (payload es) = payload es"
      using bytes by (simp add: lru_trim.simps [of "bc_cap c - n" "payload es"])
    with False "1.prems" show ?thesis by (auto simp: evict_until_fits.simps [of n c])
  next
    case True
    with "1.prems" have ne: "bc_entries c \<noteq> []" by (auto simp: entries_bytes_def)
    from "1.prems"(1) ne obtain k e where mem: "(k, e) \<in> set (bc_entries c)"
      and least: "\<forall>x \<in> set (bc_entries c). ce_last e \<le> ce_last (snd x)"
      and ev: "evict_one c = (Some (length (ce_data e)), c\<lparr>bc_entries := bm_remove k (bc_entries c)\<rparr>)"
      by (rule evict_one_spec)
    let ?c1 = "c\<lparr>bc_entries := bm_remove k (bc_entries c)\<rparr>"
    let ?cur = "bc_cur c - length (ce_data e)"
    have sz: "bc_cur c = length (ce_data e) + entries_bytes (bm_remove k (bc_entries c))"
      using entries_bytes_remove [OF "1.prems"(1) mem] "1.prems"(2) by simp
    then have us: "usub (bc_cur ?c1) (length (ce_data e)) = Ok ?cur" by (simp add: usub_def)
    have cur: "?cur = entries_bytes (bm_remove k (bc_entries c))" using sz by simp
    note lst = recency_last [OF "1.prems"(4,1) mem least]
    have "\<exists>c' es'. evict_until_fits n (?c1\<lparr>bc_cur := ?cur\<rparr>) = Ok c' \<and> recency (bc_entries c') es' \<and>
       payload es' = lru_trim (bc_cap c - n) (payload (butlast es)) \<and> set es' \<subseteq> set (butlast es)"
      using "1.IH" [OF True ev [symmetric] refl us, of "butlast es"] "1.prems"(1,3) cur lst(1)
      by (simp add: bm.wf_rem del: diff_is_0_eq)
    then obtain c' es' where c': "evict_until_fits n (?c1\<lparr>bc_cur := ?cur\<rparr>) = Ok c'"
      "recency (bc_entries c') es'" "payload es' = lru_trim (bc_cap c - n) (payload (butlast es))"
      "set es' \<subseteq> set (butlast es)" by blast
    have "evict_until_fits n c = Ok c'"
      using True ev us c'(1) by (simp add: evict_until_fits.simps [of n c])
    moreover have "lru_trim (bc_cap c - n) (payload es) = lru_trim (bc_cap c - n) (payload (butlast es))"
    proof -
      have "payload es \<noteq> []" "payload (butlast es) = butlast (payload es)"
        using lst(2) by (simp_all add: payload_def map_butlast)
      moreover have "bc_cap c - n < lru_bytes (payload es)"
        using True bytes "1.prems"(3) by linarith
      ultimately show ?thesis
        by (subst lru_trim.simps) simp
    qed
    moreover have "set es' \<subseteq> set es" using c'(4) by (auto dest: in_set_butlastD)
    ultimately show ?thesis using c'(2,3) by auto
  qed
qed

lemma tick_fresh: "unat (t :: 64 word) < 2 ^ 64 - 1 \<Longrightarrow> t < t + 1 \<and> unat (t + 1) = Suc (unat t)"
  by (simp add: word_less_nat_alt unat_word_ariths)

lemma cache_get_refines:
  assumes R: "cache_refines c L" and fresh: "unat (bc_tick c) < 2 ^ 64 - 1"
  shows "fst (cache_get k c) = fst (lru_get k L)"
    and "cache_refines (snd (cache_get k c)) (snd (lru_get k L))"
proof -
  from R obtain es where ok: "cache_ok c" and es: "recency (bc_entries c) es"
    "\<forall>x \<in> set es. ce_last (snd x) \<le> bc_tick c" "L = payload es"
    by (auto simp: cache_refines_def)
  have bok: "bm_ok (bc_entries c)" using ok by (simp add: cache_ok_def)
  have look: "map_of L k = map_option ce_data (bm_get (bc_entries c) k)"
    using payload_lookup [OF es(1) bok] es(3) by simp
  have lt: "bc_tick c < bc_tick c + 1" using tick_fresh [OF fresh] by simp
  then have older: "\<forall>x \<in> set es. ce_last (snd x) < bc_tick c + 1" using es(2) by fastforce
  then have older_le: "\<forall>x \<in> set es. ce_last (snd x) \<le> bc_tick c + 1" by (simp add: less_imp_le)
  show "fst (cache_get k c) = fst (lru_get k L)"
    using look by (auto simp: cache_get_def lru_get_def Let_def split: option.splits)
  have ok': "cache_ok (snd (cache_get k c))" using ok by (rule cache_get_ok)
  show "cache_refines (snd (cache_get k c)) (snd (lru_get k L))"
  proof (cases "bm_get (bc_entries c) k")
    case None
    with look have "snd (lru_get k L) = payload es"
      "snd (cache_get k c) = c\<lparr>bc_tick := bc_tick c + 1\<rparr>"
      using es(3) by (simp_all add: lru_get_def cache_get_def Let_def)
    with es(1) older_le ok' show ?thesis by (intro cache_refinesI [of _ es]) simp_all
  next
    case (Some e)
    let ?e = "e\<lparr>ce_last := bc_tick c + 1\<rparr>"
    have "recency (bm_insert k ?e (bc_entries c)) ((k, ?e) # filter (\<lambda>x. fst x \<noteq> k) es)"
      using es(1) bok older by (intro recency_push) simp_all
    moreover have "payload ((k, ?e) # filter (\<lambda>x. fst x \<noteq> k) es) = snd (lru_get k L)"
      using look Some es(3) by (simp add: lru_get_def payload_filter [symmetric]) (simp add: payload_def)
    moreover have "snd (cache_get k c) =
        c\<lparr>bc_tick := bc_tick c + 1, bc_entries := bm_insert k ?e (bc_entries c)\<rparr>"
      using Some by (simp add: cache_get_def Let_def)
    ultimately show ?thesis
      using ok' older_le
      by (intro cache_refinesI [of _ "(k, ?e) # filter (\<lambda>x. fst x \<noteq> k) es"]) simp_all
  qed
qed

lemma cache_insert_refines:
  assumes R: "cache_refines c L" and fresh: "unat (bc_tick c) < 2 ^ 64 - 1"
  shows "\<exists>c'. cache_insert k d c = Ok c' \<and> cache_refines c' (lru_insert (bc_cap c) k d L) \<and>
     bc_cap c' = bc_cap c \<and> unat (bc_tick c') \<le> Suc (unat (bc_tick c))"
proof (cases "bc_cap c = 0 \<or> length d > bc_cap c")
  case True
  with R show ?thesis by (simp add: cache_insert_def lru_insert_def)
next
  case False
  from R obtain es where ok: "cache_ok c" and es: "recency (bc_entries c) es"
    "\<forall>x \<in> set es. ce_last (snd x) \<le> bc_tick c" "L = payload es"
    by (auto simp: cache_refines_def)
  have fits: "bc_cap c \<noteq> 0" "length d \<le> bc_cap c" using False by simp_all
  let ?w = "without_key k c" and ?es = "filter (\<lambda>x. fst x \<noteq> k) es"
  from ok fits obtain c2 where c2: "evict_until_fits (length d) ?w = Ok c2"
    "cache_insert k d c = Ok (c2\<lparr>bc_tick := bc_tick c + 1, bc_cur := bc_cur c2 + length d,
      bc_entries := bm_insert k \<lparr>ce_data = d, ce_last = bc_tick c + 1\<rparr> (bc_entries c2)\<rparr>)"
    "bm_ok (bc_entries c2)" "bc_cur c2 = entries_bytes (bc_entries c2)"
    "bc_cur c2 + length d \<le> bc_cap c" "bc_cap c2 = bc_cap c"
    "set (bc_entries c2) \<subseteq> set (bm_remove k (bc_entries c))"
    by (rule cache_insert_unfold)
  have w: "bm_ok (bc_entries ?w)" "bc_cur ?w = entries_bytes (bc_entries ?w)"
    "length d \<le> bc_cap ?w" "recency (bc_entries ?w) ?es"
    using ok fits recency_remove [OF es(1)]
    by (simp_all add: without_key_def cache_ok_def bm.wf_rem)
  obtain es' where es': "recency (bc_entries c2) es'"
    "payload es' = lru_trim (bc_cap c - length d) (payload ?es)" "set es' \<subseteq> set ?es"
    using evict_refines [OF w] c2(1) by (auto simp: without_key_def)
  let ?e = "\<lparr>ce_data = d, ce_last = bc_tick c + 1\<rparr>"
  have lt: "bc_tick c < bc_tick c + 1" using tick_fresh [OF fresh] by simp
  then have older: "\<forall>x \<in> set es'. ce_last (snd x) < bc_tick c + 1"
    using es(2) es'(3) by fastforce
  have "recency (bm_insert k ?e (bc_entries c2)) ((k, ?e) # filter (\<lambda>x. fst x \<noteq> k) es')"
    using es'(1) c2(3) older by (intro recency_push) simp_all
  moreover have "filter (\<lambda>x. fst x \<noteq> k) es' = es'"
    using es'(3) by (auto intro!: filter_True)
  ultimately have rec: "recency (bm_insert k ?e (bc_entries c2)) ((k, ?e) # es')" by simp
  have "payload ((k, ?e) # es') = lru_insert (bc_cap c) k d L"
    using False es'(2) es(3) by (simp add: lru_insert_def payload_filter [symmetric])
      (simp add: payload_def)
  moreover from ok obtain c' where c': "cache_insert k d c = Ok c'" "cache_ok c'" "bc_cap c' = bc_cap c"
    using cache_insert_ok by blast
  moreover have "\<forall>x \<in> set es'. ce_last (snd x) \<le> bc_tick c + 1"
    using older by (simp add: less_imp_le)
  moreover have "bc_entries c' = bm_insert k ?e (bc_entries c2)" "bc_tick c' = bc_tick c + 1"
    using c2(2) c'(1) by auto
  ultimately have "cache_refines c' (lru_insert (bc_cap c) k d L)"
    using c'(2) rec by (intro cache_refinesI [of _ "(k, ?e) # es'"]) simp_all
  then show ?thesis using c' c2(2) tick_fresh [OF fresh] by auto
qed

lemma cache_get_frame:
  "bc_cap (snd (cache_get k c)) = bc_cap c" "bc_tick (snd (cache_get k c)) = bc_tick c + 1"
  by (simp_all add: cache_get_def Let_def split: option.splits)

lemma cache_run_refines:
  assumes "cache_refines c L" and "unat (bc_tick c) + length ops < 2 ^ 64"
  shows "cache_run ops c = Ok (lru_run (bc_cap c) ops L)"
  using assms
proof (induction "bc_cap c" ops L arbitrary: c rule: lru_run.induct)
  case (2 k ops L)
  have fresh: "unat (bc_tick c) < 2 ^ 64 - 1" using "2.prems"(2) by simp
  note step = cache_get_refines [OF "2.prems"(1) fresh, of k]
  have "unat (bc_tick (snd (cache_get k c))) + length ops < 2 ^ 64"
    using tick_fresh [OF fresh] "2.prems"(2) by (simp add: cache_get_frame)
  then have "cache_run ops (snd (cache_get k c)) = Ok (lru_run (bc_cap c) ops (snd (lru_get k L)))"
    using "2.hyps" [of "snd (cache_get k c)"] step(2) by (simp add: cache_get_frame)
  then show ?case using step(1) by (cases "cache_get k c") simp
next
  case (3 k d ops L)
  have fresh: "unat (bc_tick c) < 2 ^ 64 - 1" using "3.prems"(2) by simp
  obtain c' where c': "cache_insert k d c = Ok c'" "cache_refines c' (lru_insert (bc_cap c) k d L)"
    "bc_cap c' = bc_cap c" "unat (bc_tick c') \<le> Suc (unat (bc_tick c))"
    using cache_insert_refines [OF "3.prems"(1) fresh] by blast
  with "3.hyps" [of c'] "3.prems"(2) show ?case by simp
qed simp

lemma cache_new_refines: "cache_refines (cache_new n) []"
  by (simp add: cache_refines_def cache_new_ok)
    (simp add: cache_new_def recency_def payload_def)

section \<open>Properties\<close>

text \<open>
  C3. Every call sequence on a fresh cache, up to the wrap of the 64-bit clock, gives the answers
  of the LRU list of the same capacity, and no call panics: what is evicted is always the least
  recently used block, and a retained block is returned unchanged.
\<close>

theorem cache_implements_lru:
  assumes "length ops < 2 ^ 64"
  shows "cache_run ops (cache_new cap_bytes) = Ok (lru_run cap_bytes ops [])"
proof -
  have "unat (bc_tick (cache_new cap_bytes)) + length ops < 2 ^ 64"
    using assms by (simp add: cache_new_def)
  from cache_run_refines [OF cache_new_refines this] show ?thesis by (simp add: cache_new_def)
qed

theorem cache_implements_lru_witness:
  "cache_run [CInsert 1 [10, 11], CInsert 2 [20, 21], CGet 1, CInsert 3 [30], CGet 2, CGet 1] (cache_new 4)
     = Ok [Some [10, 11], None, Some [10, 11]]"
  using cache_implements_lru
    [of "[CInsert 1 [10, 11], CInsert 2 [20, 21], CGet 1, CInsert 3 [30], CGet 2, CGet 1]" 4]
  by (simp add: lru_get_def lru_insert_def lru_bytes_def lru_trim.simps)

text \<open>
  C35. An insertion into a well-formed cache returns, keeps the accounting exact and within the
  capacity, and stores the block exactly when it fits: afterwards the key yields the new data.
\<close>

theorem cache_insert_keeps_budget:
  assumes "cache_ok c"
  shows "\<exists>c'. cache_insert key data c = Ok c' \<and> cache_ok c' \<and> bc_cap c' = bc_cap c \<and>
    cache_len_bytes c' \<le> bc_cap c \<and>
    (if bc_cap c \<noteq> 0 \<and> length data \<le> bc_cap c then fst (cache_get key c') = Some data else c' = c)"
proof (cases "bc_cap c = 0 \<or> length data > bc_cap c")
  case True
  with assms show ?thesis by (auto simp: cache_insert_def cache_len_bytes_def cache_ok_def)
next
  case False
  then have fits: "bc_cap c \<noteq> 0" "length data \<le> bc_cap c" by simp_all
  obtain c' where c': "cache_insert key data c = Ok c'" "cache_ok c'" "bc_cap c' = bc_cap c"
    using cache_insert_ok [OF assms] by blast
  from assms fits obtain c2 where c2: "cache_insert key data c =
      Ok (c2\<lparr>bc_tick := bc_tick c + 1, bc_cur := bc_cur c2 + length data,
        bc_entries := bm_insert key \<lparr>ce_data = data, ce_last = bc_tick c + 1\<rparr> (bc_entries c2)\<rparr>)"
    by (rule cache_insert_unfold)
  with c'(1) have "bm_get (bc_entries c') key = Some \<lparr>ce_data = data, ce_last = bc_tick c + 1\<rparr>"
    by (auto simp: bm_get_insert)
  then have "fst (cache_get key c') = Some data" by (simp add: cache_get_def Let_def)
  then show ?thesis using c' fits by (auto simp: cache_len_bytes_def cache_ok_def)
qed

theorem cache_insert_keeps_budget_witness:
  "cache_ok (cache_new 4) \<and>
     (\<exists>c'. cache_insert 7 [1, 2, 3] (cache_new 4) = Ok c' \<and> fst (cache_get 7 c') = Some [1, 2, 3])"
  using cache_insert_keeps_budget [OF cache_new_ok, of 7 "[1, 2, 3]" 4]
  by (auto simp: cache_new_ok) (auto simp: cache_new_def)

end
