(* ===== verification/Read_Cap.thy ===== *)
theory Read_Cap
  imports Block_Source
begin

text \<open>
  The read caps (\<^verbatim>\<open>crates/lamfold/src/read_cap.rs\<close>): a size taken from the medium is checked
  against a fixed bound before a buffer of that size is allocated.
\<close>

definition MAX_BOOT_FILE_BYTES :: nat where
  "MAX_BOOT_FILE_BYTES = 512 * 1024 * 1024"

definition MAX_DECOMPRESSED_BLOCK_BYTES :: nat where
  "MAX_DECOMPRESSED_BLOCK_BYTES = 16 * 1024 * 1024"

definition checked_len :: "nat \<Rightarrow> nat \<Rightarrow> nat result" where
  "checked_len sz mx =
     (if sz > mx then Err (FileTooLarge sz mx)
      else if sz \<le> usize_max then Ok sz
      else Err (FileTooLarge sz mx))"

definition checked_full_read_len :: "nat \<Rightarrow> nat result" where
  "checked_full_read_len sz = checked_len sz MAX_BOOT_FILE_BYTES"

definition checked_block_len :: "nat \<Rightarrow> nat result" where
  "checked_block_len sz = checked_len sz MAX_DECOMPRESSED_BLOCK_BYTES"

text \<open>The compile-time assertion of the source.\<close>

lemma block_cap_below_file_cap: "MAX_DECOMPRESSED_BLOCK_BYTES < MAX_BOOT_FILE_BYTES"
  by (simp add: MAX_DECOMPRESSED_BLOCK_BYTES_def MAX_BOOT_FILE_BYTES_def)

lemma checked_full_read_len_eq_Ok [result_simps]:
  "checked_full_read_len sz = Ok n \<longleftrightarrow> n = sz \<and> sz \<le> MAX_BOOT_FILE_BYTES"
  by (auto simp: checked_full_read_len_def checked_len_def usize_max_def MAX_BOOT_FILE_BYTES_def)

lemma checked_block_len_eq_Ok [result_simps]:
  "checked_block_len sz = Ok n \<longleftrightarrow> n = sz \<and> sz \<le> MAX_DECOMPRESSED_BLOCK_BYTES"
  by (auto simp: checked_block_len_def checked_len_def usize_max_def
      MAX_DECOMPRESSED_BLOCK_BYTES_def)

lemma no_panic_checked_len [no_panic_simps, simp]:
  "no_panic (checked_full_read_len sz)" "no_panic (checked_block_len sz)"
  by (simp_all add: checked_full_read_len_def checked_block_len_def checked_len_def)

lemma checked_full_read_len_reject:
  "MAX_BOOT_FILE_BYTES < sz \<Longrightarrow> checked_full_read_len sz = Err (FileTooLarge sz MAX_BOOT_FILE_BYTES)"
  by (simp add: checked_full_read_len_def checked_len_def)

lemma checked_block_len_reject:
  "MAX_DECOMPRESSED_BLOCK_BYTES < sz \<Longrightarrow>
     checked_block_len sz = Err (FileTooLarge sz MAX_DECOMPRESSED_BLOCK_BYTES)"
  by (simp add: checked_block_len_def checked_len_def)

lemma file_cap_small: "MAX_BOOT_FILE_BYTES < 2 ^ 32"
  by (simp add: MAX_BOOT_FILE_BYTES_def)

end
