(* ===== verification/Rust_Text.thy ===== *)
theory Rust_Text
  imports Fold_Prelude
begin

text \<open>
  The parts of Rust's standard library for text that the sources use. A \<^verbatim>\<open>str\<close> or \<^verbatim>\<open>String\<close> is
  its UTF-8 encoding, a byte list. \<open>utf8_next\<close> is one step of the standard library's decoder:
  whether the bytes start with a well-formed character, and how many bytes the character or the
  maximal ill-formed prefix has. \<open>from_utf8\<close> and \<open>from_utf8_lossy\<close> repeat that step;
  \<open>decode_utf16\<close> turns UTF-16 code units into scalar values, and \<open>utf8_encode\<close> is \<^verbatim>\<open>String::push\<close>.
  The lemmas show that what these operations build is always well-formed UTF-8, which is the
  invariant of the Rust types.
\<close>

section \<open>UTF-8\<close>

definition byte_in :: "nat \<Rightarrow> nat \<Rightarrow> byte \<Rightarrow> bool" where
  "byte_in lo hi b \<longleftrightarrow> lo \<le> unat b \<and> unat b \<le> hi"

abbreviation is_cont :: "byte \<Rightarrow> bool" where
  "is_cont \<equiv> byte_in 128 191"

text \<open>The second byte of a three- or four-byte sequence whose first byte is \<open>b\<close>.\<close>

definition second_ok3 :: "byte \<Rightarrow> byte \<Rightarrow> bool" where
  "second_ok3 b c \<longleftrightarrow>
     (if unat b = 224 then byte_in 160 191 c
      else if unat b = 237 then byte_in 128 159 c
      else is_cont c)"

definition second_ok4 :: "byte \<Rightarrow> byte \<Rightarrow> bool" where
  "second_ok4 b c \<longleftrightarrow>
     (if unat b = 240 then byte_in 144 191 c
      else if unat b = 244 then byte_in 128 143 c
      else is_cont c)"

text \<open>Match the continuation bytes one by one: how many of the tests succeed.\<close>

fun match_tail :: "(byte \<Rightarrow> bool) list \<Rightarrow> bytes \<Rightarrow> nat" where
  "match_tail [] bs = 0"
| "match_tail (t # ts) [] = 0"
| "match_tail (t # ts) (b # bs) = (if t b then Suc (match_tail ts bs) else 0)"

definition tail_tests :: "byte \<Rightarrow> (byte \<Rightarrow> bool) list option" where
  "tail_tests b =
     (if unat b < 128 then Some []
      else if byte_in 194 223 b then Some [is_cont]
      else if byte_in 224 239 b then Some [second_ok3 b, is_cont]
      else if byte_in 240 244 b then Some [second_ok4 b, is_cont, is_cont]
      else None)"

fun utf8_next :: "bytes \<Rightarrow> bool \<times> nat" where
  "utf8_next [] = (True, 0)"
| "utf8_next (b # bs) =
     (case tail_tests b of
        None \<Rightarrow> (False, 1)
      | Some ts \<Rightarrow> (let k = match_tail ts bs in (k = length ts, Suc k)))"

lemma match_tail_le: "match_tail ts bs \<le> length ts" "match_tail ts bs \<le> length bs"
  by (induction ts bs rule: match_tail.induct) auto

lemma match_tail_append:
  "match_tail ts bs = length ts \<Longrightarrow> match_tail ts (bs @ cs) = length ts"
  by (induction ts bs rule: match_tail.induct) (auto split: if_splits)

lemma match_tail_take:
  "match_tail ts bs = length ts \<Longrightarrow> match_tail ts (take (length ts) bs) = length ts"
  by (induction ts bs rule: match_tail.induct) (auto split: if_splits)

lemma utf8_next_pos: "bs \<noteq> [] \<Longrightarrow> 0 < snd (utf8_next bs)"
  by (cases bs) (auto simp: Let_def split: option.splits)

lemma utf8_next_le: "snd (utf8_next bs) \<le> length bs"
  by (cases bs) (auto simp: Let_def match_tail_le split: option.splits)

function utf8_valid :: "bytes \<Rightarrow> bool" where
  "utf8_valid bs =
     (if bs = [] then True
      else (case utf8_next bs of (ok, n) \<Rightarrow> ok \<and> utf8_valid (drop n bs)))"
  by pat_completeness auto
termination
proof (relation "measure length", goal_cases)
  case (2 bs ok n)
  with utf8_next_pos [of bs] show ?case by (metis in_measure length_drop diff_less length_greater_0_conv snd_conv)
qed simp

function from_utf8_lossy :: "bytes \<Rightarrow> bytes" where
  "from_utf8_lossy bs =
     (if bs = [] then []
      else (case utf8_next bs of (ok, n) \<Rightarrow>
              (if ok then take n bs else [0xEF, 0xBF, 0xBD]) @ from_utf8_lossy (drop n bs)))"
  by pat_completeness auto
termination
proof (relation "measure length", goal_cases)
  case (2 bs ok n)
  with utf8_next_pos [of bs] show ?case by (metis in_measure length_drop diff_less length_greater_0_conv snd_conv)
qed simp

declare utf8_valid.simps [simp del] from_utf8_lossy.simps [simp del]

definition from_utf8 :: "bytes \<Rightarrow> bytes option" where
  "from_utf8 bs = (if utf8_valid bs then Some bs else None)"

lemma utf8_valid_Nil [simp]: "utf8_valid []"
  by (simp add: utf8_valid.simps)

lemma from_utf8_lossy_Nil [simp]: "from_utf8_lossy [] = []"
  by (simp add: from_utf8_lossy.simps)

lemma utf8_next_append:
  assumes "bs \<noteq> []" and "utf8_next bs = (True, n)"
  shows "utf8_next (bs @ cs) = (True, n)"
  using assms
  by (cases bs) (auto simp: Let_def match_tail_append split: option.splits)

lemma utf8_next_take:
  assumes "bs \<noteq> []" and "utf8_next bs = (True, n)"
  shows "utf8_next (take n bs) = (True, n)"
  using assms
  by (cases bs) (auto simp: Let_def match_tail_take split: option.splits)

lemma utf8_valid_append: "utf8_valid as \<Longrightarrow> utf8_valid bs \<Longrightarrow> utf8_valid (as @ bs)"
proof (induction as rule: utf8_valid.induct)
  case (1 as)
  show ?case
  proof (cases "as = []")
    case False
    obtain ok n where n: "utf8_next as = (ok, n)" by fastforce
    with "1.prems"(1) False have ok: ok and tl: "utf8_valid (drop n as)"
      by (simp_all add: utf8_valid.simps [of as])
    have le: "n \<le> length as" using utf8_next_le [of as] n by simp
    have "utf8_valid (drop n as @ bs)"
      using "1.IH" [OF False n [symmetric] tl] "1.prems"(2) by simp
    moreover have "utf8_next (as @ bs) = (True, n)"
      using utf8_next_append [OF False] n ok by simp
    ultimately show ?thesis
      using le False by (simp add: utf8_valid.simps [of "as @ bs"])
  qed (use "1.prems" in simp)
qed

lemma utf8_valid_first:
  assumes "bs \<noteq> []" and "utf8_next bs = (True, n)"
  shows "utf8_valid (take n bs)"
  using utf8_next_take [OF assms] by (simp add: utf8_valid.simps [of "take n bs"])

lemma utf8_valid_replacement: "utf8_valid [0xEF, 0xBF, 0xBD]"
  by (simp add: utf8_valid.simps tail_tests_def byte_in_def second_ok3_def Let_def)

lemma from_utf8_lossy_valid: "utf8_valid (from_utf8_lossy bs)"
proof (induction bs rule: from_utf8_lossy.induct)
  case (1 bs)
  show ?case
  proof (cases "bs = []")
    case False
    obtain ok n where n: "utf8_next bs = (ok, n)" by fastforce
    have "utf8_valid (from_utf8_lossy (drop n bs))"
      using "1.IH" [OF False n [symmetric]] .
    moreover have "utf8_valid (if ok then take n bs else [0xEF, 0xBF, 0xBD])"
      using utf8_valid_first [OF False] n utf8_valid_replacement by auto
    ultimately show ?thesis
      using n False utf8_valid_append by (simp add: from_utf8_lossy.simps [of bs])
  qed simp
qed

lemma from_utf8_lossy_id: "utf8_valid bs \<Longrightarrow> from_utf8_lossy bs = bs"
proof (induction bs rule: from_utf8_lossy.induct)
  case (1 bs)
  show ?case
  proof (cases "bs = []")
    case False
    obtain ok n where n: "utf8_next bs = (ok, n)" by fastforce
    with "1.prems" False have ok: ok and tl: "utf8_valid (drop n bs)"
      by (simp_all add: utf8_valid.simps [of bs])
    have "from_utf8_lossy (drop n bs) = drop n bs"
      using "1.IH" [OF False n [symmetric] tl] .
    then show ?thesis
      using n ok False by (simp add: from_utf8_lossy.simps [of bs])
  qed simp
qed

lemma utf8_valid_ascii: "\<forall>b \<in> set bs. unat b < 128 \<Longrightarrow> utf8_valid bs"
proof (induction bs)
  case (Cons b bs)
  then show ?case by (simp add: utf8_valid.simps [of "b # bs"] tail_tests_def)
qed simp


section \<open>UTF-16\<close>

definition is_scalar :: "nat \<Rightarrow> bool" where
  "is_scalar c \<longleftrightarrow> c < 0x110000 \<and> \<not> (0xD800 \<le> c \<and> c \<le> 0xDFFF)"

text \<open>\<open>None\<close> is the \<^verbatim>\<open>DecodeUtf16Error\<close> of the first unpaired surrogate.\<close>

fun decode_utf16 :: "nat list \<Rightarrow> nat list option" where
  "decode_utf16 [] = Some []"
| "decode_utf16 (u # us) =
     (if \<not> (0xD800 \<le> u \<and> u \<le> 0xDFFF) then map_option (Cons u) (decode_utf16 us)
      else if 0xDC00 \<le> u then None
      else (case us of
              [] \<Rightarrow> None
            | u2 # us' \<Rightarrow>
                if 0xDC00 \<le> u2 \<and> u2 \<le> 0xDFFF
                then map_option (Cons (0x10000 + (u - 0xD800) * 0x400 + (u2 - 0xDC00)))
                       (decode_utf16 us')
                else None))"

definition utf8_encode :: "nat \<Rightarrow> bytes" where
  "utf8_encode c =
     (if c < 0x80 then [byte_of c]
      else if c < 0x800 then [byte_of (0xC0 + c div 64), byte_of (0x80 + c mod 64)]
      else if c < 0x10000 then
        [byte_of (0xE0 + c div 4096), byte_of (0x80 + c div 64 mod 64),
         byte_of (0x80 + c mod 64)]
      else
        [byte_of (0xF0 + c div 262144), byte_of (0x80 + c div 4096 mod 64),
         byte_of (0x80 + c div 64 mod 64), byte_of (0x80 + c mod 64)])"

definition string_of_chars :: "nat list \<Rightarrow> bytes" where
  "string_of_chars cs = concat (map utf8_encode cs)"

lemma decode_utf16_scalar:
  "decode_utf16 us = Some cs \<Longrightarrow> \<forall>u \<in> set us. u < 0x10000 \<Longrightarrow> \<forall>c \<in> set cs. is_scalar c"
proof (induction us arbitrary: cs rule: decode_utf16.induct)
  case (2 u us)
  show ?case
  proof (cases "0xD800 \<le> u \<and> u \<le> 0xDFFF")
    case False
    with "2.prems" obtain ds where ds: "decode_utf16 us = Some ds" "cs = u # ds" by auto
    with "2.IH"(1) "2.prems"(2) False have "\<forall>c \<in> set ds. is_scalar c" by simp
    with ds False "2.prems"(2) show ?thesis by (simp add: is_scalar_def)
  next
    case True
    with "2.prems" have lo: "\<not> 0xDC00 \<le> u" by (auto split: if_splits)
    with True "2.prems"(1) obtain u2 us' where us: "us = u2 # us'"
      by (cases us) (auto split: if_splits)
    with True lo "2.prems"(1) have hi: "0xDC00 \<le> u2 \<and> u2 \<le> 0xDFFF" by (auto split: if_splits)
    let ?c = "0x10000 + (u - 0xD800) * 0x400 + (u2 - 0xDC00)"
    from True lo hi us "2.prems"(1) obtain ds where ds: "decode_utf16 us' = Some ds" "cs = ?c # ds"
      by auto
    with "2.IH"(2) [OF _ lo us hi] True "2.prems"(2) us have "\<forall>c \<in> set ds. is_scalar c" by simp
    moreover have "u - 0xD800 \<le> 0x3FF" "u2 - 0xDC00 \<le> 0x3FF" using True lo hi by linarith+
    then have "?c < 0x110000" "0x10000 \<le> ?c" by linarith+
    ultimately show ?thesis using ds by (simp add: is_scalar_def)
  qed
qed simp

lemma utf8_valid_seq:
  assumes "tail_tests b = Some ts" and "length bs = length ts" and "match_tail ts bs = length ts"
  shows "utf8_valid (b # bs)"
  using assms by (simp add: utf8_valid.simps [of "b # bs"])

lemma mod_64_block: "64 * k \<le> x \<Longrightarrow> x < 64 * k + m \<Longrightarrow> m \<le> 64 \<Longrightarrow> x mod 64 < (m :: nat)"
proof -
  assume x: "64 * k \<le> x" "x < 64 * k + m" "m \<le> 64"
  then have "x = (x - 64 * k) + k * 64" by simp
  then have "x mod 64 = (x - 64 * k) mod 64" by (metis mod_mult_self1)
  with x show ?thesis by simp
qed

lemma div_block: "0 < d \<Longrightarrow> d * k \<le> x \<Longrightarrow> x < d * m \<Longrightarrow> k \<le> x div d \<and> x div d < (m :: nat)"
  by (simp add: less_eq_div_iff_mult_less_eq div_less_iff_less_mult mult.commute)

lemma cont_encoded: "is_cont (byte_of (0x80 + n mod 64))"
  using mod_less_divisor [of 64 n] by (simp add: byte_in_def)

lemma tail_tests_encoded:
  "2 \<le> x \<Longrightarrow> x < 32 \<Longrightarrow> tail_tests (byte_of (0xC0 + x)) = Some [is_cont]"
  "x < 16 \<Longrightarrow> tail_tests (byte_of (0xE0 + x)) = Some [second_ok3 (byte_of (0xE0 + x)), is_cont]"
  "x < 5 \<Longrightarrow> tail_tests (byte_of (0xF0 + x)) =
     Some [second_ok4 (byte_of (0xF0 + x)), is_cont, is_cont]"
  by (simp_all add: tail_tests_def byte_in_def)

lemma second_ok3_encoded:
  "x < 16 \<Longrightarrow> y < 64 \<Longrightarrow> (x = 0 \<Longrightarrow> 32 \<le> y) \<Longrightarrow> (x = 13 \<Longrightarrow> y < 32) \<Longrightarrow>
     second_ok3 (byte_of (0xE0 + x)) (byte_of (0x80 + y))"
  by (auto simp: second_ok3_def byte_in_def)

lemma second_ok4_encoded:
  "x < 5 \<Longrightarrow> y < 64 \<Longrightarrow> (x = 0 \<Longrightarrow> 16 \<le> y) \<Longrightarrow> (x = 4 \<Longrightarrow> y < 16) \<Longrightarrow>
     second_ok4 (byte_of (0xF0 + x)) (byte_of (0x80 + y))"
  by (auto simp: second_ok4_def byte_in_def)

lemma utf8_encode_valid:
  assumes "is_scalar c"
  shows "utf8_valid (utf8_encode c)"
proof -
  have c: "c < 0x110000" "\<not> (0xD800 \<le> c \<and> c \<le> 0xDFFF)"
    using assms by (simp_all add: is_scalar_def)
  consider "c < 0x80" | "0x80 \<le> c" "c < 0x800" | "0x800 \<le> c" "c < 0x10000" | "0x10000 \<le> c"
    by linarith
  then show ?thesis
  proof cases
    case 1
    then show ?thesis by (auto intro!: utf8_valid_ascii simp: utf8_encode_def)
  next
    case 2
    then have d: "2 \<le> c div 64" "c div 64 < 32"
      using div_le_mono [of 128 c 64] by (simp_all add: less_mult_imp_div_less)
    have "utf8_valid [byte_of (0xC0 + c div 64), byte_of (0x80 + c mod 64)]"
      by (rule utf8_valid_seq [where ts = "[is_cont]"])
        (use d in \<open>simp_all add: tail_tests_encoded cont_encoded\<close>)
    with 2 show ?thesis by (simp add: utf8_encode_def)
  next
    case 3
    have d: "c div 4096 < 16" using div_block [of 4096 0 c 16] 3 by simp
    have e0: "32 \<le> c div 64 mod 64" if "c div 4096 = 0"
    proof -
      have "c < 4096" using that by (simp add: div_eq_0_iff)
      then show ?thesis using div_block [of 64 32 c 64] 3 by simp
    qed
    have e13: "c div 64 mod 64 < 32" if "c div 4096 = 13"
    proof -
      have "13 * 4096 \<le> c" "c < 14 * 4096"
        using that div_mult_mod_eq [of c 4096] mod_less_divisor [of 4096 c] by linarith+
      then have "c < 0xD800" using c by linarith
      then have "832 \<le> c div 64 \<and> c div 64 < 864"
        using div_block [of 64 832 c 864] \<open>13 * 4096 \<le> c\<close> by simp
      then show ?thesis using mod_64_block [of 13 "c div 64" 32] by simp
    qed
    let ?b = "byte_of (0xE0 + c div 4096)"
    have "second_ok3 ?b (byte_of (0x80 + c div 64 mod 64))"
      using second_ok3_encoded d e0 e13 by simp
    then have "utf8_valid [?b, byte_of (0x80 + c div 64 mod 64), byte_of (0x80 + c mod 64)]"
      by (intro utf8_valid_seq [where ts = "[second_ok3 ?b, is_cont]"])
        (use d in \<open>simp_all add: tail_tests_encoded cont_encoded\<close>)
    with 3 show ?thesis by (simp add: utf8_encode_def)
  next
    case 4
    have d: "c div 262144 < 5" using div_block [of 262144 0 c 5] c by simp
    have e0: "16 \<le> c div 4096 mod 64" if "c div 262144 = 0"
    proof -
      have "c < 262144" using that by (simp add: div_eq_0_iff)
      then show ?thesis using div_block [of 4096 16 c 64] 4 by simp
    qed
    have e4: "c div 4096 mod 64 < 16" if "c div 262144 = 4"
    proof -
      have "4 * 262144 \<le> c"
        using that div_mult_mod_eq [of c 262144] by linarith
      then have "256 \<le> c div 4096 \<and> c div 4096 < 272"
        using div_block [of 4096 256 c 272] c by simp
      then show ?thesis using mod_64_block [of 4 "c div 4096" 16] by simp
    qed
    let ?b = "byte_of (0xF0 + c div 262144)"
    have "second_ok4 ?b (byte_of (0x80 + c div 4096 mod 64))"
      using second_ok4_encoded d e0 e4 by simp
    then have "utf8_valid [?b, byte_of (0x80 + c div 4096 mod 64),
        byte_of (0x80 + c div 64 mod 64), byte_of (0x80 + c mod 64)]"
      by (intro utf8_valid_seq [where ts = "[second_ok4 ?b, is_cont, is_cont]"])
        (use d in \<open>simp_all add: tail_tests_encoded cont_encoded\<close>)
    with 4 show ?thesis by (simp add: utf8_encode_def)
  qed
qed

lemma string_of_chars_valid: "\<forall>c \<in> set cs. is_scalar c \<Longrightarrow> utf8_valid (string_of_chars cs)"
  by (induction cs) (auto simp: string_of_chars_def utf8_encode_valid intro: utf8_valid_append)

text \<open>Big-endian code units: \<^verbatim>\<open>chunks_exact(2)\<close> drops an odd last byte.\<close>

fun utf16be_units :: "bytes \<Rightarrow> nat list" where
  "utf16be_units (a # b # rest) = from_be [a, b] # utf16be_units rest"
| "utf16be_units short = []"

lemma utf16be_units_less: "u \<in> set (utf16be_units bs) \<Longrightarrow> u < 0x10000"
proof (induction bs rule: utf16be_units.induct)
  case (1 a b rest)
  then show ?case using from_be_less [of "[a, b]"] by auto
qed simp_all

lemma string_of_utf16_valid:
  "decode_utf16 (utf16be_units bs) = Some cs \<Longrightarrow> utf8_valid (string_of_chars cs)"
  using decode_utf16_scalar [of "utf16be_units bs" cs] utf16be_units_less string_of_chars_valid by blast


section \<open>Splitting\<close>

text \<open>\<^verbatim>\<open>str::split\<close> and \<^verbatim>\<open>slice::split\<close> at a separator: always at least one piece.\<close>

fun split_on :: "'a \<Rightarrow> 'a list \<Rightarrow> 'a list list" where
  "split_on c [] = [[]]"
| "split_on c (x # xs) =
     (if x = c then [] # split_on c xs
      else (case split_on c xs of [] \<Rightarrow> [[x]] | p # ps \<Rightarrow> (x # p) # ps))"

lemma split_on_not_Nil [simp]: "split_on c xs \<noteq> []"
  by (cases xs) (auto split: list.splits)

lemma split_on_no_sep: "p \<in> set (split_on c xs) \<Longrightarrow> c \<notin> set p"
  by (induction xs arbitrary: p) (auto split: if_splits list.splits)

lemma split_on_id: "c \<notin> set xs \<Longrightarrow> split_on c xs = [xs]"
  by (induction xs) auto

lemma split_on_append_sep:
  "split_on c (xs @ c # ys) = split_on c xs @ split_on c ys"
  by (induction xs) (auto split: list.splits)

lemma hd_split_on: "hd (split_on c xs) = takeWhile (\<lambda>x. x \<noteq> c) xs"
proof (induction xs)
  case (Cons x xs)
  then show ?case by (cases "split_on c xs") auto
qed simp

end
