(* ===== verification/Fold_Frontend.thy ===== *)
theory Fold_Frontend
  imports Fold_Verify Block_Cache Read_Cap Rust_Text
begin

text \<open>
  The frontend contract (\<^verbatim>\<open>crates/lamfold/src/frontend.rs\<close>). The trait \<^verbatim>\<open>FoldFrontend\<close> is the
  record of its methods over a state type \<open>'s\<close> (the mounted volume). A method on \<^verbatim>\<open>&mut self\<close>
  returns its outcome with the volume it leaves behind; \<^verbatim>\<open>read_at\<close> takes the caller's buffer and
  returns the count with the buffer as the call leaves it. The context is passed by value: no
  frontend of the repository writes the block cache through it.

  The locales are the interface between the formats and the path layer. Each format's theory
  interprets them on its own model.
\<close>

datatype file_kind = Regular | Directory | Symlink | Other

record metadata =
  md_kind :: file_kind
  md_size :: nat
  md_mode :: nat

record dir_entry =
  de_name :: bytes
  de_node :: node_id
  de_kind :: file_kind

record substrate_ctx =
  cx_cache :: block_cache
  cx_verifier :: verifier

text \<open>A context without a cache or a trust root.\<close>

definition null_cx :: substrate_ctx where
  "null_cx = \<lparr>cx_cache = cache_new 0, cx_verifier = no_verifier\<rparr>"

record 's frontend =
  fe_root :: "'s \<Rightarrow> node_id"
  fe_lookup :: "substrate_ctx \<Rightarrow> node_id \<Rightarrow> bytes \<Rightarrow> ('s, node_id option) op"
  fe_read_dir :: "substrate_ctx \<Rightarrow> node_id \<Rightarrow> ('s, dir_entry list) op"
  fe_metadata :: "substrate_ctx \<Rightarrow> node_id \<Rightarrow> ('s, metadata) op"
  fe_read_at :: "substrate_ctx \<Rightarrow> node_id \<Rightarrow> nat \<Rightarrow> bytes \<Rightarrow> ('s, nat \<times> bytes) op"
  fe_read_link :: "substrate_ctx \<Rightarrow> node_id \<Rightarrow> ('s, bytes option) op"

text \<open>The default body of \<^verbatim>\<open>read_link\<close>, for a format without symbolic links.\<close>

definition default_read_link :: "substrate_ctx \<Rightarrow> node_id \<Rightarrow> ('s, bytes option) op" where
  "default_read_link cx node s = (Ok None, s)"

text \<open>The search that every \<^verbatim>\<open>lookup\<close> over a listing does: the first entry of that name.\<close>

definition find_entry :: "bytes \<Rightarrow> dir_entry list \<Rightarrow> node_id option" where
  "find_entry name es = map_option de_node (find (\<lambda>e. de_name e = name) es)"

lemma find_entry_mem:
  "find_entry name es = Some n \<Longrightarrow> \<exists>e \<in> set es. de_name e = name \<and> de_node e = n"
  by (auto simp: find_entry_def find_Some_iff)

lemma find_entry_None: "find_entry name es = None \<longleftrightarrow> (\<forall>e \<in> set es. de_name e \<noteq> name)"
  by (auto simp: find_entry_def find_None_iff)


section \<open>The contract every format keeps\<close>

text \<open>
  \<open>inv\<close> is the invariant of a mounted volume. Every method keeps it and the root, and a read
  reports no more bytes than the buffer holds and leaves the buffer's length alone.
\<close>

locale fold_frontend =
  fixes fe :: "'s frontend" and inv :: "'s \<Rightarrow> bool"
  assumes lookup_keeps: "inv s \<Longrightarrow> fe_lookup fe cx d nm s = (r1, s') \<Longrightarrow>
      inv s' \<and> fe_root fe s' = fe_root fe s"
    and read_dir_keeps: "inv s \<Longrightarrow> fe_read_dir fe cx d s = (r2, s') \<Longrightarrow>
      inv s' \<and> fe_root fe s' = fe_root fe s"
    and metadata_keeps: "inv s \<Longrightarrow> fe_metadata fe cx n s = (r3, s') \<Longrightarrow>
      inv s' \<and> fe_root fe s' = fe_root fe s"
    and read_at_keeps: "inv s \<Longrightarrow> fe_read_at fe cx n off buf s = (r4, s') \<Longrightarrow>
      inv s' \<and> fe_root fe s' = fe_root fe s"
    and read_link_keeps: "inv s \<Longrightarrow> fe_read_link fe cx n s = (r5, s') \<Longrightarrow>
      inv s' \<and> fe_root fe s' = fe_root fe s"
    and read_at_len: "inv s \<Longrightarrow> fe_read_at fe cx n off buf s = (Ok (k, buf'), s') \<Longrightarrow>
      k \<le> length buf \<and> length buf' = length buf"

text \<open>
  A mounted volume in use: a step is a call of any method, with any context and arguments. The
  volumes that a client can get to are those of a run, and the invariant holds in all of them.
\<close>

inductive frontend_step :: "'s frontend \<Rightarrow> 's \<Rightarrow> 's \<Rightarrow> bool" for fe where
  step_lookup: "fe_lookup fe cx d nm s = (r, s') \<Longrightarrow> frontend_step fe s s'"
| step_read_dir: "fe_read_dir fe cx d s = (r, s') \<Longrightarrow> frontend_step fe s s'"
| step_metadata: "fe_metadata fe cx n s = (r, s') \<Longrightarrow> frontend_step fe s s'"
| step_read_at: "fe_read_at fe cx n off buf s = (r, s') \<Longrightarrow> frontend_step fe s s'"
| step_read_link: "fe_read_link fe cx n s = (r, s') \<Longrightarrow> frontend_step fe s s'"

abbreviation frontend_run :: "'s frontend \<Rightarrow> 's \<Rightarrow> 's \<Rightarrow> bool" where
  "frontend_run fe \<equiv> (frontend_step fe)\<^sup>*\<^sup>*"

context fold_frontend
begin

lemma step_keeps: "frontend_step fe s s' \<Longrightarrow> inv s \<Longrightarrow> inv s' \<and> fe_root fe s' = fe_root fe s"
  by (cases rule: frontend_step.cases)
    (auto dest: lookup_keeps read_dir_keeps metadata_keeps read_at_keeps read_link_keeps)

lemma run_keeps: "frontend_run fe s s' \<Longrightarrow> inv s \<Longrightarrow> inv s' \<and> fe_root fe s' = fe_root fe s"
  by (induction rule: rtranclp_induct) (use step_keeps in auto)

end

text \<open>
  A format that the path layer can use without a panic: only its reads may be partial, and
  \<open>safe_off s n off\<close> says where a read of node \<open>n\<close> may start. Offset zero is such a place, and so is
  the place a successful read ends at.
\<close>

locale path_safe_frontend = fold_frontend fe inv
  for fe :: "'s frontend" and inv :: "'s \<Rightarrow> bool" +
  fixes safe_off :: "'s \<Rightarrow> node_id \<Rightarrow> nat \<Rightarrow> bool"
  assumes lookup_safe: "inv s \<Longrightarrow> no_panic (fst (fe_lookup fe cx d nm s))"
    and read_dir_safe: "inv s \<Longrightarrow> no_panic (fst (fe_read_dir fe cx d s))"
    and metadata_safe: "inv s \<Longrightarrow> no_panic (fst (fe_metadata fe cx n s))"
    and read_link_safe: "inv s \<Longrightarrow> no_panic (fst (fe_read_link fe cx n s))"
    and safe_start: "inv s \<Longrightarrow> safe_off s n 0"
    and read_at_safe_off: "inv s \<Longrightarrow> safe_off s n off \<Longrightarrow> no_panic (fst (fe_read_at fe cx n off buf s))"
    and safe_next: "inv s \<Longrightarrow> safe_off s n off \<Longrightarrow> fe_read_at fe cx n off buf s = (Ok (k, buf'), s') \<Longrightarrow>
      0 < k \<Longrightarrow> safe_off s' n (off + k)"

text \<open>A format none of whose methods panics on any medium, in any reachable state.\<close>

locale panic_free_frontend = fold_frontend +
  assumes lookup_no_panic: "inv s \<Longrightarrow> no_panic (fst (fe_lookup fe cx d nm s))"
    and read_dir_no_panic: "inv s \<Longrightarrow> no_panic (fst (fe_read_dir fe cx d s))"
    and metadata_no_panic: "inv s \<Longrightarrow> no_panic (fst (fe_metadata fe cx n s))"
    and read_at_no_panic: "inv s \<Longrightarrow> no_panic (fst (fe_read_at fe cx n off buf s))"
    and read_link_no_panic: "inv s \<Longrightarrow> no_panic (fst (fe_read_link fe cx n s))"

sublocale panic_free_frontend \<subseteq> path_safe_frontend fe inv "\<lambda>_ _ _. True"
  by unfold_locales
    (simp_all add: lookup_no_panic read_dir_no_panic metadata_no_panic read_link_no_panic read_at_no_panic)

text \<open>
  The abstract tree behind a format: what a lookup, a node's metadata and a link target are,
  as functions of the medium alone, over keys of any type. \<open>repr s n\<close> is the key the handle \<open>n\<close>
  stands for in the volume \<open>s\<close>. A format that hands out fresh handles as it goes keeps the
  meaning of those it gave before.
\<close>

record 'k view =
  vw_root :: 'k
  vw_lookup :: "'k \<Rightarrow> bytes \<Rightarrow> 'k option result"
  vw_metadata :: "'k \<Rightarrow> metadata result"
  vw_link :: "'k \<Rightarrow> bytes option result"

locale tree_frontend = fold_frontend fe inv
  for fe :: "'s frontend" and inv :: "'s \<Rightarrow> bool" +
  fixes cx :: substrate_ctx and repr :: "'s \<Rightarrow> node_id \<Rightarrow> 'k option" and view :: "'s \<Rightarrow> 'k view"
  assumes root_repr: "inv s \<Longrightarrow> repr s (fe_root fe s) = Some (vw_root (view s))"
    and lookup_view: "inv s \<Longrightarrow> repr s d = Some kd \<Longrightarrow> fe_lookup fe cx d nm s = (r1, s') \<Longrightarrow>
      view s' = view s \<and> (\<forall>n k. repr s n = Some k \<longrightarrow> repr s' n = Some k) \<and>
      (case vw_lookup (view s) kd nm of
         Ok (Some kc) \<Rightarrow> \<exists>c. r1 = Ok (Some c) \<and> repr s' c = Some kc
       | Ok None \<Rightarrow> r1 = Ok None
       | Err e \<Rightarrow> r1 = Err e
       | Panic p \<Rightarrow> r1 = Panic p)"
    and metadata_view: "inv s \<Longrightarrow> repr s n = Some k \<Longrightarrow> fe_metadata fe cx n s = (r3, s') \<Longrightarrow>
      view s' = view s \<and> (\<forall>n k. repr s n = Some k \<longrightarrow> repr s' n = Some k) \<and>
      r3 = vw_metadata (view s) k"
    and read_link_view: "inv s \<Longrightarrow> repr s n = Some k \<Longrightarrow> fe_read_link fe cx n s = (r5, s') \<Longrightarrow>
      view s' = view s \<and> (\<forall>n k. repr s n = Some k \<longrightarrow> repr s' n = Some k) \<and>
      r5 = vw_link (view s) k"

text \<open>
  A format whose regular files have a content: the size in the metadata is its length and a read
  copies the bytes from the offset on, at least one of them while the offset is inside the file. A
  buffer is a Rust slice, which is never longer than \<^verbatim>\<open>isize::MAX\<close> bytes.
  \<open>has_content s n c\<close> says that the node \<open>n\<close> of the volume \<open>s\<close> is readable with content \<open>c\<close>.
\<close>

locale content_frontend = fold_frontend fe inv
  for fe :: "'s frontend" and inv :: "'s \<Rightarrow> bool" +
  fixes cx :: substrate_ctx and has_content :: "'s \<Rightarrow> node_id \<Rightarrow> bytes \<Rightarrow> bool"
  assumes content_metadata: "inv s \<Longrightarrow> has_content s n c \<Longrightarrow>
      \<exists>md s'. fe_metadata fe cx n s = (Ok md, s') \<and> md_kind md \<noteq> Directory \<and>
        md_size md = length c \<and> has_content s' n c"
    and content_read: "inv s \<Longrightarrow> has_content s n c \<Longrightarrow> off < length c \<Longrightarrow> buf \<noteq> [] \<Longrightarrow> length buf < 2 ^ 63 \<Longrightarrow>
      \<exists>k s'. fe_read_at fe cx n off buf s = (Ok (k, overwrite buf 0 (slice c off (off + k))), s') \<and>
        0 < k \<and> k \<le> length buf \<and> off + k \<le> length c \<and> has_content s' n c"

text \<open>
  A format whose lookups, listings, metadata and link targets agree: a lookup is the search of the
  listing, a listed entry has metadata of the listed kind, and a node that is a symbolic link has
  a target.
\<close>

locale coherent_frontend = fold_frontend +
  assumes lookup_listed: "inv s \<Longrightarrow> fe_lookup fe cx d nm s = (Ok found, s') \<Longrightarrow>
      \<exists>es s''. fe_read_dir fe cx d s = (Ok es, s'') \<and> found = find_entry nm es"
    and entry_kind: "inv s \<Longrightarrow> fe_read_dir fe cx d s = (Ok es, s') \<Longrightarrow> e \<in> set es \<Longrightarrow>
      \<exists>md s''. fe_metadata fe cx (de_node e) s' = (Ok md, s'') \<and> md_kind md = de_kind e"
    and link_target: "inv s \<Longrightarrow> fe_metadata fe cx n s = (Ok md, s') \<Longrightarrow> md_kind md = Symlink \<Longrightarrow>
      fst (fe_read_link fe cx n s') \<noteq> Ok None"
begin

lemma listed_lookup_kind:
  assumes "inv s" and "fe_lookup fe cx d nm s = (Ok (Some n), s')"
  shows "\<exists>es s1 e md s2. fe_read_dir fe cx d s = (Ok es, s1) \<and> e \<in> set es \<and> de_name e = nm \<and>
     de_node e = n \<and> fe_metadata fe cx n s1 = (Ok md, s2) \<and> md_kind md = de_kind e"
proof -
  from lookup_listed [OF assms] obtain es s1 where
    es: "fe_read_dir fe cx d s = (Ok es, s1)" "find_entry nm es = Some n" by auto
  from find_entry_mem [OF es(2)] obtain e where "e \<in> set es" "de_name e = nm" "de_node e = n" by blast
  with es entry_kind [OF assms(1) es(1)] show ?thesis by blast
qed

end

end
