(* ===== verification/Fold_Path.thy ===== *)
theory Fold_Path
  imports Fold_Frontend
begin

text \<open>
  Path-based access (\<^verbatim>\<open>crates/lamfold/src/path.rs\<close>): \<open>resolve\<close> walks the components of a path
  through \<^verbatim>\<open>lookup\<close>, following symbolic links with a limit, and \<open>read_path\<close>, \<open>read_dir_path\<close> and
  \<open>metadata_path\<close> work on the node it finds. The stack of pending components is a list whose head
  is the top. The loop of \<open>resolve\<close> is recursive on the links left and the components pending; the
  loop of \<open>read_path\<close> on the bytes still wanted.
\<close>

definition MAX_SYMLINKS :: nat where
  "MAX_SYMLINKS = 16"

definition slash :: byte where
  "slash = 0x2F"

definition dot :: bytes where
  "dot = [0x2E]"

definition dotdot :: bytes where
  "dotdot = [0x2E, 0x2E]"

definition components :: "bytes \<Rightarrow> bytes list" where
  "components path = filter (\<lambda>c. c \<noteq> [] \<and> c \<noteq> dot) (split_on slash path)"

definition push_components :: "bytes \<Rightarrow> bytes list \<Rightarrow> bytes list" where
  "push_components path stack = fold (\<lambda>c st. c # st) (rev (components path)) stack"

definition err_dotdot :: fold_error where
  "err_dotdot = InvalidPath (CHR 0x27 # ''..'' @ [CHR 0x27] @ '' not supported'')"

function resolve_loop ::
  "'s frontend \<Rightarrow> substrate_ctx \<Rightarrow> node_id \<Rightarrow> bytes list \<Rightarrow> nat \<Rightarrow> 's \<Rightarrow> node_id result \<times> 's" where
  "resolve_loop fe cx node pending links s =
     (case pending of
        [] \<Rightarrow> (Ok node, s)
      | name # rest \<Rightarrow>
          if name = dotdot then (Err err_dotdot, s)
          else op_bind (fe_lookup fe cx node name) (\<lambda>found.
            op_bind (op_return (ok_or found NotFound)) (\<lambda>child.
            op_bind (fe_metadata fe cx child) (\<lambda>md s1.
              if md_kind md = Symlink then
                if links + 1 > MAX_SYMLINKS then (Err (InvalidPath ''too many symlinks''), s1)
                else op_bind (fe_read_link fe cx child) (\<lambda>t.
                  op_bind (op_return (ok_or t (Corrupt ''symlink without a target''))) (\<lambda>target.
                  op_bind (op_return (ok_or (from_utf8 target) (InvalidPath ''non-UTF-8 symlink'')))
                    (\<lambda>target s2.
                    resolve_loop fe cx
                      (if starts_with target [slash] then fe_root fe s2 else node)
                      (push_components target rest) (links + 1) s2))) s1
              else resolve_loop fe cx child rest links s1))) s)"
  by pat_completeness auto
termination
  by (relation "measures [\<lambda>(fe, cx, node, pending, links, s). MAX_SYMLINKS - links,
        \<lambda>(fe, cx, node, pending, links, s). length pending]") auto

declare resolve_loop.simps [simp del]

definition resolve :: "'s frontend \<Rightarrow> substrate_ctx \<Rightarrow> bytes \<Rightarrow> ('s, node_id) op" where
  "resolve fe cx path s = resolve_loop fe cx (fe_root fe s) (push_components path []) 0 s"

text \<open>
  The read loop: \<open>out\<close> is the whole buffer and \<open>dn\<close> the bytes filled so far; each call gets the
  rest of the buffer. A \<^verbatim>\<open>read_at\<close> that claims more than the rest holds would end the loop with
  \<open>dn\<close> past \<open>wanted\<close> and a \<^verbatim>\<open>truncate\<close> that does nothing.
\<close>

function read_loop ::
  "'s frontend \<Rightarrow> substrate_ctx \<Rightarrow> node_id \<Rightarrow> nat \<Rightarrow> bytes \<Rightarrow> nat \<Rightarrow> 's \<Rightarrow> bytes result \<times> 's" where
  "read_loop fe cx node wanted out dn s =
     (if dn < wanted then
        op_bind (fe_read_at fe cx node dn (drop dn out)) (\<lambda>(n, rest) s1.
          if n = 0 then (Ok (take dn (take dn out @ rest)), s1)
          else read_loop fe cx node wanted (take dn out @ rest) (dn + n) s1) s
      else (Ok (take dn out), s))"
  by pat_completeness auto
termination
  by (relation "measure (\<lambda>(fe, cx, node, wanted, out, dn, s). wanted - dn)") auto

declare read_loop.simps [simp del]

definition read_path :: "'s frontend \<Rightarrow> substrate_ctx \<Rightarrow> bytes \<Rightarrow> ('s, bytes) op" where
  "read_path fe cx path =
     op_bind (resolve fe cx path) (\<lambda>node.
     op_bind (fe_metadata fe cx node) (\<lambda>md.
       if md_kind md = Directory then op_return (Err IsDirectory)
       else op_bind (op_return (checked_full_read_len (md_size md))) (\<lambda>total.
         read_loop fe cx node total (replicate total 0) 0)))"

definition read_dir_path :: "'s frontend \<Rightarrow> substrate_ctx \<Rightarrow> bytes \<Rightarrow> ('s, dir_entry list) op" where
  "read_dir_path fe cx path = op_bind (resolve fe cx path) (\<lambda>node. fe_read_dir fe cx node)"

definition metadata_path :: "'s frontend \<Rightarrow> substrate_ctx \<Rightarrow> bytes \<Rightarrow> ('s, metadata) op" where
  "metadata_path fe cx path = op_bind (resolve fe cx path) (\<lambda>node. fe_metadata fe cx node)"


section \<open>Components\<close>

lemma push_components_eq: "push_components path stack = components path @ stack"
proof -
  have "fold (\<lambda>c st. c # st) (rev cs) st = cs @ st" for cs st :: "bytes list"
    by (induction cs arbitrary: st) simp_all
  then show ?thesis by (simp add: push_components_def)
qed

lemma components_no_slash: "c \<in> set (components path) \<Longrightarrow> slash \<notin> set c \<and> c \<noteq> [] \<and> c \<noteq> dot"
  by (auto simp: components_def split_on_no_sep)

lemma components_append: "components (p @ slash # q) = components p @ components q"
  by (simp add: components_def split_on_append_sep)


section \<open>What holds over every format\<close>

text \<open>A step of the loop, with the plumbing of errors unfolded.\<close>

lemma resolve_loop_Cons:
  "name \<noteq> dotdot \<Longrightarrow>
   resolve_loop fe cx node (name # rest) links s =
     (case fe_lookup fe cx node name s of
        (Ok (Some child), s1) \<Rightarrow>
          (case fe_metadata fe cx child s1 of
             (Ok md, s2) \<Rightarrow>
               if md_kind md = Symlink then
                 if links + 1 > MAX_SYMLINKS then (Err (InvalidPath ''too many symlinks''), s2)
                 else (case fe_read_link fe cx child s2 of
                     (Ok (Some t), s3) \<Rightarrow>
                       if utf8_valid t then
                         resolve_loop fe cx (if starts_with t [slash] then fe_root fe s3 else node)
                           (components t @ rest) (links + 1) s3
                       else (Err (InvalidPath ''non-UTF-8 symlink''), s3)
                   | (Ok None, s3) \<Rightarrow> (Err (Corrupt ''symlink without a target''), s3)
                   | (Err e, s3) \<Rightarrow> (Err e, s3)
                   | (Panic p, s3) \<Rightarrow> (Panic p, s3))
               else resolve_loop fe cx child rest links s2
           | (Err e, s2) \<Rightarrow> (Err e, s2)
           | (Panic p, s2) \<Rightarrow> (Panic p, s2))
      | (Ok None, s1) \<Rightarrow> (Err NotFound, s1)
      | (Err e, s1) \<Rightarrow> (Err e, s1)
      | (Panic p, s1) \<Rightarrow> (Panic p, s1))"
  by (subst resolve_loop.simps)
    (auto simp: op_bind_def op_return_def ok_or_def from_utf8_def push_components_eq
      split: prod.splits result.splits option.splits)

lemma resolve_loop_simps [simp]:
  "resolve_loop fe cx node [] links s = (Ok node, s)"
  "resolve_loop fe cx node (dotdot # rest) links s = (Err err_dotdot, s)"
  by (simp_all add: resolve_loop.simps)

text \<open>The induction that the termination measure gives, over any node and volume.\<close>

lemma resolve_induct [case_names Nil Dotdot Step]:
  assumes nil: "\<And>node links s. P node [] links s"
    and dd: "\<And>node rest links s. P node (dotdot # rest) links s"
    and step: "\<And>node name rest links s. name \<noteq> dotdot \<Longrightarrow> (\<And>child s'. P child rest links s') \<Longrightarrow>
      (\<And>nd cs s'. links < MAX_SYMLINKS \<Longrightarrow> P nd (cs @ rest) (links + 1) s') \<Longrightarrow>
      P node (name # rest) links s"
  shows "P node pending links s"
proof (induction "(links, pending)" arbitrary: node links pending s
    rule: wf_induct [OF wf_measures [of "[\<lambda>(links, pending). MAX_SYMLINKS - links, \<lambda>(links, pending). length pending]"]])
  case (1 links pending node s)
  show ?case
  proof (cases pending)
    case (Cons name rest)
    with 1 step dd show ?thesis by (cases "name = dotdot") auto
  qed (simp add: nil)
qed

lemma prod_result_cases:
  obtains (Ok) x s' where "y = (Ok x, s')" | (Err) e s' where "y = (Err e, s')"
    | (Panic) p s' where "y = (Panic p, s')"
  by (cases y; cases "fst y") auto

text \<open>Whatever the format answers, a path with a \<^verbatim>\<open>..\<close> component is never resolved.\<close>

lemma resolve_loop_no_dotdot:
  "resolve_loop fe cx node pending links s = (Ok n, s') \<Longrightarrow> dotdot \<notin> set pending"
proof (induction node pending links s rule: resolve_induct)
  case (Step node name rest links s)
  then show ?case
    by (fastforce simp: resolve_loop_Cons split: prod.splits result.splits option.splits if_splits)
qed (simp_all add: err_dotdot_def)

context fold_frontend
begin

lemma resolve_loop_keeps:
  "inv s \<Longrightarrow> resolve_loop fe cx node pending links s = (r, s') \<Longrightarrow>
     inv s' \<and> fe_root fe s' = fe_root fe s"
proof (induction node pending links s rule: resolve_induct)
  case (Step node name rest links s)
  obtain r1 s1 where l: "fe_lookup fe cx node name s = (r1, s1)" by fastforce
  note k1 = lookup_keeps [OF Step.prems(1) l]
  show ?case
  proof (cases "\<exists>child. r1 = Ok (Some child)")
    case False
    with l k1 Step.prems(2) Step.hyps show ?thesis
      by (auto simp: resolve_loop_Cons split: result.splits option.splits)
  next
    case True
    then obtain child where r1: "r1 = Ok (Some child)" by blast
    obtain r2 s2 where m: "fe_metadata fe cx child s1 = (r2, s2)" by fastforce
    have k2: "inv s2" "fe_root fe s2 = fe_root fe s" using metadata_keeps [OF _ m] k1 by simp_all
    obtain r3 s3 where rl: "fe_read_link fe cx child s2 = (r3, s3)" by fastforce
    have k3: "inv s3" "fe_root fe s3 = fe_root fe s" using read_link_keeps [OF _ rl] k2 by simp_all
    from l r1 m rl Step.prems(2) Step.hyps Step.IH(1) [OF k2(1)] Step.IH(2) [OF _ k3(1)] k2 k3
    show ?thesis
      by (auto simp: resolve_loop_Cons split: result.splits option.splits if_splits)
  qed
qed simp_all

lemma resolve_keeps:
  "inv s \<Longrightarrow> resolve fe cx path s = (r, s') \<Longrightarrow> inv s' \<and> fe_root fe s' = fe_root fe s"
  by (simp add: resolve_def resolve_loop_keeps)

lemma read_loop_length:
  assumes "inv s" and "read_loop fe cx node want out dn s = (r, s')" and "dn \<le> want" and "length out = want"
  shows "inv s' \<and> fe_root fe s' = fe_root fe s \<and> (\<forall>bs. r = Ok bs \<longrightarrow> length bs \<le> want)"
  using assms
proof (induction "want - dn" arbitrary: out dn s rule: less_induct)
  case less
  show ?case
  proof (cases "dn < want")
    case False
    with less.prems show ?thesis by (auto simp: read_loop.simps)
  next
    case True
    obtain q s1 where q: "fe_read_at fe cx node dn (drop dn out) s = (q, s1)" by fastforce
    note k = read_at_keeps [OF less.prems(1) q]
    show ?thesis
    proof (cases q)
      case (Ok v)
      then obtain n rest where v: "q = Ok (n, rest)" by (cases v) auto
      with q read_at_len [OF less.prems(1)] less.prems
      have n: "n \<le> want - dn" "length rest = want - dn" by fastforce+
      show ?thesis
      proof (cases "n = 0")
        case True
        with \<open>dn < want\<close> q v less.prems k n show ?thesis
          by (auto simp: read_loop.simps [of _ _ _ want] op_bind_def)
      next
        case False
        then have eq: "read_loop fe cx node want (take dn out @ rest) (dn + n) s1 = (r, s')"
          using \<open>dn < want\<close> q v less.prems(2) by (simp add: read_loop.simps [of _ _ _ want out] op_bind_def)
        show ?thesis
          using less.hyps [OF _ _ eq] False True k n less.prems(4) by auto
      qed
    qed (use q less.prems(2) k True in \<open>auto simp: read_loop.simps [of _ _ _ want] op_bind_def\<close>)
  qed
qed

lemma read_path_length:
  assumes "inv s" and "read_path fe cx path s = (Ok bs, s')"
  shows "length bs \<le> MAX_BOOT_FILE_BYTES" and "inv s'"
proof -
  from assms(2) obtain node s1 md s2 where
    r: "resolve fe cx path s = (Ok node, s1)" "fe_metadata fe cx node s1 = (Ok md, s2)"
    "md_size md \<le> MAX_BOOT_FILE_BYTES"
    "read_loop fe cx node (md_size md) (replicate (md_size md) 0) 0 s2 = (Ok bs, s')"
    by (auto simp: read_path_def result_simps split: if_splits)
  have "inv s1" using resolve_keeps [OF assms(1) r(1)] by simp
  then have "inv s2" using metadata_keeps [OF _ r(2)] by simp
  from read_loop_length [OF this r(4)] r(3)
  show "length bs \<le> MAX_BOOT_FILE_BYTES" "inv s'" by auto
qed

end


context path_safe_frontend
begin

lemma resolve_loop_safe:
  "inv s \<Longrightarrow> no_panic (fst (resolve_loop fe cx node pending links s))"
proof (induction node pending links s rule: resolve_induct)
  case (Step node name rest links s)
  obtain r1 s1 where l: "fe_lookup fe cx node name s = (r1, s1)" by fastforce
  have k1: "inv s1" "no_panic r1"
    using lookup_keeps [OF Step.prems l] lookup_safe [OF Step.prems, of cx node name] l by simp_all
  show ?case
  proof (cases "\<exists>child. r1 = Ok (Some child)")
    case False
    with l k1 Step.hyps show ?thesis
      by (auto simp: resolve_loop_Cons split: result.splits option.splits)
  next
    case True
    then obtain child where r1: "r1 = Ok (Some child)" by blast
    obtain r2 s2 where m: "fe_metadata fe cx child s1 = (r2, s2)" by fastforce
    have k2: "inv s2" "no_panic r2"
      using metadata_keeps [OF k1(1) m] metadata_safe [OF k1(1), of cx child] m by simp_all
    obtain r3 s3 where rl: "fe_read_link fe cx child s2 = (r3, s3)" by fastforce
    have k3: "inv s3" "no_panic r3"
      using read_link_keeps [OF k2(1) rl] read_link_safe [OF k2(1), of cx child] rl by simp_all
    from l r1 m rl Step.hyps Step.IH(1) [OF k2(1)] Step.IH(2) [OF _ k3(1)] k2 k3
    show ?thesis
      by (auto simp: resolve_loop_Cons split: result.splits option.splits)
  qed
qed simp_all

lemma resolve_safe: "inv s \<Longrightarrow> no_panic (fst (resolve fe cx path s))"
  by (simp add: resolve_def resolve_loop_safe)

lemma read_loop_safe:
  "inv s \<Longrightarrow> safe_off s node dn \<Longrightarrow> no_panic (fst (read_loop fe cx node want out dn s))"
proof (induction "want - dn" arbitrary: out dn s rule: less_induct)
  case less
  show ?case
  proof (cases "dn < want")
    case True
    have "no_panic (fst (if n = 0 then (Ok (take dn (take dn out @ rest)), s1)
        else read_loop fe cx node want (take dn out @ rest) (dn + n) s1))"
      if r: "fe_read_at fe cx node dn (drop dn out) s = (Ok (n, rest), s1)" for n rest s1
      using less.hyps [of "dn + n" s1] read_at_keeps [OF less.prems(1) r]
        safe_next [OF less.prems r] True by auto
    then show ?thesis
      using read_at_safe_off [OF less.prems, of cx "drop dn out"]
      by (subst read_loop.simps) (auto simp: no_panic_op_bind)
  qed (simp add: read_loop.simps)
qed

lemma read_path_safe:
  assumes "inv s"
  shows "no_panic (fst (read_path fe cx path s))"
  unfolding read_path_def
proof (rule op_bind_safe, rule resolve_safe [OF assms])
  fix node s1 assume "resolve fe cx path s = (Ok node, s1)"
  then have i1: "inv s1" using resolve_keeps [OF assms] by blast
  have "no_panic (fst (op_bind (op_return (checked_full_read_len (md_size md)))
      (\<lambda>want. read_loop fe cx node want (replicate want 0) 0) s2))"
    if "fe_metadata fe cx node s1 = (Ok md, s2)" for md s2
    using metadata_keeps [OF i1 that] by (intro op_bind_safe) (simp_all add: read_loop_safe safe_start result_simps)
  then show "no_panic (fst (op_bind (fe_metadata fe cx node) (\<lambda>md.
      if md_kind md = Directory then op_return (Err IsDirectory)
      else op_bind (op_return (checked_full_read_len (md_size md))) (\<lambda>want.
        read_loop fe cx node want (replicate want 0) 0)) s1))"
    using metadata_safe [OF i1] by (intro op_bind_safe) simp_all
qed

lemma read_dir_path_safe: "inv s \<Longrightarrow> no_panic (fst (read_dir_path fe cx path s))"
  using resolve_safe resolve_keeps read_dir_safe
  by (fastforce simp: read_dir_path_def no_panic_simps)

lemma metadata_path_safe: "inv s \<Longrightarrow> no_panic (fst (metadata_path fe cx path s))"
  using resolve_safe resolve_keeps metadata_safe
  by (fastforce simp: metadata_path_def no_panic_simps)

end


section \<open>Resolution against the abstract tree\<close>

text \<open>
  What a path means in the tree: \<open>walk V k cs j k'\<close> says that following the components \<open>cs\<close> from
  \<open>k\<close> and expanding \<open>j\<close> symbolic links leads to \<open>k'\<close>. A relative target is followed from the
  directory that holds the link, an absolute one from the root.
\<close>

inductive walk :: "'k view \<Rightarrow> 'k \<Rightarrow> bytes list \<Rightarrow> nat \<Rightarrow> 'k \<Rightarrow> bool" for V where
  walk_done: "walk V k [] 0 k"
| walk_child: "c \<noteq> dotdot \<Longrightarrow> vw_lookup V k c = Ok (Some k1) \<Longrightarrow> vw_metadata V k1 = Ok md \<Longrightarrow>
    md_kind md \<noteq> Symlink \<Longrightarrow> walk V k1 cs j k' \<Longrightarrow> walk V k (c # cs) j k'"
| walk_link: "c \<noteq> dotdot \<Longrightarrow> vw_lookup V k c = Ok (Some k1) \<Longrightarrow> vw_metadata V k1 = Ok md \<Longrightarrow>
    md_kind md = Symlink \<Longrightarrow> vw_link V k1 = Ok (Some t) \<Longrightarrow> utf8_valid t \<Longrightarrow>
    walk V (if starts_with t [slash] then vw_root V else k) (components t @ cs) j k' \<Longrightarrow>
    walk V k (c # cs) (Suc j) k'"

inductive_cases walk_NilE [elim!]: "walk V k [] j k'"
inductive_cases walk_ConsE: "walk V k (c # cs) j k'"

lemma walk_no_dotdot: "walk V k cs j k' \<Longrightarrow> dotdot \<notin> set cs"
  by (induction rule: walk.induct) auto

text \<open>The tree is a function: a path leads to at most one key.\<close>

lemma walk_deterministic:
  "walk V k cs j k' \<Longrightarrow> walk V k cs i k'' \<Longrightarrow> i = j \<and> k'' = k'"
proof (induction arbitrary: i k'' rule: walk.induct)
  case (walk_child c k k1 md cs j k')
  from walk_child.prems show ?case
  proof (rule walk_ConsE)
    fix k1' md'
    assume a: "vw_lookup V k c = Ok (Some k1')" "walk V k1' cs i k''"
    have "k1' = k1" using a(1) walk_child.hyps(2) by simp
    from walk_child.IH [OF a(2) [unfolded this]] show ?thesis .
  qed (use walk_child.hyps in simp)
next
  case (walk_link c k k1 md t cs j k')
  from walk_link.prems show ?case
  proof (rule walk_ConsE)
    fix k1' md' t' j'
    assume a: "vw_lookup V k c = Ok (Some k1')" "vw_link V k1' = Ok (Some t')" "i = Suc j'"
      "walk V (if starts_with t' [slash] then vw_root V else k) (components t' @ cs) j' k''"
    have "k1' = k1" using a(1) walk_link.hyps(2) by simp
    then have "t' = t" using a(2) walk_link.hyps(5) by simp
    from walk_link.IH [OF a(4) [unfolded this]] a(3) show ?thesis by simp
  qed (use walk_link.hyps in simp)
qed auto

context tree_frontend
begin

lemma resolve_loop_sound:
  "inv s \<Longrightarrow> repr s node = Some k \<Longrightarrow> resolve_loop fe cx node pending links s = (Ok n, s') \<Longrightarrow>
     links \<le> MAX_SYMLINKS \<Longrightarrow>
     \<exists>k' j. repr s' n = Some k' \<and> walk (view s) k pending j k' \<and> links + j \<le> MAX_SYMLINKS"
proof (induction node pending links s arbitrary: k rule: resolve_induct)
  case (Nil node links s)
  then show ?case by (auto intro: walk_done)
next
  case (Step node name rest links s)
  obtain r1 s1 where l: "fe_lookup fe cx node name s = (r1, s1)" by fastforce
  with Step.prems(3) Step.hyps obtain child where r1: "r1 = Ok (Some child)"
    by (auto simp: resolve_loop_Cons split: result.splits option.splits)
  note v1 = lookup_view [OF Step.prems(1,2) l]
  with r1 obtain kc where kc: "vw_lookup (view s) k name = Ok (Some kc)" "repr s1 child = Some kc"
    by (auto split: result.splits option.splits)
  have i1: "inv s1" "fe_root fe s1 = fe_root fe s" using lookup_keeps [OF Step.prems(1) l] by simp_all
  obtain r2 s2 where m: "fe_metadata fe cx child s1 = (r2, s2)" by fastforce
  with Step.prems(3) Step.hyps l r1 obtain md where r2: "r2 = Ok md"
    by (auto simp: resolve_loop_Cons split: result.splits)
  note v2 = metadata_view [OF i1(1) kc(2) m]
  have i2: "inv s2" "fe_root fe s2 = fe_root fe s" using metadata_keeps [OF i1(1) m] i1 by simp_all
  have md: "vw_metadata (view s) kc = Ok md" using v1 v2 r2 by simp
  show ?case
  proof (cases "md_kind md = Symlink")
    case False
    then have "resolve_loop fe cx child rest links s2 = (Ok n, s')"
      using Step.prems(3) Step.hyps l r1 m r2 by (simp add: resolve_loop_Cons)
    with Step.IH(1) [OF i2(1)] v1 v2 kc(2) Step.prems(4) obtain k' j where
      "repr s' n = Some k'" "walk (view s) kc rest j k'" "links + j \<le> MAX_SYMLINKS" by force
    with Step.hyps kc md False show ?thesis by (blast intro: walk_child)
  next
    case True
    obtain r3 s3 where rl: "fe_read_link fe cx child s2 = (r3, s3)" by fastforce
    let ?loop = "\<lambda>t. resolve_loop fe cx (if starts_with t [slash] then fe_root fe s3 else node)
      (components t @ rest) (links + 1) s3"
    from True Step.prems(3) Step.hyps l r1 m r2 rl obtain t where
      t: "r3 = Ok (Some t)" "utf8_valid t" "links < MAX_SYMLINKS" "?loop t = (Ok n, s')"
      by (auto simp: resolve_loop_Cons split: result.splits option.splits if_splits)
    have k2: "repr s2 child = Some kc" using v2 kc(2) by blast
    note v3 = read_link_view [OF i2(1) k2 rl]
    have i3: "inv s3" "fe_root fe s3 = fe_root fe s" using read_link_keeps [OF i2(1) rl] i2 by simp_all
    have vs: "view s3 = view s" using v1 v2 v3 by simp
    have "repr s3 (if starts_with t [slash] then fe_root fe s3 else node) =
        Some (if starts_with t [slash] then vw_root (view s) else k)"
      using root_repr [OF i3(1)] v1 v2 v3 Step.prems(2) vs by auto
    from Step.IH(2) [OF t(3) i3(1) this t(4)] t(3) vs obtain k' j where
      "repr s' n = Some k'" "links + Suc j \<le> MAX_SYMLINKS"
      "walk (view s) (if starts_with t [slash] then vw_root (view s) else k) (components t @ rest) j k'"
      by fastforce
    moreover have "vw_link (view s) kc = Ok (Some t)" using v1 v2 v3 t(1) by simp
    ultimately show ?thesis using Step.hyps kc md True t(2) by (blast intro: walk_link)
  qed
qed simp

lemma resolve_loop_complete:
  assumes "walk V k pending j k'" and "inv s" and "repr s node = Some k"
    and "links + j \<le> MAX_SYMLINKS" and "view s = V"
  shows "\<exists>n s'. resolve_loop fe cx node pending links s = (Ok n, s') \<and> repr s' n = Some k'"
  using assms
proof (induction arbitrary: s node links rule: walk.induct)
  case (walk_done k)
  then show ?case by auto
next
  case (walk_child c k k1 md cs j k')
  obtain r1 s1 where l: "fe_lookup fe cx node c s = (r1, s1)" by fastforce
  note v1 = lookup_view [OF walk_child.prems(1,2) l]
  with walk_child.hyps walk_child.prems(4) obtain child where r1: "r1 = Ok (Some child)" "repr s1 child = Some k1" by auto
  have i1: "inv s1" using lookup_keeps [OF walk_child.prems(1) l] by simp
  obtain r2 s2 where m: "fe_metadata fe cx child s1 = (r2, s2)" by fastforce
  note v2 = metadata_view [OF i1 r1(2) m]
  have i2: "inv s2" using metadata_keeps [OF i1 m] by simp
  have "view s2 = V" "repr s2 child = Some k1" "r2 = Ok md"
    using v1 v2 r1(2) walk_child.hyps walk_child.prems(4) by auto
  with walk_child.IH [of s2 child links] i2 walk_child.hyps walk_child.prems l r1 m show ?case
    by (simp add: resolve_loop_Cons)
next
  case (walk_link c k k1 md t cs j k')
  obtain r1 s1 where l: "fe_lookup fe cx node c s = (r1, s1)" by fastforce
  note v1 = lookup_view [OF walk_link.prems(1,2) l]
  with walk_link.hyps walk_link.prems(4) obtain child where r1: "r1 = Ok (Some child)" "repr s1 child = Some k1" by auto
  have i1: "inv s1" "fe_root fe s1 = fe_root fe s"
    using lookup_keeps [OF walk_link.prems(1) l] by simp_all
  obtain r2 s2 where m: "fe_metadata fe cx child s1 = (r2, s2)" by fastforce
  note v2 = metadata_view [OF i1(1) r1(2) m]
  have i2: "inv s2" using metadata_keeps [OF i1(1) m] by simp
  have s2: "view s2 = V" "repr s2 child = Some k1" "r2 = Ok md"
    using v1 v2 r1(2) walk_link.hyps walk_link.prems(4) by auto
  obtain r3 s3 where rl: "fe_read_link fe cx child s2 = (r3, s3)" by fastforce
  note v3 = read_link_view [OF i2 s2(2) rl]
  have i3: "inv s3" using read_link_keeps [OF i2 rl] by simp
  have s3: "view s3 = V" "r3 = Ok (Some t)" using s2 v3 walk_link.hyps by simp_all
  have "repr s3 (if starts_with t [slash] then fe_root fe s3 else node) =
      Some (if starts_with t [slash] then vw_root V else k)"
    using root_repr [OF i3] v1 v2 v3 walk_link.prems(2) s3 by auto
  with walk_link.IH [of s3 _ "links + 1"] i3 walk_link.hyps walk_link.prems l r1 m s2 rl s3
  show ?case by (simp add: resolve_loop_Cons)
qed

text \<open>Resolution finds exactly what the tree says, up to the limit on links.\<close>

lemma resolve_iff_walk:
  assumes "inv s"
  shows "(\<exists>n s'. resolve fe cx path s = (Ok n, s') \<and> repr s' n = Some k) \<longleftrightarrow>
     (\<exists>j \<le> MAX_SYMLINKS. walk (view s) (vw_root (view s)) (components path) j k)"
proof
  assume "\<exists>n s'. resolve fe cx path s = (Ok n, s') \<and> repr s' n = Some k"
  then show "\<exists>j \<le> MAX_SYMLINKS. walk (view s) (vw_root (view s)) (components path) j k"
    using resolve_loop_sound [OF assms root_repr [OF assms]]
    by (fastforce simp: resolve_def push_components_eq)
next
  assume "\<exists>j \<le> MAX_SYMLINKS. walk (view s) (vw_root (view s)) (components path) j k"
  then show "\<exists>n s'. resolve fe cx path s = (Ok n, s') \<and> repr s' n = Some k"
    using resolve_loop_complete [OF _ assms root_repr [OF assms], of "view s" _ _ _ 0]
    by (auto simp: resolve_def push_components_eq)
qed

lemma resolve_ok_repr:
  assumes "inv s" and "resolve fe cx path s = (Ok n, s')"
  shows "\<exists>k. repr s' n = Some k"
  using resolve_loop_sound [OF assms(1) root_repr [OF assms(1)]] assms(2)
  by (fastforce simp: resolve_def)

end


section \<open>Whole-file reads\<close>

context content_frontend
begin

lemma read_loop_content:
  assumes "inv s" and "has_content s node c" and "dn \<le> length c"
    and "length out = length c" and "take dn out = take dn c" and "length c < 2 ^ 63"
  shows "\<exists>s'. read_loop fe cx node (length c) out dn s = (Ok c, s')"
  using assms
proof (induction "length c - dn" arbitrary: out dn s rule: less_induct)
  case less
  show ?case
  proof (cases "dn < length c")
    case False
    with less.prems show ?thesis by (simp add: read_loop.simps)
  next
    case True
    then have "drop dn out \<noteq> []" using less.prems(4) by simp
    moreover have "length (drop dn out) < 2 ^ 63" using less.prems(4,6) by simp
    ultimately obtain k s1 where
      k: "fe_read_at fe cx node dn (drop dn out) s =
            (Ok (k, overwrite (drop dn out) 0 (slice c dn (dn + k))), s1)"
      "0 < k" "dn + k \<le> length c" "has_content s1 node c"
      using content_read [OF less.prems(1,2) True] by blast
    let ?out = "take dn out @ overwrite (drop dn out) 0 (slice c dn (dn + k))"
    have len: "length (slice c dn (dn + k)) = k" using k(3) by simp
    have "take (dn + k) ?out = take dn out @ slice c dn (dn + k)"
      using less.prems(3,4) k(3) len by (simp add: overwrite_0)
    also have "\<dots> = take (dn + k) c"
      using less.prems(5) k(3) by (simp add: slice_def take_add)
    finally have pre: "take (dn + k) ?out = take (dn + k) c" .
    have lo: "length ?out = length c" using less.prems(3,4) k(3) len by (simp add: overwrite_0)
    have "inv s1" using read_at_keeps [OF less.prems(1) k(1)] by simp
    moreover have "length c - (dn + k) < length c - dn" using k(2) True by simp
    ultimately obtain s' where
      "read_loop fe cx node (length c) ?out (dn + k) s1 = (Ok c, s')"
      using less.hyps [OF _ _ k(4,3) lo pre less.prems(6)] by blast
    then show ?thesis using k(1,2) True
      by (subst read_loop.simps) (simp add: op_bind_def)
  qed
qed

lemma read_path_content:
  assumes "inv s" and "resolve fe cx path s = (Ok node, s1)" and "has_content s1 node c"
    and "length c \<le> MAX_BOOT_FILE_BYTES"
  shows "\<exists>s'. read_path fe cx path s = (Ok c, s')"
proof -
  have i1: "inv s1" using resolve_keeps [OF assms(1,2)] by simp
  from content_metadata [OF i1 assms(3)] obtain md s2 where
    md: "fe_metadata fe cx node s1 = (Ok md, s2)" "md_kind md \<noteq> Directory" "md_size md = length c"
    "has_content s2 node c" by blast
  have i2: "inv s2" using metadata_keeps [OF i1 md(1)] by simp
  have "\<exists>s'. read_loop fe cx node (length c) (replicate (length c) 0) 0 s2 = (Ok c, s')"
    using read_loop_content [OF i2 md(4), of 0] assms(4) by (simp add: MAX_BOOT_FILE_BYTES_def)
  moreover have "checked_full_read_len (md_size md) = Ok (length c)"
    using assms(4) md(3) by (simp add: checked_full_read_len_eq_Ok)
  ultimately show ?thesis using assms(2) md by (simp add: read_path_def op_bind_def op_return_def)
qed

lemma read_path_too_large:
  assumes "inv s" and "resolve fe cx path s = (Ok node, s1)" and "has_content s1 node c"
    and "MAX_BOOT_FILE_BYTES < length c"
  shows "fst (read_path fe cx path s) = Err (FileTooLarge (length c) MAX_BOOT_FILE_BYTES)"
proof -
  have i1: "inv s1" using resolve_keeps [OF assms(1,2)] by simp
  from content_metadata [OF i1 assms(3)] obtain md s2 where
    md: "fe_metadata fe cx node s1 = (Ok md, s2)" "md_kind md \<noteq> Directory" "md_size md = length c"
    by blast
  then show ?thesis using assms(2,4)
    by (simp add: read_path_def op_bind_def op_return_def checked_full_read_len_reject)
qed

end

end
