(* ===== verification/Romfs.thy ===== *)
theory Romfs
  imports Fold_Path
begin

text \<open>
  The romfs reader (\<^verbatim>\<open>crates/lamfold-romfs/src/romfs.rs\<close>). A volume is its source and the
  offset of the first file header, which is the root; a node is a header's offset. No method
  changes the volume.
\<close>

definition ROMFS_MAGIC :: bytes where
  "ROMFS_MAGIC = [0x2D, 0x72, 0x6F, 0x6D, 0x31, 0x66, 0x73, 0x2D]"

definition MAX_NAME :: nat where
  "MAX_NAME = 256"

definition MAX_LINK_HOPS :: nat where
  "MAX_LINK_HOPS = 8"

definition FT_HARDLINK :: nat where "FT_HARDLINK = 0"
definition FT_DIRECTORY :: nat where "FT_DIRECTORY = 1"
definition FT_REGULAR :: nat where "FT_REGULAR = 2"
definition FT_SYMLINK :: nat where "FT_SYMLINK = 3"

record rom_header =
  rh_next_off :: nat
  rh_ftype :: nat
  rh_info :: nat
  rh_size :: nat
  rh_name :: bytes
  rh_data_off :: nat

record romfs =
  ro_src :: block_source
  ro_first_hdr :: nat

definition rom_be_u32 :: "bytes \<Rightarrow> nat \<Rightarrow> nat result" where
  "rom_be_u32 = be_field ''romfs: truncated u32'' 4"

text \<open>\<^verbatim>\<open>(n + 15) & !15\<close> on \<^verbatim>\<open>usize\<close>: the low four bits are cleared.\<close>

definition align16 :: "nat \<Rightarrow> nat" where
  "align16 n = (n + 15) AND (2 ^ 64 - 16)"

text \<open>The window starts with at least 16 bytes, so the name slice \<^verbatim>\<open>win[16..]\<close> is in range.\<close>

definition read_header :: "romfs \<Rightarrow> nat \<Rightarrow> rom_header result" where
  "read_header ro off =
     (let avail = min (16 + MAX_NAME) (src_len (ro_src ro) - off) in
      if avail < 16 then Err (Corrupt ''romfs: truncated header'')
      else
        and_then (src_read (ro_src ro) off avail) (\<lambda>win.
        and_then (rom_be_u32 win 0) (\<lambda>next_raw.
        and_then (rom_be_u32 win 4) (\<lambda>info.
        and_then (rom_be_u32 win 8) (\<lambda>sz.
        and_then (index_range win 16 (length win)) (\<lambda>name_bytes.
        and_then (ok_or (position (\<lambda>b. b = 0) name_bytes) (Corrupt ''romfs: unterminated name'')) (\<lambda>nul.
        and_then (uadd 64 off 16) (\<lambda>o1.
        and_then (uadd 64 o1 (align16 (nul + 1))) (\<lambda>data_off.
          Ok \<lparr>rh_next_off = next_raw AND 0xFFFFFFF0,
              rh_ftype = next_raw AND 7,
              rh_info = info,
              rh_size = sz,
              rh_name = from_utf8_lossy (take nul name_bytes),
              rh_data_off = data_off\<rparr>)))))))))"

text \<open>The loop of \<^verbatim>\<open>resolved_header\<close>: \<open>hops\<close> iterations are left.\<close>

fun resolve_hops :: "romfs \<Rightarrow> nat \<Rightarrow> nat \<Rightarrow> (nat \<times> rom_header) result" where
  "resolve_hops ro 0 off = Err (Corrupt ''romfs: hard link chain too long'')"
| "resolve_hops ro (Suc hops) off =
     and_then (read_header ro off) (\<lambda>h.
       if rh_ftype h \<noteq> FT_HARDLINK then Ok (off, h)
       else resolve_hops ro hops (rh_info h))"

definition resolved_header :: "romfs \<Rightarrow> nat \<Rightarrow> (nat \<times> rom_header) result" where
  "resolved_header ro off = resolve_hops ro (MAX_LINK_HOPS + 1) off"

definition rom_kind :: "nat \<Rightarrow> file_kind" where
  "rom_kind ftype =
     (if ftype = FT_DIRECTORY then Directory
      else if ftype = FT_REGULAR then Regular
      else if ftype = FT_SYMLINK then Symlink
      else Other)"

definition romfs_probe :: "block_source \<Rightarrow> bool result" where
  "romfs_probe src =
     (if src_len src < 16 then Ok False
      else and_then (src_read src 0 8) (\<lambda>m. Ok (m = ROMFS_MAGIC)))"

text \<open>The header buffer has 272 bytes, of which the first \<open>avail\<close> are read.\<close>

definition romfs_open :: "block_source \<Rightarrow> romfs result" where
  "romfs_open src =
     (if src_len src < 16 then Err (Corrupt ''romfs: shorter than header'')
      else
        let avail = min (16 + MAX_NAME) (src_len src) in
        and_then (src_read src 0 avail) (\<lambda>bs.
        let head = overwrite (replicate (16 + MAX_NAME) 0) 0 bs in
        if take 8 head \<noteq> ROMFS_MAGIC then Err (Corrupt ''romfs: bad magic'')
        else
          and_then (index_range head 16 avail) (\<lambda>name.
          and_then (ok_or (position (\<lambda>b. b = 0) name) (Corrupt ''romfs: unterminated volume name'')) (\<lambda>nul.
            Ok \<lparr>ro_src = src, ro_first_hdr = 16 + align16 (nul + 1)\<rparr>))))"

definition romfs_root :: "romfs \<Rightarrow> node_id" where
  "romfs_root ro = ro_first_hdr ro"

text \<open>The walk along \<^verbatim>\<open>next\<close>, at most \<open>steps\<close> headers long.\<close>

fun romfs_list :: "romfs \<Rightarrow> nat \<Rightarrow> nat \<Rightarrow> dir_entry list result" where
  "romfs_list ro 0 off = Ok []"
| "romfs_list ro (Suc steps) off =
     (if off = 0 then Ok []
      else
        and_then (read_header ro off) (\<lambda>h.
        and_then
          (if rh_name h \<noteq> dot \<and> rh_name h \<noteq> dotdot then
             and_then (resolved_header ro off) (\<lambda>(node, target).
               Ok [\<lparr>de_name = rh_name h, de_node = node, de_kind = rom_kind (rh_ftype target)\<rparr>])
           else Ok []) (\<lambda>es.
        and_then (romfs_list ro steps (rh_next_off h)) (\<lambda>rest. Ok (es @ rest)))))"

definition romfs_read_dir :: "romfs \<Rightarrow> node_id \<Rightarrow> dir_entry list result" where
  "romfs_read_dir ro dir =
     and_then (resolved_header ro dir) (\<lambda>(_, head).
       if rh_ftype head \<noteq> FT_DIRECTORY then Err NotDirectory
       else romfs_list ro 1000000 (rh_info head))"

definition romfs_lookup :: "romfs \<Rightarrow> node_id \<Rightarrow> bytes \<Rightarrow> node_id option result" where
  "romfs_lookup ro dir name = and_then (romfs_read_dir ro dir) (\<lambda>es. Ok (find_entry name es))"

definition romfs_metadata :: "romfs \<Rightarrow> node_id \<Rightarrow> metadata result" where
  "romfs_metadata ro node =
     and_then (resolved_header ro node) (\<lambda>(_, h).
       Ok \<lparr>md_kind = rom_kind (rh_ftype h), md_size = rh_size h, md_mode = 0\<rparr>)"

definition romfs_read_at :: "romfs \<Rightarrow> node_id \<Rightarrow> nat \<Rightarrow> bytes \<Rightarrow> (nat \<times> bytes) result" where
  "romfs_read_at ro node off buf =
     and_then (resolved_header ro node) (\<lambda>(_, h).
       if rh_ftype h = FT_DIRECTORY then Err IsDirectory
       else if off \<ge> rh_size h then Ok (0, buf)
       else
         let n = min (length buf) (rh_size h - off) in
         and_then (uadd 64 (rh_data_off h) off) (\<lambda>at.
         and_then (src_read (ro_src ro) at n) (\<lambda>bs. Ok (n, overwrite buf 0 bs))))"

definition romfs_read_link :: "romfs \<Rightarrow> node_id \<Rightarrow> bytes option result" where
  "romfs_read_link ro node =
     and_then (resolved_header ro node) (\<lambda>(_, h).
       if rh_ftype h \<noteq> FT_SYMLINK then Ok None
       else
         and_then (checked_full_read_len (rh_size h)) (\<lambda>len.
         and_then (src_read (ro_src ro) (rh_data_off h) len) (\<lambda>target. Ok (Some target))))"

definition romfs_frontend :: "romfs frontend" where
  "romfs_frontend =
     \<lparr>fe_root = romfs_root,
      fe_lookup = (\<lambda>cx dir name ro. (romfs_lookup ro dir name, ro)),
      fe_read_dir = (\<lambda>cx dir ro. (romfs_read_dir ro dir, ro)),
      fe_metadata = (\<lambda>cx node ro. (romfs_metadata ro node, ro)),
      fe_read_at = (\<lambda>cx node off buf ro. (romfs_read_at ro node off buf, ro)),
      fe_read_link = (\<lambda>cx node ro. (romfs_read_link ro node, ro))\<rparr>"


section \<open>The contract\<close>

definition romfs_ok :: "romfs \<Rightarrow> bool" where
  "romfs_ok ro \<longleftrightarrow> sound_source (ro_src ro)"

lemma align16_le: "align16 n \<le> n + 15"
  unfolding align16_def by (rule nat_and_le')

lemma read_header_safe:
  assumes "romfs_ok ro"
  shows "no_panic (read_header ro off)"
proof -
  let ?avail = "min (16 + MAX_NAME) (src_len (ro_src ro) - off)"
  have src: "sound_source (ro_src ro)" using assms by (simp add: romfs_ok_def)
  have "off + 16 < 2 ^ 64 \<and> off + 16 + align16 (nul + 1) < 2 ^ 64"
    if "16 \<le> ?avail" "src_read (ro_src ro) off ?avail = Ok win" "length win = ?avail"
      "position (\<lambda>b. b = 0) (slice win 16 (length win)) = Some nul" for win nul
  proof -
    have "off + ?avail < 2 ^ 63" using src_read_bound [OF src that(2)] .
    moreover have "nul < ?avail - 16" using position_less [OF that(4)] that(1,3) by simp
    ultimately show ?thesis using that(1) align16_le [of "nul + 1"] by auto
  qed
  then show ?thesis
    using src src_read_fills [OF src, of off ?avail]
    by (auto simp: read_header_def Let_def no_panic_simps index_range_eq_Ok ok_or_eq_Ok uadd_eq_Ok rom_be_u32_def)
qed

lemma resolve_hops_safe: "romfs_ok ro \<Longrightarrow> no_panic (resolve_hops ro hops off)"
  by (induction hops arbitrary: off) (simp_all add: no_panic_simps read_header_safe)

lemma resolved_header_safe [no_panic_simps]: "romfs_ok ro \<Longrightarrow> no_panic (resolved_header ro off)"
  unfolding resolved_header_def by (rule resolve_hops_safe)

lemma romfs_list_safe: "romfs_ok ro \<Longrightarrow> no_panic (romfs_list ro steps off)"
  by (induction steps arbitrary: off) (simp_all add: no_panic_simps read_header_safe split: prod.splits)

text \<open>What a header read from the medium satisfies.\<close>

lemma read_header_Ok:
  assumes "romfs_ok ro" and "read_header ro off = Ok h"
  shows "rh_size h < 2 ^ 32" and "rh_info h < 2 ^ 32" and "rh_next_off h < 2 ^ 32"
    and "rh_data_off h < 2 ^ 63 + 15"
    and "utf8_valid (rh_name h)"
proof -
  let ?avail = "min (16 + MAX_NAME) (src_len (ro_src ro) - off)"
  have src: "sound_source (ro_src ro)" using assms by (simp add: romfs_ok_def)
  from assms(2) obtain win nr info sz nul where
    r: "src_read (ro_src ro) off ?avail = Ok win" "rom_be_u32 win 0 = Ok nr"
    "rom_be_u32 win 4 = Ok info" "rom_be_u32 win 8 = Ok sz" "16 \<le> ?avail"
    "position (\<lambda>b. b = 0) (slice win 16 (length win)) = Some nul"
    and h: "h = \<lparr>rh_next_off = nr AND 0xFFFFFFF0, rh_ftype = nr AND 7, rh_info = info, rh_size = sz,
      rh_name = from_utf8_lossy (take nul (slice win 16 (length win))),
      rh_data_off = off + 16 + align16 (nul + 1)\<rparr>"
    by (auto simp: read_header_def Let_def result_simps split: if_splits)
  have "nr AND 0xFFFFFFF0 \<le> 0xFFFFFFF0" by (rule nat_and_le)
  with r(2-4) show "rh_size h < 2 ^ 32" "rh_info h < 2 ^ 32" "rh_next_off h < 2 ^ 32"
    by (auto simp: rom_be_u32_def h dest!: be_field_less)
  have "length win = ?avail" using src_read_fills [OF src r(1)] .
  then have "nul < ?avail - 16" using position_less [OF r(6)] r(5) by simp
  then show "rh_data_off h < 2 ^ 63 + 15"
    using src_read_bound [OF src r(1)] align16_le [of "nul + 1"] h by simp
  show "utf8_valid (rh_name h)" by (simp add: h from_utf8_lossy_valid)
qed

lemma resolve_hops_Ok:
  "resolve_hops ro hops off = Ok (n, h) \<Longrightarrow> read_header ro n = Ok h \<and> rh_ftype h \<noteq> FT_HARDLINK"
  by (induction hops arbitrary: off) (auto simp: and_then_eq_Ok split: if_splits)

lemma resolved_header_Ok:
  "resolved_header ro off = Ok (n, h) \<Longrightarrow> read_header ro n = Ok h \<and> rh_ftype h \<noteq> FT_HARDLINK"
  unfolding resolved_header_def by (rule resolve_hops_Ok)

text \<open>A header that is not a hard link resolves to itself, so resolution is idempotent.\<close>

lemma resolved_header_self:
  "read_header ro n = Ok h \<Longrightarrow> rh_ftype h \<noteq> FT_HARDLINK \<Longrightarrow> resolved_header ro n = Ok (n, h)"
  by (simp add: resolved_header_def)

lemma resolved_header_idem:
  "resolved_header ro off = Ok (n, h) \<Longrightarrow> resolved_header ro n = Ok (n, h)"
  by (metis resolved_header_Ok resolved_header_self)

lemma romfs_list_entry:
  "romfs_list ro steps off = Ok es \<Longrightarrow> e \<in> set es \<Longrightarrow>
     (\<exists>h. resolved_header ro (de_node e) = Ok (de_node e, h) \<and> de_kind e = rom_kind (rh_ftype h)) \<and>
     de_name e \<noteq> dot \<and> de_name e \<noteq> dotdot"
proof (induction steps arbitrary: off es)
  case (Suc steps)
  then show ?case
    by (fastforce simp: and_then_eq_Ok dest: resolved_header_idem split: if_splits prod.splits)
qed simp

definition romfs_view :: "romfs \<Rightarrow> node_id view" where
  "romfs_view ro =
     \<lparr>vw_root = romfs_root ro, vw_lookup = romfs_lookup ro,
      vw_metadata = romfs_metadata ro, vw_link = romfs_read_link ro\<rparr>"

text \<open>The content of a node that is not a directory: its data region on the medium.\<close>

definition romfs_content :: "romfs \<Rightarrow> node_id \<Rightarrow> bytes \<Rightarrow> bool" where
  "romfs_content ro n c \<longleftrightarrow>
     (\<exists>m h. resolved_header ro n = Ok (m, h) \<and> rh_ftype h \<noteq> FT_DIRECTORY \<and>
        src_read (ro_src ro) (rh_data_off h) (rh_size h) = Ok c)"

interpretation rom: fold_frontend romfs_frontend romfs_ok
proof unfold_locales
  fix s cx n off buf k buf' s'
  assume ok: "romfs_ok s" and r: "fe_read_at romfs_frontend cx n off buf s = (Ok (k, buf'), s')"
  then have src: "sound_source (ro_src s)" by (simp add: romfs_ok_def)
  then show "k \<le> length buf \<and> length buf' = length buf"
    using r by (auto simp: romfs_frontend_def romfs_read_at_def Let_def result_simps
        length_overwrite_read [OF src] split: if_splits prod.splits)
qed (simp_all add: romfs_frontend_def)

interpretation rom: panic_free_frontend romfs_frontend romfs_ok
proof unfold_locales
  fix s :: romfs and cx n off buf
  assume ok: "romfs_ok s"
  then have src: "sound_source (ro_src s)" by (simp add: romfs_ok_def)
  have "rh_data_off h + off < 2 ^ 64"
    if "resolved_header s n = Ok (m, h)" "off < rh_size h" for m h
    using read_header_Ok(1,4) [OF ok, of m h] resolved_header_Ok [OF that(1)] that(2) by simp
  then show "no_panic (fst (fe_read_at romfs_frontend cx n off buf s))"
    using ok src by (auto simp: romfs_frontend_def romfs_read_at_def no_panic_simps Let_def
        split: prod.splits)
qed (auto simp: romfs_frontend_def romfs_lookup_def romfs_read_dir_def romfs_metadata_def
      romfs_read_link_def romfs_ok_def no_panic_simps romfs_list_safe [unfolded romfs_ok_def] resolved_header_safe [unfolded romfs_ok_def]
      split: prod.splits)

interpretation rom: tree_frontend romfs_frontend romfs_ok cx "\<lambda>_. Some" romfs_view for cx
  by unfold_locales (auto simp: romfs_frontend_def romfs_view_def split: result.splits option.splits)

interpretation rom: coherent_frontend romfs_frontend romfs_ok
proof unfold_locales
  fix s cx d es s' e
  assume "fe_read_dir romfs_frontend cx d s = (Ok es, s')" "e \<in> set es"
  then show "\<exists>md s''. fe_metadata romfs_frontend cx (de_node e) s' = (Ok md, s'') \<and> md_kind md = de_kind e"
    by (auto simp: romfs_frontend_def romfs_read_dir_def romfs_metadata_def and_then_eq_Ok
        split: prod.splits if_splits dest!: romfs_list_entry)
qed (auto simp: romfs_frontend_def romfs_lookup_def romfs_metadata_def romfs_read_link_def
      result_simps rom_kind_def split: prod.splits if_splits)

interpretation rom: content_frontend romfs_frontend romfs_ok cx romfs_content for cx
proof unfold_locales
  fix s n c
  assume ok: "romfs_ok s" and "romfs_content s n c"
  then obtain m h where h: "resolved_header s n = Ok (m, h)" "rh_ftype h \<noteq> FT_DIRECTORY"
    "src_read (ro_src s) (rh_data_off h) (rh_size h) = Ok c" by (auto simp: romfs_content_def)
  have src: "sound_source (ro_src s)" using ok by (simp add: romfs_ok_def)
  have c: "length c = rh_size h" using src_read_fills [OF src h(3)] .
  show "\<exists>md s'. fe_metadata romfs_frontend cx n s = (Ok md, s') \<and> md_kind md \<noteq> Directory \<and>
      md_size md = length c \<and> romfs_content s' n c"
    using h c by (auto simp: romfs_frontend_def romfs_metadata_def rom_kind_def romfs_content_def)
  fix off and buf :: bytes
  assume off: "off < length c" and "buf \<noteq> []"
  let ?n = "min (length buf) (rh_size h - off)"
  have "off + ?n \<le> rh_size h" using off c by simp
  from src_read_part [OF src h(3) this] off c
  have "src_read (ro_src s) (rh_data_off h + off) ?n = Ok (slice c off (off + ?n))" by simp
  moreover have "rh_data_off h + off < 2 ^ 64" using src_read_bound [OF src h(3)] off c by simp
  ultimately have "romfs_read_at s n off buf = Ok (?n, overwrite buf 0 (slice c off (off + ?n)))"
    using h off c by (simp add: romfs_read_at_def uadd_def Let_def)
  then show "\<exists>k s'. fe_read_at romfs_frontend cx n off buf s =
      (Ok (k, overwrite buf 0 (slice c off (off + k))), s') \<and>
      0 < k \<and> k \<le> length buf \<and> off + k \<le> length c \<and> romfs_content s' n c"
    using off c \<open>buf \<noteq> []\<close> h by (intro exI [of _ ?n] exI [of _ s])
      (auto simp: romfs_frontend_def romfs_content_def)
qed


section \<open>Encoding\<close>

text \<open>
  A file header as an image writer lays it out: four big-endian words, the name, and zeros up to
  a multiple of 16.
\<close>

definition rom_encode_header :: "nat \<Rightarrow> nat \<Rightarrow> nat \<Rightarrow> nat \<Rightarrow> nat \<Rightarrow> bytes \<Rightarrow> bytes" where
  "rom_encode_header next_off ftype info sz checksum name =
     to_be 4 (next_off + ftype) @ to_be 4 info @ to_be 4 sz @ to_be 4 checksum @
     name @ replicate (align16 (length name + 1) - length name) 0"

lemma align16_eq: "n + 15 < 2 ^ 64 \<Longrightarrow> align16 n = (n + 15) div 16 * 16"
  using nat_and_high [of "n + 15" 4 60] by (simp add: align16_def)

lemma align16_ge: "n + 15 < 2 ^ 64 \<Longrightarrow> n \<le> align16 n"
  by (simp add: align16_eq)

lemma position_zero_name: "0 \<notin> set name \<Longrightarrow> position (\<lambda>b. b = (0 :: byte)) (name @ 0 # ys) = Some (length name)"
  by (induction name) auto

lemma rom_header_words:
  assumes "off16 mod 16 = (0 :: nat)" and "off16 < 2 ^ 32" and "ft < 8"
  shows "(off16 + ft) AND 0xFFFFFFF0 = off16" and "(off16 + ft) AND 7 = ft" and "off16 + ft < 2 ^ 32"
proof -
  from assms obtain q where q: "off16 = 16 * q" by auto
  with assms have "q < 2 ^ 28" by simp
  with q assms(3) show lt: "off16 + ft < 2 ^ 32" by simp
  show "(off16 + ft) AND 0xFFFFFFF0 = off16"
    using nat_and_high [of "off16 + ft" 4 28] lt q assms(3) by simp
  show "(off16 + ft) AND 7 = ft"
  proof -
    have "(16 * q + ft) mod 8 = ft" using assms(3) by presburger
    then show ?thesis using nat_and_mask [of "off16 + ft" 3] q by simp
  qed
qed

lemma read_header_encode:
  assumes data: "data = pre @ rom_encode_header next_off ftype info sz ck name @ post"
    and dl: "length data < 2 ^ 63"
    and fields: "next_off mod 16 = 0" "next_off < 2 ^ 32" "ftype < 8" "info < 2 ^ 32" "sz < 2 ^ 32"
    and name: "0 \<notin> set name" "utf8_valid name" "length name < MAX_NAME"
  shows "read_header \<lparr>ro_src = slice_source data, ro_first_hdr = f\<rparr> (length pre) =
    Ok \<lparr>rh_next_off = next_off, rh_ftype = ftype, rh_info = info, rh_size = sz, rh_name = name,
        rh_data_off = length pre + length (rom_encode_header next_off ftype info sz ck name)\<rparr>"
proof -
  let ?off = "length pre" and ?enc = "rom_encode_header next_off ftype info sz ck name"
  let ?avail = "min (16 + MAX_NAME) (length data - ?off)"
  have al: "length name + 1 \<le> align16 (length name + 1)" using name(3)
    by (intro align16_ge) (simp add: MAX_NAME_def)
  then obtain k where k: "align16 (length name + 1) = length name + Suc k"
    by (metis Suc_eq_plus1 add_Suc_right add_Suc_shift le_Suc_ex)
  let ?hd = "to_be 4 (next_off + ftype) @ to_be 4 info @ to_be 4 sz @ to_be 4 ck"
  have enc: "?enc = ?hd @ name @ 0 # replicate k 0" "length ?enc = 16 + length name + Suc k"
    using k by (simp_all add: rom_encode_header_def)
  define win where "win = take ?avail (?enc @ post)"
  have avail: "16 + length name < ?avail" using data enc(2) name(3) by simp
  have rd: "src_read (slice_source data) ?off ?avail = Ok win"
    using data dl by (auto simp: slice_source_def slice_read_at_eq_Ok slice_def win_def)
  have lw: "length win = ?avail" using data by (simp add: win_def)
  have pre: "take A (?hd @ name @ 0 # ys) = ?hd @ name @ 0 # take (A - 17 - length name) ys"
    if "16 + length name < A" for A ys
    using that by (simp add: take_Cons')
  have win: "win = ?hd @ name @ 0 # take (?avail - 17 - length name) (replicate k 0 @ post)"
    using pre [OF avail] by (simp add: win_def enc(1))
  have ws: "rom_be_u32 win 0 = Ok (next_off + ftype)" "rom_be_u32 win 4 = Ok info" "rom_be_u32 win 8 = Ok sz"
    using fields rom_header_words(3) [OF fields(1-3)]
    by (simp_all add: rom_be_u32_def be_field_eq_Ok win slice_def from_be_to_be)
  have nm: "index_range win 16 (length win) = Ok (name @ 0 # take (?avail - 17 - length name) (replicate k 0 @ post))"
  proof -
    have "slice win 16 (length win) = drop 16 win" by (simp add: slice_def)
    moreover have "16 \<le> length win" using lw avail by simp
    ultimately have "index_range win 16 (length win) = Ok (drop 16 win)" by (simp add: index_range_def)
    then show ?thesis by (simp add: win)
  qed
  have "?off + 16 + align16 (length name + 1) = ?off + length ?enc" using enc(2) k by simp
  moreover have "\<dots> < 2 ^ 63" using data dl by simp
  ultimately have "uadd 64 ?off 16 = Ok (?off + 16)"
    "uadd 64 (?off + 16) (align16 (length name + 1)) = Ok (?off + length ?enc)"
    by (simp_all add: uadd_def)
  then show ?thesis
    using avail rd lw ws nm name fields
    by (simp add: read_header_def Let_def position_zero_name rom_header_words from_utf8_lossy_id)
qed

section \<open>Properties\<close>

text \<open>A small image for the witnesses: the root directory holds one file, \<^verbatim>\<open>a\<close>, of three bytes.\<close>

definition rom_image :: bytes where
  "rom_image = ROMFS_MAGIC @ to_be 4 112 @ to_be 4 0 @ [0x76] @ replicate 15 0 @
     rom_encode_header 64 1 32 0 0 [0x2E] @ rom_encode_header 0 2 0 3 0 [0x61] @ [1, 2, 3] @ replicate 13 0"

definition rom_volume :: romfs where
  "rom_volume = \<lparr>ro_src = slice_source rom_image, ro_first_hdr = 32\<rparr>"

text \<open>
  A file header laid out as the format says, anywhere in an image, is read back field by field,
  and the data offset is the first byte after it.
\<close>

theorem romfs_header_roundtrip:
  assumes "data = pre @ rom_encode_header next_off ftype info sz ck name @ post"
    and "length data < 2 ^ 63"
    and "next_off mod 16 = 0" "next_off < 2 ^ 32" "ftype < 8" "info < 2 ^ 32" "sz < 2 ^ 32"
    and "0 \<notin> set name" "utf8_valid name" "length name < MAX_NAME"
  shows "read_header \<lparr>ro_src = slice_source data, ro_first_hdr = f\<rparr> (length pre) =
    Ok \<lparr>rh_next_off = next_off, rh_ftype = ftype, rh_info = info, rh_size = sz, rh_name = name,
        rh_data_off = length pre + length (rom_encode_header next_off ftype info sz ck name)\<rparr>"
  using assms by (rule read_header_encode)

theorem romfs_header_roundtrip_witness:
  "read_header \<lparr>ro_src = slice_source (rom_encode_header 64 2 0 3 9 [0x61]), ro_first_hdr = 0\<rparr> 0 =
    Ok \<lparr>rh_next_off = 64, rh_ftype = 2, rh_info = 0, rh_size = 3, rh_name = [0x61], rh_data_off = 32\<rparr>"
  using romfs_header_roundtrip [of "rom_encode_header 64 2 0 3 9 [0x61]" "[]" 64 2 0 3 9 "[0x61]" "[]" 0]
  by (simp add: utf8_valid_ascii MAX_NAME_def rom_encode_header_def align16_eq)

end
