(* ===== verification/Codec.thy ===== *)
theory Codec
  imports Read_Cap
begin

text \<open>
  The codec registry (\<^verbatim>\<open>crates/lamfold/src/codec.rs\<close>). The decompressors are third-party crates:
  they are the fields of \<open>codec_lib\<close>, a parameter of everything that decompresses. A call that fills
  a prefix of a caller's buffer returns that prefix; a failed call returns \<open>None\<close>. The streaming
  readers share one state type \<open>'r\<close>: \<open>reader_read\<close> is \<^verbatim>\<open>Read::read\<close> with a buffer of the given
  length and \<open>reader_rest\<close> is what is left of the input slice the reader was built over. The cargo
  features are booleans: a disabled one gives the stub of the source.

  \<open>codec_lib_ok\<close> names what the code relies on: no call produces more than it was asked for, a
  reader only moves forward in its input, and reading a stream's header consumes it.
\<close>

datatype codec = Deflate | Zlib | Lz4 | Xz | Zstd | Lzo

datatype mz_status = MzStreamEnd | MzOk | MzError

record inflate_out =
  io_consumed :: nat
  io_written :: bytes
  io_status :: mz_status

record 'r codec_lib =
  has_deflate :: bool
  has_lz4 :: bool
  has_xz :: bool
  has_zstd :: bool
  has_lzo :: bool
  zlib_with_limit :: "bytes \<Rightarrow> nat \<Rightarrow> bytes option"
  raw_with_limit :: "bytes \<Rightarrow> nat \<Rightarrow> bytes option"
  lz4_decompress :: "bytes \<Rightarrow> nat \<Rightarrow> bytes option"
  lz4_decompress_into :: "bytes \<Rightarrow> nat \<Rightarrow> bytes option"
  lz4_into_with_dict :: "bytes \<Rightarrow> nat \<Rightarrow> bytes \<Rightarrow> bytes option"
  lzo_decompress :: "bytes \<Rightarrow> nat \<Rightarrow> bytes option"
  zstd_new :: "bytes \<Rightarrow> 'r option"
  xz_new :: "bytes \<Rightarrow> 'r"
  lzma_new_with_props :: "bytes \<Rightarrow> nat \<Rightarrow> byte \<Rightarrow> nat \<Rightarrow> 'r option"
  lzma_new_mem_limit :: "bytes \<Rightarrow> 'r option"
  reader_read :: "'r \<Rightarrow> nat \<Rightarrow> bytes option \<times> 'r"
  reader_rest :: "'r \<Rightarrow> bytes"
  inflate_new :: 'r
  inflate :: "'r \<Rightarrow> bytes \<Rightarrow> nat \<Rightarrow> inflate_out \<times> 'r"

definition disabled :: "string \<Rightarrow> 'a result" where
  "disabled feature = Err (Unsupported (feature @ '' feature disabled''))"

text \<open>
  The loop that fills a buffer of \<open>want\<close> bytes from a reader, shared by the zstd, xz and MicroLZMA
  decoders; the bytes read so far are \<open>acc\<close>. It stops at the first empty read.
\<close>

function fill_loop :: "'r codec_lib \<Rightarrow> string \<Rightarrow> nat \<Rightarrow> bytes \<Rightarrow> 'r \<Rightarrow> bytes result" where
  "fill_loop lib msg want acc r =
     (if length acc < want then
        (case reader_read lib r (want - length acc) of
           (None, r') \<Rightarrow> Err (Decompress msg)
         | (Some bs, r') \<Rightarrow> if bs = [] then Ok acc else fill_loop lib msg want (acc @ bs) r')
      else Ok acc)"
  by pat_completeness auto
termination
  by (relation "measure (\<lambda>(lib, msg, want, acc, r). want - length acc)") (auto simp: diff_append_less)

declare fill_loop.simps [simp del]

definition inflate_zlib :: "'r codec_lib \<Rightarrow> bytes \<Rightarrow> nat \<Rightarrow> bytes result" where
  "inflate_zlib lib input expected_len =
     (if has_deflate lib
      then ok_or (zlib_with_limit lib input expected_len) (Decompress ''zlib inflate failed'')
      else disabled ''codec-deflate'')"

definition inflate_raw :: "'r codec_lib \<Rightarrow> bytes \<Rightarrow> nat \<Rightarrow> bytes result" where
  "inflate_raw lib input expected_len =
     (if has_deflate lib
      then ok_or (raw_with_limit lib input expected_len) (Decompress ''raw inflate failed'')
      else disabled ''codec-deflate'')"

definition lz4_block :: "'r codec_lib \<Rightarrow> bytes \<Rightarrow> nat \<Rightarrow> bytes result" where
  "lz4_block lib input expected_len =
     (if has_lz4 lib
      then ok_or (lz4_decompress lib input expected_len) (Decompress ''lz4 block decompress failed'')
      else disabled ''codec-lz4'')"

definition zstd_decode :: "'r codec_lib \<Rightarrow> bytes \<Rightarrow> nat \<Rightarrow> bytes result" where
  "zstd_decode lib input expected_len =
     (if has_zstd lib then
        and_then (ok_or (zstd_new lib input) (Decompress ''zstd frame init failed''))
          (fill_loop lib ''zstd read failed'' expected_len [])
      else disabled ''codec-zstd'')"

definition xz_decode :: "'r codec_lib \<Rightarrow> bytes \<Rightarrow> nat \<Rightarrow> bytes result" where
  "xz_decode lib input expected_len =
     (if has_xz lib then fill_loop lib ''xz read failed'' expected_len [] (xz_new lib input)
      else disabled ''codec-xz'')"

definition lzo_decode :: "'r codec_lib \<Rightarrow> bytes \<Rightarrow> nat \<Rightarrow> bytes result" where
  "lzo_decode lib input expected_len =
     (if has_lzo lib
      then ok_or (lzo_decompress lib input expected_len) (Decompress ''lzo decompress failed'')
      else disabled ''codec-lzo'')"

definition decode :: "'r codec_lib \<Rightarrow> codec \<Rightarrow> bytes \<Rightarrow> nat \<Rightarrow> bytes result" where
  "decode lib codec input expected_len =
     and_then (checked_block_len expected_len) (\<lambda>_.
       case codec of
         Deflate \<Rightarrow> inflate_raw lib input expected_len
       | Zlib \<Rightarrow> inflate_zlib lib input expected_len
       | Lz4 \<Rightarrow> lz4_block lib input expected_len
       | Xz \<Rightarrow> xz_decode lib input expected_len
       | Zstd \<Rightarrow> zstd_decode lib input expected_len
       | Lzo \<Rightarrow> lzo_decode lib input expected_len)"

definition lz4_block_with_dict :: "'r codec_lib \<Rightarrow> bytes \<Rightarrow> nat \<Rightarrow> bytes \<Rightarrow> bytes result" where
  "lz4_block_with_dict lib input expected_len dict =
     (if has_lz4 lib then
        and_then (checked_block_len expected_len) (\<lambda>_.
        and_then (ok_or (lz4_into_with_dict lib input expected_len dict)
                   (Decompress ''erofs lz4 dict decompress failed'')) (\<lambda>out.
          if length out \<noteq> expected_len then Err (Decompress ''erofs lz4 dict decompress: short output'')
          else Ok out))
      else disabled ''codec-lz4'')"

text \<open>\<^verbatim>\<open>expected_len as u32\<close> keeps the low 32 bits; the cap makes it the value itself.\<close>

definition microlzma_block_decode :: "'r codec_lib \<Rightarrow> bytes \<Rightarrow> byte \<Rightarrow> nat \<Rightarrow> nat \<Rightarrow> bytes result" where
  "microlzma_block_decode lib span props dict_size expected_len =
     (if has_xz lib then
        and_then (checked_block_len expected_len) (\<lambda>_.
        case span of
          [] \<Rightarrow> Err (Decompress ''erofs microlzma: empty span'')
        | discard # body \<Rightarrow>
            let stream = 0 # body; window = max dict_size (expected_len mod 2 ^ 32) in
            and_then (ok_or (lzma_new_with_props lib stream expected_len props window)
                       (Decompress ''erofs microlzma: init'')) (\<lambda>rdr.
            and_then (fill_loop lib ''erofs microlzma: read'' expected_len [] rdr) (\<lambda>out.
              if length out \<noteq> expected_len then Err (Decompress ''erofs microlzma: short output'')
              else Ok out)))
      else disabled ''codec-xz'')"


section \<open>What the decoders guarantee\<close>

definition codec_lib_ok :: "'r codec_lib \<Rightarrow> bool" where
  "codec_lib_ok lib \<longleftrightarrow>
     (\<forall>i n bs. zlib_with_limit lib i n = Some bs \<longrightarrow> length bs \<le> n) \<and>
     (\<forall>i n bs. raw_with_limit lib i n = Some bs \<longrightarrow> length bs \<le> n) \<and>
     (\<forall>i n bs. lz4_decompress lib i n = Some bs \<longrightarrow> length bs \<le> n) \<and>
     (\<forall>i n bs. lz4_decompress_into lib i n = Some bs \<longrightarrow> length bs \<le> n) \<and>
     (\<forall>i n bs. lzo_decompress lib i n = Some bs \<longrightarrow> length bs \<le> n) \<and>
     (\<forall>r n bs r'. reader_read lib r n = (Some bs, r') \<longrightarrow> length bs \<le> n) \<and>
     (\<forall>i r. zstd_new lib i = Some r \<longrightarrow> length (reader_rest lib r) < length i) \<and>
     (\<forall>i. length (reader_rest lib (xz_new lib i)) \<le> length i) \<and>
     (\<forall>i n bs r'. i \<noteq> [] \<longrightarrow> 0 < n \<longrightarrow> reader_read lib (xz_new lib i) n = (Some bs, r') \<longrightarrow>
        length (reader_rest lib r') < length i) \<and>
     (\<forall>i r. lzma_new_mem_limit lib i = Some r \<longrightarrow> length (reader_rest lib r) < length i) \<and>
     (\<forall>r n x r'. reader_read lib r n = (x, r') \<longrightarrow> length (reader_rest lib r') \<le> length (reader_rest lib r)) \<and>
     (\<forall>st i n out st'. inflate lib st i n = (out, st') \<longrightarrow>
        io_consumed out \<le> length i \<and> length (io_written out) \<le> n)"

lemma codec_lib_okD:
  assumes "codec_lib_ok lib"
  shows "zlib_with_limit lib i n = Some bs \<Longrightarrow> length bs \<le> n"
    and "raw_with_limit lib i n = Some bs \<Longrightarrow> length bs \<le> n"
    and "lz4_decompress lib i n = Some bs \<Longrightarrow> length bs \<le> n"
    and "lz4_decompress_into lib i n = Some bs \<Longrightarrow> length bs \<le> n"
    and "lzo_decompress lib i n = Some bs \<Longrightarrow> length bs \<le> n"
    and "reader_read lib r n = (Some bs, r') \<Longrightarrow> length bs \<le> n"
    and "zstd_new lib i = Some r \<Longrightarrow> length (reader_rest lib r) < length i"
    and "length (reader_rest lib (xz_new lib i)) \<le> length i"
    and "lzma_new_mem_limit lib i = Some r \<Longrightarrow> length (reader_rest lib r) < length i"
    and "reader_read lib r n = (x, r') \<Longrightarrow> length (reader_rest lib r') \<le> length (reader_rest lib r)"
    and "inflate lib st i n = (out, st') \<Longrightarrow> io_consumed out \<le> length i \<and> length (io_written out) \<le> n"
    and "i \<noteq> [] \<Longrightarrow> 0 < n \<Longrightarrow> reader_read lib (xz_new lib i) n = (Some bs, r') \<Longrightarrow>
      length (reader_rest lib r') < length i"
  using assms unfolding codec_lib_ok_def by - (elim conjE, metis)+

lemma disabled_simps [simp]: "disabled f \<noteq> Ok x" "no_panic (disabled f)"
  by (simp_all add: disabled_def)

lemma fill_loop_length:
  assumes ok: "codec_lib_ok lib"
  shows "fill_loop lib msg want acc r = Ok out \<Longrightarrow> length acc \<le> want \<Longrightarrow> length out \<le> want"
proof (induction "want - length acc" arbitrary: acc r rule: less_induct)
  case less
  show ?case
  proof (cases "length acc < want")
    case True
    obtain x r' where rd: "reader_read lib r (want - length acc) = (x, r')" by fastforce
    show ?thesis
    proof (cases x)
      case None
      with less.prems True rd show ?thesis by (simp add: fill_loop.simps [of lib msg want acc])
    next
      case (Some bs)
      with rd codec_lib_okD(6) [OF ok] have "length bs \<le> want - length acc" by simp
      with Some rd True less.prems less.hyps [of "acc @ bs" r'] show ?thesis
        by (cases "bs = []") (simp_all add: fill_loop.simps [of lib msg want acc] diff_append_less)
    qed
  next
    case False
    with less.prems show ?thesis by (simp add: fill_loop.simps [of lib msg want acc])
  qed
qed

lemma no_panic_fill_loop [no_panic_simps, simp]: "no_panic (fill_loop lib msg want acc r)"
proof (induction lib msg want acc r rule: fill_loop.induct)
  case (1 lib msg want acc r)
  then show ?case
    by (subst fill_loop.simps) (auto split: prod.splits option.splits)
qed

text \<open>
  What a decoder is to expect from one reader, \<open>r\<close>, whose stream holds the bytes \<open>bs\<close>: while some are
  left, a read of a nonempty buffer gives a nonempty prefix of them, no longer than the buffer, and
  leaves a reader of the rest. An intact stream ends with an empty read; a damaged one ends with a
  failed read, and may fail at any earlier one.
\<close>

inductive reader_gives :: "'r codec_lib \<Rightarrow> bool \<Rightarrow> bytes \<Rightarrow> 'r \<Rightarrow> bool" for lib intact where
  reader_end: "(\<And>n. 0 < n \<Longrightarrow> fst (reader_read lib r n) = (if intact then Some [] else None)) \<Longrightarrow>
    reader_gives lib intact [] r"
| reader_more: "bs \<noteq> [] \<Longrightarrow>
    (\<And>n. 0 < n \<Longrightarrow>
      (\<exists>k r'. 0 < k \<and> k \<le> n \<and> k \<le> length bs \<and> reader_read lib r n = (Some (take k bs), r') \<and>
        reader_gives lib intact (drop k bs) r') \<or>
      \<not> intact \<and> fst (reader_read lib r n) = None) \<Longrightarrow>
    reader_gives lib intact bs r"

text \<open>
  The outcome of filling a buffer of \<open>n\<close> bytes from such a reader: the bytes, cut at \<open>n\<close>, of an intact
  stream; from a damaged one all \<open>n\<close> bytes or the failed read, and always the failed read when it has
  fewer.
\<close>

definition fill_outcome :: "string \<Rightarrow> bool \<Rightarrow> bytes \<Rightarrow> nat \<Rightarrow> bytes result \<Rightarrow> bool" where
  "fill_outcome msg intact bs n res \<longleftrightarrow>
     (if intact then res = Ok (take n bs)
      else res = Err (Decompress msg) \<or> n \<le> length bs \<and> res = Ok (take n bs))"

lemma fill_loop_gives:
  assumes "reader_gives lib intact bs r"
  shows "fill_outcome msg intact (acc @ bs) (length acc + n) (fill_loop lib msg (length acc + n) acc r)"
  using assms
proof (induction arbitrary: acc n rule: reader_gives.induct)
  case (reader_end r)
  show ?case
  proof (cases "n = 0")
    case False
    obtain x r' where x: "reader_read lib r n = (x, r')" by fastforce
    then have "x = (if intact then Some [] else None)" using reader_end [of n] False by simp
    then show ?thesis using x False by (simp add: fill_loop.simps [of lib msg "length acc + n" acc r] fill_outcome_def)
  qed (simp add: fill_loop.simps [of lib msg "length acc" acc r] fill_outcome_def)
next
  case (reader_more bs r)
  show ?case
  proof (cases "n = 0")
    case False
    then have "0 < n" by simp
    from reader_more(2) [OF this] consider (piece) k r' where "0 < k" "k \<le> n" "k \<le> length bs" "reader_read lib r n = (Some (take k bs), r')"
        "\<And>acc m. fill_outcome msg intact (acc @ drop k bs) (length acc + m) (fill_loop lib msg (length acc + m) acc r')"
      | (failed) "\<not> intact" "fst (reader_read lib r n) = None"
      by (elim disjE exE conjE) blast+
    then show ?thesis
    proof cases
      case piece
      have "fill_loop lib msg (length acc + n) acc r = fill_loop lib msg (length acc + n) (acc @ take k bs) r'"
        using False piece(1-4) reader_more(1) by (simp add: fill_loop.simps [of lib msg "length acc + n" acc r])
      then show ?thesis using piece(5) [of "acc @ take k bs" "n - k"] piece(2,3) by simp
    next
      case failed
      then show ?thesis using False
        by (cases "reader_read lib r n") (simp add: fill_loop.simps [of lib msg "length acc + n" acc r] fill_outcome_def)
    qed
  qed (simp add: fill_loop.simps [of lib msg "length acc" acc r] fill_outcome_def)
qed

lemma fill_loop_outcome:
  "reader_gives lib intact bs r \<Longrightarrow> fill_outcome msg intact bs n (fill_loop lib msg n [] r)"
  using fill_loop_gives [of lib intact bs r msg "[]" n] by simp

lemma decode_length:
  assumes "codec_lib_ok lib" and "decode lib codec input n = Ok out"
  shows "length out \<le> n" and "n \<le> MAX_DECOMPRESSED_BLOCK_BYTES"
  using assms codec_lib_okD(1-3,5) [OF assms(1)] fill_loop_length [OF assms(1), of _ n "[]"]
  by (auto simp: decode_def result_simps inflate_raw_def inflate_zlib_def lz4_block_def xz_decode_def
      zstd_decode_def lzo_decode_def split: codec.splits if_splits)

lemma no_panic_decode [no_panic_simps, simp]: "no_panic (decode lib codec input n)"
  by (simp add: decode_def no_panic_simps inflate_raw_def inflate_zlib_def lz4_block_def xz_decode_def
      zstd_decode_def lzo_decode_def split: codec.splits)

lemma lz4_block_with_dict_length:
  "lz4_block_with_dict lib input n dict = Ok out \<Longrightarrow> length out = n \<and> n \<le> MAX_DECOMPRESSED_BLOCK_BYTES"
  by (auto simp: lz4_block_with_dict_def result_simps split: if_splits)

lemma microlzma_block_decode_length:
  "microlzma_block_decode lib span props d n = Ok out \<Longrightarrow> length out = n \<and> n \<le> MAX_DECOMPRESSED_BLOCK_BYTES"
  by (auto simp: microlzma_block_decode_def result_simps Let_def split: if_splits list.splits)

lemma no_panic_block_decoders [no_panic_simps, simp]:
  "no_panic (lz4_block_with_dict lib input n dict)"
  "no_panic (microlzma_block_decode lib span props d n)"
  by (simp_all add: lz4_block_with_dict_def microlzma_block_decode_def no_panic_simps Let_def
      split: list.splits)

section \<open>Properties\<close>

text \<open>
  A library for the witnesses: every decoder stores its input, and a reader is its remaining input,
  read two bytes at a time. The first byte of a zstd or lzma stream is its header, and a deflate stream is
  everything up to the last eight bytes.
\<close>

definition store_lib :: "bytes codec_lib" where
  "store_lib =
     \<lparr>has_deflate = True, has_lz4 = True, has_xz = True, has_zstd = True, has_lzo = True,
      zlib_with_limit = (\<lambda>i n. if length i \<le> n then Some i else None),
      raw_with_limit = (\<lambda>i n. if length i \<le> n then Some i else None),
      lz4_decompress = (\<lambda>i n. if length i \<le> n then Some i else None),
      lz4_decompress_into = (\<lambda>i n. if length i \<le> n then Some i else None),
      lz4_into_with_dict = (\<lambda>i n d. if length i \<le> n then Some i else None),
      lzo_decompress = (\<lambda>i n. if length i \<le> n then Some i else None),
      zstd_new = (\<lambda>i. case i of [] \<Rightarrow> None | b # bs \<Rightarrow> Some bs),
      xz_new = (\<lambda>i. i),
      lzma_new_with_props = (\<lambda>i n p w. Some i),
      lzma_new_mem_limit = (\<lambda>i. case i of [] \<Rightarrow> None | b # bs \<Rightarrow> Some bs),
      reader_read = (\<lambda>r n. (Some (take (min 2 n) r), drop (min 2 n) r)),
      reader_rest = (\<lambda>r. r),
      inflate_new = [],
      inflate = (\<lambda>st i n.
        (\<lparr>io_consumed = length i - 8, io_written = take n (take (length i - 8) i), io_status = MzStreamEnd\<rparr>, st))\<rparr>"

lemma store_lib_simps:
  "has_deflate store_lib" "has_xz store_lib" "has_zstd store_lib" "has_lz4 store_lib"
  "inflate store_lib st i n =
     (\<lparr>io_consumed = length i - 8, io_written = take n (take (length i - 8) i), io_status = MzStreamEnd\<rparr>, st)"
  "has_zstd store_lib" "zstd_new store_lib (x # xs) = Some xs"
  by (simp_all add: store_lib_def)

lemma codec_lib_ok_store: "codec_lib_ok store_lib"
  by (auto simp: codec_lib_ok_def store_lib_def split: list.splits)

text \<open>A reader that is its bytes, read two at a time, with an end that is reached or fails.\<close>

lemma pairs_reader_gives:
  assumes "\<And>r n. reader_read lib r n = (if r = [] \<and> \<not> intact then None else Some (take (min 2 n) r), drop (min 2 n) r)"
  shows "reader_gives lib intact bs bs"
proof (induction "length bs" arbitrary: bs rule: less_induct)
  case less
  show ?case
  proof (cases "bs = []")
    case True
    then show ?thesis using assms by (auto intro: reader_end)
  next
    case False
    have "\<exists>k r'. 0 < k \<and> k \<le> n \<and> k \<le> length bs \<and> reader_read lib bs n = (Some (take k bs), r') \<and>
        reader_gives lib intact (drop k bs) r'" if "0 < n" for n :: nat
    proof (intro exI conjI)
      let ?k = "min (min 2 n) (length bs)"
      show "0 < ?k" using False that by simp
      show "reader_read lib bs n = (Some (take ?k bs), drop ?k bs)" using assms False by (simp add: min_def)
      show "reader_gives lib intact (drop ?k bs) (drop ?k bs)" using False that by (intro less) (simp add: min_def)
    qed (simp_all add: min_def)
    with reader_more [OF False, where lib = lib and intact = intact and r = bs] show ?thesis by blast
  qed
qed

lemma store_reader_gives: "reader_gives store_lib True bs bs"
  by (rule pairs_reader_gives) (simp add: store_lib_def)

text \<open>
  C34. The bomb guard: a declared size over the block cap is refused with that size and the cap, for
  every codec and whatever the decompressors would do, and any output that is produced is no longer
  than declared. No call panics.
\<close>

theorem decode_guarded:
  assumes "codec_lib_ok lib"
  shows "no_panic (decode lib codec input n) \<and>
    (if n > MAX_DECOMPRESSED_BLOCK_BYTES
     then decode lib codec input n = Err (FileTooLarge n MAX_DECOMPRESSED_BLOCK_BYTES)
     else \<forall>out. decode lib codec input n = Ok out \<longrightarrow> length out \<le> n)"
proof -
  have "decode lib codec input n = Err (FileTooLarge n MAX_DECOMPRESSED_BLOCK_BYTES)"
    if "n > MAX_DECOMPRESSED_BLOCK_BYTES"
    using that by (simp add: decode_def checked_block_len_reject)
  with decode_length(1) [OF assms] show ?thesis by auto
qed

theorem decode_guarded_witness:
  "decode store_lib Zlib [1, 2, 3] (MAX_DECOMPRESSED_BLOCK_BYTES + 1) =
     Err (FileTooLarge (MAX_DECOMPRESSED_BLOCK_BYTES + 1) MAX_DECOMPRESSED_BLOCK_BYTES)"
  using decode_guarded [OF codec_lib_ok_store, of Zlib "[1, 2, 3]" "MAX_DECOMPRESSED_BLOCK_BYTES + 1"]
  by simp

text \<open>
  C33. A streaming codec gives the stream's bytes however its reader cuts them into pieces, and never
  fewer of a damaged stream: over an intact stream of \<open>bs\<close>, xz and zstd blocks decode to \<open>bs\<close> cut at the
  declared size, and a MicroLZMA block, whose stream is its span with the first byte replaced by zero,
  decodes to the declared number of bytes when \<open>bs\<close> has them and is refused as short otherwise. Over a
  stream whose reads fail after \<open>bs\<close>, or at some earlier point, the block is all the declared bytes, when
  \<open>bs\<close> has them, or the error of the failed read, and always that error when \<open>bs\<close> is shorter. A reader
  that cannot be built is its own error. The hypotheses are on the one reader of the input.
\<close>

theorem streaming_decoders_complete:
  assumes "has_xz lib" and "has_zstd lib" and "n \<le> MAX_DECOMPRESSED_BLOCK_BYTES"
  shows "(\<forall>intact bs. reader_gives lib intact bs (xz_new lib input) \<longrightarrow>
      fill_outcome ''xz read failed'' intact bs n (decode lib Xz input n)) \<and>
    (case zstd_new lib input of
       None \<Rightarrow> decode lib Zstd input n = Err (Decompress ''zstd frame init failed'')
     | Some z \<Rightarrow> \<forall>intact bs. reader_gives lib intact bs z \<longrightarrow>
         fill_outcome ''zstd read failed'' intact bs n (decode lib Zstd input n)) \<and>
    (case lzma_new_with_props lib (0 # body) n props (max d n) of
       None \<Rightarrow> microlzma_block_decode lib (b # body) props d n = Err (Decompress ''erofs microlzma: init'')
     | Some l \<Rightarrow> \<forall>intact bs. reader_gives lib intact bs l \<longrightarrow>
         (if intact \<and> length bs < n
          then microlzma_block_decode lib (b # body) props d n = Err (Decompress ''erofs microlzma: short output'')
          else fill_outcome ''erofs microlzma: read'' intact bs n (microlzma_block_decode lib (b # body) props d n)))"
proof (intro conjI)
  have cap: "checked_block_len n = Ok n" using assms(3) by (simp add: checked_block_len_eq_Ok)
  have small: "n mod 2 ^ 32 = n" using assms(3) by (simp add: MAX_DECOMPRESSED_BLOCK_BYTES_def)
  show "\<forall>intact bs. reader_gives lib intact bs (xz_new lib input) \<longrightarrow>
      fill_outcome ''xz read failed'' intact bs n (decode lib Xz input n)"
    using assms(1) cap by (simp add: decode_def xz_decode_def fill_loop_outcome)
  show "case zstd_new lib input of
       None \<Rightarrow> decode lib Zstd input n = Err (Decompress ''zstd frame init failed'')
     | Some z \<Rightarrow> \<forall>intact bs. reader_gives lib intact bs z \<longrightarrow>
         fill_outcome ''zstd read failed'' intact bs n (decode lib Zstd input n)"
    using assms(2) cap by (simp add: decode_def zstd_decode_def fill_loop_outcome split: option.split)
  have l: "(if intact \<and> length bs < n
          then microlzma_block_decode lib (b # body) props d n = Err (Decompress ''erofs microlzma: short output'')
          else fill_outcome ''erofs microlzma: read'' intact bs n (microlzma_block_decode lib (b # body) props d n))"
    if l: "lzma_new_with_props lib (0 # body) n props (max d n) = Some l" and g: "reader_gives lib intact bs l" for l intact bs
    using fill_loop_outcome [OF g, of "''erofs microlzma: read''" n] assms(1) cap small l
    by (auto simp: microlzma_block_decode_def fill_outcome_def split: if_splits)
  then show "case lzma_new_with_props lib (0 # body) n props (max d n) of
       None \<Rightarrow> microlzma_block_decode lib (b # body) props d n = Err (Decompress ''erofs microlzma: init'')
     | Some l \<Rightarrow> \<forall>intact bs. reader_gives lib intact bs l \<longrightarrow>
         (if intact \<and> length bs < n
          then microlzma_block_decode lib (b # body) props d n = Err (Decompress ''erofs microlzma: short output'')
          else fill_outcome ''erofs microlzma: read'' intact bs n (microlzma_block_decode lib (b # body) props d n))"
  proof (cases "lzma_new_with_props lib (0 # body) n props (max d n)")
    case None
    then show ?thesis using assms(1) cap small by (simp add: microlzma_block_decode_def)
  next
    case (Some l)
    then show ?thesis using l by (simp only: option.case) blast
  qed
qed

theorem streaming_decoders_complete_witness:
  "decode store_lib Xz [1, 2, 3, 4, 5] 4 = Ok [1, 2, 3, 4] \<and>
   decode store_lib Zstd [9, 2, 3, 4, 5] 3 = Ok [2, 3, 4] \<and>
   microlzma_block_decode store_lib [7, 1, 2] 0x5D 4096 3 = Ok [0, 1, 2] \<and>
   microlzma_block_decode store_lib [7, 1, 2] 0x5D 4096 4 = Err (Decompress ''erofs microlzma: short output'') \<and>
   decode (store_lib\<lparr>reader_read := \<lambda>r n. (if r = [] then None else Some (take (min 2 n) r), drop (min 2 n) r)\<rparr>)
     Xz [1, 2, 3] 4 = Err (Decompress ''xz read failed'')"
proof (intro conjI)
  let ?broken = "store_lib\<lparr>reader_read := \<lambda>r n. (if r = [] then None else Some (take (min 2 n) r), drop (min 2 n) r)\<rparr>"
  have s: "xz_new store_lib i = i" "lzma_new_with_props store_lib i k p w = Some i" for i k p w
    by (simp_all add: store_lib_def)
  note xz = streaming_decoders_complete [THEN conjunct1, rule_format]
  note lz = streaming_decoders_complete [where body = "[1, 2]" and props = "0x5D" and d = 4096 and b = 7, THEN conjunct2, THEN conjunct2]
  note m = MAX_DECOMPRESSED_BLOCK_BYTES_def
  show "decode store_lib Xz [1, 2, 3, 4, 5] 4 = Ok [1, 2, 3, 4]"
    using xz [of store_lib 4 True "[1, 2, 3, 4, 5]" "[1, 2, 3, 4, 5]"] store_reader_gives [of "[1, 2, 3, 4, 5]"]
    by (simp add: s store_lib_simps m fill_outcome_def)
  show "decode store_lib Zstd [9, 2, 3, 4, 5] 3 = Ok [2, 3, 4]"
    using streaming_decoders_complete [of store_lib 3 "[9, 2, 3, 4, 5]", THEN conjunct2, THEN conjunct1]
      store_reader_gives [of "[2, 3, 4, 5]"]
    by (simp add: store_lib_simps m) (force simp: fill_outcome_def)
  show "microlzma_block_decode store_lib [7, 1, 2] 0x5D 4096 3 = Ok [0, 1, 2]"
    using lz [of store_lib 3] store_reader_gives [of "[0, 1, 2]"]
    by (simp add: s store_lib_simps m) (force simp: fill_outcome_def)
  show "microlzma_block_decode store_lib [7, 1, 2] 0x5D 4096 4 = Err (Decompress ''erofs microlzma: short output'')"
    using lz [of store_lib 4] store_reader_gives [of "[0, 1, 2]"]
    by (simp add: s store_lib_simps m)
  have "reader_gives ?broken False [1, 2, 3] [1, 2, 3]" by (rule pairs_reader_gives) simp
  then show "decode ?broken Xz [1, 2, 3] 4 = Err (Decompress ''xz read failed'')"
    using xz [of ?broken 4 False "[1, 2, 3]" "[1, 2, 3]"] by (simp add: s store_lib_simps m fill_outcome_def)
qed

end
