(* ===== verification/Cramfs.thy ===== *)
theory Cramfs
  imports Fold_Path Codec
begin

text \<open>
  The cramfs reader (\<^verbatim>\<open>crates/lamfold-cramfs/src/cramfs.rs\<close>). A volume is its source; a node is
  the offset of an inode; no method changes the volume. Inode fields are at most 28 bits wide, so
  the offsets computed from them cannot overflow and are plain numbers here. Pages are inflated by
  the codec library \<open>lib\<close>.
\<close>

definition CRAM_MAGIC :: nat where "CRAM_MAGIC = 0x28CD3D45"
definition ROOT_INODE_OFF :: nat where "ROOT_INODE_OFF = 64"
definition PAGE :: nat where "PAGE = 4096"
definition FLAG_EXT_BLOCK_POINTERS :: nat where "FLAG_EXT_BLOCK_POINTERS = 0x800"

record cr_inode =
  ci_mode :: nat
  ci_size :: nat
  ci_namelen :: nat
  ci_data_off :: nat

record cramfs =
  cr_src :: block_source

definition decode_inode :: "bytes \<Rightarrow> cr_inode" where
  "decode_inode b =
     (let w0 = from_le (slice b 0 4); w1 = from_le (slice b 4 8); w2 = from_le (slice b 8 12) in
      \<lparr>ci_mode = w0 AND 0xFFFF,
       ci_size = w1 AND 0x00FFFFFF,
       ci_namelen = (w2 AND 0x3F) * 4,
       ci_data_off = drop_bit 6 w2 * 4\<rparr>)"

definition parse_inode :: "cramfs \<Rightarrow> nat \<Rightarrow> cr_inode result" where
  "parse_inode cr off = and_then (src_read (cr_src cr) off 12) (\<lambda>b. Ok (decode_inode b))"

definition cram_kind :: "nat \<Rightarrow> file_kind" where
  "cram_kind mode =
     (let t = mode AND 0xF000 in
      if t = 0x8000 then Regular
      else if t = 0x4000 then Directory
      else if t = 0xA000 then Symlink
      else Other)"

text \<open>The page loop: \<open>is\<close> are the pages still to come and \<open>start\<close> the end of the one before.\<close>

fun cram_pages ::
  "'r codec_lib \<Rightarrow> block_source \<Rightarrow> nat \<Rightarrow> bytes \<Rightarrow> nat list \<Rightarrow> nat \<Rightarrow> bytes \<Rightarrow> bytes result" where
  "cram_pages lib src sz idx [] start out = Ok out"
| "cram_pages lib src sz idx (i # is) start out =
     (let stop = from_le (slice idx (i * 4) (i * 4 + 4)) in
      and_then (usub sz (length out)) (\<lambda>left.
      let want = min PAGE left in
      if stop \<le> start then cram_pages lib src sz idx is stop (out @ replicate want 0)
      else
        and_then (src_read src start (stop - start)) (\<lambda>comp.
        and_then (decode lib Zlib comp want) (\<lambda>page.
          cram_pages lib src sz idx is stop (out @ page)))))"

definition read_whole :: "'r codec_lib \<Rightarrow> cramfs \<Rightarrow> cr_inode \<Rightarrow> bytes result" where
  "read_whole lib cr inode =
     and_then (checked_full_read_len (ci_size inode)) (\<lambda>sz.
     if sz = 0 then Ok []
     else
       let nblocks = div_ceil (ci_size inode) PAGE in
       and_then (src_read (cr_src cr) (ci_data_off inode) (nblocks * 4)) (\<lambda>idx.
       and_then (cram_pages lib (cr_src cr) sz idx [0..<nblocks] (ci_data_off inode + nblocks * 4) [])
         (\<lambda>out. Ok (take sz out))))"

definition cramfs_probe :: "block_source \<Rightarrow> bool result" where
  "cramfs_probe src =
     (if src_len src < ROOT_INODE_OFF + 12 then Ok False
      else and_then (src_read src 0 4) (\<lambda>m. Ok (from_le m = CRAM_MAGIC)))"

definition cramfs_open :: "block_source \<Rightarrow> cramfs result" where
  "cramfs_open src =
     (if src_len src < ROOT_INODE_OFF + 12 then Err (Corrupt ''cramfs: shorter than superblock'')
      else
        and_then (src_read src 0 12) (\<lambda>head.
        if from_le (slice head 0 4) \<noteq> CRAM_MAGIC then
          Err (if from_be (slice head 0 4) = CRAM_MAGIC
               then Unsupported ''cramfs: big-endian image'' else Corrupt ''cramfs: bad magic'')
        else if from_le (slice head 8 12) AND FLAG_EXT_BLOCK_POINTERS \<noteq> 0 then
          Err (Unsupported ''cramfs: EXT_BLOCK_POINTERS extension'')
        else Ok \<lparr>cr_src = src\<rparr>))"

definition cramfs_root :: "cramfs \<Rightarrow> node_id" where
  "cramfs_root cr = ROOT_INODE_OFF"

function cram_entries :: "cramfs \<Rightarrow> nat \<Rightarrow> nat \<Rightarrow> dir_entry list result" where
  "cram_entries cr stop p =
     (if p < stop then
        and_then (parse_inode cr p) (\<lambda>child.
        and_then (src_read (cr_src cr) (p + 12) (ci_namelen child)) (\<lambda>name.
        and_then (cram_entries cr stop (p + (12 + ci_namelen child))) (\<lambda>rest.
          Ok (\<lparr>de_name = from_utf8_lossy (hd (split_on 0 name)),
               de_node = p,
               de_kind = cram_kind (ci_mode child)\<rparr> # rest))))
      else Ok [])"
  by pat_completeness auto
termination
  by (relation "measure (\<lambda>(cr, stop, p). stop - p)") auto

declare cram_entries.simps [simp del]

definition cramfs_read_dir :: "cramfs \<Rightarrow> node_id \<Rightarrow> dir_entry list result" where
  "cramfs_read_dir cr dir =
     and_then (parse_inode cr dir) (\<lambda>inode.
       if cram_kind (ci_mode inode) \<noteq> Directory then Err NotDirectory
       else cram_entries cr (ci_data_off inode + ci_size inode) (ci_data_off inode))"

definition cramfs_lookup :: "cramfs \<Rightarrow> node_id \<Rightarrow> bytes \<Rightarrow> node_id option result" where
  "cramfs_lookup cr dir name = and_then (cramfs_read_dir cr dir) (\<lambda>es. Ok (find_entry name es))"

definition cramfs_metadata :: "cramfs \<Rightarrow> node_id \<Rightarrow> metadata result" where
  "cramfs_metadata cr node =
     and_then (parse_inode cr node) (\<lambda>inode.
       Ok \<lparr>md_kind = cram_kind (ci_mode inode), md_size = ci_size inode, md_mode = ci_mode inode AND 0xFFF\<rparr>)"

text \<open>\<^verbatim>\<open>data[start..start + n]\<close> panics when \<open>start\<close> lies past the end of \<open>data\<close>, also for \<open>n = 0\<close>.\<close>

definition cramfs_read_at :: "'r codec_lib \<Rightarrow> cramfs \<Rightarrow> node_id \<Rightarrow> nat \<Rightarrow> bytes \<Rightarrow> (nat \<times> bytes) result" where
  "cramfs_read_at lib cr node off buf =
     and_then (parse_inode cr node) (\<lambda>inode.
       if cram_kind (ci_mode inode) = Directory then Err IsDirectory
       else if off \<ge> ci_size inode then Ok (0, buf)
       else
         and_then (read_whole lib cr inode) (\<lambda>data.
         let n = min (length buf) (length data - off) in
         and_then (index_range data off (off + n)) (\<lambda>bs. Ok (n, overwrite buf 0 bs))))"

definition cramfs_read_link :: "'r codec_lib \<Rightarrow> cramfs \<Rightarrow> node_id \<Rightarrow> bytes option result" where
  "cramfs_read_link lib cr node =
     and_then (parse_inode cr node) (\<lambda>inode.
       if cram_kind (ci_mode inode) \<noteq> Symlink then Ok None
       else and_then (read_whole lib cr inode) (\<lambda>t. Ok (Some t)))"

definition cramfs_frontend :: "'r codec_lib \<Rightarrow> cramfs frontend" where
  "cramfs_frontend lib =
     \<lparr>fe_root = cramfs_root,
      fe_lookup = (\<lambda>cx dir name cr. (cramfs_lookup cr dir name, cr)),
      fe_read_dir = (\<lambda>cx dir cr. (cramfs_read_dir cr dir, cr)),
      fe_metadata = (\<lambda>cx node cr. (cramfs_metadata cr node, cr)),
      fe_read_at = (\<lambda>cx node off buf cr. (cramfs_read_at lib cr node off buf, cr)),
      fe_read_link = (\<lambda>cx node cr. (cramfs_read_link lib cr node, cr))\<rparr>"


section \<open>The contract\<close>

definition cramfs_ok :: "cramfs \<Rightarrow> bool" where
  "cramfs_ok cr \<longleftrightarrow> sound_source (cr_src cr)"

lemma parse_inode_safe [no_panic_simps]: "cramfs_ok cr \<Longrightarrow> no_panic (parse_inode cr off)"
  by (simp add: parse_inode_def no_panic_simps cramfs_ok_def)

text \<open>The pages never add up to more than the file, so the room left is never negative.\<close>

lemma cram_pages_spec:
  assumes ok: "codec_lib_ok lib" and src: "sound_source src"
  shows "length out \<le> sz \<Longrightarrow> no_panic (cram_pages lib src sz idx is start out) \<and>
    (\<forall>bs. cram_pages lib src sz idx is start out = Ok bs \<longrightarrow> length bs \<le> sz)"
proof (induction "is" arbitrary: start out)
  case (Cons i "is")
  let ?stop = "from_le (slice idx (i * 4) (i * 4 + 4))" and ?want = "min PAGE (sz - length out)"
  have hole: "no_panic (cram_pages lib src sz idx is ?stop (out @ replicate ?want 0)) \<and>
      (\<forall>bs. cram_pages lib src sz idx is ?stop (out @ replicate ?want 0) = Ok bs \<longrightarrow> length bs \<le> sz)"
    using Cons.IH [of "out @ replicate ?want 0" ?stop] Cons.prems by simp
  have page: "no_panic (cram_pages lib src sz idx is ?stop (out @ pg)) \<and>
      (\<forall>bs. cram_pages lib src sz idx is ?stop (out @ pg) = Ok bs \<longrightarrow> length bs \<le> sz)"
    if "decode lib Zlib comp ?want = Ok pg" for comp pg
  proof -
    have "length (out @ pg) \<le> sz" using decode_length(1) [OF ok that] Cons.prems by auto
    then show ?thesis by (rule Cons.IH)
  qed
  show ?case
    using Cons.prems hole page src
    by (auto simp: Let_def usub_def no_panic_simps result_simps)
qed simp

lemma read_whole_spec:
  assumes "codec_lib_ok lib" and "cramfs_ok cr"
  shows "no_panic (read_whole lib cr inode)"
    and "read_whole lib cr inode = Ok bs \<Longrightarrow> length bs \<le> ci_size inode"
proof -
  have src: "sound_source (cr_src cr)" using assms(2) by (simp add: cramfs_ok_def)
  note spec = cram_pages_spec [OF assms(1) src, of "[]"]
  show "no_panic (read_whole lib cr inode)"
    using spec src by (auto simp: read_whole_def Let_def no_panic_simps result_simps)
  show "length bs \<le> ci_size inode" if "read_whole lib cr inode = Ok bs"
    using that by (auto simp: read_whole_def Let_def result_simps split: if_splits)
qed

lemma cram_entries_safe: "cramfs_ok cr \<Longrightarrow> no_panic (cram_entries cr stop p)"
proof (induction cr stop p rule: cram_entries.induct)
  case (1 cr stop p)
  then show ?case
    by (subst cram_entries.simps) (auto simp: no_panic_simps cramfs_ok_def)
qed

lemma cram_entries_kind:
  "cram_entries cr stop p = Ok es \<Longrightarrow> e \<in> set es \<Longrightarrow>
     \<exists>inode. parse_inode cr (de_node e) = Ok inode \<and> de_kind e = cram_kind (ci_mode inode)"
proof (induction cr stop p arbitrary: es rule: cram_entries.induct)
  case (1 cr stop p)
  from "1.prems"(1) show ?case
    using "1.IH" "1.prems"(2)
    by (subst (asm) cram_entries.simps) (auto simp: result_simps split: if_splits)
qed

lemma cramfs_read_at_len:
  assumes "cramfs_read_at lib cr n off buf = Ok (k, buf')"
  shows "k \<le> length buf \<and> length buf' = length buf"
  using assms by (auto simp: cramfs_read_at_def Let_def result_simps split: if_splits)

interpretation cram: fold_frontend "cramfs_frontend lib" cramfs_ok for lib
  by unfold_locales (simp_all add: cramfs_frontend_def cramfs_read_at_len)

text \<open>The volume is the same after every call.\<close>

lemma cramfs_static: "fold_frontend (cramfs_frontend lib) (\<lambda>s. s = cr)"
  by unfold_locales (simp_all add: cramfs_frontend_def cramfs_read_at_len)

text \<open>A read may start anywhere up to the end of the inflated data.\<close>

definition cramfs_safe_off :: "'r codec_lib \<Rightarrow> cramfs \<Rightarrow> node_id \<Rightarrow> nat \<Rightarrow> bool" where
  "cramfs_safe_off lib cr node off \<longleftrightarrow>
     (\<forall>inode data. parse_inode cr node = Ok inode \<longrightarrow> read_whole lib cr inode = Ok data \<longrightarrow>
        off \<le> length data \<or> ci_size inode \<le> off)"

lemma cramfs_path_safe:
  assumes lib: "codec_lib_ok lib"
  shows "path_safe_frontend (cramfs_frontend lib) cramfs_ok (cramfs_safe_off lib)"
proof unfold_locales
  fix s cx n off buf
  assume "cramfs_ok s" "cramfs_safe_off lib s n off"
  then show "no_panic (fst (fe_read_at (cramfs_frontend lib) cx n off buf s))"
    using read_whole_spec(1) [OF lib]
    by (auto simp: cramfs_frontend_def cramfs_read_at_def cramfs_safe_off_def Let_def no_panic_simps)
next
  fix s cx n off buf k buf' s'
  assume "fe_read_at (cramfs_frontend lib) cx n off buf s = (Ok (k, buf'), s')" "0 < k"
  then show "cramfs_safe_off lib s' n (off + k)"
    by (auto simp: cramfs_frontend_def cramfs_read_at_def cramfs_safe_off_def Let_def result_simps
        split: if_splits)
qed (auto simp: cramfs_frontend_def cramfs_safe_off_def cramfs_lookup_def cramfs_read_dir_def
      cramfs_metadata_def cramfs_read_link_def no_panic_simps cram_entries_safe read_whole_spec(1) [OF lib])

definition cramfs_view :: "'r codec_lib \<Rightarrow> cramfs \<Rightarrow> node_id view" where
  "cramfs_view lib cr =
     \<lparr>vw_root = cramfs_root cr, vw_lookup = cramfs_lookup cr,
      vw_metadata = cramfs_metadata cr, vw_link = cramfs_read_link lib cr\<rparr>"

interpretation cram: tree_frontend "cramfs_frontend lib" cramfs_ok cx "\<lambda>_. Some" "cramfs_view lib" for lib cx
  by unfold_locales (auto simp: cramfs_frontend_def cramfs_view_def split: result.splits option.splits)

interpretation cram: coherent_frontend "cramfs_frontend lib" cramfs_ok for lib
proof unfold_locales
  fix s cx d es s' e
  assume "fe_read_dir (cramfs_frontend lib) cx d s = (Ok es, s')" "e \<in> set es"
  then show "\<exists>md s''. fe_metadata (cramfs_frontend lib) cx (de_node e) s' = (Ok md, s'') \<and> md_kind md = de_kind e"
    by (auto simp: cramfs_frontend_def cramfs_read_dir_def cramfs_metadata_def and_then_eq_Ok
        split: if_splits dest!: cram_entries_kind)
qed (auto simp: cramfs_frontend_def cramfs_lookup_def cramfs_metadata_def cramfs_read_link_def
      result_simps split: if_splits)

text \<open>A node whose pages inflate to all the bytes that the inode declares.\<close>

definition cramfs_content :: "'r codec_lib \<Rightarrow> cramfs \<Rightarrow> node_id \<Rightarrow> bytes \<Rightarrow> bool" where
  "cramfs_content lib cr n c \<longleftrightarrow>
     (\<exists>inode. parse_inode cr n = Ok inode \<and> cram_kind (ci_mode inode) \<noteq> Directory \<and>
        read_whole lib cr inode = Ok c \<and> length c = ci_size inode)"

interpretation cram: content_frontend "cramfs_frontend lib" cramfs_ok cx "cramfs_content lib" for lib cx
proof unfold_locales
  fix s n c
  assume "cramfs_content lib s n c"
  then obtain inode where i: "parse_inode s n = Ok inode" "cram_kind (ci_mode inode) \<noteq> Directory"
    "read_whole lib s inode = Ok c" "length c = ci_size inode" by (auto simp: cramfs_content_def)
  then show "\<exists>md s'. fe_metadata (cramfs_frontend lib) cx n s = (Ok md, s') \<and> md_kind md \<noteq> Directory \<and>
      md_size md = length c \<and> cramfs_content lib s' n c"
    by (auto simp: cramfs_frontend_def cramfs_metadata_def cramfs_content_def)
  fix off and buf :: bytes
  assume off: "off < length c" and "buf \<noteq> []"
  let ?n = "min (length buf) (length c - off)"
  have "cramfs_read_at lib s n off buf = Ok (?n, overwrite buf 0 (slice c off (off + ?n)))"
    using i off by (simp add: cramfs_read_at_def Let_def index_range_def)
  then show "\<exists>k s'. fe_read_at (cramfs_frontend lib) cx n off buf s =
      (Ok (k, overwrite buf 0 (slice c off (off + k))), s') \<and>
      0 < k \<and> k \<le> length buf \<and> off + k \<le> length c \<and> cramfs_content lib s' n c"
    using off i \<open>buf \<noteq> []\<close> by (intro exI [of _ ?n] exI [of _ s])
      (auto simp: cramfs_frontend_def cramfs_content_def)
qed


section \<open>Encoding\<close>

text \<open>
  A file as an image writer lays it out: the content cut into pages, each page a compressed blob or
  nothing when it is a hole, the table of the blobs' end offsets, then the blobs.
\<close>

function page_list :: "bytes \<Rightarrow> bytes list" where
  "page_list c = (if c = [] then [] else take PAGE c # page_list (drop PAGE c))"
  by pat_completeness auto
termination
  by (relation "measure length") (auto simp: PAGE_def)

declare page_list.simps [simp del]

fun blob_ends :: "nat \<Rightarrow> bytes list \<Rightarrow> nat list" where
  "blob_ends start [] = []"
| "blob_ends start (b # bs) = (start + length b) # blob_ends (start + length b) bs"

definition page_blob :: "(bytes \<Rightarrow> bytes) \<Rightarrow> bytes \<Rightarrow> bytes" where
  "page_blob compress pg = (if pg = replicate (length pg) 0 then [] else compress pg)"

definition cram_encode :: "(bytes \<Rightarrow> bytes) \<Rightarrow> nat \<Rightarrow> bytes \<Rightarrow> bytes" where
  "cram_encode compress data_off c =
     (let blobs = map (page_blob compress) (page_list c); start = data_off + 4 * length blobs in
      concat (map (to_le 4) (blob_ends start blobs)) @ concat blobs)"

lemma concat_page_list [simp]: "concat (page_list c) = c"
  by (induction c rule: page_list.induct) (subst page_list.simps, simp)

lemma div_ceil_step: "0 < b \<Longrightarrow> 0 < a \<Longrightarrow> div_ceil a b = Suc (div_ceil (a - b) b)"
proof -
  assume b: "0 < b" and a: "0 < a"
  show ?thesis
  proof (cases "b \<le> a")
    case True
    then show ?thesis using b by (simp add: div_ceil_def le_div_geq le_mod_geq)
  next
    case False
    then show ?thesis using a by (simp add: div_ceil_def)
  qed
qed

lemma length_page_list: "length (page_list c) = div_ceil (length c) PAGE"
proof (induction c rule: page_list.induct)
  case (1 c)
  then show ?case
    using div_ceil_step [of PAGE "length c"]
    by (subst page_list.simps) (auto simp: PAGE_def)
qed

lemma length_blob_ends [simp]: "length (blob_ends start bs) = length bs"
  by (induction bs arbitrary: start) auto

lemma length_concat_const: "(\<And>x. x \<in> set xs \<Longrightarrow> length (f x) = k) \<Longrightarrow> length (concat (map f xs)) = k * length xs"
  by (induction xs) auto

lemma slice_concat_const:
  assumes "\<And>x. length (f x) = k" and "i < length xs"
  shows "slice (concat (map f xs)) (i * k) (i * k + k) = f (xs ! i)"
  using assms(2)
proof (induction xs arbitrary: i)
  case (Cons x xs)
  show ?case
  proof (cases i)
    case 0
    then show ?thesis using assms(1) by (simp add: slice_def)
  next
    case (Suc j)
    then have "slice (concat (map f (x # xs))) (i * k) (i * k + k) = slice (concat (map f xs)) (j * k) (j * k + k)"
      using assms(1) by (simp add: slice_append_right add.commute)
    with Suc Cons show ?thesis by simp
  qed
qed simp

text \<open>What the decompressor must do for the writer's compressor: give back each page.\<close>

definition inverts :: "'r codec_lib \<Rightarrow> (bytes \<Rightarrow> bytes) \<Rightarrow> bool" where
  "inverts lib compress \<longleftrightarrow>
     has_deflate lib \<and>
     (\<forall>pg. pg \<noteq> [] \<longrightarrow> compress pg \<noteq> [] \<and> zlib_with_limit lib (compress pg) (length pg) = Some pg)"

lemma blob_ends_bound: "e \<in> set (blob_ends start bs) \<Longrightarrow> e \<le> start + length (concat bs)"
  by (induction bs arbitrary: start) fastforce+

lemma cram_pages_encode:
  assumes inv: "inverts lib compress"
    and src: "src = slice_source data" "length data < 2 ^ 32"
  shows "\<lbrakk>ps = map (page_blob compress) (page_list c);
      data = pre @ concat ps @ post; length pre = start;
      length out + length c = sz;
      \<And>j. j < length ps \<Longrightarrow> from_le (slice idx ((i + j) * 4) ((i + j) * 4 + 4)) = blob_ends start ps ! j\<rbrakk> \<Longrightarrow>
    cram_pages lib src sz idx [i..<i + length ps] start out = Ok (out @ c)"
proof (induction c arbitrary: ps pre start out i rule: page_list.induct)
  case (1 c)
  show ?case
  proof (cases "c = []")
    case True
    then have "ps = []" using "1.prems"(1) by (simp add: page_list.simps)
    with True show ?thesis by simp
  next
    case False
    let ?pg = "take PAGE c" and ?c = "drop PAGE c"
    let ?blob = "page_blob compress ?pg" and ?ps = "map (page_blob compress) (page_list ?c)"
    have ps: "ps = ?blob # ?ps" using "1.prems"(1) False by (subst (asm) page_list.simps) simp
    have stop: "from_le (slice idx (i * 4) (i * 4 + 4)) = start + length ?blob"
      using "1.prems"(5) [of 0] ps by simp
    have want: "min PAGE (sz - length out) = length ?pg" using "1.prems"(4) by (simp add: min.commute)
    have rest: "cram_pages lib src sz idx [Suc i..<Suc i + length ?ps] (start + length ?blob) (out @ ?pg) = Ok ((out @ ?pg) @ ?c)"
    proof (rule "1.IH" [OF False refl])
      show "data = (pre @ ?blob) @ concat ?ps @ post" using "1.prems"(2) ps by simp
      show "length (pre @ ?blob) = start + length ?blob" using "1.prems"(3) by simp
      show "length (out @ ?pg) + length ?c = sz" using "1.prems"(4) by simp
      show "from_le (slice idx ((Suc i + j) * 4) ((Suc i + j) * 4 + 4)) = blob_ends (start + length ?blob) ?ps ! j"
        if "j < length ?ps" for j
        using "1.prems"(5) [of "Suc j"] ps that by simp
    qed
    have upt: "[i..<i + length ps] = i # [Suc i..<Suc i + length ?ps]" using ps by (simp add: upt_rec)
    show ?thesis
    proof (cases "?pg = replicate (length ?pg) 0")
      case True
      then have "?blob = []" by (simp add: page_blob_def)
      with rest stop want upt "1.prems"(4) True show ?thesis
        by (simp add: Let_def usub_def)
    next
      case nz: False
      then have blob: "?blob = compress ?pg" by (simp add: page_blob_def)
      have "length ?pg \<le> MAX_DECOMPRESSED_BLOCK_BYTES"
        by (simp add: MAX_DECOMPRESSED_BLOCK_BYTES_def PAGE_def)
      then have "checked_block_len (length ?pg) = Ok (length ?pg)" by (simp only: checked_block_len_eq_Ok)
      moreover have "?pg \<noteq> []" using False by (simp add: PAGE_def)
      then have "has_deflate lib" "zlib_with_limit lib (compress ?pg) (length ?pg) = Some ?pg" "compress ?pg \<noteq> []"
        using inv unfolding inverts_def by blast+
      ultimately have "decode lib Zlib (compress ?pg) (length ?pg) = Ok ?pg"
        by (simp add: decode_def inflate_zlib_def del: length_take)
      moreover have "src_read src start (length ?blob) = Ok ?blob"
        using "1.prems"(2,3) ps src by (simp add: slice_read_at_eq_Ok slice_def)
      moreover have "?blob \<noteq> []" using \<open>compress ?pg \<noteq> []\<close> blob by simp
      ultimately show ?thesis
        using rest stop want upt "1.prems"(4) blob by (simp add: Let_def usub_def)
    qed
  qed
qed

lemma read_whole_encode:
  assumes inv: "inverts lib compress"
    and data: "data = pre @ cram_encode compress (length pre) c @ post" "length data < 2 ^ 32"
    and inode: "ci_size inode = length c" "ci_data_off inode = length pre"
    and cap: "length c \<le> MAX_BOOT_FILE_BYTES"
  shows "read_whole lib \<lparr>cr_src = slice_source data\<rparr> inode = Ok c"
proof (cases "c = []")
  case True
  then show ?thesis using inode by (simp add: read_whole_def checked_full_read_len_def checked_len_def)
next
  case False
  let ?blobs = "map (page_blob compress) (page_list c)"
  let ?start = "length pre + 4 * length ?blobs"
  let ?ends = "blob_ends ?start ?blobs"
  let ?idx = "concat (map (to_le 4) ?ends)"
  have enc: "cram_encode compress (length pre) c = ?idx @ concat ?blobs"
    by (simp add: cram_encode_def Let_def)
  have li: "length ?idx = 4 * length ?blobs" using length_concat_const [of ?ends "to_le 4" 4] by simp
  have nb: "div_ceil (ci_size inode) PAGE = length ?blobs" using inode by (simp add: length_page_list)
  have idx: "src_read (slice_source data) (length pre) (length ?blobs * 4) = Ok ?idx"
    using data enc li by (simp add: slice_read_at_eq_Ok slice_def)
  have field: "from_le (slice ?idx (j * 4) (j * 4 + 4)) = ?ends ! j" if "j < length ?blobs" for j
  proof -
    have "?ends ! j \<in> set ?ends" using that by simp
    then have "?ends ! j \<le> ?start + length (concat ?blobs)" by (rule blob_ends_bound)
    also have "\<dots> \<le> length data" using data(1) enc li by simp
    finally have "?ends ! j < 256 ^ 4" using data(2) by simp
    moreover have "slice ?idx (j * 4) (j * 4 + 4) = to_le 4 (?ends ! j)"
      using that by (intro slice_concat_const) simp_all
    ultimately show ?thesis using from_le_to_le by simp
  qed
  have "data = (pre @ ?idx) @ concat ?blobs @ post" using data(1) enc by simp
  moreover have "length (pre @ ?idx) = ?start" using li by simp
  ultimately have "cram_pages lib (slice_source data) (length c) ?idx [0..<0 + length ?blobs] ?start [] = Ok ([] @ c)"
    by (intro cram_pages_encode [OF inv refl data(2) refl, where pre = "pre @ ?idx" and post = post])
      (simp_all only: field list.size add_0)
  then show ?thesis
    using False inode cap nb idx
    by (simp add: read_whole_def Let_def checked_full_read_len_def checked_len_def usize_max_def
        MAX_BOOT_FILE_BYTES_def mult.commute)
qed

text \<open>An inode as the format packs it; name length and data offset are in units of four bytes.\<close>

definition cram_encode_inode :: "nat \<Rightarrow> nat \<Rightarrow> nat \<Rightarrow> nat \<Rightarrow> bytes" where
  "cram_encode_inode mode sz namelen data_off =
     to_le 4 mode @ to_le 4 sz @ to_le 4 (data_off div 4 * 64 + namelen div 4)"

lemma decode_encode_inode:
  assumes "mode < 2 ^ 16" and "sz < 2 ^ 24" and "namelen mod 4 = 0" and "namelen < 256"
    and "data_off mod 4 = 0" and "data_off < 2 ^ 28"
  shows "decode_inode (cram_encode_inode mode sz namelen data_off) =
    \<lparr>ci_mode = mode, ci_size = sz, ci_namelen = namelen, ci_data_off = data_off\<rparr>"
proof -
  obtain a where a: "namelen = 4 * a" "a < 64" using assms(3,4) by auto
  obtain b where b: "data_off = 4 * b" "b < 2 ^ 26" using assms(5,6) by auto
  let ?w = "b * 64 + a"
  have w: "?w < 256 ^ 4" using a b by simp
  have "?w AND 0x3F = a" using nat_and_mask [of ?w 6] a by simp
  moreover have "drop_bit 6 ?w = b" using a by (simp add: drop_bit_eq_div)
  moreover have "mode AND 0xFFFF = mode" using nat_and_mask [of mode 16] assms(1) by simp
  moreover have "sz AND 0xFFFFFF = sz" using nat_and_mask [of sz 24] assms(2) by simp
  ultimately show ?thesis
    using a b w assms(1,2) from_le_to_le [of mode 4] from_le_to_le [of sz 4] from_le_to_le [OF w]
    by (simp add: decode_inode_def cram_encode_inode_def Let_def slice_def)
qed


section \<open>Properties\<close>

text \<open>
  Reading, listing and stating by path never panics on a cramfs volume, whatever the image says
  and the decompressor returns.
\<close>

theorem cramfs_paths_never_panic:
  assumes "codec_lib_ok lib" and "cramfs_ok cr"
  shows "no_panic (fst (read_path (cramfs_frontend lib) cx path cr)) \<and>
    no_panic (fst (read_dir_path (cramfs_frontend lib) cx path cr)) \<and>
    no_panic (fst (metadata_path (cramfs_frontend lib) cx path cr))"
proof -
  note safe = cramfs_path_safe [OF assms(1)]
  show ?thesis
    using path_safe_frontend.read_path_safe [OF safe assms(2)]
      path_safe_frontend.read_dir_path_safe [OF safe assms(2)]
      path_safe_frontend.metadata_path_safe [OF safe assms(2)] by blast
qed

theorem cramfs_paths_never_panic_witness:
  "no_panic (fst (read_path (cramfs_frontend store_lib) null_cx [0x2F, 0x61] \<lparr>cr_src = slice_source [1, 2, 3]\<rparr>))"
  using cramfs_paths_never_panic [OF codec_lib_ok_store, of "\<lparr>cr_src = slice_source [1, 2, 3]\<rparr>"]
  by (simp add: cramfs_ok_def sound_slice_source)

text \<open>
  C38. A direct read panics in exactly one situation: the offset is inside the size that the inode
  declares, but past the end of what its pages inflate to.
\<close>

theorem cramfs_read_at_panic_iff:
  assumes "codec_lib_ok lib" and "cramfs_ok cr"
  shows "\<not> no_panic (cramfs_read_at lib cr node off buf) \<longleftrightarrow>
    (\<exists>inode data. parse_inode cr node = Ok inode \<and> cram_kind (ci_mode inode) \<noteq> Directory \<and>
       off < ci_size inode \<and> read_whole lib cr inode = Ok data \<and> length data < off)"
proof (cases "parse_inode cr node")
  case (Ok inode)
  then show ?thesis
    using read_whole_spec(1) [OF assms, of inode]
    by (cases "read_whole lib cr inode") (auto simp: cramfs_read_at_def Let_def no_panic_simps)
qed (use parse_inode_safe [OF assms(2), of node] in \<open>auto simp: cramfs_read_at_def\<close>)

definition short_page_volume :: cramfs where
  "short_page_volume =
     \<lparr>cr_src = slice_source (replicate 64 0 @ cram_encode_inode 0x8000 100 0 76 @ to_le 4 83 @ [1, 2, 3])\<rparr>"

theorem cramfs_read_at_panic_iff_witness:
  "\<not> no_panic (cramfs_read_at store_lib short_page_volume 64 50 [0])"
proof -
  let ?inode = "\<lparr>ci_mode = 0x8000, ci_size = 100, ci_namelen = 0, ci_data_off = 76\<rparr>"
  have len: "length (cram_encode_inode m s n d) = 12" for m s n d by (simp add: cram_encode_inode_def)
  have i: "parse_inode short_page_volume 64 = Ok ?inode"
    using decode_encode_inode [of "0x8000" 100 0 76] len
    by (simp add: parse_inode_def short_page_volume_def slice_read_at_def checked_add_def usize_max_def slice_def)
  have k: "cram_kind 0x8000 = Regular" by (simp add: cram_kind_def Let_def)
  have idx: "src_read (cr_src short_page_volume) 76 4 = Ok (to_le 4 83)"
    using len by (simp add: short_page_volume_def slice_read_at_def checked_add_def usize_max_def slice_def)
  have blob: "src_read (cr_src short_page_volume) 80 3 = Ok [1, 2, 3]"
    using len by (simp add: short_page_volume_def slice_read_at_def checked_add_def usize_max_def slice_def)
  have "decode store_lib Zlib [1, 2, 3] 100 = Ok [1, 2, 3]"
    by (simp add: decode_def inflate_zlib_def store_lib_def checked_block_len_def checked_len_def
        MAX_DECOMPRESSED_BLOCK_BYTES_def usize_max_def)
  moreover have "from_le (to_le 4 83) = 83" by (rule from_le_to_le) simp
  ultimately have w: "read_whole store_lib short_page_volume ?inode = Ok [1, 2, 3]"
    using idx blob
    by (simp add: read_whole_def Let_def checked_full_read_len_def checked_len_def usize_max_def
        MAX_BOOT_FILE_BYTES_def div_ceil_def PAGE_def usub_def slice_def)
  have "cramfs_ok short_page_volume" by (simp add: cramfs_ok_def short_page_volume_def sound_slice_source len)
  from cramfs_read_at_panic_iff [OF codec_lib_ok_store this] i k w show ?thesis by fastforce
qed

text \<open>
  C5. A file written as pages with holes, and reached by any path, is read back whole: the content
  is cut into pages, zero pages are left out, the others are compressed, and the table of end
  offsets precedes them.
\<close>

theorem cramfs_file_roundtrip:
  assumes "inverts lib compress" and "length data < 2 ^ 32"
    and "data = pre @ cram_encode compress (length pre) c @ post"
    and "parse_inode \<lparr>cr_src = slice_source data\<rparr> node =
      Ok \<lparr>ci_mode = mode, ci_size = length c, ci_namelen = nl, ci_data_off = length pre\<rparr>"
    and "cram_kind mode = Regular" and "length c \<le> MAX_BOOT_FILE_BYTES"
    and "fst (resolve (cramfs_frontend lib) cx path \<lparr>cr_src = slice_source data\<rparr>) = Ok node"
  shows "fst (read_path (cramfs_frontend lib) cx path \<lparr>cr_src = slice_source data\<rparr>) = Ok c"
proof -
  let ?cr = "\<lparr>cr_src = slice_source data\<rparr>"
  have ok: "cramfs_ok ?cr" using assms(2) by (simp add: cramfs_ok_def sound_slice_source)
  have "cramfs_content lib ?cr node c"
    using read_whole_encode [OF assms(1,3,2)] assms(4-6) by (auto simp: cramfs_content_def)
  moreover obtain s1 where s1: "resolve (cramfs_frontend lib) cx path ?cr = (Ok node, s1)"
    using assms(7) by (metis prod.collapse)
  moreover have "s1 = ?cr" using fold_frontend.resolve_keeps [OF cramfs_static refl s1] by simp
  ultimately show ?thesis using cram.read_path_content [OF ok s1] assms(6) by fastforce
qed

text \<open>A volume with one file, \<^verbatim>\<open>a\<close>, of three bytes.\<close>

definition cram_image :: bytes where
  "cram_image = replicate 64 0 @ cram_encode_inode 0x41ED 16 0 76 @
     cram_encode_inode 0x81A4 3 4 92 @ [0x61, 0, 0, 0] @ cram_encode id 92 [1, 2, 3]"

lemma inverts_store: "inverts store_lib id"
  by (simp add: inverts_def store_lib_def)

theorem cramfs_file_roundtrip_witness:
  "fst (read_path (cramfs_frontend store_lib) null_cx [0x2F, 0x61] \<lparr>cr_src = slice_source cram_image\<rparr>) = Ok [1, 2, 3]"
proof -
  let ?cr = "\<lparr>cr_src = slice_source cram_image\<rparr>"
  have len: "length (cram_encode_inode m s n d) = 12" for m s n d by (simp add: cram_encode_inode_def)
  have enc: "cram_encode id 92 [1, 2, 3] = to_le 4 99 @ [1, 2, 3]"
    by (simp add: cram_encode_def page_list.simps PAGE_def page_blob_def)
  have rd: "src_read (slice_source cram_image) 64 12 = Ok (cram_encode_inode 0x41ED 16 0 76)"
    "src_read (slice_source cram_image) 76 12 = Ok (cram_encode_inode 0x81A4 3 4 92)"
    "src_read (slice_source cram_image) 88 4 = Ok [0x61, 0, 0, 0]"
    using len enc by (simp_all add: cram_image_def slice_read_at_def checked_add_def usize_max_def slice_def)
  have root: "parse_inode ?cr 64 = Ok \<lparr>ci_mode = 0x41ED, ci_size = 16, ci_namelen = 0, ci_data_off = 76\<rparr>"
    using decode_encode_inode [of "0x41ED" 16 0 76] rd(1) by (simp add: parse_inode_def)
  have fil: "parse_inode ?cr 76 = Ok \<lparr>ci_mode = 0x81A4, ci_size = 3, ci_namelen = 4, ci_data_off = 92\<rparr>"
    using decode_encode_inode [of "0x81A4" 3 4 92] rd(2) by (simp add: parse_inode_def)
  have kinds: "cram_kind 0x41ED = Directory" "cram_kind 0x81A4 = Regular" by (simp_all add: cram_kind_def Let_def)
  have "utf8_valid [0x61]" by (simp add: utf8_valid_ascii)
  then have ents: "cram_entries ?cr 92 76 = Ok [\<lparr>de_name = [0x61], de_node = 76, de_kind = Regular\<rparr>]"
    using fil rd(3) kinds by (simp add: cram_entries.simps [of _ 92] from_utf8_lossy_id)
  have comps: "components [0x2F, 0x61] = [[0x61]]" by (simp add: components_def slash_def dot_def)
  have "fst (resolve (cramfs_frontend store_lib) null_cx [0x2F, 0x61] ?cr) = Ok 76"
    using root fil kinds ents comps
    by (simp add: resolve_def push_components_eq resolve_loop_Cons dotdot_def cramfs_frontend_def
        cramfs_root_def ROOT_INODE_OFF_def cramfs_lookup_def cramfs_read_dir_def cramfs_metadata_def find_entry_def)
  moreover have "cram_image = (replicate 64 0 @ cram_encode_inode 0x41ED 16 0 76 @
      cram_encode_inode 0x81A4 3 4 92 @ [0x61, 0, 0, 0]) @ cram_encode id 92 [1, 2, 3] @ []"
    by (simp add: cram_image_def)
  moreover have "length (replicate 64 (0 :: byte) @ cram_encode_inode 0x41ED 16 0 76 @
      cram_encode_inode 0x81A4 3 4 92 @ [0x61, 0, 0, 0]) = 92" by (simp add: len)
  moreover have "length cram_image < 2 ^ 32" by (simp add: cram_image_def len enc)
  ultimately show ?thesis
    using cramfs_file_roundtrip [OF inverts_store, of cram_image
        "replicate 64 0 @ cram_encode_inode 0x41ED 16 0 76 @ cram_encode_inode 0x81A4 3 4 92 @ [0x61, 0, 0, 0]"
        "[1, 2, 3]" "[]" 76 "0x81A4" 4 null_cx] fil kinds
    by (simp add: MAX_BOOT_FILE_BYTES_def)
qed

end
