(* ===== verification/Stream_Codec.thy ===== *)
theory Stream_Codec
  imports Codec
begin

text \<open>
  Whole-stream decompression (\<^verbatim>\<open>crates/lamfold/src/stream.rs\<close>): the recognition of a stream by
  its magic, the gzip container with its table-driven CRC-32, the zstd frame loop, the xz and lzma
  streams and LZ4's legacy frames. The decompressors are the parameter \<open>lib\<close>. Every loop but the
  zstd one has a termination measure of its own; the zstd loop ends because a decoder consumes its
  input, which is the library's promise, so it is a partial function shown to return under it.
  Allocation failure (\<^verbatim>\<open>try_reserve\<close>) is not modelled: a buffer within the cap is available.
\<close>

datatype stream_codec = SGzip | SZstd | SXz | SLzma | SLz4Legacy | SBzip2 | SLzo

definition LZ4_LEGACY_MAGIC :: bytes where
  "LZ4_LEGACY_MAGIC = [0x02, 0x21, 0x4C, 0x18]"

definition MAGICS :: "(bytes \<times> stream_codec) list" where
  "MAGICS =
     [([0x1F, 0x8B], SGzip),
      ([0x28, 0xB5, 0x2F, 0xFD], SZstd),
      ([0xFD, 0x37, 0x7A, 0x58, 0x5A, 0x00], SXz),
      ([0x5D, 0x00, 0x00], SLzma),
      (LZ4_LEGACY_MAGIC, SLz4Legacy),
      ([0x42, 0x5A, 0x68], SBzip2),
      ([0x89, 0x4C, 0x5A, 0x4F], SLzo)]"

definition sniff :: "bytes \<Rightarrow> stream_codec option" where
  "sniff input = map_option snd (find (\<lambda>(magic, _). starts_with input magic) MAGICS)"

definition CHUNK :: nat where
  "CHUNK = 64 * 1024"

definition push_capped :: "bytes \<Rightarrow> bytes \<Rightarrow> nat \<Rightarrow> bytes result" where
  "push_capped out chunk max_out =
     (let want = length out + length chunk in
      if want > max_out then Err (FileTooLarge want max_out) else Ok (out @ chunk))"

lemma push_capped_eq_Ok [result_simps]:
  "push_capped out chunk m = Ok out' \<longleftrightarrow> out' = out @ chunk \<and> length out + length chunk \<le> m"
  by (auto simp: push_capped_def Let_def)

lemma no_panic_push_capped [no_panic_simps, simp]: "no_panic (push_capped out chunk m)"
  by (simp add: push_capped_def Let_def)

text \<open>The macro \<^verbatim>\<open>read_all_capped!\<close>, with the reader it leaves behind.\<close>

function read_all_capped ::
  "'r codec_lib \<Rightarrow> string \<Rightarrow> nat \<Rightarrow> bytes \<Rightarrow> 'r \<Rightarrow> bytes result \<times> 'r" where
  "read_all_capped lib msg max_out out r =
     (case reader_read lib r CHUNK of
        (None, r') \<Rightarrow> (Err (Decompress msg), r')
      | (Some bs, r') \<Rightarrow>
          if bs = [] then (Ok out, r')
          else (case push_capped out bs max_out of
                  Ok out' \<Rightarrow> read_all_capped lib msg max_out out' r'
                | Err e \<Rightarrow> (Err e, r')
                | Panic p \<Rightarrow> (Panic p, r')))"
  by pat_completeness auto
termination
proof (relation "measure (\<lambda>(lib, msg, max_out, out, r). max_out - length out)", goal_cases)
  case (2 lib msg max_out out r x r' bs out')
  then have "out' = out @ bs" "length out + length bs \<le> max_out" "bs \<noteq> []"
    by (auto simp: push_capped_eq_Ok)
  then show ?case by (cases bs) auto
qed simp

declare read_all_capped.simps [simp del]


section \<open>gzip\<close>

definition CRC_POLY :: "32 word" where
  "CRC_POLY = 0xEDB88320"

definition crc_shift :: "32 word \<Rightarrow> 32 word" where
  "crc_shift c = (if c AND 1 \<noteq> 0 then CRC_POLY XOR drop_bit 1 c else drop_bit 1 c)"

definition CRC32_TABLE :: "32 word list" where
  "CRC32_TABLE = map (\<lambda>i. (crc_shift ^^ 8) (word_of_nat i)) [0..<256]"

definition crc32_update :: "32 word \<Rightarrow> byte \<Rightarrow> 32 word" where
  "crc32_update c b = CRC32_TABLE ! unat ((c XOR ucast b) AND 0xFF) XOR drop_bit 8 c"

definition crc32 :: "bytes \<Rightarrow> 32 word" where
  "crc32 data = NOT (foldl crc32_update (NOT 0) data)"

definition FHCRC :: byte where "FHCRC = 0x02"
definition FEXTRA :: byte where "FEXTRA = 0x04"
definition FNAME :: byte where "FNAME = 0x08"
definition FCOMMENT :: byte where "FCOMMENT = 0x10"

function inflate_loop ::
  "'r codec_lib \<Rightarrow> bytes \<Rightarrow> nat \<Rightarrow> 'r \<Rightarrow> bytes \<Rightarrow> nat \<Rightarrow> (bytes \<times> nat) result" where
  "inflate_loop lib input max_out st out pos =
     (if pos > length input then Panic IndexOutOfRange
      else
        (case inflate lib st (drop pos input) CHUNK of
           (r, st') \<Rightarrow>
             and_then (push_capped out (io_written r) max_out) (\<lambda>out'.
               case io_status r of
                 MzStreamEnd \<Rightarrow> Ok (out', pos + io_consumed r)
               | MzOk \<Rightarrow>
                   if io_consumed r > 0 \<or> io_written r \<noteq> []
                   then inflate_loop lib input max_out st' out' (pos + io_consumed r)
                   else Err (Corrupt ''deflate_truncated'')
               | MzError \<Rightarrow> Err (Corrupt ''deflate_truncated''))))"
  by pat_completeness auto
termination
proof (relation "measure (\<lambda>(lib, input, max_out, st, out, pos). (max_out - length out) + (length input + 1 - pos))",
    goal_cases)
  case (2 lib input max_out st out pos r st' out')
  then have "out' = out @ io_written r" "length out + length (io_written r) \<le> max_out"
    by (auto simp: push_capped_eq_Ok)
  with 2 show ?case by (cases "io_written r") auto
qed simp

declare inflate_loop.simps [simp del]

definition inflate_raw_stream :: "'r codec_lib \<Rightarrow> bytes \<Rightarrow> nat \<Rightarrow> (bytes \<times> nat) result" where
  "inflate_raw_stream lib input max_out = inflate_loop lib input max_out (inflate_new lib) [] 0"

text \<open>The name and comment fields: each ends at a NUL.\<close>

definition gzip_skip_string :: "bytes \<Rightarrow> bool \<Rightarrow> nat \<Rightarrow> nat result" where
  "gzip_skip_string input present pos =
     (if present then
        and_then (ok_or (Option.bind (get_from input pos) (position (\<lambda>b. b = 0))) (Corrupt ''gzip_header''))
          (\<lambda>nul. Ok (pos + nul + 1))
      else Ok pos)"

text \<open>The end of the header: the optional extra field, name, comment and header checksum.\<close>

definition gzip_header_end :: "bytes \<Rightarrow> nat result" where
  "gzip_header_end input =
     (if length input < 10 \<or> take 3 input \<noteq> [0x1F, 0x8B, 8] \<or> (input ! 3) AND 0xE0 \<noteq> 0
      then Err (Corrupt ''gzip_header'')
      else
        let flg = input ! 3 in
        and_then (if flg AND FEXTRA \<noteq> 0
                  then and_then (ok_or (get_range input 10 12) (Corrupt ''gzip_header''))
                         (\<lambda>xlen. Ok (12 + from_le xlen))
                  else Ok 10) (\<lambda>pos.
        and_then (gzip_skip_string input (flg AND FNAME \<noteq> 0) pos) (\<lambda>pos.
        and_then (gzip_skip_string input (flg AND FCOMMENT \<noteq> 0) pos) (\<lambda>pos.
          Ok (if flg AND FHCRC \<noteq> 0 then pos + 2 else pos)))))"

definition gzip :: "'r codec_lib \<Rightarrow> bytes \<Rightarrow> nat \<Rightarrow> (bytes \<times> nat) result" where
  "gzip lib input max_out =
     (if has_deflate lib then
        and_then (gzip_header_end input) (\<lambda>pos.
        and_then (ok_or (get_from input pos) (Corrupt ''gzip_header'')) (\<lambda>body.
        and_then (inflate_raw_stream lib body max_out) (\<lambda>(out, used).
        let pos = pos + used in
        and_then (ok_or (get_range input pos (pos + 8)) (Corrupt ''gzip_truncated'')) (\<lambda>trailer.
        let crc = from_le (take 4 trailer); isz = from_le (drop 4 trailer) in
        if crc \<noteq> unat (crc32 out) \<or> isz \<noteq> length out mod 2 ^ 32 then Err (Corrupt ''gzip_checksum'')
        else Ok (out, pos + 8)))))
      else disabled ''codec-deflate'')"


section \<open>zstd\<close>

definition FRAME_MAGIC :: bytes where
  "FRAME_MAGIC = [0x28, 0xB5, 0x2F, 0xFD]"

definition skippable_frame :: "bytes \<Rightarrow> bool" where
  "skippable_frame rest \<longleftrightarrow>
     length rest \<ge> 8 \<and> (rest ! 0) AND 0xF0 = 0x50 \<and> slice rest 1 4 = [0x2A, 0x4D, 0x18]"

text \<open>One frame: its decoder is read to the end under what is left of the cap.\<close>

definition zstd_frame :: "'r codec_lib \<Rightarrow> bytes \<Rightarrow> bytes \<Rightarrow> nat \<Rightarrow> (bytes \<times> bytes) result" where
  "zstd_frame lib rest out max_out =
     and_then (ok_or (zstd_new lib rest) (Decompress ''zstd frame init failed'')) (\<lambda>dec.
     and_then (usub max_out (length out)) (\<lambda>room.
       case read_all_capped lib ''zstd read failed'' room [] dec of
         (r, dec') \<Rightarrow> and_then r (\<lambda>frame.
           and_then (push_capped out frame max_out) (\<lambda>out'. Ok (out', reader_rest lib dec')))))"

partial_function (option) zstd_loop ::
  "'r codec_lib \<Rightarrow> nat \<Rightarrow> bytes \<Rightarrow> bytes \<Rightarrow> nat \<Rightarrow> (bytes \<times> bytes \<times> nat) result option" where
  "zstd_loop lib max_out rest out frames =
     (if skippable_frame rest then
        (case get_from rest (8 + from_le (slice rest 4 8)) of
           None \<Rightarrow> Some (Err (Corrupt ''zstd_truncated''))
         | Some rest' \<Rightarrow> zstd_loop lib max_out rest' out frames)
      else if \<not> starts_with rest FRAME_MAGIC then Some (Ok (out, rest, frames))
      else
        (case zstd_frame lib rest out max_out of
           Ok (out', rest') \<Rightarrow> zstd_loop lib max_out rest' out' (frames + 1)
         | Err e \<Rightarrow> Some (Err e)
         | Panic p \<Rightarrow> Some (Panic p)))"

definition zstd :: "'r codec_lib \<Rightarrow> bytes \<Rightarrow> nat \<Rightarrow> (bytes \<times> nat) result option" where
  "zstd lib input max_out =
     (if has_zstd lib then
        map_option (\<lambda>res. and_then res (\<lambda>(out, rest, frames).
          if frames = 0 then Err (Corrupt ''zstd_no_frame'')
          else and_then (usub (length input) (length rest)) (\<lambda>used. Ok (out, used))))
          (zstd_loop lib max_out input [] 0)
      else Some (disabled ''codec-zstd''))"


section \<open>xz and lzma\<close>

definition xz :: "'r codec_lib \<Rightarrow> bytes \<Rightarrow> nat \<Rightarrow> (bytes \<times> nat) result" where
  "xz lib input max_out =
     (if has_xz lib then
        (case read_all_capped lib ''xz read failed'' max_out [] (xz_new lib input) of
           (r, rdr) \<Rightarrow> and_then r (\<lambda>out.
             and_then (usub (length input) (length (reader_rest lib rdr))) (\<lambda>used. Ok (out, used))))
      else disabled ''codec-xz'')"

definition lzma :: "'r codec_lib \<Rightarrow> bytes \<Rightarrow> nat \<Rightarrow> (bytes \<times> nat) result" where
  "lzma lib input max_out =
     (if has_xz lib then
        and_then (ok_or (lzma_new_mem_limit lib input) (Corrupt ''lzma_header'')) (\<lambda>rdr.
        case read_all_capped lib ''lzma read failed'' max_out [] rdr of
          (r, rdr') \<Rightarrow> and_then r (\<lambda>out.
            and_then (usub (length input) (length (reader_rest lib rdr'))) (\<lambda>used. Ok (out, used))))
      else disabled ''codec-xz'')"


section \<open>LZ4 legacy frames\<close>

definition LZ4_LEGACY_BLOCK :: nat where
  "LZ4_LEGACY_BLOCK = 8 * 2 ^ 20"

definition LZ4_LEGACY_MAX_COMPRESSED :: nat where
  "LZ4_LEGACY_MAX_COMPRESSED = LZ4_LEGACY_BLOCK + LZ4_LEGACY_BLOCK div 255 + 16"

function lz4_legacy_loop ::
  "'r codec_lib \<Rightarrow> bytes \<Rightarrow> nat \<Rightarrow> bytes \<Rightarrow> nat \<Rightarrow> (bytes \<times> nat) result" where
  "lz4_legacy_loop lib input max_out out pos =
     (case get_range input pos (pos + 4) of
        None \<Rightarrow> Ok (out, pos)
      | Some head \<Rightarrow>
          if head = LZ4_LEGACY_MAGIC then lz4_legacy_loop lib input max_out out (pos + 4)
          else
            let sz = from_le head in
            if sz = 0 \<or> sz > LZ4_LEGACY_MAX_COMPRESSED \<or> sz > length input - pos - 4 then Ok (out, pos)
            else
              and_then (usub max_out (length out)) (\<lambda>left.
              let room = min LZ4_LEGACY_BLOCK left in
              case lz4_decompress_into lib (slice input (pos + 4) (pos + 4 + sz)) room of
                Some bs \<Rightarrow> lz4_legacy_loop lib input max_out (out @ bs) (pos + 4 + sz)
              | None \<Rightarrow>
                  if room < LZ4_LEGACY_BLOCK then Err (FileTooLarge (length out + room + 1) max_out)
                  else Err (Decompress ''lz4 legacy block failed'')))"
  by pat_completeness auto
termination
  by (relation "measure (\<lambda>(lib, input, max_out, out, pos). length input - pos)")
    (auto simp: get_range_eq_Some)

declare lz4_legacy_loop.simps [simp del]

definition lz4_legacy :: "'r codec_lib \<Rightarrow> bytes \<Rightarrow> nat \<Rightarrow> (bytes \<times> nat) result" where
  "lz4_legacy lib input max_out =
     (if has_lz4 lib then
        if \<not> starts_with input LZ4_LEGACY_MAGIC then Err (Corrupt ''lz4_legacy_magic'')
        else lz4_legacy_loop lib input max_out [] 4
      else disabled ''codec-lz4'')"

definition decode_stream ::
  "'r codec_lib \<Rightarrow> stream_codec \<Rightarrow> bytes \<Rightarrow> nat \<Rightarrow> (bytes \<times> nat) result option" where
  "decode_stream lib codec input max_out =
     (case codec of
        SGzip \<Rightarrow> Some (gzip lib input max_out)
      | SZstd \<Rightarrow> zstd lib input max_out
      | SXz \<Rightarrow> Some (xz lib input max_out)
      | SLzma \<Rightarrow> Some (lzma lib input max_out)
      | SLz4Legacy \<Rightarrow> Some (lz4_legacy lib input max_out)
      | SBzip2 \<Rightarrow> Some (Err (Unsupported ''stream_bzip2''))
      | SLzo \<Rightarrow> Some (Err (Unsupported ''stream_lzo'')))"


section \<open>The checksum\<close>

text \<open>The bit-by-bit checksum: a byte is folded in and eight shifts follow.\<close>

definition crc32_ref :: "bytes \<Rightarrow> 32 word" where
  "crc32_ref data = NOT (foldl (\<lambda>c b. (crc_shift ^^ 8) (c XOR ucast b)) (NOT 0) data)"

lemma crc_shift_alt: "crc_shift c = drop_bit 1 c XOR (if bit c 0 then CRC_POLY else 0)"
  by (simp add: crc_shift_def and_one_eq xor.commute bit_0 odd_iff_mod_2_eq_one)

lemma crc_shift_xor: "crc_shift (x XOR y) = crc_shift x XOR crc_shift y"
  by (simp add: crc_shift_alt drop_bit_xor bit_xor_iff xor.assoc xor.commute xor.left_commute)

lemma crc_shifts_xor: "(crc_shift ^^ k) (x XOR y) = (crc_shift ^^ k) x XOR (crc_shift ^^ k) y"
  by (induction k) (simp_all add: crc_shift_xor)

lemma crc_shifts_high: "(\<forall>i < k. \<not> bit x i) \<Longrightarrow> (crc_shift ^^ k) x = drop_bit k x"
proof (induction k)
  case (Suc k)
  then have "(crc_shift ^^ k) x = drop_bit k x" "\<not> bit x k" by simp_all
  then have "(crc_shift ^^ Suc k) x = crc_shift (drop_bit k x)" "\<not> bit (drop_bit k x) 0"
    by (simp_all add: bit_simps)
  then show ?case by (simp add: crc_shift_alt [of "drop_bit k x"])
qed simp

lemma crc32_update_eq: "crc32_update c b = (crc_shift ^^ 8) (c XOR ucast b)"
proof -
  let ?v = "c XOR ucast b" and ?m = "0xFF :: 32 word"
  have m: "?m = mask 8" by (simp add: mask_eq_exp_minus_1)
  have "unat (?v AND ?m) < 256"
    using and_mask_less' [of 8 ?v] by (simp add: m word_less_nat_alt)
  then have tab: "CRC32_TABLE ! unat (?v AND ?m) = (crc_shift ^^ 8) (?v AND ?m)"
    by (simp add: CRC32_TABLE_def)
  have split: "?v = (?v AND ?m) XOR (?v AND NOT ?m)"
    by (rule bit_eqI) (auto simp: bit_simps)
  have "drop_bit 8 (?v AND NOT ?m) = drop_bit 8 c"
    by (rule bit_eqI) (auto simp: bit_simps m dest: bit_imp_le_length)
  moreover have "(crc_shift ^^ 8) (?v AND NOT ?m) = drop_bit 8 (?v AND NOT ?m)"
    by (rule crc_shifts_high) (auto simp: bit_simps m)
  moreover have "(crc_shift ^^ 8) ?v = (crc_shift ^^ 8) (?v AND ?m) XOR (crc_shift ^^ 8) (?v AND NOT ?m)"
    by (subst split) (rule crc_shifts_xor)
  ultimately show ?thesis using tab by (simp add: crc32_update_def)
qed

lemma crc32_eq_ref: "crc32 data = crc32_ref data"
  by (simp add: crc32_def crc32_ref_def crc32_update_eq [abs_def])


section \<open>Bounds, progress and outcomes\<close>

lemma read_all_capped_spec:
  assumes ok: "codec_lib_ok lib"
  shows "length out \<le> m \<Longrightarrow> read_all_capped lib msg m out r = (x, r') \<Longrightarrow>
    no_panic x \<and> (\<forall>bs. x = Ok bs \<longrightarrow> length bs \<le> m) \<and>
    length (reader_rest lib r') \<le> length (reader_rest lib r)"
proof (induction "m - length out" arbitrary: out r rule: less_induct)
  case less
  obtain y r1 where y: "reader_read lib r CHUNK = (y, r1)" by fastforce
  have rest: "length (reader_rest lib r1) \<le> length (reader_rest lib r)"
    using codec_lib_okD(10) [OF ok y] .
  show ?case
  proof (cases "\<exists>bs. y = Some bs \<and> bs \<noteq> [] \<and> length out + length bs \<le> m")
    case True
    then obtain bs where bs: "y = Some bs" "bs \<noteq> []" "length out + length bs \<le> m" by blast
    then have "push_capped out bs m = Ok (out @ bs)" by (simp add: push_capped_eq_Ok)
    then have "read_all_capped lib msg m (out @ bs) r1 = (x, r')"
      using less.prems(2) y bs by (simp add: read_all_capped.simps [of lib msg m out r])
    moreover have "m - length (out @ bs) < m - length out" using bs by (cases bs) auto
    ultimately show ?thesis using less.hyps [of "out @ bs" r1] bs rest by simp
  next
    case False
    with less.prems y rest show ?thesis
      by (auto simp: read_all_capped.simps [of lib msg m out r] push_capped_def Let_def
          split: option.splits if_splits)
  qed
qed

lemma inflate_loop_spec:
  assumes ok: "codec_lib_ok lib"
  shows "length out \<le> m \<Longrightarrow> pos \<le> length input \<Longrightarrow>
    no_panic (inflate_loop lib input m st out pos) \<and>
    (\<forall>bs used. inflate_loop lib input m st out pos = Ok (bs, used) \<longrightarrow> length bs \<le> m \<and> used \<le> length input)"
proof (induction "(m - length out) + (length input + 1 - pos)" arbitrary: st out pos rule: less_induct)
  case less
  obtain r st' where r: "inflate lib st (drop pos input) CHUNK = (r, st')" by fastforce
  have le: "pos + io_consumed r \<le> length input"
    using codec_lib_okD(11) [OF ok r] less.prems(2) by auto
  let ?out = "out @ io_written r" and ?pos = "pos + io_consumed r"
  show ?case
  proof (cases "length ?out \<le> m \<and> io_status r = MzOk \<and> (io_consumed r > 0 \<or> io_written r \<noteq> [])")
    case True
    then have eq: "inflate_loop lib input m st out pos = inflate_loop lib input m st' ?out ?pos"
      using r less.prems(2) by (subst inflate_loop.simps) (simp add: push_capped_def Let_def)
    have "(m - length ?out) + (length input + 1 - ?pos) < (m - length out) + (length input + 1 - pos)"
      using True less.prems(2) by (cases "io_written r") auto
    from less.hyps [OF this] True le show ?thesis by (simp add: eq)
  next
    case False
    then show ?thesis using r less.prems(2) le
      by (subst (1 2) inflate_loop.simps) (auto simp: push_capped_def Let_def split: mz_status.splits)
  qed
qed

lemma zstd_loop_step:
  "zstd_loop lib m rest out frames =
     (if skippable_frame rest then
        (case get_from rest (8 + from_le (slice rest 4 8)) of
           None \<Rightarrow> Some (Err (Corrupt ''zstd_truncated''))
         | Some rest' \<Rightarrow> zstd_loop lib m rest' out frames)
      else if \<not> starts_with rest FRAME_MAGIC then Some (Ok (out, rest, frames))
      else
        (case zstd_frame lib rest out m of
           Ok (out', rest') \<Rightarrow> zstd_loop lib m rest' out' (frames + 1)
         | Err e \<Rightarrow> Some (Err e)
         | Panic p \<Rightarrow> Some (Panic p)))"
  by (rule zstd_loop.simps)

lemma zstd_frame_spec:
  assumes ok: "codec_lib_ok lib" and "length out \<le> m"
  shows "no_panic (zstd_frame lib rest out m)"
    and "zstd_frame lib rest out m = Ok (out', rest') \<Longrightarrow> length out' \<le> m \<and> length rest' < length rest"
proof -
  have spec: "no_panic x \<and> (\<forall>bs. x = Ok bs \<longrightarrow> length bs \<le> m - length out) \<and>
      length (reader_rest lib r') \<le> length (reader_rest lib r)"
    if "read_all_capped lib ''zstd read failed'' (m - length out) [] r = (x, r')" for x r r'
    using read_all_capped_spec [OF ok _ that] by simp
  show "no_panic (zstd_frame lib rest out m)"
    using assms(2) spec by (fastforce simp: zstd_frame_def no_panic_simps result_simps split: prod.splits)
  assume f: "zstd_frame lib rest out m = Ok (out', rest')"
  then obtain dec frame dec' where d: "zstd_new lib rest = Some dec"
    "read_all_capped lib ''zstd read failed'' (m - length out) [] dec = (Ok frame, dec')"
    "out' = out @ frame" "length out + length frame \<le> m" "rest' = reader_rest lib dec'"
    by (auto simp: zstd_frame_def result_simps case_prod_beta prod_eq_iff)
  from spec [OF d(2)] codec_lib_okD(7) [OF ok d(1)] d show "length out' \<le> m \<and> length rest' < length rest"
    by simp
qed

text \<open>The frame loop returns: each round takes at least one byte off the input.\<close>

lemma zstd_loop_returns:
  assumes ok: "codec_lib_ok lib"
  shows "length out \<le> m \<Longrightarrow> \<exists>x. zstd_loop lib m rest out frames = Some x \<and> no_panic x \<and>
    (\<forall>out' rest' k. x = Ok (out', rest', k) \<longrightarrow> length out' \<le> m \<and> length rest' \<le> length rest)"
proof (induction "length rest" arbitrary: rest out frames rule: less_induct)
  case less
  show ?case
  proof (cases "skippable_frame rest")
    case True
    show ?thesis
    proof (cases "8 + from_le (slice rest 4 8) \<le> length rest")
      case le: True
      let ?rest = "drop (8 + from_le (slice rest 4 8)) rest"
      have "length ?rest < length rest" using True by (auto simp: skippable_frame_def)
      from less.hyps [OF this less.prems] obtain x where
        "zstd_loop lib m ?rest out frames = Some x" "no_panic x"
        "\<forall>out' rest' k. x = Ok (out', rest', k) \<longrightarrow> length out' \<le> m \<and> length rest' \<le> length ?rest" by blast
      then show ?thesis using True le
        by (subst zstd_loop_step) (fastforce simp: get_from_def)
    qed (use True in \<open>subst zstd_loop_step, simp add: get_from_def\<close>)
  next
    case skip: False
    show ?thesis
    proof (cases "starts_with rest FRAME_MAGIC \<and> (\<exists>o' r'. zstd_frame lib rest out m = Ok (o', r'))")
      case True
      then obtain o' r' where f: "zstd_frame lib rest out m = Ok (o', r')" by blast
      note fs = zstd_frame_spec(2) [OF ok less.prems f]
      from less.hyps [of r' o'] fs obtain x where
        "zstd_loop lib m r' o' (frames + 1) = Some x" "no_panic x"
        "\<forall>out' rest' k. x = Ok (out', rest', k) \<longrightarrow> length out' \<le> m \<and> length rest' \<le> length r'" by blast
      then show ?thesis using True skip f fs by (subst zstd_loop_step) fastforce
    next
      case False
      with skip zstd_frame_spec(1) [OF ok less.prems, of rest] less.prems show ?thesis
        by (subst zstd_loop_step) (auto split: result.splits)
    qed
  qed
qed

lemma lz4_legacy_loop_spec:
  assumes ok: "codec_lib_ok lib"
  shows "length out \<le> m \<Longrightarrow> pos \<le> length input \<Longrightarrow>
    no_panic (lz4_legacy_loop lib input m out pos) \<and>
    (\<forall>bs used. lz4_legacy_loop lib input m out pos = Ok (bs, used) \<longrightarrow> length bs \<le> m \<and> used \<le> length input)"
proof (induction "length input - pos" arbitrary: out pos rule: less_induct)
  case less
  show ?case
  proof (cases "pos + 4 \<le> length input")
    case False
    with less.prems show ?thesis
      by (subst (1 2) lz4_legacy_loop.simps) (auto simp: get_range_def)
  next
    case True
    let ?head = "slice input pos (pos + 4)" and ?room = "min LZ4_LEGACY_BLOCK (m - length out)"
    let ?sz = "from_le ?head"
    have IH: "no_panic (lz4_legacy_loop lib input m o' p') \<and>
        (\<forall>bs used. lz4_legacy_loop lib input m o' p' = Ok (bs, used) \<longrightarrow> length bs \<le> m \<and> used \<le> length input)"
      if "length o' \<le> m" "p' \<le> length input" "pos < p'" for o' p'
      using less.hyps [of p' o'] that True by simp
    have into: "length out + length bs \<le> m"
      if "lz4_decompress_into lib b ?room = Some bs" for b bs
      using codec_lib_okD(4) [OF ok that] less.prems by auto
    show ?thesis
    proof (cases "?head = LZ4_LEGACY_MAGIC")
      case magic: True
      then have "lz4_legacy_loop lib input m out pos = lz4_legacy_loop lib input m out (pos + 4)"
        using True by (subst lz4_legacy_loop.simps) (simp add: get_range_def)
      with IH [of out "pos + 4"] less.prems True show ?thesis by simp
    next
      case False
      have step: "lz4_legacy_loop lib input m out pos =
        (if ?sz = 0 \<or> ?sz > LZ4_LEGACY_MAX_COMPRESSED \<or> ?sz > length input - pos - 4 then Ok (out, pos)
         else case lz4_decompress_into lib (slice input (pos + 4) (pos + 4 + ?sz)) ?room of
            Some bs \<Rightarrow> lz4_legacy_loop lib input m (out @ bs) (pos + 4 + ?sz)
          | None \<Rightarrow> if ?room < LZ4_LEGACY_BLOCK then Err (FileTooLarge (length out + ?room + 1) m)
                    else Err (Decompress ''lz4 legacy block failed''))"
        using True False less.prems(1)
        by (subst lz4_legacy_loop.simps) (simp add: get_range_def usub_def Let_def)
      show ?thesis
      proof (cases "?sz = 0 \<or> ?sz > LZ4_LEGACY_MAX_COMPRESSED \<or> ?sz > length input - pos - 4")
        case True
        with step less.prems show ?thesis by simp
      next
        case fits: False
        let ?dec = "lz4_decompress_into lib (slice input (pos + 4) (pos + 4 + ?sz)) ?room"
        show ?thesis
        proof (cases ?dec)
          case None
          with step fits show ?thesis by simp
        next
          case (Some bs)
          with step fits have eq: "lz4_legacy_loop lib input m out pos =
              lz4_legacy_loop lib input m (out @ bs) (pos + 4 + ?sz)" by simp
          have "pos + 4 + ?sz \<le> length input" using fits True by auto
          with IH [of "out @ bs" "pos + 4 + ?sz"] into [OF Some] show ?thesis by (simp add: eq)
        qed
      qed
    qed
  qed
qed

lemma gzip_skip_string_safe: "no_panic (gzip_skip_string input present pos)"
  by (simp add: gzip_skip_string_def no_panic_simps)

lemma gzip_header_end_safe: "no_panic (gzip_header_end input)"
  by (simp add: gzip_header_end_def no_panic_simps gzip_skip_string_safe Let_def)

lemma gzip_spec:
  assumes ok: "codec_lib_ok lib"
  shows "no_panic (gzip lib input m)"
    and "gzip lib input m = Ok (out, used) \<Longrightarrow> length out \<le> m \<and> used \<le> length input"
proof -
  have inf: "no_panic (inflate_raw_stream lib body m)"
    "inflate_raw_stream lib body m = Ok (bs, k) \<Longrightarrow> length bs \<le> m" for body bs k
    using inflate_loop_spec [OF ok, of "[]" m 0 body] by (auto simp: inflate_raw_stream_def)
  show "no_panic (gzip lib input m)"
    using inf(1) by (auto simp: gzip_def no_panic_simps gzip_header_end_safe Let_def split: prod.splits)
  show "length out \<le> m \<and> used \<le> length input" if "gzip lib input m = Ok (out, used)"
    using that inf(2) by (auto simp: gzip_def result_simps Let_def split: if_splits prod.splits)
qed

lemma zstd_spec:
  assumes ok: "codec_lib_ok lib"
  shows "\<exists>x. zstd lib input m = Some x \<and> no_panic x \<and>
    (\<forall>out used. x = Ok (out, used) \<longrightarrow> length out \<le> m \<and> used \<le> length input)"
proof (cases "has_zstd lib")
  case True
  from zstd_loop_returns [OF ok, of "[]" m input 0] obtain x where
    x: "zstd_loop lib m input [] 0 = Some x" "no_panic x"
    "\<forall>out' rest' k. x = Ok (out', rest', k) \<longrightarrow> length out' \<le> m \<and> length rest' \<le> length input" by auto
  then show ?thesis using True
    by (auto simp: zstd_def no_panic_simps result_simps split: if_splits prod.splits)
qed (simp add: zstd_def)

lemma xz_spec:
  assumes ok: "codec_lib_ok lib"
  shows "no_panic (xz lib input m) \<and>
    (\<forall>out used. xz lib input m = Ok (out, used) \<longrightarrow> length out \<le> m \<and> used \<le> length input)"
proof -
  obtain x r where r: "read_all_capped lib ''xz read failed'' m [] (xz_new lib input) = (x, r)" by fastforce
  from read_all_capped_spec [OF ok _ r] codec_lib_okD(8) [OF ok, of input]
  have "no_panic x" "\<forall>bs. x = Ok bs \<longrightarrow> length bs \<le> m" "length (reader_rest lib r) \<le> length input"
    by (auto intro: le_trans)
  with r show ?thesis by (auto simp: xz_def no_panic_simps result_simps)
qed

lemma lzma_spec:
  assumes ok: "codec_lib_ok lib"
  shows "no_panic (lzma lib input m) \<and>
    (\<forall>out used. lzma lib input m = Ok (out, used) \<longrightarrow> length out \<le> m \<and> used \<le> length input)"
proof (cases "lzma_new_mem_limit lib input")
  case None
  then show ?thesis by (simp add: lzma_def)
next
  case (Some rdr)
  obtain x r where r: "read_all_capped lib ''lzma read failed'' m [] rdr = (x, r)" by fastforce
  from read_all_capped_spec [OF ok _ r] codec_lib_okD(9) [OF ok Some]
  have "no_panic x" "\<forall>bs. x = Ok bs \<longrightarrow> length bs \<le> m" "length (reader_rest lib r) \<le> length input"
    by (auto intro: le_trans)
  with r Some show ?thesis by (auto simp: lzma_def no_panic_simps result_simps)
qed

lemma lz4_legacy_spec:
  assumes ok: "codec_lib_ok lib"
  shows "no_panic (lz4_legacy lib input m) \<and>
    (\<forall>out used. lz4_legacy lib input m = Ok (out, used) \<longrightarrow> length out \<le> m \<and> used \<le> length input)"
proof (cases "starts_with input LZ4_LEGACY_MAGIC")
  case True
  then have "4 \<le> length input" using starts_with_length by (fastforce simp: LZ4_LEGACY_MAGIC_def)
  then show ?thesis using lz4_legacy_loop_spec [OF ok, of "[]" m 4 input] True
    by (auto simp: lz4_legacy_def)
qed (simp add: lz4_legacy_def)

lemma decode_stream_spec:
  assumes ok: "codec_lib_ok lib"
  shows "\<exists>x. decode_stream lib codec input m = Some x \<and> no_panic x \<and>
    (\<forall>out used. x = Ok (out, used) \<longrightarrow> length out \<le> m \<and> used \<le> length input)"
proof (cases codec)
  case SGzip
  then show ?thesis using gzip_spec [OF ok, of input m] by (simp add: decode_stream_def)
next
  case SZstd
  then show ?thesis using zstd_spec [OF ok, of input m] by (simp add: decode_stream_def)
next
  case SXz
  then show ?thesis using xz_spec [OF ok, of input m] by (simp add: decode_stream_def)
next
  case SLzma
  then show ?thesis using lzma_spec [OF ok, of input m] by (simp add: decode_stream_def)
next
  case SLz4Legacy
  then show ?thesis using lz4_legacy_spec [OF ok, of input m] by (simp add: decode_stream_def)
qed (simp_all add: decode_stream_def)

text \<open>A decoded stream has used some of its input, so a caller that goes on after it makes progress.\<close>

lemma zstd_loop_consumes:
  assumes ok: "codec_lib_ok lib"
  shows "length out \<le> m \<Longrightarrow> zstd_loop lib m rest out frames = Some (Ok (out', rest', k)) \<Longrightarrow>
    k = frames \<or> length rest' < length rest"
proof (induction "length rest" arbitrary: rest out frames rule: less_induct)
  case less
  have le: "length rest' \<le> length r" if "zstd_loop lib m r o' f = Some (Ok (out', rest', k))" "length o' \<le> m" for r o' f
    using zstd_loop_returns [OF ok that(2), of r f] that(1) by auto
  show ?case
  proof (cases "skippable_frame rest")
    case True
    let ?r = "drop (8 + from_le (slice rest 4 8)) rest"
    from True have "8 \<le> length rest" by (simp add: skippable_frame_def)
    then have "length ?r < length rest" by simp
    moreover from less.prems(2) True have "zstd_loop lib m ?r out frames = Some (Ok (out', rest', k))"
      by (subst (asm) zstd_loop_step) (simp add: get_from_def split: if_splits)
    ultimately show ?thesis using le [OF _ less.prems(1)] by (meson le_less_trans)
  next
    case skip: False
    show ?thesis
    proof (cases "starts_with rest FRAME_MAGIC")
      case True
      with less.prems(2) skip obtain o1 r1 where f: "zstd_frame lib rest out m = Ok (o1, r1)"
        "zstd_loop lib m r1 o1 (frames + 1) = Some (Ok (out', rest', k))"
        by (subst (asm) zstd_loop_step) (auto split: result.splits prod.splits)
      from zstd_frame_spec(2) [OF ok less.prems(1) f(1)] le [OF f(2)] show ?thesis by auto
    next
      case False
      with less.prems(2) skip show ?thesis by (subst (asm) zstd_loop_step) simp
    qed
  qed
qed

lemma lz4_legacy_loop_pos:
  "lz4_legacy_loop lib input m out pos = Ok (bs, used) \<Longrightarrow> pos \<le> used"
proof (induction lib input m out pos rule: lz4_legacy_loop.induct)
  case (1 lib input m out pos)
  from "1.prems" show ?case
    by (subst (asm) lz4_legacy_loop.simps)
      (auto simp: Let_def result_simps split: option.splits if_splits dest: "1.IH" [rotated -1])
qed

lemma read_all_capped_rest:
  assumes ok: "codec_lib_ok lib" and r: "read_all_capped lib msg m [] r = (Ok out, r')"
  obtains bs r1 where "reader_read lib r CHUNK = (Some bs, r1)"
    "length (reader_rest lib r') \<le> length (reader_rest lib r1)"
proof -
  obtain x r1 where x: "reader_read lib r CHUNK = (x, r1)" by fastforce
  with r obtain bs where bs: "x = Some bs"
    by (subst (asm) read_all_capped.simps) (auto split: option.splits)
  show ?thesis
  proof (cases "bs = []")
    case True
    then have "r' = r1" using r x bs by (subst (asm) read_all_capped.simps) simp
    then show ?thesis using that x bs by blast
  next
    case False
    then have "(case push_capped [] bs m of Ok out' \<Rightarrow> read_all_capped lib msg m out' r1
        | Err e \<Rightarrow> (Err e, r1) | Panic p \<Rightarrow> (Panic p, r1)) = (Ok out, r')"
      using r x bs by (subst (asm) read_all_capped.simps) simp
    then have "length bs \<le> m" "read_all_capped lib msg m bs r1 = (Ok out, r')"
      by (auto simp: op_lift_Ok push_capped_eq_Ok)
    from read_all_capped_spec [OF ok this] show ?thesis using that x bs by blast
  qed
qed

lemma decode_stream_consumes:
  assumes ok: "codec_lib_ok lib" and ne: "input \<noteq> []"
    and dec: "decode_stream lib codec input m = Some (Ok (out, used))"
  shows "0 < used"
proof (cases codec)
  case SGzip
  with dec show ?thesis
    by (auto simp: decode_stream_def gzip_def result_simps Let_def split: if_splits prod.splits)
next
  case SZstd
  with dec obtain rest k where "zstd_loop lib m input [] 0 = Some (Ok (out, rest, k))" "k \<noteq> 0"
    "used = length input - length rest"
    by (auto simp: decode_stream_def zstd_def result_simps split: if_splits prod.splits)
  with zstd_loop_consumes [OF ok, of "[]" m input 0 out rest k] show ?thesis by auto
next
  case SXz
  with dec obtain r' where r: "read_all_capped lib ''xz read failed'' m [] (xz_new lib input) = (Ok out, r')"
    "used = length input - length (reader_rest lib r')"
    by (auto simp: decode_stream_def xz_def result_simps split: if_splits prod.splits)
  from read_all_capped_rest [OF ok r(1)] obtain bs r1 where
    "reader_read lib (xz_new lib input) CHUNK = (Some bs, r1)"
    "length (reader_rest lib r') \<le> length (reader_rest lib r1)" by blast
  with codec_lib_okD(12) [OF ok ne _ this(1)] r(2) show ?thesis by (simp add: CHUNK_def)
next
  case SLzma
  with dec obtain r r' where r: "lzma_new_mem_limit lib input = Some r"
    "read_all_capped lib ''lzma read failed'' m [] r = (Ok out, r')"
    "used = length input - length (reader_rest lib r')"
    by (auto simp: decode_stream_def lzma_def result_simps case_prod_beta prod_eq_iff split: if_splits)
  with codec_lib_okD(9) [OF ok r(1)] read_all_capped_spec [OF ok _ r(2)] show ?thesis by simp
next
  case SLz4Legacy
  with dec show ?thesis
    by (auto simp: decode_stream_def lz4_legacy_def dest!: lz4_legacy_loop_pos split: if_splits)
qed (use dec in \<open>simp_all add: decode_stream_def\<close>)

text \<open>No two magics begin with the same byte, so their order in the table does not matter.\<close>

lemma starts_with_hd: "starts_with bs p \<Longrightarrow> p \<noteq> [] \<Longrightarrow> hd p = hd bs"
  unfolding starts_with_def by (metis hd_take length_greater_0_conv)

lemma find_magic:
  assumes "distinct (map (\<lambda>x. hd (fst x)) ms)" and "\<forall>x \<in> set ms. fst x \<noteq> []"
  shows "map_option snd (find (\<lambda>(magic, _). starts_with input magic) ms) = Some c \<longleftrightarrow>
    (\<exists>magic. (magic, c) \<in> set ms \<and> starts_with input magic)"
  using assms
proof (induction ms)
  case (Cons x ms)
  obtain magic c' where x: "x = (magic, c')" by fastforce
  show ?case
  proof (cases "starts_with input magic")
    case True
    have "\<not> starts_with input m" if "(m, c) \<in> set ms" for m
    proof
      assume m: "starts_with input m"
      have "m \<noteq> []" "magic \<noteq> []" using Cons.prems(2) x that by auto
      then have "hd m = hd magic" using starts_with_hd [OF m] starts_with_hd [OF True] by simp
      then show False using Cons.prems(1) x that by force
    qed
    with True x show ?thesis by auto
  next
    case False
    with Cons x show ?thesis by auto
  qed
qed simp

lemma sniff_eq: "sniff input = Some c \<longleftrightarrow> (\<exists>magic. (magic, c) \<in> set MAGICS \<and> starts_with input magic)"
  unfolding sniff_def by (rule find_magic) (simp_all add: MAGICS_def LZ4_LEGACY_MAGIC_def)

section \<open>A gzip member\<close>

text \<open>
  The header of a gzip member with any choice of the optional fields, each present or not, as
  RFC 1952 lays it out.
\<close>

definition gz_flags :: "bytes option \<Rightarrow> bytes option \<Rightarrow> bytes option \<Rightarrow> bytes option \<Rightarrow> byte" where
  "gz_flags extra name comment hcrc =
     (if extra = None then 0 else FEXTRA) OR (if name = None then 0 else FNAME) OR
     (if comment = None then 0 else FCOMMENT) OR (if hcrc = None then 0 else FHCRC)"

definition opt_field :: "(bytes \<Rightarrow> bytes) \<Rightarrow> bytes option \<Rightarrow> bytes" where
  "opt_field f x = (case x of None \<Rightarrow> [] | Some bs \<Rightarrow> f bs)"

lemma opt_field_None [simp]: "opt_field f None = []"
  by (simp add: opt_field_def)

definition gz_header :: "bytes \<Rightarrow> bytes option \<Rightarrow> bytes option \<Rightarrow> bytes option \<Rightarrow> bytes option \<Rightarrow> bytes" where
  "gz_header mtime_os extra name comment hcrc =
     [0x1F, 0x8B, 8, gz_flags extra name comment hcrc] @ mtime_os @
     opt_field (\<lambda>bs. to_le 2 (length bs) @ bs) extra @ opt_field (\<lambda>bs. bs @ [0]) name @
     opt_field (\<lambda>bs. bs @ [0]) comment @ opt_field id hcrc"

lemma gz_flag_tests:
  "gz_flags e n c h AND 0xE0 = 0" "gz_flags e n c h AND FEXTRA \<noteq> 0 \<longleftrightarrow> e \<noteq> None"
  "gz_flags e n c h AND FNAME \<noteq> 0 \<longleftrightarrow> n \<noteq> None" "gz_flags e n c h AND FCOMMENT \<noteq> 0 \<longleftrightarrow> c \<noteq> None"
  "gz_flags e n c h AND FHCRC \<noteq> 0 \<longleftrightarrow> h \<noteq> None"
  by (simp_all add: gz_flags_def FEXTRA_def FNAME_def FCOMMENT_def FHCRC_def)

lemma position_nul: "0 \<notin> set bs \<Longrightarrow> position (\<lambda>b. b = (0 :: byte)) (bs @ 0 # ys) = Some (length bs)"
  by (induction bs) auto

lemma gzip_skip_string_field:
  assumes "\<forall>bs. x = Some bs \<longrightarrow> 0 \<notin> set bs"
  shows "gzip_skip_string (pre @ opt_field (\<lambda>bs. bs @ [0]) x @ rest) (x \<noteq> None) (length pre) =
     Ok (length pre + length (opt_field (\<lambda>bs. bs @ [0]) x))"
  using assms by (cases x) (simp_all add: gzip_skip_string_def opt_field_def get_from_def position_nul)

lemma gzip_header_roundtrip:
  assumes m: "length mtime_os = 6" and e: "\<forall>bs. e = Some bs \<longrightarrow> length bs < 65536"
    and n: "\<forall>bs. n = Some bs \<longrightarrow> 0 \<notin> set bs" and c: "\<forall>bs. c = Some bs \<longrightarrow> 0 \<notin> set bs"
    and h: "\<forall>bs. h = Some bs \<longrightarrow> length bs = 2"
  shows "gzip_header_end (gz_header mtime_os e n c h @ rest) = Ok (length (gz_header mtime_os e n c h))"
proof -
  let ?fixed = "[0x1F, 0x8B, 8, gz_flags e n c h] @ mtime_os"
  let ?E = "opt_field (\<lambda>bs. to_le 2 (length bs) @ bs) e"
  let ?N = "opt_field (\<lambda>bs. bs @ [0]) n" and ?C = "opt_field (\<lambda>bs. bs @ [0]) c" and ?H = "opt_field id h"
  let ?input = "gz_header mtime_os e n c h @ rest"
  have input: "?input = ?fixed @ ?E @ ?N @ ?C @ ?H @ rest" by (simp add: gz_header_def)
  have fixed: "length ?fixed = 10" using m by simp
  have extra: "(if gz_flags e n c h AND FEXTRA \<noteq> 0
      then and_then (ok_or (get_range ?input 10 12) (Corrupt ''gzip_header'')) (\<lambda>xlen. Ok (12 + from_le xlen))
      else Ok 10) = Ok (length (?fixed @ ?E))"
  proof (cases e)
    case (Some bs)
    have "get_range ?input 10 12 = Some (to_le 2 (length bs))"
      using fixed Some by (simp add: gz_header_def get_range_def slice_def opt_field_def)
    then show ?thesis using Some e fixed by (simp add: gz_flag_tests from_le_to_le opt_field_def)
  qed (simp add: gz_flag_tests opt_field_def m)
  have name: "gzip_skip_string ?input (n \<noteq> None) (length (?fixed @ ?E)) = Ok (length (?fixed @ ?E @ ?N))"
    using gzip_skip_string_field [OF n, of "?fixed @ ?E" "?C @ ?H @ rest"] by (simp add: input)
  have comment: "gzip_skip_string ?input (c \<noteq> None) (length (?fixed @ ?E @ ?N)) = Ok (length (?fixed @ ?E @ ?N @ ?C))"
    using gzip_skip_string_field [OF c, of "?fixed @ ?E @ ?N" "?H @ rest"] by (simp add: input)
  have hl: "length ?H = (if h = None then 0 else 2)" using h by (cases h) (simp_all add: opt_field_def)
  have start: "\<not> length ?input < 10" "take 3 ?input = [0x1F, 0x8B, 8]" "?input ! 3 = gz_flags e n c h"
    using m by (simp_all add: input)
  show ?thesis
    unfolding gzip_header_end_def Let_def start(3)
    using start(1,2) extra name comment hl
    by (simp add: gz_flag_tests) (simp add: gz_header_def)
qed



section \<open>Properties\<close>

text \<open>
  C31. Decoding a stream always returns, without a panic, for every codec and input: at most the
  allowed number of bytes, and a count of input used that lies inside the input.
\<close>

theorem decode_stream_total:
  assumes "codec_lib_ok lib"
  shows "\<exists>x. decode_stream lib codec input max_out = Some x \<and> no_panic x \<and>
    (\<forall>out used. x = Ok (out, used) \<longrightarrow> length out \<le> max_out \<and> used \<le> length input)"
  using assms by (rule decode_stream_spec)

theorem decode_stream_total_witness:
  "\<exists>x. decode_stream store_lib SLz4Legacy [0x02, 0x21, 0x4C, 0x18, 2, 0, 0, 0, 7, 8, 0] 100 = Some x \<and>
    no_panic x"
  using decode_stream_total [OF codec_lib_ok_store,
      of SLz4Legacy "[0x02, 0x21, 0x4C, 0x18, 2, 0, 0, 0, 7, 8, 0]" 100] by blast

text \<open>
  C32. The table-driven checksum of the gzip trailer is the bit-by-bit CRC-32 of the data.
\<close>

theorem crc32_table_driven: "crc32 data = crc32_ref data"
  by (rule crc32_eq_ref)

text \<open>
  A stream is recognised as a format exactly when it starts with that format's magic; the order
  of the table plays no part.
\<close>

theorem sniff_by_magic:
  "sniff input = Some c \<longleftrightarrow> (\<exists>magic. (magic, c) \<in> set MAGICS \<and> starts_with input magic)"
  by (rule sniff_eq)

text \<open>
  C30. A well-formed gzip member, with any choice of optional header fields and followed by anything,
  decodes to what its deflate body inflates to and uses exactly the member's bytes; with any other
  trailer it is refused as a checksum error.
\<close>

theorem gzip_member_decodes:
  assumes "has_deflate lib" and "length mtime_os = 6"
    and "\<forall>bs. e = Some bs \<longrightarrow> length bs < 65536" and "\<forall>bs. n = Some bs \<longrightarrow> 0 \<notin> set bs"
    and "\<forall>bs. c = Some bs \<longrightarrow> 0 \<notin> set bs" and "\<forall>bs. h = Some bs \<longrightarrow> length bs = 2"
    and "length trailer = 8"
    and "inflate_raw_stream lib (body @ trailer @ rest) max_out = Ok (out, length body)"
  shows "gzip lib (gz_header mtime_os e n c h @ body @ trailer @ rest) max_out =
    (if trailer = to_le 4 (unat (crc32 out)) @ to_le 4 (length out mod 2 ^ 32)
     then Ok (out, length (gz_header mtime_os e n c h) + length body + 8)
     else Err (Corrupt ''gzip_checksum''))"
proof -
  let ?hd = "gz_header mtime_os e n c h"
  have hd: "gzip_header_end (?hd @ body @ trailer @ rest) = Ok (length ?hd)"
    using assms by (intro gzip_header_roundtrip) simp_all
  have tr: "get_range (?hd @ body @ trailer @ rest) (length ?hd + length body) (length ?hd + length body + 8) = Some trailer"
    using assms(7) by (simp add: get_range_def slice_def)
  have "from_le (take 4 trailer) = unat (crc32 out) \<and> from_le (drop 4 trailer) = length out mod 2 ^ 32 \<longleftrightarrow>
      trailer = to_le 4 (unat (crc32 out)) @ to_le 4 (length out mod 2 ^ 32)" (is "?a \<longleftrightarrow> ?b")
  proof
    assume ?a
    then show ?b
      using to_le_from_le [of "take 4 trailer"] to_le_from_le [of "drop 4 trailer"] assms(7)
        append_take_drop_id [of 4 trailer] by simp
  next
    have "unat (crc32 out) < 256 ^ 4" using unsigned_less [of "crc32 out"] by simp
    moreover have "length out mod 2 ^ 32 < 256 ^ 4" by simp
    moreover assume ?b
    ultimately show ?a using from_le_to_le by simp
  qed
  then show ?thesis
    using assms(1,8) hd tr by (auto simp: gzip_def get_from_def Let_def)
qed

theorem gzip_member_decodes_witness:
  "gzip store_lib (gz_header [0, 0, 0, 0, 0, 3] None (Some [0x61]) None None @ [1, 2, 3] @
      (to_le 4 (unat (crc32 [1, 2, 3])) @ to_le 4 3) @ []) 10 = Ok ([1, 2, 3], 23)"
proof -
  let ?t = "to_le 4 (unat (crc32 [1, 2, 3])) @ to_le 4 3"
  have "inflate_raw_stream store_lib ([1, 2, 3] @ ?t @ []) 10 = Ok ([1, 2, 3], length [1, 2, 3 :: byte])"
    by (simp add: inflate_raw_stream_def inflate_loop.simps [of store_lib _ _ _ "[]" 0] store_lib_simps
        push_capped_def CHUNK_def Let_def)
  then show ?thesis
    using gzip_member_decodes [of store_lib "[0, 0, 0, 0, 0, 3]" None "Some [0x61]" None None ?t "[1, 2, 3]" "[]" 10 "[1, 2, 3]"]
    by (simp add: store_lib_simps) (simp add: gz_header_def opt_field_def)
qed

end
