(* ===== verification/Cpio.thy ===== *)
theory Cpio
  imports Fold_Path Stream_Codec
begin

text \<open>
  The cpio/initramfs reader (\<^verbatim>\<open>crates/lamfold-cpio/src/cpio.rs\<close>). Mounting reads the whole
  input, folds every record into a tree of nodes (a vector, node 0 the root, a directory's children
  a sorted map from name to index), and decodes compressed members into buffers of their own.
  Afterwards no method changes the volume. The parser for the old formats is the third-party crate
  \<^verbatim>\<open>cpio_reader\<close>: the parameter \<open>old_files\<close> is the list of entries it yields (name, mode bits, and
  the offset and length of the file's bytes in the archive).

  \<^verbatim>\<open>insert_chain\<close> makes progress only if the decompressor does, so it is a partial function; it is
  shown to return for every library that satisfies \<open>codec_lib_ok\<close>.
\<close>

definition S_IFMT :: nat where "S_IFMT = 0xF000"
definition S_IFDIR :: nat where "S_IFDIR = 0x4000"
definition S_IFREG :: nat where "S_IFREG = 0x8000"
definition S_IFLNK :: nat where "S_IFLNK = 0xA000"

definition NEWC_HEADER :: nat where "NEWC_HEADER = 110"
definition NEWC_MAGIC :: bytes where "NEWC_MAGIC = [0x30, 0x37, 0x30, 0x37, 0x30, 0x31]"
definition CRC_MAGIC :: bytes where "CRC_MAGIC = [0x30, 0x37, 0x30, 0x37, 0x30, 0x32]"
definition TRAILER :: bytes where
  "TRAILER = [0x54, 0x52, 0x41, 0x49, 0x4C, 0x45, 0x52, 0x21, 0x21, 0x21]"
definition CPIO_MAX_NAME :: nat where "CPIO_MAX_NAME = 4096"

record cpio_record =
  cp_name :: "nat \<times> nat"
  cp_mode :: nat
  cp_inode :: "nat \<times> nat \<times> nat"
  cp_nlink :: nat
  cp_data :: "nat \<times> nat"

text \<open>\<^verbatim>\<open>(n + 3) & !3\<close> on \<^verbatim>\<open>usize\<close>.\<close>

definition align4 :: "nat \<Rightarrow> nat" where
  "align4 n = (n + 3) AND (2 ^ 64 - 4)"

text \<open>\<^verbatim>\<open>char::to_digit(16)\<close>.\<close>

definition hex_digit :: "byte \<Rightarrow> nat option" where
  "hex_digit d =
     (let n = unat d in
      if 48 \<le> n \<and> n \<le> 57 then Some (n - 48)
      else if 97 \<le> n \<and> n \<le> 102 then Some (n - 87)
      else if 65 \<le> n \<and> n \<le> 70 then Some (n - 55)
      else None)"

text \<open>The fold over the digits; eight of them stay within 32 bits.\<close>

fun hex_fold :: "nat \<Rightarrow> bytes \<Rightarrow> nat result" where
  "hex_fold acc [] = Ok acc"
| "hex_fold acc (d # ds) =
     and_then (ok_or (hex_digit d) (Corrupt ''cpio_bad_header'')) (\<lambda>v. hex_fold (push_bit 4 acc OR v) ds)"

definition hex_field :: "bytes \<Rightarrow> nat \<Rightarrow> nat \<Rightarrow> nat result" where
  "hex_field archive at i =
     (let start = at + 6 + i * 8 in
      and_then (ok_or (get_range archive start (start + 8)) (Corrupt ''cpio_short_header'')) (hex_fold 0))"

definition parse_record :: "bytes \<Rightarrow> nat \<Rightarrow> bool \<Rightarrow> (cpio_record \<times> nat) result" where
  "parse_record archive at crc =
     and_then (hex_field archive at 0) (\<lambda>ino.
     and_then (hex_field archive at 1) (\<lambda>mode.
     and_then (hex_field archive at 4) (\<lambda>nlink.
     and_then (hex_field archive at 6) (\<lambda>filesize.
     and_then (hex_field archive at 7) (\<lambda>devmajor.
     and_then (hex_field archive at 8) (\<lambda>devminor.
     and_then (hex_field archive at 11) (\<lambda>namesize.
     and_then (hex_field archive at 12) (\<lambda>check.
     if namesize = 0 \<or> namesize > CPIO_MAX_NAME then Err (Corrupt ''cpio_bad_namesize'')
     else
       let name_start = at + NEWC_HEADER; name_end = name_start + namesize - 1 in
       if get_at archive name_end \<noteq> Some 0 then Err (Corrupt ''cpio_bad_name'')
       else
         let data_start = align4 (name_start + namesize) in
         and_then (ok_or (Option.bind (checked_add 64 data_start filesize)
                      (\<lambda>e. if e \<le> length archive then Some e else None))
                    (Corrupt ''cpio_short_data'')) (\<lambda>data_end.
         and_then (if crc \<and> mode AND S_IFMT = S_IFREG then
                     and_then (index_range archive data_start data_end) (\<lambda>bs.
                       if sum_list (map unat bs) mod 2 ^ 32 \<noteq> check then Err (Corrupt ''cpio_bad_crc'')
                       else Ok ())
                   else Ok ()) (\<lambda>_.
           Ok (\<lparr>cp_name = (name_start, name_end - name_start),
                cp_mode = mode,
                cp_inode = (devmajor, devminor, ino),
                cp_nlink = nlink,
                cp_data = (data_start, filesize)\<rparr>, align4 data_end)))))))))))"

record span =
  sp_buf :: nat
  sp_off :: nat
  sp_len :: nat

record cnode =
  cn_kind :: file_kind
  cn_data :: span
  cn_mode :: nat
  cn_children :: "(bytes, node_id) btree"

definition default_span :: span where
  "default_span = \<lparr>sp_buf = 0, sp_off = 0, sp_len = 0\<rparr>"

definition node_dir :: "nat \<Rightarrow> cnode" where
  "node_dir mode = \<lparr>cn_kind = Directory, cn_data = default_span, cn_mode = mode, cn_children = []\<rparr>"

definition cpio_file_kind :: "nat \<Rightarrow> file_kind" where
  "cpio_file_kind mode =
     (let t = mode AND S_IFMT in
      if t = S_IFDIR then Directory
      else if t = S_IFREG then Regular
      else if t = S_IFLNK then Symlink
      else Other)"

text \<open>The walk of \<^verbatim>\<open>insert\<close> over the components still to come, from node \<open>cur\<close>.\<close>

fun insert_walk :: "cnode list \<Rightarrow> nat \<Rightarrow> bytes list \<Rightarrow> file_kind \<Rightarrow> nat \<Rightarrow> span \<Rightarrow> cnode list result" where
  "insert_walk nodes cur [] kind mode data = Ok nodes"
| "insert_walk nodes cur (c # cs) kind mode data =
     and_then (index_at nodes cur) (\<lambda>nd.
     case bm_get (cn_children nd) c of
       Some existing \<Rightarrow>
         and_then (if cs = [] \<and> kind \<noteq> Directory then
                     and_then (index_at nodes existing) (\<lambda>ex.
                       Ok (nodes[existing := ex\<lparr>cn_kind := kind, cn_data := data, cn_mode := mode\<rparr>]))
                   else Ok nodes) (\<lambda>nodes.
         insert_walk nodes existing cs kind mode data)
     | None \<Rightarrow>
         let id = length nodes;
             new = (if cs = [] then \<lparr>cn_kind = kind, cn_data = data, cn_mode = mode, cn_children = []\<rparr>
                    else node_dir 0x1ED);
             nodes = (nodes @ [new])[cur := nd\<lparr>cn_children := bm_insert c id (cn_children nd)\<rparr>] in
         insert_walk nodes id cs kind mode data)"

definition cpio_insert :: "cnode list \<Rightarrow> bytes \<Rightarrow> file_kind \<Rightarrow> nat \<Rightarrow> span \<Rightarrow> cnode list result" where
  "cpio_insert nodes path kind mode data = insert_walk nodes 0 (components path) kind mode data"

text \<open>The record loop of \<^verbatim>\<open>insert_newc_archive\<close>: the records up to the trailer and the offset after it.\<close>

lemma align4_eq: "n + 3 < 2 ^ 64 \<Longrightarrow> align4 n = (n + 3) div 4 * 4"
  using nat_and_high [of "n + 3" 2 62] by (simp add: align4_def)

lemma align4_ge: "n + 3 < 2 ^ 64 \<Longrightarrow> n \<le> align4 n"
  by (simp add: align4_eq)

definition MAX_BUFFER :: nat where
  "MAX_BUFFER = 2 ^ 63 - 1"

text \<open>
  A vector has at most \<^verbatim>\<open>isize::MAX\<close> bytes, which the loop guard states; inside it the offset of
  the next record is always larger.
\<close>

lemma parse_record_next:
  assumes "parse_record archive at crc = Ok (r, next)" and "length archive \<le> MAX_BUFFER"
  shows "at < next" and "at < length archive"
proof -
  from assms(1) obtain ns fs e where e: "e = align4 (at + NEWC_HEADER + ns) + fs" "e \<le> length archive"
    "next = align4 e" "ns \<noteq> 0" "ns \<le> CPIO_MAX_NAME" "get_at archive (at + NEWC_HEADER + ns - 1) = Some 0"
    by (auto simp: parse_record_def result_simps checked_add_def Let_def Option.bind_eq_Some_conv split: if_splits)
  from e(4,6) have at: "at + NEWC_HEADER + ns \<le> length archive" by (auto simp: get_at_eq_Some)
  then show "at < length archive" by (simp add: NEWC_HEADER_def)
  have "at + NEWC_HEADER + ns \<le> align4 (at + NEWC_HEADER + ns)"
    using at assms(2) by (intro align4_ge) (simp add: MAX_BUFFER_def)
  moreover have "e \<le> align4 e" using e(2) assms(2) by (intro align4_ge) (simp add: MAX_BUFFER_def)
  ultimately show "at < next" using e(1,3) by (simp add: NEWC_HEADER_def)
qed

function newc_records :: "bytes \<Rightarrow> nat \<Rightarrow> (cpio_record list \<times> nat) result" where
  "newc_records archive pos =
     (if length archive \<le> MAX_BUFFER then
        and_then (ok_or (get_range archive pos (pos + 6)) (Corrupt ''cpio_no_trailer'')) (\<lambda>magic.
        let crc = (magic = CRC_MAGIC) in
        if \<not> crc \<and> magic \<noteq> NEWC_MAGIC then Err (Corrupt ''cpio_bad_magic'')
        else
          and_then (parse_record archive pos crc) (\<lambda>(record, next).
          and_then (index_range archive (fst (cp_name record)) (fst (cp_name record) + snd (cp_name record))) (\<lambda>name.
            if name = TRAILER then Ok ([], next)
            else and_then (newc_records archive next) (\<lambda>(rs, stop). Ok (record # rs, stop)))))
      else Panic IndexOutOfRange)"
  by pat_completeness auto
termination
proof (relation "measure (\<lambda>(archive, pos). length archive - pos)", goal_cases)
  case (2 archive pos magic crc rn r nx name)
  then show ?case using parse_record_next by force
qed simp

declare newc_records.simps [simp del]

text \<open>The data of hard-linked files, keyed by device and inode; the last link with data wins.\<close>

definition linked_data :: "cpio_record list \<Rightarrow> (nat \<times> nat \<times> nat, nat \<times> nat) btree" where
  "linked_data records =
     fold (\<lambda>r m. if cp_mode r AND S_IFMT = S_IFREG \<and> cp_nlink r > 1 \<and> snd (cp_data r) > 0
                 then bm_insert (cp_inode r) (cp_data r) m else m) records []"

fun insert_records ::
  "bytes \<Rightarrow> nat \<Rightarrow> (nat \<times> nat \<times> nat, nat \<times> nat) btree \<Rightarrow> cnode list \<Rightarrow> cpio_record list \<Rightarrow> cnode list result" where
  "insert_records archive idx linked nodes [] = Ok nodes"
| "insert_records archive idx linked nodes (r # rs) =
     and_then (index_range archive (fst (cp_name r)) (fst (cp_name r) + snd (cp_name r))) (\<lambda>raw.
     and_then (ok_or (from_utf8 raw) (Unsupported ''cpio_name_not_utf8'')) (\<lambda>name.
     let kind = cpio_file_kind (cp_mode r);
         (off, len) = (if kind = Regular \<and> cp_nlink r > 1
                       then (case bm_get linked (cp_inode r) of Some d \<Rightarrow> d | None \<Rightarrow> cp_data r)
                       else cp_data r) in
     and_then (cpio_insert nodes name kind (cp_mode r AND 0xFFF) \<lparr>sp_buf = idx, sp_off = off, sp_len = len\<rparr>)
       (\<lambda>nodes. insert_records archive idx linked nodes rs)))"

definition insert_newc_archive :: "bytes \<Rightarrow> nat \<Rightarrow> cnode list \<Rightarrow> nat \<Rightarrow> (cnode list \<times> nat) result" where
  "insert_newc_archive archive idx nodes start =
     and_then (newc_records archive start) (\<lambda>(records, pos).
     and_then (insert_records archive idx (linked_data records) nodes records) (\<lambda>nodes. Ok (nodes, pos)))"

text \<open>
  The loop of \<^verbatim>\<open>insert_chain\<close> from offset \<open>pos\<close>; the buffers, the nodes and the budget are the
  state it changes.
\<close>

type_synonym chain_state = "bytes list \<times> cnode list \<times> nat"

partial_function (option) insert_chain ::
  "'r codec_lib \<Rightarrow> nat \<Rightarrow> chain_state \<Rightarrow> nat \<Rightarrow> chain_state result option" where
  "insert_chain lib idx st pos =
     (let (buffers, nodes, budget) = st; archive = buffers ! idx in
      case Option.bind (get_from archive pos) (position (\<lambda>b. b \<noteq> 0)) of
        None \<Rightarrow> Some (Ok st)
      | Some n \<Rightarrow>
          let pos = pos + n; rest = drop pos archive in
          case sniff rest of
            Some codec \<Rightarrow>
              if idx \<noteq> 0 then Some (Err (Corrupt ''cpio_compressed_inside_compressed''))
              else Option.bind (decode_stream lib codec rest budget) (\<lambda>dec.
                case and_then dec (\<lambda>(out, used). and_then (usub budget (length out)) (\<lambda>b. Ok (out, used, b))) of
                  Ok (out, used, budget) \<Rightarrow>
                    Option.bind (insert_chain lib (length buffers) (buffers @ [out], nodes, budget) 0) (\<lambda>sub.
                      case sub of
                        Ok st' \<Rightarrow> insert_chain lib idx st' (pos + used)
                      | Err e \<Rightarrow> Some (Err e)
                      | Panic p \<Rightarrow> Some (Panic p))
                | Err e \<Rightarrow> Some (Err e)
                | Panic p \<Rightarrow> Some (Panic p))
          | None \<Rightarrow>
              if \<not> (starts_with rest CRC_MAGIC \<or> starts_with rest NEWC_MAGIC) \<or> pos mod 4 \<noteq> 0
              then Some (Err (Corrupt ''cpio_junk_between_archives''))
              else
                (case insert_newc_archive archive idx nodes pos of
                   Ok (nodes, pos) \<Rightarrow> insert_chain lib idx (buffers, nodes, budget) pos
                 | Err e \<Rightarrow> Some (Err e)
                 | Panic p \<Rightarrow> Some (Panic p)))"

record old_entry =
  oe_name :: bytes
  oe_mode :: nat
  oe_off :: nat
  oe_len :: nat

fun insert_single :: "cnode list \<Rightarrow> old_entry list \<Rightarrow> cnode list result" where
  "insert_single nodes [] = Ok nodes"
| "insert_single nodes (e # es) =
     and_then (cpio_insert nodes (oe_name e) (cpio_file_kind (oe_mode e)) (oe_mode e AND 0xFFF)
                 \<lparr>sp_buf = 0, sp_off = oe_off e, sp_len = oe_len e\<rparr>)
       (\<lambda>nodes. insert_single nodes es)"

record cpio =
  cp_buffers :: "bytes list"
  cp_nodes :: "cnode list"

definition cpio_node :: "cpio \<Rightarrow> node_id \<Rightarrow> cnode result" where
  "cpio_node c node = ok_or (get_at (cp_nodes c) node) NotFound"

definition cpio_bytes :: "cpio \<Rightarrow> span \<Rightarrow> bytes result" where
  "cpio_bytes c sp =
     and_then (index_at (cp_buffers c) (sp_buf sp)) (\<lambda>b. index_range b (sp_off sp) (sp_off sp + sp_len sp))"

definition cpio_probe :: "block_source \<Rightarrow> bool result" where
  "cpio_probe src =
     (if src_len src < 6 then Ok False
      else
        and_then (src_read src 0 6) (\<lambda>m.
          let asc = (m = NEWC_MAGIC \<or> m = CRC_MAGIC \<or> m = [0x30, 0x37, 0x30, 0x37, 0x30, 0x37]);
              bin = (m ! 0 = 0x71 \<and> m ! 1 = 0xC7 \<or> m ! 0 = 0xC7 \<and> m ! 1 = 0x71) in
          Ok (asc \<or> bin)))"

definition cpio_open ::
  "'r codec_lib \<Rightarrow> (bytes \<Rightarrow> old_entry list) \<Rightarrow> block_source \<Rightarrow> cpio result option" where
  "cpio_open lib old_files src =
     (case and_then (checked_full_read_len (src_len src)) (\<lambda>len. src_read src 0 len) of
        Ok archive \<Rightarrow>
          let nodes = [node_dir 0x1ED] in
          if starts_with archive NEWC_MAGIC \<or> starts_with archive CRC_MAGIC then
            (case checked_full_read_len MAX_BOOT_FILE_BYTES of
               Ok budget \<Rightarrow>
                 map_option (\<lambda>r. and_then r (\<lambda>(buffers, nodes, _). Ok \<lparr>cp_buffers = buffers, cp_nodes = nodes\<rparr>))
                   (insert_chain lib 0 ([archive], nodes, budget) 0)
             | Err e \<Rightarrow> Some (Err e)
             | Panic p \<Rightarrow> Some (Panic p))
          else
            Some (and_then (insert_single nodes (old_files archive)) (\<lambda>nodes.
              Ok \<lparr>cp_buffers = [archive], cp_nodes = nodes\<rparr>))
      | Err e \<Rightarrow> Some (Err e)
      | Panic p \<Rightarrow> Some (Panic p))"

definition cpio_root :: "cpio \<Rightarrow> node_id" where
  "cpio_root c = 0"

definition cpio_lookup :: "cpio \<Rightarrow> node_id \<Rightarrow> bytes \<Rightarrow> node_id option result" where
  "cpio_lookup c dir name =
     and_then (cpio_node c dir) (\<lambda>nd.
       if cn_kind nd \<noteq> Directory then Err NotDirectory else Ok (bm_get (cn_children nd) name))"

definition cpio_read_dir :: "cpio \<Rightarrow> node_id \<Rightarrow> dir_entry list result" where
  "cpio_read_dir c dir =
     and_then (cpio_node c dir) (\<lambda>nd.
       if cn_kind nd \<noteq> Directory then Err NotDirectory
       else map_result (\<lambda>(name, child). and_then (index_at (cp_nodes c) child) (\<lambda>ch.
              Ok \<lparr>de_name = name, de_node = child, de_kind = cn_kind ch\<rparr>)) (cn_children nd))"

definition cpio_metadata :: "cpio \<Rightarrow> node_id \<Rightarrow> metadata result" where
  "cpio_metadata c node =
     and_then (cpio_node c node) (\<lambda>nd.
       Ok \<lparr>md_kind = cn_kind nd,
           md_size = (if cn_kind nd = Directory then 0 else sp_len (cn_data nd)),
           md_mode = cn_mode nd\<rparr>)"

definition cpio_read_at :: "cpio \<Rightarrow> node_id \<Rightarrow> nat \<Rightarrow> bytes \<Rightarrow> (nat \<times> bytes) result" where
  "cpio_read_at c node off buf =
     and_then (cpio_node c node) (\<lambda>nd.
       if cn_kind nd = Directory then Err IsDirectory
       else
         and_then (cpio_bytes c (cn_data nd)) (\<lambda>data.
           if off \<ge> length data then Ok (0, buf)
           else
             let count = min (length buf) (length data - off) in
             Ok (count, overwrite buf 0 (slice data off (off + count)))))"

definition cpio_read_link :: "cpio \<Rightarrow> node_id \<Rightarrow> bytes option result" where
  "cpio_read_link c node =
     and_then (cpio_node c node) (\<lambda>nd.
       if cn_kind nd \<noteq> Symlink then Ok None
       else and_then (cpio_bytes c (cn_data nd)) (\<lambda>bs. Ok (Some bs)))"

definition cpio_frontend :: "cpio frontend" where
  "cpio_frontend =
     \<lparr>fe_root = cpio_root,
      fe_lookup = (\<lambda>cx dir name c. (cpio_lookup c dir name, c)),
      fe_read_dir = (\<lambda>cx dir c. (cpio_read_dir c dir, c)),
      fe_metadata = (\<lambda>cx node c. (cpio_metadata c node, c)),
      fe_read_at = (\<lambda>cx node off buf c. (cpio_read_at c node off buf, c)),
      fe_read_link = (\<lambda>cx node c. (cpio_read_link c node, c))\<rparr>"


section \<open>The tree\<close>

definition span_ok :: "bytes list \<Rightarrow> span \<Rightarrow> bool" where
  "span_ok B sp \<longleftrightarrow> sp_buf sp < length B \<and> sp_off sp + sp_len sp \<le> length (B ! sp_buf sp)"

text \<open>The child of node \<open>i\<close> under a name, and the node that a list of names leads to.\<close>

definition child :: "cnode list \<Rightarrow> nat \<Rightarrow> bytes \<Rightarrow> nat option" where
  "child nodes i c = (if i < length nodes then bm_get (cn_children (nodes ! i)) c else None)"

fun tree_find :: "cnode list \<Rightarrow> nat \<Rightarrow> bytes list \<Rightarrow> nat option" where
  "tree_find nodes i [] = Some i"
| "tree_find nodes i (c # cs) = Option.bind (child nodes i c) (\<lambda>j. tree_find nodes j cs)"

text \<open>What a node is, apart from its children.\<close>

definition attrs :: "cnode list \<Rightarrow> nat \<Rightarrow> file_kind \<times> nat \<times> span" where
  "attrs nodes i = (cn_kind (nodes ! i), cn_mode (nodes ! i), cn_data (nodes ! i))"

text \<open>
  The nodes form a tree: every child index is in range and is not the root, no node is a child
  twice, and every span lies in its buffer.
\<close>

definition tree_ok :: "bytes list \<Rightarrow> cnode list \<Rightarrow> bool" where
  "tree_ok B nodes \<longleftrightarrow>
     nodes \<noteq> [] \<and> cn_kind (nodes ! 0) = Directory \<and>
     (\<forall>nd \<in> set nodes. bm_ok (cn_children nd) \<and> span_ok B (cn_data nd)) \<and>
     (\<forall>i c j. child nodes i c = Some j \<longrightarrow> 0 < j \<and> j < length nodes) \<and>
     (\<forall>i i' c c' j. child nodes i c = Some j \<longrightarrow> child nodes i' c' = Some j \<longrightarrow> i = i' \<and> c = c')"

lemma tree_okD:
  assumes "tree_ok B nodes"
  shows "nodes \<noteq> []" and "cn_kind (nodes ! 0) = Directory"
    and "i < length nodes \<Longrightarrow> bm_ok (cn_children (nodes ! i)) \<and> span_ok B (cn_data (nodes ! i))"
    and "child nodes i c = Some j \<Longrightarrow> 0 < j \<and> j < length nodes"
    and "child nodes i c = Some j \<Longrightarrow> child nodes i' c' = Some j \<Longrightarrow> i = i' \<and> c = c'"
  using assms unfolding tree_ok_def by auto

lemma child_less: "child nodes i c = Some j \<Longrightarrow> i < length nodes"
  by (simp add: child_def split: if_splits)

lemma child_add:
  assumes "cur < length nodes"
  shows "child ((nodes @ [new])[cur := (nodes ! cur)\<lparr>cn_children := bm_insert c (length nodes) (cn_children (nodes ! cur))\<rparr>]) i d =
    (if i = cur \<and> d = c then Some (length nodes)
     else if i = length nodes then bm_get (cn_children new) d else child nodes i d)"
  using assms by (auto simp: child_def nth_list_update nth_append bm_get_insert)

lemma attrs_add:
  "i < length nodes \<Longrightarrow> attrs ((nodes @ [new])[cur := (nodes ! cur)\<lparr>cn_children := m\<rparr>]) i = attrs nodes i"
  by (cases "i = cur") (simp_all add: attrs_def nth_append)

lemma child_set_attrs:
  "e < length nodes \<Longrightarrow> child (nodes[e := (nodes ! e)\<lparr>cn_kind := k, cn_data := d, cn_mode := m\<rparr>]) i c = child nodes i c"
  by (auto simp: child_def nth_list_update)

lemma tree_ok_add:
  assumes ok: "tree_ok B nodes" and cur: "cur < length nodes" and free: "child nodes cur c = None"
    and new: "cn_children new = []" "span_ok B (cn_data new)"
  shows "tree_ok B ((nodes @ [new])[cur := (nodes ! cur)\<lparr>cn_children := bm_insert c (length nodes) (cn_children (nodes ! cur))\<rparr>])"
    (is "tree_ok B ?nodes")
proof -
  note d = tree_okD [OF ok]
  have nth: "?nodes ! i = (if i = cur then (nodes ! cur)\<lparr>cn_children := bm_insert c (length nodes) (cn_children (nodes ! cur))\<rparr>
      else if i < length nodes then nodes ! i else new)" if "i < length ?nodes" for i
    using that cur by (auto simp: nth_list_update nth_append)
  have "bm_ok (cn_children nd) \<and> span_ok B (cn_data nd)" if "nd \<in> set ?nodes" for nd
  proof -
    from that obtain i where i: "i < length ?nodes" "nd = ?nodes ! i" by (auto simp: in_set_conv_nth)
    then show ?thesis using nth [OF i(1)] d(3) cur new by (auto simp: bm.wf_ins)
  qed
  moreover have "cn_kind (?nodes ! 0) = Directory" using nth [of 0] d(1,2) by simp
  moreover have "0 < j \<and> j < length ?nodes" if "child ?nodes i e = Some j" for i e j
    using that d(1,4) new by (fastforce simp: child_add [OF cur] split: if_splits)
  moreover have "i = i' \<and> e = e'" if "child ?nodes i e = Some j" "child ?nodes i' e' = Some j" for i i' e e' j
    using that d(4,5) new by (fastforce simp: child_add [OF cur] split: if_splits)
  ultimately show ?thesis by (simp add: tree_ok_def)
qed

lemma tree_ok_set_attrs:
  assumes ok: "tree_ok B nodes" and e: "e < length nodes" "0 < e" and sp: "span_ok B d"
  shows "tree_ok B (nodes[e := (nodes ! e)\<lparr>cn_kind := k, cn_data := d, cn_mode := m\<rparr>])"
proof -
  note d = tree_okD [OF ok]
  let ?nodes = "nodes[e := (nodes ! e)\<lparr>cn_kind := k, cn_data := d, cn_mode := m\<rparr>]"
  have "bm_ok (cn_children nd) \<and> span_ok B (cn_data nd)" if "nd \<in> set ?nodes" for nd
  proof -
    from that obtain i where "i < length nodes" "nd = ?nodes ! i" by (auto simp: in_set_conv_nth)
    then show ?thesis using d(3) e sp by (auto simp: nth_list_update)
  qed
  then show ?thesis
    using d e by (simp add: tree_ok_def child_set_attrs)
qed

text \<open>
  What an insertion does: it never fails on a well-formed tree, the tree stays well-formed, old
  edges stay, and only the node at the end of the path changes, when the record is no directory.
\<close>

lemma insert_walk_spec:
  assumes "tree_ok B nodes" and "cur < length nodes" and "span_ok B data" and "B \<noteq> []"
  shows "\<exists>nodes'. insert_walk nodes cur cs kind mode data = Ok nodes' \<and> tree_ok B nodes' \<and>
    length nodes \<le> length nodes' \<and>
    (\<forall>i c j. child nodes i c = Some j \<longrightarrow> child nodes' i c = Some j) \<and>
    (\<exists>t. tree_find nodes' cur cs = Some t \<and> t < length nodes' \<and>
       (cs \<noteq> [] \<longrightarrow> kind \<noteq> Directory \<longrightarrow> attrs nodes' t = (kind, mode, data)) \<and>
       (\<forall>i < length nodes. i = t \<and> cs \<noteq> [] \<and> kind \<noteq> Directory \<or> attrs nodes' i = attrs nodes i))"
  using assms(1,2)
proof (induction cs arbitrary: nodes cur)
  case (Cons c cs)
  have span0: "span_ok B default_span" using assms(4) by (simp add: span_ok_def default_span_def)
  show ?case
  proof (cases "child nodes cur c")
    case None
    let ?new = "if cs = [] then \<lparr>cn_kind = kind, cn_data = data, cn_mode = mode, cn_children = []\<rparr> else node_dir 0x1ED"
    let ?nodes = "(nodes @ [?new])[cur := (nodes ! cur)\<lparr>cn_children := bm_insert c (length nodes) (cn_children (nodes ! cur))\<rparr>]"
    have "tree_ok B ?nodes"
      using Cons.prems None assms(3) span0 by (intro tree_ok_add) (auto simp: node_dir_def)
    from Cons.IH [OF this, of "length nodes"] obtain nodes' t where n:
      "insert_walk ?nodes (length nodes) cs kind mode data = Ok nodes'" "tree_ok B nodes'"
      "Suc (length nodes) \<le> length nodes'" "\<forall>i c j. child ?nodes i c = Some j \<longrightarrow> child nodes' i c = Some j"
      "tree_find nodes' (length nodes) cs = Some t" "t < length nodes'"
      "cs \<noteq> [] \<longrightarrow> kind \<noteq> Directory \<longrightarrow> attrs nodes' t = (kind, mode, data)"
      "\<forall>i < Suc (length nodes). i = t \<and> cs \<noteq> [] \<and> kind \<noteq> Directory \<or> attrs nodes' i = attrs ?nodes i"
      by auto
    have ch: "child ?nodes i e = (if i = cur \<and> e = c then Some (length nodes)
        else if i = length nodes then None else child nodes i e)" for i e
      using child_add [OF Cons.prems(2), of ?new c i e] by (simp add: node_dir_def)
    have at: "attrs ?nodes i = attrs nodes i" if "i < length nodes" for i
      using attrs_add [OF that] .
    have at_new: "attrs ?nodes (length nodes) = (kind, mode, data)" if "cs = []"
      using that Cons.prems(2) by (simp add: attrs_def nth_list_update)
    have walk: "insert_walk nodes cur (c # cs) kind mode data = Ok nodes'"
      using n(1) None Cons.prems(2) by (simp add: index_at_def child_def Let_def)
    have old: "child nodes' i e = Some j" if "child nodes i e = Some j" for i e j
    proof -
      have "child ?nodes i e = Some j" unfolding ch using that None child_less [OF that] by auto
      with n(4) show ?thesis by blast
    qed
    have "child ?nodes cur c = Some (length nodes)" unfolding ch by simp
    with n(4) have "child nodes' cur c = Some (length nodes)" by blast
    then have find: "tree_find nodes' cur (c # cs) = Some t" using n(5) by simp
    have "attrs nodes' t = (kind, mode, data)" if "kind \<noteq> Directory"
    proof (cases "cs = []")
      case True
      then show ?thesis using n(5,8) at_new by auto
    qed (use n(7) that in blast)
    moreover have "i = t \<and> kind \<noteq> Directory \<or> attrs nodes' i = attrs nodes i" if "i < length nodes" for i
    proof -
      have "i < Suc (length nodes)" using that by simp
      with n(8) at [OF that] show ?thesis by metis
    qed
    ultimately show ?thesis using walk n(2,3,6) old find by (intro exI [of _ nodes'] conjI) auto
  next
    case (Some ex)
    have ex: "0 < ex" "ex < length nodes" using tree_okD(4) [OF Cons.prems(1) Some] by simp_all
    let ?upd = "cs = [] \<and> kind \<noteq> Directory"
    let ?nodes = "if ?upd then nodes[ex := (nodes ! ex)\<lparr>cn_kind := kind, cn_data := data, cn_mode := mode\<rparr>] else nodes"
    have "tree_ok B ?nodes" using tree_ok_set_attrs [OF Cons.prems(1) ex(2,1) assms(3)] Cons.prems(1) by simp
    moreover have "ex < length ?nodes" using ex by simp
    ultimately obtain nodes' t where n:
      "insert_walk ?nodes ex cs kind mode data = Ok nodes'" "tree_ok B nodes'"
      "length nodes \<le> length nodes'" "\<forall>i c j. child ?nodes i c = Some j \<longrightarrow> child nodes' i c = Some j"
      "tree_find nodes' ex cs = Some t" "t < length nodes'"
      "cs \<noteq> [] \<longrightarrow> kind \<noteq> Directory \<longrightarrow> attrs nodes' t = (kind, mode, data)"
      "\<forall>i < length nodes. i = t \<and> cs \<noteq> [] \<and> kind \<noteq> Directory \<or> attrs nodes' i = attrs ?nodes i"
      using Cons.IH [of ?nodes ex] by (auto split: if_splits)
    have ch: "child ?nodes i e = child nodes i e" for i e using child_set_attrs [OF ex(2)] by simp
    have at: "attrs ?nodes i = (if ?upd \<and> i = ex then (kind, mode, data) else attrs nodes i)" if "i < length nodes" for i
      using that by (simp add: attrs_def nth_list_update)
    have walk: "insert_walk nodes cur (c # cs) kind mode data = Ok nodes'"
      using n(1) Some Cons.prems(2) ex by (auto simp: index_at_def child_def split: if_splits)
    have "child nodes' cur c = Some ex" using n(4) ch Some by metis
    then have find: "tree_find nodes' cur (c # cs) = Some t" using n(5) by simp
    have "attrs nodes' t = (kind, mode, data)" if "kind \<noteq> Directory"
    proof (cases "cs = []")
      case True
      then have "t = ex" "attrs nodes' ex = attrs ?nodes ex" using n(5,8) ex by auto
      then show ?thesis using at [OF ex(2)] True that by simp
    qed (use n(7) that in blast)
    moreover have "i = t \<and> kind \<noteq> Directory \<or> attrs nodes' i = attrs nodes i" if "i < length nodes" for i
      using n(5,8) at [OF that] that by (cases "cs = []") auto
    ultimately show ?thesis using walk n(2,3,4,6) ch find by (intro exI [of _ nodes'] conjI) auto
  qed
qed (use assms in auto)

text \<open>A node is reached by one path only.\<close>

lemma tree_find_snoc:
  "tree_find nodes i (cs @ [c]) = Option.bind (tree_find nodes i cs) (\<lambda>p. child nodes p c)"
  by (induction cs arbitrary: i) (simp_all split: option.splits bind_splits)

lemma tree_find_append:
  "tree_find nodes i (cs @ ds) = Option.bind (tree_find nodes i cs) (\<lambda>p. tree_find nodes p ds)"
  by (induction cs arbitrary: i) (simp_all split: option.splits bind_splits)

lemma tree_find_inj:
  assumes ok: "tree_ok B nodes"
  shows "tree_find nodes 0 cs = Some i \<Longrightarrow> tree_find nodes 0 ds = Some i \<Longrightarrow> cs = ds"
proof (induction cs arbitrary: ds i rule: rev_induct)
  case Nil
  show ?case
  proof (cases ds rule: rev_cases)
    case (snoc ds' d)
    then show ?thesis
      using Nil tree_okD(4) [OF ok] by (fastforce simp: tree_find_snoc Option.bind_eq_Some_conv)
  qed simp
next
  case (snoc c cs)
  then obtain p where p: "tree_find nodes 0 cs = Some p" "child nodes p c = Some i"
    by (auto simp: tree_find_snoc Option.bind_eq_Some_conv)
  show ?case
  proof (cases ds rule: rev_cases)
    case Nil
    then show ?thesis using snoc.prems(2) p(2) tree_okD(4) [OF ok p(2)] by simp
  next
    case ds: (snoc ds' d)
    then obtain q where q: "tree_find nodes 0 ds' = Some q" "child nodes q d = Some i"
      using snoc.prems(2) by (auto simp: tree_find_snoc Option.bind_eq_Some_conv)
    then have "p = q" "c = d" using tree_okD(5) [OF ok p(2) q(2)] by simp_all
    then show ?thesis using snoc.IH [OF p(1)] q(1) ds by simp
  qed
qed

lemma tree_find_less: "tree_ok B nodes \<Longrightarrow> i < length nodes \<Longrightarrow> tree_find nodes i cs = Some j \<Longrightarrow> j < length nodes"
proof (induction cs arbitrary: i)
  case (Cons c cs)
  then show ?case by (auto simp: Option.bind_eq_Some_conv dest: tree_okD(4) [OF Cons.prems(1)])
qed simp

lemma tree_find_mono:
  assumes "\<forall>i c j. child nodes i c = Some j \<longrightarrow> child nodes' i c = Some j"
  shows "tree_find nodes i cs = Some j \<Longrightarrow> tree_find nodes' i cs = Some j"
  using assms by (induction cs arbitrary: i) (auto simp: Option.bind_eq_Some_conv)

lemma cpio_insert_spec:
  assumes ok: "tree_ok B nodes" and sp: "span_ok B data" and B: "B \<noteq> []"
  shows "\<exists>nodes'. cpio_insert nodes path kind mode data = Ok nodes' \<and> tree_ok B nodes' \<and>
    (\<exists>t. tree_find nodes' 0 (components path) = Some t \<and>
       (components path \<noteq> [] \<longrightarrow> kind \<noteq> Directory \<longrightarrow> attrs nodes' t = (kind, mode, data))) \<and>
    (\<forall>cs i. tree_find nodes 0 cs = Some i \<longrightarrow> tree_find nodes' 0 cs = Some i \<and>
       (cs = components path \<and> kind \<noteq> Directory \<or> attrs nodes' i = attrs nodes i))"
proof -
  have "0 < length nodes" using tree_okD(1) [OF ok] by simp
  from insert_walk_spec [OF ok this sp B, of "components path" kind mode] obtain nodes' t where n:
    "insert_walk nodes 0 (components path) kind mode data = Ok nodes'" "tree_ok B nodes'"
    "\<forall>i c j. child nodes i c = Some j \<longrightarrow> child nodes' i c = Some j"
    "tree_find nodes' 0 (components path) = Some t"
    "components path \<noteq> [] \<longrightarrow> kind \<noteq> Directory \<longrightarrow> attrs nodes' t = (kind, mode, data)"
    "\<forall>i < length nodes. i = t \<and> components path \<noteq> [] \<and> kind \<noteq> Directory \<or> attrs nodes' i = attrs nodes i"
    by blast
  have "tree_find nodes' 0 cs = Some i \<and> (cs = components path \<and> kind \<noteq> Directory \<or> attrs nodes' i = attrs nodes i)"
    if f: "tree_find nodes 0 cs = Some i" for cs i
  proof -
    have f': "tree_find nodes' 0 cs = Some i" using tree_find_mono [OF n(3) f] .
    have "i < length nodes" using tree_find_less [OF ok \<open>0 < length nodes\<close> f] .
    then consider "i = t" "kind \<noteq> Directory" | "attrs nodes' i = attrs nodes i" using n(6) by blast
    then show ?thesis
    proof cases
      case 1
      then have "cs = components path" using tree_find_inj [OF n(2) f'] n(4) by blast
      with f' 1(2) show ?thesis by blast
    qed (use f' in blast)
  qed
  then show ?thesis
    using n(1,2,4,5) unfolding cpio_insert_def by (intro exI [of _ nodes'] conjI) blast+
qed


text \<open>
  What an insertion adds: every new edge is on the path and leads to a new node, and every new node
  is a default directory, except the one at the end of the path.
\<close>

lemma child_add_mono:
  assumes "cur < length nodes" and "child nodes cur c = None"
    and "child nodes i d = Some j"
  shows "child ((nodes @ [new])[cur := (nodes ! cur)\<lparr>cn_children := bm_insert c (length nodes) (cn_children (nodes ! cur))\<rparr>]) i d = Some j"
  using assms child_less [OF assms(3)] by (auto simp: child_add [OF assms(1)])

lemma insert_walk_new:
  assumes "insert_walk nodes cur cs kind mode data = Ok nodes'" and "tree_ok B nodes" and "span_ok B data" and "B \<noteq> []"
    and "tree_find nodes 0 pre = Some cur"
  shows "(\<forall>i e j. child nodes' i e = Some j \<longrightarrow> child nodes i e = Some j \<or>
       length nodes \<le> j \<and> (\<exists>k < length cs. tree_find nodes' cur (take k cs) = Some i \<and> e = cs ! k)) \<and>
    (\<forall>j. length nodes \<le> j \<longrightarrow> j < length nodes' \<longrightarrow>
       attrs nodes' j = (if tree_find nodes' cur cs = Some j then (kind, mode, data) else (Directory, 0x1ED, default_span)))"
  using assms(1,2,5)
proof (induction cs arbitrary: nodes cur pre)
  case (Cons c cs)
  have span0: "span_ok B default_span" using assms(4) by (simp add: span_ok_def default_span_def)
  have cur: "cur < length nodes"
    using tree_find_less [OF Cons.prems(2) _ Cons.prems(3)] tree_okD(1) [OF Cons.prems(2)] by simp
  show ?case
  proof (cases "child nodes cur c")
    case None
    let ?new = "if cs = [] then \<lparr>cn_kind = kind, cn_data = data, cn_mode = mode, cn_children = []\<rparr> else node_dir 0x1ED"
    let ?nodes = "(nodes @ [?new])[cur := (nodes ! cur)\<lparr>cn_children := bm_insert c (length nodes) (cn_children (nodes ! cur))\<rparr>]"
    have ok: "tree_ok B ?nodes"
      using Cons.prems(2) cur None assms(3) span0 by (intro tree_ok_add) (auto simp: node_dir_def)
    have walk: "insert_walk ?nodes (length nodes) cs kind mode data = Ok nodes'"
      using Cons.prems(1) None cur by (simp add: index_at_def child_def Let_def)
    have ch: "child ?nodes i e = (if i = cur \<and> e = c then Some (length nodes)
        else if i = length nodes then None else child nodes i e)" for i e
      using child_add [OF cur, of ?new c i e] by (simp add: node_dir_def)
    have "\<forall>i d j. child nodes i d = Some j \<longrightarrow> child ?nodes i d = Some j"
      using child_add_mono [OF cur None] by blast
    from tree_find_mono [OF this Cons.prems(3)] have pre: "tree_find ?nodes 0 (pre @ [c]) = Some (length nodes)"
      unfolding tree_find_snoc by (simp add: ch)
    note IH = Cons.IH [OF walk ok pre]
    have len: "length ?nodes = Suc (length nodes)" by simp
    from insert_walk_spec [OF ok _ assms(3,4), of "length nodes" cs kind mode] walk obtain t where n: "tree_ok B nodes'"
      "\<forall>i c j. child ?nodes i c = Some j \<longrightarrow> child nodes' i c = Some j" "tree_find nodes' (length nodes) cs = Some t"
      "\<forall>i < Suc (length nodes). i = t \<and> cs \<noteq> [] \<and> kind \<noteq> Directory \<or> attrs nodes' i = attrs ?nodes i"
      by auto
    have edge: "child nodes' cur c = Some (length nodes)" using n(2) ch by simp
    have pre': "tree_find nodes' 0 (pre @ [c]) = Some (length nodes)" using tree_find_mono [OF n(2) pre] .
    have find: "tree_find nodes' cur (c # ds) = tree_find nodes' (length nodes) ds" for ds using edge by simp
    have loop: "cs = []" if "t = length nodes"
    proof -
      have "tree_find nodes' 0 ((pre @ [c]) @ cs) = Some (length nodes)"
        using pre' n(3) that by (simp only: tree_find_append) simp
      from tree_find_inj [OF n(1) this pre'] show ?thesis by simp
    qed
    show ?thesis
    proof (intro conjI allI impI)
      fix i e j assume "child nodes' i e = Some j"
      with IH consider (old) "child ?nodes i e = Some j"
        | (path) k where "Suc (length nodes) \<le> j" "k < length cs" "tree_find nodes' (length nodes) (take k cs) = Some i" "e = cs ! k"
        unfolding len by blast
      then show "child nodes i e = Some j \<or>
          length nodes \<le> j \<and> (\<exists>k < length (c # cs). tree_find nodes' cur (take k (c # cs)) = Some i \<and> e = (c # cs) ! k)"
      proof cases
        case old
        then show ?thesis unfolding ch by (auto split: if_splits)
      next
        case path
        then have "tree_find nodes' cur (take (Suc k) (c # cs)) = Some i \<and> e = (c # cs) ! Suc k" using find by simp
        with path(1,2) show ?thesis by (metis Suc_leD Suc_mono length_Cons)
      qed
    next
      fix j assume j: "length nodes \<le> j" "j < length nodes'"
      show "attrs nodes' j = (if tree_find nodes' cur (c # cs) = Some j then (kind, mode, data) else (Directory, 0x1ED, default_span))"
      proof (cases "j = length nodes")
        case True
        have a: "attrs ?nodes j = attrs [?new] 0" using True cur by (simp add: attrs_def)
        show ?thesis
        proof (cases "t = length nodes")
          case t: True
          from loop [OF t] n(4) t True have "attrs nodes' j = attrs ?nodes j" by auto
          then show ?thesis using a loop [OF t] n(3) t True unfolding find by (simp add: attrs_def)
        next
          case False
          then have ne: "cs \<noteq> []" using n(3) by auto
          from False n(4) True have "attrs nodes' j = attrs ?nodes j" by auto
          then show ?thesis using a ne False n(3) True unfolding find by (simp add: attrs_def node_dir_def)
        qed
      next
        case False
        then have "length ?nodes \<le> j" using j by simp
        with IH j(2) show ?thesis unfolding find by blast
      qed
    qed
  next
    case (Some ex)
    have ex: "0 < ex" "ex < length nodes" using tree_okD(4) [OF Cons.prems(2) Some] by simp_all
    let ?upd = "cs = [] \<and> kind \<noteq> Directory"
    let ?nodes = "if ?upd then nodes[ex := (nodes ! ex)\<lparr>cn_kind := kind, cn_data := data, cn_mode := mode\<rparr>] else nodes"
    have ok: "tree_ok B ?nodes" using tree_ok_set_attrs [OF Cons.prems(2) ex(2,1) assms(3)] Cons.prems(2) by simp
    have ch: "child ?nodes i e = child nodes i e" for i e using child_set_attrs [OF ex(2)] by simp
    have walk: "insert_walk ?nodes ex cs kind mode data = Ok nodes'"
      using Cons.prems(1) Some cur ex by (auto simp: index_at_def child_def split: if_splits)
    have "\<forall>i d j. child nodes i d = Some j \<longrightarrow> child ?nodes i d = Some j" by (simp only: ch) simp
    from tree_find_mono [OF this Cons.prems(3)] have pre: "tree_find ?nodes 0 (pre @ [c]) = Some ex"
      unfolding tree_find_snoc by (simp add: ch Some)
    note IH = Cons.IH [OF walk ok pre]
    from insert_walk_spec [OF ok _ assms(3,4), of ex cs kind mode] walk ex
    have "\<forall>i c j. child ?nodes i c = Some j \<longrightarrow> child nodes' i c = Some j" by auto
    then have find: "tree_find nodes' cur (c # ds) = tree_find nodes' ex ds" for ds using ch Some by simp
    have len: "length ?nodes = length nodes" by simp
    show ?thesis
    proof (intro conjI allI impI)
      fix i e j assume "child nodes' i e = Some j"
      with IH consider (old) "child nodes i e = Some j"
        | (path) k where "length nodes \<le> j" "k < length cs" "tree_find nodes' ex (take k cs) = Some i" "e = cs ! k"
        unfolding ch len by blast
      then show "child nodes i e = Some j \<or>
          length nodes \<le> j \<and> (\<exists>k < length (c # cs). tree_find nodes' cur (take k (c # cs)) = Some i \<and> e = (c # cs) ! k)"
      proof cases
        case path
        then have "tree_find nodes' cur (take (Suc k) (c # cs)) = Some i \<and> e = (c # cs) ! Suc k" using find by simp
        with path(1,2) show ?thesis by (metis Suc_mono length_Cons)
      qed blast
    next
      fix j assume "length nodes \<le> j" "j < length nodes'"
      with IH show "attrs nodes' j = (if tree_find nodes' cur (c # cs) = Some j then (kind, mode, data) else (Directory, 0x1ED, default_span))"
        unfolding find len by blast
    qed
  qed
qed auto


text \<open>
  The tree as it is seen from outside: what the node at a path is, if there is one. On this view an
  insertion is \<open>insert_view\<close>: the record's attributes at its path, unless the record is a directory and
  something is there, and a default directory at each path above that held nothing.
\<close>

definition tree_view :: "cnode list \<Rightarrow> bytes list \<Rightarrow> (file_kind \<times> nat \<times> span) option" where
  "tree_view nodes p = map_option (attrs nodes) (tree_find nodes 0 p)"

definition above :: "bytes list \<Rightarrow> bytes list \<Rightarrow> bool" where
  "above q p \<longleftrightarrow> length q < length p \<and> q = take (length q) p"

definition insert_view ::
  "(bytes list \<Rightarrow> (file_kind \<times> nat \<times> span) option) \<Rightarrow> bytes list \<Rightarrow> file_kind \<Rightarrow> nat \<Rightarrow> span \<Rightarrow>
    bytes list \<Rightarrow> (file_kind \<times> nat \<times> span) option"
where
  "insert_view v p kind mode data q =
     (if q = p \<and> (v p = None \<or> kind \<noteq> Directory \<and> p \<noteq> []) then Some (kind, mode, data)
      else if v q = None \<and> above q p then Some (Directory, 0x1ED, default_span)
      else v q)"

lemma insert_new_paths:
  assumes ok: "tree_ok B nodes'" and mono: "\<And>q i. tree_find nodes 0 q = Some i \<Longrightarrow> tree_find nodes' 0 q = Some i"
    and edges: "\<And>i e j. child nodes' i e = Some j \<Longrightarrow> child nodes i e = Some j \<or>
      length nodes \<le> j \<and> (\<exists>k < length p. tree_find nodes' 0 (take k p) = Some i \<and> e = p ! k)"
  shows "tree_find nodes' 0 q = Some j \<Longrightarrow>
    tree_find nodes 0 q = Some j \<or> length nodes \<le> j \<and> (\<exists>k \<le> length p. q = take k p)"
proof (induction q arbitrary: j rule: rev_induct)
  case (snoc e q)
  then obtain i where i: "tree_find nodes' 0 q = Some i" "child nodes' i e = Some j"
    by (auto simp: tree_find_snoc Option.bind_eq_Some_conv)
  from edges [OF i(2)] consider (old) "child nodes i e = Some j"
    | (path) k where "length nodes \<le> j" "k < length p" "tree_find nodes' 0 (take k p) = Some i" "e = p ! k" by blast
  then show ?case
  proof cases
    case old
    then have "i < length nodes" by (rule child_less)
    with snoc.IH [OF i(1)] have "tree_find nodes 0 q = Some i" by auto
    with old show ?thesis by (simp add: tree_find_snoc)
  next
    case path
    then have "q = take k p" using tree_find_inj [OF ok i(1)] by blast
    then have "q @ [e] = take (Suc k) p" using path(2,4) by (simp add: take_Suc_conv_app_nth)
    with path(1,2) show ?thesis by (metis Suc_leI)
  qed
qed simp

lemma cpio_insert_view:
  assumes ok: "tree_ok B nodes" and sp: "span_ok B data" and B: "B \<noteq> []"
  shows "\<exists>nodes'. cpio_insert nodes path kind mode data = Ok nodes' \<and> tree_ok B nodes' \<and>
    (\<forall>q i. tree_find nodes 0 q = Some i \<longrightarrow> tree_find nodes' 0 q = Some i) \<and>
    tree_view nodes' = insert_view (tree_view nodes) (components path) kind mode data"
proof (cases "components path = []")
  case True
  have "insert_view (tree_view nodes) [] kind mode data = tree_view nodes"
    by (intro ext) (simp add: insert_view_def above_def tree_view_def)
  with True ok show ?thesis by (simp add: cpio_insert_def)
next
  case False
  let ?p = "components path"
  from cpio_insert_spec [OF assms, of path kind mode] False obtain nodes' t where n:
    "cpio_insert nodes path kind mode data = Ok nodes'" "tree_ok B nodes'" "tree_find nodes' 0 ?p = Some t"
    "kind \<noteq> Directory \<Longrightarrow> attrs nodes' t = (kind, mode, data)"
    "\<And>q i. tree_find nodes 0 q = Some i \<Longrightarrow> tree_find nodes' 0 q = Some i"
    "\<And>q i. tree_find nodes 0 q = Some i \<Longrightarrow> q = ?p \<and> kind \<noteq> Directory \<or> attrs nodes' i = attrs nodes i"
    by blast
  have root: "tree_find nodes 0 [] = Some 0" by simp
  note new = insert_walk_new [OF n(1) [unfolded cpio_insert_def] ok sp B root]
  have "tree_view nodes' q = insert_view (tree_view nodes) ?p kind mode data q" for q
  proof (cases "tree_find nodes 0 q")
    case (Some i)
    then show ?thesis
      using n(3) n(4) n(5) [OF Some] n(6) [OF Some] False by (auto simp: tree_view_def insert_view_def)
  next
    case None
    show ?thesis
    proof (cases "tree_find nodes' 0 q")
      case none: None
      have "\<not> above q ?p"
      proof
        assume "above q ?p"
        then have e: "q @ drop (length q) ?p = ?p" by (metis above_def append_take_drop_id)
        have "tree_find nodes' 0 (q @ drop (length q) ?p) = None" using none by (simp only: tree_find_append) simp
        then show False using n(3) unfolding e by simp
      qed
      moreover have "q \<noteq> ?p" using none n(3) by auto
      ultimately show ?thesis using None none by (simp add: tree_view_def insert_view_def)
    next
      case (Some j)
      have "tree_find nodes 0 q = Some j \<or> length nodes \<le> j \<and> (\<exists>k \<le> length ?p. q = take k ?p)"
        by (rule insert_new_paths [OF n(2) _ _ Some]) (use n(5) new in blast)+
      then obtain k where k: "length nodes \<le> j" "k \<le> length ?p" "q = take k ?p" using None by auto
      have "j < length nodes'" using tree_find_less [OF n(2) _ Some] tree_okD(1) [OF n(2)] by simp
      with new k(1) have at: "attrs nodes' j =
          (if tree_find nodes' 0 ?p = Some j then (kind, mode, data) else (Directory, 0x1ED, default_span))" by blast
      show ?thesis
      proof (cases "q = ?p")
        case True
        then show ?thesis using at Some None by (simp add: tree_view_def insert_view_def)
      next
        case False
        then have "above q ?p" using k(2,3) by (auto simp: above_def)
        moreover have "tree_find nodes' 0 ?p \<noteq> Some j" using tree_find_inj [OF n(2) Some] False by blast
        ultimately show ?thesis using at Some None False by (simp add: tree_view_def insert_view_def)
      qed
    qed
  qed
  with n(1,2,5) show ?thesis by blast
qed

text \<open>Following names by \<open>cpio_lookup\<close>, from a node.\<close>

fun lookup_path :: "cpio \<Rightarrow> node_id \<Rightarrow> bytes list \<Rightarrow> node_id option result" where
  "lookup_path c i [] = Ok (Some i)"
| "lookup_path c i (n # ns) =
     and_then (cpio_lookup c i n) (\<lambda>r. case r of None \<Rightarrow> Ok None | Some j \<Rightarrow> lookup_path c j ns)"

lemma lookup_path_eq:
  assumes "tree_ok B (cp_nodes c)" and "i < length (cp_nodes c)"
  shows "lookup_path c i q =
    (if \<exists>k < length q. \<exists>j. tree_find (cp_nodes c) i (take k q) = Some j \<and> cn_kind (cp_nodes c ! j) \<noteq> Directory
     then Err NotDirectory else Ok (tree_find (cp_nodes c) i q))"
  using assms(2)
proof (induction q arbitrary: i)
  case (Cons n ns)
  let ?bad = "\<lambda>i q k. \<exists>j. tree_find (cp_nodes c) i (take k q) = Some j \<and> cn_kind (cp_nodes c ! j) \<noteq> Directory"
  have split: "(\<exists>k < length (n # ns). ?bad i (n # ns) k) \<longleftrightarrow>
      cn_kind (cp_nodes c ! i) \<noteq> Directory \<or> (\<exists>j. child (cp_nodes c) i n = Some j \<and> (\<exists>k < length ns. ?bad j ns k))"
    by (auto simp: Ex_less_Suc2 Option.bind_eq_Some_conv)
  have node: "cpio_node c i = Ok (cp_nodes c ! i)" using Cons.prems by (simp add: cpio_node_def get_at_def)
  show ?case
  proof (cases "cn_kind (cp_nodes c ! i) = Directory")
    case False
    then show ?thesis unfolding split by (simp add: cpio_lookup_def node)
  next
    case True
    then have l: "cpio_lookup c i n = Ok (child (cp_nodes c) i n)"
      using Cons.prems by (simp add: cpio_lookup_def node child_def)
    show ?thesis
    proof (cases "child (cp_nodes c) i n")
      case None
      then show ?thesis unfolding split using True l by simp
    next
      case (Some j)
      have "j < length (cp_nodes c)" using tree_okD(4) [OF assms(1) Some] by simp
      from Cons.IH [OF this] show ?thesis unfolding split using True l Some by simp
    qed
  qed
qed simp

lemma above_take: "above r q \<longleftrightarrow> (\<exists>k < length q. r = take k q)"
  by (auto simp: above_def min_def)

text \<open>In terms of the view: a non-directory above a path stops the lookups.\<close>

definition blocked :: "(bytes list \<Rightarrow> (file_kind \<times> nat \<times> span) option) \<Rightarrow> bytes list \<Rightarrow> bool" where
  "blocked v q \<longleftrightarrow> (\<exists>r a. above r q \<and> v r = Some a \<and> fst a \<noteq> Directory)"

lemma lookup_path_view:
  assumes "tree_ok B (cp_nodes c)"
  shows "lookup_path c 0 q =
    (if blocked (tree_view (cp_nodes c)) q then Err NotDirectory else Ok (tree_find (cp_nodes c) 0 q))"
proof -
  have "0 < length (cp_nodes c)" using tree_okD(1) [OF assms] by simp
  moreover have "blocked (tree_view (cp_nodes c)) q \<longleftrightarrow>
      (\<exists>k < length q. \<exists>j. tree_find (cp_nodes c) 0 (take k q) = Some j \<and> cn_kind (cp_nodes c ! j) \<noteq> Directory)"
    unfolding blocked_def above_take by (auto simp: tree_view_def attrs_def)
  ultimately show ?thesis using lookup_path_eq [OF assms] by simp
qed

lemma insert_view_at: "insert_view v p kind mode data p \<noteq> None"
  by (simp add: insert_view_def above_def)

lemma insert_view_blocked:
  assumes "\<not> blocked v q" and "v [] \<noteq> None"
  shows "blocked (insert_view v p kind mode data) q \<longleftrightarrow> kind \<noteq> Directory \<and> p \<noteq> [] \<and> above p q"
proof
  assume "blocked (insert_view v p kind mode data) q"
  then obtain r a where r: "above r q" "insert_view v p kind mode data r = Some a" "fst a \<noteq> Directory"
    unfolding blocked_def by blast
  with assms(1) have "v r \<noteq> Some a" unfolding blocked_def by blast
  with r assms(2) show "kind \<noteq> Directory \<and> p \<noteq> [] \<and> above p q"
    by (auto simp: insert_view_def split: if_splits)
next
  assume "kind \<noteq> Directory \<and> p \<noteq> [] \<and> above p q"
  then show "blocked (insert_view v p kind mode data) q"
    unfolding blocked_def by (intro exI [of _ p] exI [of _ "(kind, mode, data)"]) (simp add: insert_view_def)
qed

lemma insert_view_blocked_self: "blocked (insert_view v p kind mode data) p \<longleftrightarrow> blocked v p"
proof -
  have "insert_view v p kind mode data r = (if v r = None then Some (Directory, 0x1ED, default_span) else v r)"
    if "above r p" for r
    using that by (auto simp: insert_view_def above_def)
  then show ?thesis unfolding blocked_def by (auto split: if_splits)
qed


section \<open>Archives\<close>

lemma parse_record_spans:
  assumes "parse_record archive at crc = Ok (r, nx)"
  shows "fst (cp_name r) + snd (cp_name r) \<le> length archive" and "fst (cp_data r) + snd (cp_data r) \<le> length archive"
  using assms
  by (auto simp: parse_record_def result_simps checked_add_def Let_def Option.bind_eq_Some_conv get_at_eq_Some split: if_splits)

lemma hex_fold_safe: "no_panic (hex_fold acc ds)"
  by (induction ds arbitrary: acc) (simp_all add: no_panic_simps)

lemma parse_record_safe: "no_panic (parse_record archive at crc)"
proof -
  have "no_panic (hex_field archive at i)" for i by (simp add: hex_field_def no_panic_simps hex_fold_safe Let_def)
  then show ?thesis
    by (auto simp: parse_record_def no_panic_simps Let_def result_simps checked_add_def Option.bind_eq_Some_conv
        split: if_splits)
qed

definition record_ok :: "bytes \<Rightarrow> cpio_record \<Rightarrow> bool" where
  "record_ok archive r \<longleftrightarrow> fst (cp_name r) + snd (cp_name r) \<le> length archive \<and>
     fst (cp_data r) + snd (cp_data r) \<le> length archive"

lemma newc_records_spec:
  "length archive \<le> MAX_BUFFER \<Longrightarrow> no_panic (newc_records archive pos) \<and>
    (\<forall>rs stop. newc_records archive pos = Ok (rs, stop) \<longrightarrow> (\<forall>r \<in> set rs. record_ok archive r) \<and> pos < stop)"
proof (induction "length archive - pos" arbitrary: pos rule: less_induct)
  case less
  let ?magic = "slice archive pos (pos + 6)" and ?crc = "slice archive pos (pos + 6) = CRC_MAGIC"
  show ?case
  proof (cases "pos + 6 \<le> length archive \<and> (?crc \<or> ?magic = NEWC_MAGIC) \<and> (\<exists>r nx. parse_record archive pos ?crc = Ok (r, nx))")
    case False
    then show ?thesis
      using less.prems parse_record_safe [of archive pos ?crc]
      by (subst (1 2) newc_records.simps)
        (auto simp: get_range_def Let_def no_panic_simps result_simps)
  next
    case True
    then obtain r nx where r: "parse_record archive pos ?crc = Ok (r, nx)" by blast
    note nx = parse_record_next [OF r less.prems] and sp = parse_record_spans [OF r]
    let ?name = "slice archive (fst (cp_name r)) (fst (cp_name r) + snd (cp_name r))"
    have step: "newc_records archive pos =
      (if ?name = TRAILER then Ok ([], nx)
       else and_then (newc_records archive nx) (\<lambda>(rs, stop). Ok (r # rs, stop)))"
      using less.prems True r sp(1) by (subst newc_records.simps) (auto simp: get_range_def Let_def index_range_def)
    have "length archive - nx < length archive - pos" using nx by simp
    from less.hyps [OF this less.prems] nx(1) sp show ?thesis
      by (auto simp: step no_panic_simps result_simps record_ok_def split: prod.splits)
  qed
qed

lemma linked_data_ok:
  assumes "\<forall>r \<in> set rs. record_ok archive r" and "bm_get (linked_data rs) k = Some d"
  shows "fst d + snd d \<le> length archive"
proof -
  let ?f = "\<lambda>r m. if cp_mode r AND S_IFMT = S_IFREG \<and> cp_nlink r > 1 \<and> snd (cp_data r) > 0
    then bm_insert (cp_inode r) (cp_data r) m else m"
  have all: "\<forall>k d. bm_get (fold ?f rs m) k = Some d \<longrightarrow> fst d + snd d \<le> length archive"
    if "\<forall>k d. bm_get m k = Some d \<longrightarrow> fst d + snd d \<le> length archive" for m
    using assms(1) that
  proof (induction rs arbitrary: m)
    case (Cons r rs)
    have "\<forall>k d. bm_get (?f r m) k = Some d \<longrightarrow> fst d + snd d \<le> length archive"
      using Cons.prems by (auto simp: bm_get_insert record_ok_def)
    with Cons.IH [of "?f r m"] Cons.prems(1) show ?case by simp
  qed simp
  have "\<forall>k d. bm_get [] k = Some d \<longrightarrow> fst d + snd d \<le> length archive" by simp
  from all [OF this] assms(2) [unfolded linked_data_def] show ?thesis by blast
qed

lemma insert_records_spec:
  assumes idx: "idx < length B" "B ! idx = archive" and B: "B \<noteq> []"
    and lk: "\<And>k d. bm_get linked k = Some d \<Longrightarrow> fst d + snd d \<le> length archive"
  shows "tree_ok B nodes \<Longrightarrow> \<forall>r \<in> set rs. record_ok archive r \<Longrightarrow>
    no_panic (insert_records archive idx linked nodes rs) \<and>
    (\<forall>nodes'. insert_records archive idx linked nodes rs = Ok nodes' \<longrightarrow> tree_ok B nodes')"
proof (induction rs arbitrary: nodes)
  case (Cons r rs)
  let ?raw = "slice archive (fst (cp_name r)) (fst (cp_name r) + snd (cp_name r))"
  let ?kind = "cpio_file_kind (cp_mode r)"
  let ?d = "if ?kind = Regular \<and> cp_nlink r > 1
    then (case bm_get linked (cp_inode r) of Some d \<Rightarrow> d | None \<Rightarrow> cp_data r) else cp_data r"
  have r: "record_ok archive r" using Cons.prems(2) by simp
  have "fst ?d + snd ?d \<le> length archive"
    using r lk [of "cp_inode r"] by (auto simp: record_ok_def split: option.splits)
  then have sp: "span_ok B \<lparr>sp_buf = idx, sp_off = fst ?d, sp_len = snd ?d\<rparr>"
    using idx by (simp add: span_ok_def)
  obtain nodes1 where n: "cpio_insert nodes ?raw ?kind (cp_mode r AND 0xFFF)
      \<lparr>sp_buf = idx, sp_off = fst ?d, sp_len = snd ?d\<rparr> = Ok nodes1" "tree_ok B nodes1"
    using cpio_insert_spec [OF Cons.prems(1) sp B, of ?raw ?kind "cp_mode r AND 0xFFF"] by blast
  have step: "insert_records archive idx linked nodes (r # rs) =
      (if utf8_valid ?raw then insert_records archive idx linked nodes1 rs
       else Err (Unsupported ''cpio_name_not_utf8''))"
    using r n(1) by (simp add: index_range_def record_ok_def from_utf8_def Let_def case_prod_beta split del: if_split)
      auto
  show ?case unfolding step using Cons.IH [OF n(2)] Cons.prems(2) by auto
qed simp

lemma insert_newc_archive_spec:
  assumes "idx < length B" and "length (B ! idx) \<le> MAX_BUFFER" and "tree_ok B nodes"
  shows "no_panic (insert_newc_archive (B ! idx) idx nodes pos) \<and>
    (\<forall>nodes' pos'. insert_newc_archive (B ! idx) idx nodes pos = Ok (nodes', pos') \<longrightarrow> tree_ok B nodes' \<and> pos < pos')"
proof -
  have B: "B \<noteq> []" using assms(1) by auto
  note rec = newc_records_spec [OF assms(2), of pos]
  have "no_panic (insert_records (B ! idx) idx (linked_data rs) nodes rs) \<and>
      (\<forall>nodes'. insert_records (B ! idx) idx (linked_data rs) nodes rs = Ok nodes' \<longrightarrow> tree_ok B nodes')"
    if "newc_records (B ! idx) pos = Ok (rs, stop)" for rs stop
  proof -
    have rs: "\<forall>r \<in> set rs. record_ok (B ! idx) r" using rec that by blast
    show ?thesis using insert_records_spec [OF assms(1) refl B linked_data_ok [OF rs] assms(3) rs] .
  qed
  with rec show ?thesis
    by (auto simp: insert_newc_archive_def no_panic_simps result_simps split: prod.splits)
qed

text \<open>One round of the chain loop, on the offset of the next byte that is not zero.\<close>

definition next_nonzero :: "bytes \<Rightarrow> nat \<Rightarrow> nat option" where
  "next_nonzero archive pos = map_option (\<lambda>n. pos + n) (Option.bind (get_from archive pos) (position (\<lambda>b. b \<noteq> 0)))"

lemma next_nonzero_less: "next_nonzero archive pos = Some p \<Longrightarrow> pos \<le> p \<and> p < length archive"
  by (auto simp: next_nonzero_def Option.bind_eq_Some_conv get_from_eq_Some dest!: position_less)

lemma insert_chain_step:
  "insert_chain lib idx (buffers, nodes, budget) pos =
     (case next_nonzero (buffers ! idx) pos of
        None \<Rightarrow> Some (Ok (buffers, nodes, budget))
      | Some p \<Rightarrow>
          (case sniff (drop p (buffers ! idx)) of
             Some codec \<Rightarrow>
               if idx \<noteq> 0 then Some (Err (Corrupt ''cpio_compressed_inside_compressed''))
               else Option.bind (decode_stream lib codec (drop p (buffers ! idx)) budget) (\<lambda>dec.
                 case and_then dec (\<lambda>(out, used). and_then (usub budget (length out)) (\<lambda>b. Ok (out, used, b))) of
                   Ok (out, used, budget) \<Rightarrow>
                     Option.bind (insert_chain lib (length buffers) (buffers @ [out], nodes, budget) 0) (\<lambda>sub.
                       case sub of
                         Ok st' \<Rightarrow> insert_chain lib idx st' (p + used)
                       | Err e \<Rightarrow> Some (Err e)
                       | Panic q \<Rightarrow> Some (Panic q))
                 | Err e \<Rightarrow> Some (Err e)
                 | Panic q \<Rightarrow> Some (Panic q))
           | None \<Rightarrow>
               if \<not> (starts_with (drop p (buffers ! idx)) CRC_MAGIC \<or> starts_with (drop p (buffers ! idx)) NEWC_MAGIC) \<or>
                  p mod 4 \<noteq> 0
               then Some (Err (Corrupt ''cpio_junk_between_archives''))
               else
                 (case insert_newc_archive (buffers ! idx) idx nodes p of
                    Ok (nodes, pos') \<Rightarrow> insert_chain lib idx (buffers, nodes, budget) pos'
                  | Err e \<Rightarrow> Some (Err e)
                  | Panic q \<Rightarrow> Some (Panic q))))"
  by (subst insert_chain.simps)
    (simp add: next_nonzero_def Let_def split: option.split)

definition chain_ok :: "chain_state \<Rightarrow> bool" where
  "chain_ok st \<longleftrightarrow> (case st of (B, nodes, budget) \<Rightarrow>
     tree_ok B nodes \<and> (\<forall>b \<in> set B. length b \<le> MAX_BUFFER) \<and> budget \<le> MAX_BOOT_FILE_BYTES)"

lemma chain_member_returns:
  "idx \<noteq> 0 \<Longrightarrow> idx < length B \<Longrightarrow> chain_ok (B, nodes, budget) \<Longrightarrow>
     \<exists>x. insert_chain lib idx (B, nodes, budget) pos = Some x \<and> no_panic x \<and>
       (\<forall>st. x = Ok st \<longrightarrow> (\<exists>nodes'. st = (B, nodes', budget)) \<and> chain_ok st)"
proof (induction "length (B ! idx) - pos" arbitrary: pos nodes rule: less_induct)
  case less
  have tree: "tree_ok B nodes" "length (B ! idx) \<le> MAX_BUFFER"
    using less.prems(2,3) by (simp_all add: chain_ok_def)
  show ?case
  proof (cases "next_nonzero (B ! idx) pos")
    case None
    then show ?thesis using less.prems(3) by (subst insert_chain_step) simp
  next
    case (Some p)
    note p = next_nonzero_less [OF Some]
    note spec = insert_newc_archive_spec [OF less.prems(2) tree(2,1), of p]
    show ?thesis
    proof (cases "sniff (drop p (B ! idx)) = None \<and>
        (starts_with (drop p (B ! idx)) CRC_MAGIC \<or> starts_with (drop p (B ! idx)) NEWC_MAGIC) \<and> p mod 4 = 0 \<and>
        (\<exists>n' q. insert_newc_archive (B ! idx) idx nodes p = Ok (n', q))")
      case True
      then obtain n' q where q: "insert_newc_archive (B ! idx) idx nodes p = Ok (n', q)" by blast
      have eq: "insert_chain lib idx (B, nodes, budget) pos = insert_chain lib idx (B, n', budget) q"
        using True Some q by (subst insert_chain_step) auto
      have "tree_ok B n'" "p < q" using spec q by blast+
      then have "chain_ok (B, n', budget)" "length (B ! idx) - q < length (B ! idx) - pos"
        using less.prems(3) p by (auto simp: chain_ok_def)
      from less.hyps [OF this(2) less.prems(1,2) this(1)] show ?thesis by (simp add: eq)
    next
      case False
      with Some less.prems(1) spec show ?thesis
        by (subst insert_chain_step) (auto split: option.splits result.splits)
    qed
  qed
qed

lemma tree_ok_append_buffer: "tree_ok B nodes \<Longrightarrow> tree_ok (B @ [b]) nodes"
proof -
  have "span_ok B sp \<Longrightarrow> span_ok (B @ [b]) sp" for sp by (auto simp: span_ok_def nth_append)
  then show "tree_ok B nodes \<Longrightarrow> ?thesis" by (simp add: tree_ok_def)
qed

text \<open>The chain of a whole input returns, whatever the archives and members are.\<close>

lemma insert_chain_returns:
  assumes lib: "codec_lib_ok lib"
  shows "chain_ok (B, nodes, budget) \<Longrightarrow> B \<noteq> [] \<Longrightarrow>
     \<exists>x. insert_chain lib 0 (B, nodes, budget) pos = Some x \<and> no_panic x \<and> (\<forall>st. x = Ok st \<longrightarrow> chain_ok st)"
proof (induction "length (B ! 0) - pos" arbitrary: pos B nodes budget rule: less_induct)
  case less
  have idx: "0 < length B" using less.prems(2) by simp
  have tree: "tree_ok B nodes" "length (B ! 0) \<le> MAX_BUFFER" "budget \<le> MAX_BOOT_FILE_BYTES"
    using less.prems idx by (simp_all add: chain_ok_def)
  show ?case
  proof (cases "next_nonzero (B ! 0) pos")
    case None
    then show ?thesis using less.prems(1) by (subst insert_chain_step) simp
  next
    case (Some p)
    note p = next_nonzero_less [OF Some]
    let ?rest = "drop p (B ! 0)"
    have ne: "?rest \<noteq> []" using p by simp
    show ?thesis
    proof (cases "sniff ?rest")
      case sn: (Some codec)
      from decode_stream_spec [OF lib, of codec ?rest budget] obtain y where
        y: "decode_stream lib codec ?rest budget = Some y" "no_panic y"
        "\<forall>out used. y = Ok (out, used) \<longrightarrow> length out \<le> budget \<and> used \<le> length ?rest" by blast
      show ?thesis
      proof (cases "\<exists>out used. y = Ok (out, used)")
        case False
        with y(2) obtain e where "y = Err e" by (cases y) auto
        with sn Some y(1) show ?thesis by (subst insert_chain_step) simp
      next
        case True
        then obtain out used where ou: "y = Ok (out, used)" by blast
        have le: "length out \<le> budget" and used: "0 < used"
          using y(3) ou decode_stream_consumes [OF lib ne] y(1) by simp_all
        let ?B = "B @ [out]" and ?budget = "budget - length out"
        have "length out \<le> MAX_BUFFER" using le tree(3) by (simp add: MAX_BUFFER_def MAX_BOOT_FILE_BYTES_def)
        then have ok: "chain_ok (?B, nodes, ?budget)"
          using less.prems(1) tree by (auto simp: chain_ok_def tree_ok_append_buffer)
        from chain_member_returns [OF _ _ ok, of "length B" lib 0] less.prems(2) obtain sub where
          sub: "insert_chain lib (length B) (?B, nodes, ?budget) 0 = Some sub" "no_panic sub"
          "\<forall>st. sub = Ok st \<longrightarrow> (\<exists>nodes'. st = (?B, nodes', ?budget)) \<and> chain_ok st" by auto
        have step: "insert_chain lib 0 (B, nodes, budget) pos =
          (case sub of Ok st' \<Rightarrow> insert_chain lib 0 st' (p + used) | Err e \<Rightarrow> Some (Err e) | Panic q \<Rightarrow> Some (Panic q))"
          using sn Some y(1) ou le sub(1) by (subst insert_chain_step) (simp add: usub_def)
        show ?thesis
        proof (cases sub)
          case (Ok st)
          then obtain n' where st: "st = (?B, n', ?budget)" "chain_ok (?B, n', ?budget)" using sub(3) by auto
          have "?B ! 0 = B ! 0" using idx by (simp add: nth_append)
          then have "length (?B ! 0) - (p + used) < length (B ! 0) - pos" using p used by auto
          from less.hyps [OF this st(2)] show ?thesis using step Ok st by simp
        qed (use step sub(2) in auto)
      qed
    next
      case sn: None
      note spec = insert_newc_archive_spec [OF idx tree(2,1), of p]
      show ?thesis
      proof (cases "(starts_with ?rest CRC_MAGIC \<or> starts_with ?rest NEWC_MAGIC) \<and> p mod 4 = 0 \<and>
          (\<exists>n' q. insert_newc_archive (B ! 0) 0 nodes p = Ok (n', q))")
        case True
        then obtain n' q where q: "insert_newc_archive (B ! 0) 0 nodes p = Ok (n', q)" by blast
        have eq: "insert_chain lib 0 (B, nodes, budget) pos = insert_chain lib 0 (B, n', budget) q"
          using True Some sn q by (subst insert_chain_step) auto
        have "tree_ok B n'" "p < q" using spec q by blast+
        then have "chain_ok (B, n', budget)" "length (B ! 0) - q < length (B ! 0) - pos"
          using less.prems(1) p by (auto simp: chain_ok_def)
        from less.hyps [OF this(2,1) less.prems(2)] show ?thesis by (simp add: eq)
      next
        case False
        with Some sn spec show ?thesis
          by (subst insert_chain_step) (auto split: result.splits)
      qed
    qed
  qed
qed


section \<open>The contract\<close>

definition cpio_ok :: "cpio \<Rightarrow> bool" where
  "cpio_ok c \<longleftrightarrow> tree_ok (cp_buffers c) (cp_nodes c)"

text \<open>What is relied on of the third-party parser: an entry's bytes lie in the archive.\<close>

definition old_files_ok :: "(bytes \<Rightarrow> old_entry list) \<Rightarrow> bool" where
  "old_files_ok old_files \<longleftrightarrow> (\<forall>archive. \<forall>e \<in> set (old_files archive). oe_off e + oe_len e \<le> length archive)"

lemma insert_single_spec:
  "tree_ok [archive] nodes \<Longrightarrow> \<forall>e \<in> set es. oe_off e + oe_len e \<le> length archive \<Longrightarrow>
     \<exists>nodes'. insert_single nodes es = Ok nodes' \<and> tree_ok [archive] nodes'"
proof (induction es arbitrary: nodes)
  case (Cons e es)
  have sp: "span_ok [archive] \<lparr>sp_buf = 0, sp_off = oe_off e, sp_len = oe_len e\<rparr>"
    using Cons.prems(2) by (simp add: span_ok_def)
  obtain n1 where n1: "cpio_insert nodes (oe_name e) (cpio_file_kind (oe_mode e)) (oe_mode e AND 0xFFF)
      \<lparr>sp_buf = 0, sp_off = oe_off e, sp_len = oe_len e\<rparr> = Ok n1" "tree_ok [archive] n1"
    using cpio_insert_spec [OF Cons.prems(1) sp, of "oe_name e" "cpio_file_kind (oe_mode e)" "oe_mode e AND 0xFFF"]
    by blast
  from Cons.IH [OF n1(2)] Cons.prems(2) n1(1) show ?case by simp
qed simp

lemma tree_ok_root: "B \<noteq> [] \<Longrightarrow> tree_ok B [node_dir m]"
  by (auto simp: tree_ok_def node_dir_def child_def span_ok_def default_span_def)

lemma cpio_open_spec:
  assumes "codec_lib_ok lib" and "old_files_ok old_files" and src: "sound_source src"
  shows "\<exists>x. cpio_open lib old_files src = Some x \<and> no_panic x \<and> (\<forall>c. x = Ok c \<longrightarrow> cpio_ok c)"
proof -
  let ?read = "and_then (checked_full_read_len (src_len src)) (\<lambda>len. src_read src 0 len)"
  have safe: "no_panic ?read" using src by (simp add: no_panic_simps)
  show ?thesis
  proof (cases ?read)
    case (Ok archive)
    then have la: "length archive \<le> MAX_BOOT_FILE_BYTES"
      using src_read_fills [OF src] by (auto simp: result_simps)
    have cap: "checked_full_read_len MAX_BOOT_FILE_BYTES = Ok MAX_BOOT_FILE_BYTES"
      by (simp add: checked_full_read_len_eq_Ok)
    have "chain_ok ([archive], [node_dir 0x1ED], MAX_BOOT_FILE_BYTES)"
      using la by (simp add: chain_ok_def tree_ok_root MAX_BUFFER_def MAX_BOOT_FILE_BYTES_def)
    from insert_chain_returns [OF assms(1) this, of 0] obtain x where
      x: "insert_chain lib 0 ([archive], [node_dir 0x1ED], MAX_BOOT_FILE_BYTES) 0 = Some x" "no_panic x"
      "\<forall>st. x = Ok st \<longrightarrow> chain_ok st" by auto
    obtain n' where n': "insert_single [node_dir 0x1ED] (old_files archive) = Ok n'" "tree_ok [archive] n'"
      using insert_single_spec [OF tree_ok_root [of "[archive]" "0x1ED"], of "old_files archive"] assms(2)
      by (auto simp: old_files_ok_def)
    let ?mount = "\<lambda>(buffers, nodes, _). Ok \<lparr>cp_buffers = buffers, cp_nodes = nodes\<rparr>"
    have eq: "cpio_open lib old_files src =
        Some (if starts_with archive NEWC_MAGIC \<or> starts_with archive CRC_MAGIC
          then and_then x ?mount else Ok \<lparr>cp_buffers = [archive], cp_nodes = n'\<rparr>)"
      by (simp only: cpio_open_def Ok result.case Let_def cap x(1) n'(1) option.map and_then.simps split: if_split) simp
    show ?thesis
    proof (cases x)
      case (Ok st)
      then show ?thesis using eq x(3) n'(2) by (cases st) (auto simp: cpio_ok_def chain_ok_def)
    qed (use eq x(2) n'(2) in \<open>auto simp: cpio_ok_def\<close>)
  next
    case (Err e)
    then show ?thesis by (simp add: cpio_open_def)
  next
    case (Panic p)
    then show ?thesis using safe by simp
  qed
qed

lemma cpio_node_Ok: "cpio_node c n = Ok nd \<longleftrightarrow> n < length (cp_nodes c) \<and> nd = cp_nodes c ! n"
  by (auto simp: cpio_node_def result_simps)

lemma cpio_bytes_Ok:
  "span_ok (cp_buffers c) sp \<Longrightarrow>
     cpio_bytes c sp = Ok (slice (cp_buffers c ! sp_buf sp) (sp_off sp) (sp_off sp + sp_len sp))"
  by (simp add: cpio_bytes_def span_ok_def index_at_def index_range_def)

lemma cpio_node_span: "cpio_ok c \<Longrightarrow> cpio_node c n = Ok nd \<Longrightarrow> span_ok (cp_buffers c) (cn_data nd)"
  using tree_okD(3) by (auto simp: cpio_ok_def cpio_node_Ok)

lemma cpio_children:
  assumes "cpio_ok c" and "cpio_node c n = Ok nd" and "(name, ch) \<in> set (cn_children nd)"
  shows "ch < length (cp_nodes c)"
proof -
  have "bm_ok (cn_children nd)" using assms tree_okD(3) by (auto simp: cpio_ok_def cpio_node_Ok)
  then have "bm_get (cn_children nd) name = Some ch" using assms(3) by (simp add: bm_get_mem)
  then have "child (cp_nodes c) n name = Some ch" using assms(2) by (auto simp: child_def cpio_node_Ok)
  then show ?thesis using tree_okD(4) assms(1) by (auto simp: cpio_ok_def)
qed

definition cpio_entry :: "cpio \<Rightarrow> bytes \<times> node_id \<Rightarrow> dir_entry" where
  "cpio_entry c x = \<lparr>de_name = fst x, de_node = snd x, de_kind = cn_kind (cp_nodes c ! snd x)\<rparr>"

lemma cpio_read_dir_eq:
  assumes "cpio_ok c" and "cpio_node c n = Ok nd" and "cn_kind nd = Directory"
  shows "cpio_read_dir c n = Ok (map (cpio_entry c) (cn_children nd))"
proof -
  have "map_result (\<lambda>(name, child). and_then (index_at (cp_nodes c) child) (\<lambda>ch.
      Ok \<lparr>de_name = name, de_node = child, de_kind = cn_kind ch\<rparr>)) (cn_children nd) =
    Ok (map (cpio_entry c) (cn_children nd))"
    by (rule map_result_Ok) (use cpio_children [OF assms(1,2)] in \<open>auto simp: index_at_def cpio_entry_def\<close>)
  then show ?thesis using assms by (simp add: cpio_read_dir_def)
qed

lemma find_cpio_entry: "find_entry name (map (cpio_entry c) xs) = bm_get xs name"
  by (induction xs) (auto simp: find_entry_def cpio_entry_def bm_get_def)

lemma cpio_read_at_len:
  "cpio_read_at c n off buf = Ok (k, buf') \<Longrightarrow> k \<le> length buf \<and> length buf' = length buf"
  by (auto simp: cpio_read_at_def Let_def result_simps split: if_splits)

interpretation cpio: fold_frontend cpio_frontend cpio_ok
  by unfold_locales (simp_all add: cpio_frontend_def cpio_read_at_len)

lemma cpio_static: "fold_frontend cpio_frontend (\<lambda>s. s = c)"
  by unfold_locales (simp_all add: cpio_frontend_def cpio_read_at_len)

lemma no_panic_cpio_node [simp]: "no_panic (cpio_node c n)"
  by (simp add: cpio_node_def)

interpretation cpio: panic_free_frontend cpio_frontend cpio_ok
proof unfold_locales
  fix s cx d
  assume ok: "cpio_ok s"
  show "no_panic (fst (fe_read_dir cpio_frontend cx d s))"
  proof (cases "\<exists>nd. cpio_node s d = Ok nd \<and> cn_kind nd = Directory")
    case True
    then show ?thesis using cpio_read_dir_eq [OF ok] by (auto simp: cpio_frontend_def)
  next
    case False
    then show ?thesis by (auto simp: cpio_frontend_def cpio_read_dir_def no_panic_simps)
  qed
next
  fix s cx n off buf
  assume ok: "cpio_ok s"
  show "no_panic (fst (fe_read_at cpio_frontend cx n off buf s))"
    using cpio_bytes_Ok [OF cpio_node_span [OF ok]]
    by (auto simp: cpio_frontend_def cpio_read_at_def no_panic_simps Let_def)
next
  fix s cx n
  assume ok: "cpio_ok s"
  show "no_panic (fst (fe_read_link cpio_frontend cx n s))"
    using cpio_bytes_Ok [OF cpio_node_span [OF ok]]
    by (auto simp: cpio_frontend_def cpio_read_link_def no_panic_simps)
qed (auto simp: cpio_frontend_def cpio_lookup_def cpio_metadata_def no_panic_simps)

definition cpio_view :: "cpio \<Rightarrow> node_id view" where
  "cpio_view c =
     \<lparr>vw_root = cpio_root c, vw_lookup = cpio_lookup c,
      vw_metadata = cpio_metadata c, vw_link = cpio_read_link c\<rparr>"

interpretation cpio: tree_frontend cpio_frontend cpio_ok cx "\<lambda>_. Some" cpio_view for cx
  by unfold_locales (auto simp: cpio_frontend_def cpio_view_def split: result.splits option.splits)

interpretation cpio: coherent_frontend cpio_frontend cpio_ok
proof unfold_locales
  fix s cx d nm found s'
  assume ok: "cpio_ok s" and "fe_lookup cpio_frontend cx d nm s = (Ok found, s')"
  then obtain nd where nd: "cpio_node s d = Ok nd" "cn_kind nd = Directory" "found = bm_get (cn_children nd) nm"
    by (auto simp: cpio_frontend_def cpio_lookup_def result_simps split: if_splits)
  then show "\<exists>es s''. fe_read_dir cpio_frontend cx d s = (Ok es, s'') \<and> found = find_entry nm es"
    using cpio_read_dir_eq [OF ok nd(1,2)] by (simp add: cpio_frontend_def find_cpio_entry)
next
  fix s cx d es s' e
  assume ok: "cpio_ok s" and r: "fe_read_dir cpio_frontend cx d s = (Ok es, s')" and e: "e \<in> set es"
  from r have rd: "cpio_read_dir s d = Ok es" "s' = s" by (auto simp: cpio_frontend_def)
  then obtain nd where nd: "cpio_node s d = Ok nd" "cn_kind nd = Directory" "s' = s"
    unfolding cpio_read_dir_def and_then_eq_Ok by (metis result.distinct(1))
  then obtain x where x: "x \<in> set (cn_children nd)" "e = cpio_entry s x"
    using cpio_read_dir_eq [OF ok nd(1,2)] rd(1) e by auto
  have "snd x < length (cp_nodes s)" using cpio_children [OF ok nd(1), of "fst x" "snd x"] x(1) by simp
  then show "\<exists>md s''. fe_metadata cpio_frontend cx (de_node e) s' = (Ok md, s'') \<and> md_kind md = de_kind e"
    using x(2) nd(3) by (simp add: cpio_frontend_def cpio_metadata_def cpio_node_def get_at_def cpio_entry_def)
qed (auto simp: cpio_frontend_def cpio_metadata_def cpio_read_link_def result_simps split: if_splits)

definition cpio_content :: "cpio \<Rightarrow> node_id \<Rightarrow> bytes \<Rightarrow> bool" where
  "cpio_content c n bs \<longleftrightarrow>
     (\<exists>nd. cpio_node c n = Ok nd \<and> cn_kind nd \<noteq> Directory \<and> cpio_bytes c (cn_data nd) = Ok bs)"

interpretation cpio: content_frontend cpio_frontend cpio_ok cx cpio_content for cx
proof unfold_locales
  fix s n bs
  assume ok: "cpio_ok s" and "cpio_content s n bs"
  then obtain nd where nd: "cpio_node s n = Ok nd" "cn_kind nd \<noteq> Directory" "cpio_bytes s (cn_data nd) = Ok bs"
    by (auto simp: cpio_content_def)
  have len: "length bs = sp_len (cn_data nd)"
    using cpio_bytes_Ok [OF cpio_node_span [OF ok nd(1)]] cpio_node_span [OF ok nd(1)] nd(3)
    by (auto simp: span_ok_def)
  then show "\<exists>md s'. fe_metadata cpio_frontend cx n s = (Ok md, s') \<and> md_kind md \<noteq> Directory \<and>
      md_size md = length bs \<and> cpio_content s' n bs"
    using nd by (auto simp: cpio_frontend_def cpio_metadata_def cpio_content_def)
  fix off and buf :: bytes
  assume off: "off < length bs" and "buf \<noteq> []"
  let ?n = "min (length buf) (length bs - off)"
  have "cpio_read_at s n off buf = Ok (?n, overwrite buf 0 (slice bs off (off + ?n)))"
    using nd off by (simp add: cpio_read_at_def Let_def)
  then show "\<exists>k s'. fe_read_at cpio_frontend cx n off buf s =
      (Ok (k, overwrite buf 0 (slice bs off (off + k))), s') \<and>
      0 < k \<and> k \<le> length buf \<and> off + k \<le> length bs \<and> cpio_content s' n bs"
    using off nd \<open>buf \<noteq> []\<close> by (intro exI [of _ ?n] exI [of _ s])
      (auto simp: cpio_frontend_def cpio_content_def)
qed


section \<open>Encoding\<close>

text \<open>A record as \<^verbatim>\<open>cpio -H newc\<close> writes it: thirteen fields of eight hexadecimal digits.\<close>

definition hex_char :: "nat \<Rightarrow> byte" where
  "hex_char n = byte_of (if n < 10 then 48 + n else 87 + n)"

fun hex_digits :: "nat \<Rightarrow> nat \<Rightarrow> bytes" where
  "hex_digits 0 n = []"
| "hex_digits (Suc k) n = hex_digits k (n div 16) @ [hex_char (n mod 16)]"

definition pad4 :: "nat \<Rightarrow> bytes" where
  "pad4 n = replicate (align4 n - n) 0"

definition newc_fields :: "nat list \<Rightarrow> bytes" where
  "newc_fields fs = concat (map (hex_digits 8) fs)"

definition newc_encode :: "bytes \<Rightarrow> nat list \<Rightarrow> bytes \<Rightarrow> bytes \<Rightarrow> bytes" where
  "newc_encode magic fs name data =
     (let head = magic @ newc_fields fs @ name @ [0] in
      head @ pad4 (length head) @ data @ pad4 (length data))"

lemma hex_digit_char: "n < 16 \<Longrightarrow> hex_digit (hex_char n) = Some n"
  by (simp add: hex_digit_def hex_char_def Let_def)

lemma length_hex_digits [simp]: "length (hex_digits k n) = k"
  by (induction k arbitrary: n) auto

lemma hex_fold_append: "hex_fold acc (xs @ ys) = and_then (hex_fold acc xs) (\<lambda>a. hex_fold a ys)"
  by (induction xs arbitrary: acc) (simp_all add: and_then_assoc)

lemma push_nibble:
  assumes "v < 16"
  shows "push_bit 4 acc OR v = acc * 16 + (v :: nat)"
proof -
  have "take_bit 4 v = v" using assms by (simp add: take_bit_nat_eq_self)
  then have "4 \<le> n \<Longrightarrow> \<not> bit v n" for n by (metis bit_take_bit_iff not_le)
  then have "push_bit 4 acc AND v = 0" by (intro bit_eqI) (auto simp: bit_simps)
  then have "push_bit 4 acc + v = push_bit 4 acc OR v" by (rule disjunctive_add_eq_or)
  then show ?thesis by (simp add: push_bit_eq_mult)
qed

lemma hex_fold_digits: "n < 16 ^ k \<Longrightarrow> hex_fold 0 (hex_digits k n) = Ok n"
proof (induction k arbitrary: n)
  case (Suc k)
  then have "n div 16 < 16 ^ k" by (simp add: less_mult_imp_div_less mult.commute)
  from Suc.IH [OF this] show ?case by (simp add: hex_fold_append hex_digit_char push_nibble)
qed simp

lemma length_newc_fields: "length (newc_fields fs) = 8 * length fs"
  by (induction fs) (simp_all add: newc_fields_def)

lemma newc_field_slice:
  "i < length fs \<Longrightarrow> slice (newc_fields fs) (i * 8) (i * 8 + 8) = hex_digits 8 (fs ! i)"
proof (induction fs arbitrary: i)
  case (Cons f fs)
  show ?case
  proof (cases i)
    case (Suc j)
    then have "slice (newc_fields (f # fs)) (i * 8) (i * 8 + 8) = slice (newc_fields fs) (j * 8) (j * 8 + 8)"
      by (simp add: newc_fields_def slice_append_right add.commute)
    with Suc Cons show ?thesis by simp
  qed (simp add: newc_fields_def slice_def)
qed simp

lemma hex_field_encode:
  assumes "archive = pre @ magic @ newc_fields fs @ post" and "length magic = 6"
    and "i < length fs" and "fs ! i < 2 ^ 32"
  shows "hex_field archive (length pre) i = Ok (fs ! i)"
proof -
  have len: "i * 8 + 8 \<le> length (newc_fields fs)" using assms(3) by (simp add: length_newc_fields)
  have "slice archive (length pre + 6 + i * 8) (length pre + 6 + i * 8 + 8) =
      slice (newc_fields fs @ post) (i * 8) (i * 8 + 8)"
    using assms(1,2) by (simp add: slice_append_right add.commute)
  also have "\<dots> = hex_digits 8 (fs ! i)" using len newc_field_slice [OF assms(3)] by (simp add: slice_append_left)
  finally have "get_range archive (length pre + 6 + i * 8) (length pre + 6 + i * 8 + 8) = Some (hex_digits 8 (fs ! i))"
    using assms(1,2) len by (simp add: get_range_def)
  moreover have "hex_fold 0 (hex_digits 8 (fs ! i)) = Ok (fs ! i)"
    using assms(4) by (intro hex_fold_digits) simp
  ultimately show ?thesis by (simp add: hex_field_def Let_def)
qed

text \<open>The check of the CRC format: the sum of the data bytes.\<close>

definition data_sum :: "bytes \<Rightarrow> nat" where
  "data_sum data = sum_list (map unat data) mod 2 ^ 32"

lemma align4_add: "k mod 4 = 0 \<Longrightarrow> k + n + 3 < 2 ^ 64 \<Longrightarrow> align4 (k + n) = k + align4 n"
proof -
  assume k: "k mod 4 = 0" and le: "k + n + 3 < 2 ^ 64"
  obtain q where q: "k = 4 * q" using k by auto
  have "align4 (k + n) = (4 * q + (n + 3)) div 4 * 4" using le q by (simp add: align4_eq ac_simps)
  also have "\<dots> = 4 * q + (n + 3) div 4 * 4" by simp
  finally show ?thesis using le q by (simp add: align4_eq)
qed

lemma align4_mod: "n + 3 < 2 ^ 64 \<Longrightarrow> align4 n mod 4 = 0"
  by (simp add: align4_eq)

lemma length_pad4: "n + 3 < 2 ^ 64 \<Longrightarrow> n + length (pad4 n) = align4 n"
  using align4_ge [of n] by (simp add: pad4_def)

lemma parse_record_encode:
  assumes arch: "archive = pre @ newc_encode (if crc then CRC_MAGIC else NEWC_MAGIC) fs name data @ post"
    and small: "length archive \<le> MAX_BUFFER" and pre: "length pre mod 4 = 0"
    and fs: "length fs = 13" "\<forall>f \<in> set fs. f < 2 ^ 32"
    and sizes: "fs ! 6 = length data" "fs ! 11 = length name + 1" "length name < CPIO_MAX_NAME"
    and check: "crc \<Longrightarrow> fs ! 12 = data_sum data"
  shows "parse_record archive (length pre) crc =
    Ok (\<lparr>cp_name = (length pre + NEWC_HEADER, length name), cp_mode = fs ! 1,
         cp_inode = (fs ! 7, fs ! 8, fs ! 0), cp_nlink = fs ! 4,
         cp_data = (length pre + align4 (NEWC_HEADER + length name + 1), length data)\<rparr>,
        length pre + length (newc_encode (if crc then CRC_MAGIC else NEWC_MAGIC) fs name data))"
proof -
  let ?m = "if crc then CRC_MAGIC else NEWC_MAGIC"
  let ?head = "?m @ newc_fields fs @ name @ [0]" and ?enc = "newc_encode ?m fs name data"
  have m: "length ?m = 6" by (simp add: CRC_MAGIC_def NEWC_MAGIC_def)
  have lh: "length ?head = NEWC_HEADER + length name + 1"
    using m fs(1) by (simp add: length_newc_fields NEWC_HEADER_def)
  have enc: "?enc = ?head @ pad4 (length ?head) @ data @ pad4 (length data)"
    unfolding newc_encode_def Let_def ..
  have lb: "length ?enc \<le> MAX_BUFFER" "length pre + length ?enc \<le> MAX_BUFFER" using arch small by simp_all
  then have b1: "length ?head + 3 < 2 ^ 64" "length data + 3 < 2 ^ 64" "length pre + length ?enc + 3 < 2 ^ 64"
    unfolding enc by (simp_all add: MAX_BUFFER_def)
  have l1: "length (?head @ pad4 (length ?head)) = align4 (length ?head)"
    using length_pad4 [OF b1(1)] by (simp only: length_append)
  have l2: "length ?enc = align4 (length ?head) + align4 (length data)"
    using length_pad4 [OF b1(2)] l1 unfolding enc by (simp only: length_append add.assoc [symmetric])
  have fld: "hex_field archive (length pre) i = Ok (fs ! i)" if "i < 13" for i
  proof (rule hex_field_encode [OF _ m])
    show "archive = pre @ ?m @ newc_fields fs @ (name @ [0] @ pad4 (length ?head) @ data @ pad4 (length data) @ post)"
      unfolding arch enc by (simp only: append_assoc)
  qed (use fs that in auto)
  have nul: "get_at archive (length pre + NEWC_HEADER + length name) = Some 0"
    using lh m fs(1) unfolding arch enc
    by (simp add: get_at_def nth_append length_newc_fields NEWC_HEADER_def)
  have ds: "align4 (length pre + NEWC_HEADER + (length name + 1)) = length pre + align4 (length ?head)"
    using align4_add [OF pre, of "length ?head"] b1(3) l2 lh align4_ge [OF b1(1)] by (simp add: ac_simps)
  have de: "length pre + align4 (length ?head) + length data \<le> length archive"
    using l2 align4_ge [OF b1(2)] arch by simp
  have dt: "slice archive (length pre + align4 (length ?head)) (length pre + align4 (length ?head) + length data) = data"
  proof -
    have "archive = (pre @ ?head @ pad4 (length ?head)) @ data @ (pad4 (length data) @ post)"
      unfolding arch enc by (simp only: append_assoc)
    moreover have "length (pre @ ?head @ pad4 (length ?head)) = length pre + align4 (length ?head)"
      using l1 by simp
    ultimately show ?thesis by (metis add_diff_cancel_left' append_eq_conv_conj slice_def)
  qed
  have dm: "(length pre + align4 (length ?head)) mod 4 = 0" using pre align4_mod [OF b1(1)]
    by (simp only: mod_eq_0_iff_dvd dvd_add)
  have nx: "align4 (length pre + align4 (length ?head) + length data) = length pre + length ?enc"
    using align4_add [OF dm, of "length data"] de small l2 by (simp add: MAX_BUFFER_def)
  have big: "length pre + align4 (length ?head) + length data < 2 ^ 64" using de small by (simp add: MAX_BUFFER_def)
  show ?thesis
    unfolding parse_record_def
    using sizes check fld nul ds [unfolded lh] de [unfolded lh] dt [unfolded lh] nx [unfolded lh] big [unfolded lh]
    by (simp add: Let_def checked_add_def data_sum_def index_range_def CPIO_MAX_NAME_def)
qed

section \<open>Properties\<close>

text \<open>
  C8. Mounting returns for every input, however its archives and compressed members are nested or
  damaged, and without a panic; a volume that mounts is a well-formed tree, on which reading by
  path never panics.
\<close>

theorem cpio_mount_total:
  assumes "codec_lib_ok lib" and "old_files_ok old_files" and "sound_source src"
  shows "\<exists>x. cpio_open lib old_files src = Some x \<and> no_panic x \<and>
    (\<forall>c. x = Ok c \<longrightarrow> cpio_ok c \<and> (\<forall>cx path. no_panic (fst (read_path cpio_frontend cx path c))))"
  using cpio_open_spec [OF assms] cpio.read_path_safe by blast

theorem cpio_mount_total_witness:
  "\<exists>x. cpio_open store_lib (\<lambda>_. []) (slice_source (NEWC_MAGIC @ [1, 2])) = Some x \<and> no_panic x"
proof -
  have "old_files_ok (\<lambda>_. [])" by (simp add: old_files_ok_def)
  moreover have "sound_source (slice_source (NEWC_MAGIC @ [1, 2]))"
    by (simp add: sound_slice_source NEWC_MAGIC_def)
  ultimately show ?thesis using cpio_mount_total [OF codec_lib_ok_store] by blast
qed


text \<open>
  The tree of the witnesses: the record of a file \<^verbatim>\<open>a/b\<close>, folded into an empty tree. On it a
  directory record at \<^verbatim>\<open>a/b\<close> changes nothing, and a file at \<^verbatim>\<open>a\<close> takes the directory's place.
\<close>

definition small_tree :: "cnode list" where
  "small_tree = [\<lparr>cn_kind = Directory, cn_data = default_span, cn_mode = 0x1ED, cn_children = [([0x61], 1)]\<rparr>,
     \<lparr>cn_kind = Directory, cn_data = default_span, cn_mode = 0x1ED, cn_children = [([0x62], 2)]\<rparr>,
     \<lparr>cn_kind = Regular, cn_data = \<lparr>sp_buf = 0, sp_off = 1, sp_len = 2\<rparr>, cn_mode = 0x1A4, cn_children = []\<rparr>]"

lemma small_tree_insert:
  "cpio_insert [node_dir 0x1ED] [0x61, 0x2F, 0x62] Regular 0x1A4 \<lparr>sp_buf = 0, sp_off = 1, sp_len = 2\<rparr> = Ok small_tree"
  by (simp add: cpio_insert_def components_def slash_def dot_def small_tree_def index_at_def node_dir_def Let_def)

lemma small_tree_ok: "tree_ok [[7, 8, 9]] small_tree"
proof -
  have "span_ok [[7, 8, 9]] \<lparr>sp_buf = 0, sp_off = 1, sp_len = 2\<rparr>" by (simp add: span_ok_def)
  from cpio_insert_spec [OF tree_ok_root this, of "0x1ED" "[0x61, 0x2F, 0x62]" Regular "0x1A4"] show ?thesis
    using small_tree_insert by (metis list.distinct(1) result.inject(1))
qed

lemma small_components: "components [0x61] = [[0x61]]" "components [0x61, 0x2F, 0x62] = [[0x61], [0x62]]"
  by (simp_all add: components_def slash_def dot_def)


text \<open>
  C10. Folding a record seen through lookups. A path that lookups followed to a node is still followed
  to the same node, unless the record is no directory and its path is above it: then the record has cut
  it off, and looking it up fails with \<open>NotDirectory\<close>. The record's own path is followed to a node with
  what \<open>insert_view\<close> says is there, unless a node that is no directory was at a path above it: then the
  record cannot be reached, and looking it up fails with \<open>NotDirectory\<close>.
\<close>

theorem cpio_insert_lookup:
  assumes "tree_ok B nodes" and "span_ok B data" and "B \<noteq> []"
    and "cpio_insert nodes path kind mode data = Ok nodes'"
  shows "(\<forall>q i. lookup_path \<lparr>cp_buffers = B, cp_nodes = nodes\<rparr> 0 q = Ok (Some i) \<longrightarrow>
      lookup_path \<lparr>cp_buffers = B, cp_nodes = nodes'\<rparr> 0 q =
        (if kind \<noteq> Directory \<and> components path \<noteq> [] \<and> above (components path) q then Err NotDirectory else Ok (Some i))) \<and>
    (if blocked (tree_view nodes) (components path)
     then lookup_path \<lparr>cp_buffers = B, cp_nodes = nodes'\<rparr> 0 (components path) = Err NotDirectory
     else \<exists>t. lookup_path \<lparr>cp_buffers = B, cp_nodes = nodes'\<rparr> 0 (components path) = Ok (Some t) \<and>
       Some (attrs nodes' t) = insert_view (tree_view nodes) (components path) kind mode data (components path))"
proof -
  let ?p = "components path" and ?v = "tree_view nodes"
  from cpio_insert_view [OF assms(1-3), of path kind mode] assms(4) have n: "tree_ok B nodes'"
    "\<And>q i. tree_find nodes 0 q = Some i \<Longrightarrow> tree_find nodes' 0 q = Some i"
    "tree_view nodes' = insert_view ?v ?p kind mode data" by auto
  have l: "lookup_path \<lparr>cp_buffers = B, cp_nodes = ns\<rparr> 0 q = (if blocked (tree_view ns) q then Err NotDirectory else Ok (tree_find ns 0 q))"
    if "tree_ok B ns" for ns q using lookup_path_view [of B "\<lparr>cp_buffers = B, cp_nodes = ns\<rparr>"] that by simp
  have b: "blocked (insert_view ?v ?p kind mode data) q \<longleftrightarrow> kind \<noteq> Directory \<and> ?p \<noteq> [] \<and> above ?p q"
    if "\<not> blocked ?v q" for q
    by (rule insert_view_blocked [OF that]) (simp add: tree_view_def)
  have bp: "blocked (insert_view ?v ?p kind mode data) ?p \<longleftrightarrow> blocked ?v ?p" by (rule insert_view_blocked_self)
  have "\<exists>t. tree_find nodes' 0 ?p = Some t \<and> Some (attrs nodes' t) = insert_view ?v ?p kind mode data ?p"
    using fun_cong [OF n(3), of ?p] insert_view_at [of ?v ?p kind mode data] by (auto simp: tree_view_def)
  then show ?thesis
    unfolding l [OF assms(1)] l [OF n(1)] n(3) bp using b n(2) by (auto simp: tree_view_def)
qed

theorem cpio_insert_lookup_witness:
  "\<exists>over. cpio_insert small_tree [0x61] Regular 0x180 default_span = Ok over \<and>
    lookup_path \<lparr>cp_buffers = [[7, 8, 9]], cp_nodes = small_tree\<rparr> 0 [[0x61], [0x62]] = Ok (Some 2) \<and>
    lookup_path \<lparr>cp_buffers = [[7, 8, 9]], cp_nodes = over\<rparr> 0 [[0x61], [0x62]] = Err NotDirectory \<and>
    lookup_path \<lparr>cp_buffers = [[7, 8, 9]], cp_nodes = over\<rparr> 0 [[0x61]] = Ok (Some 1)"
proof -
  have sp: "span_ok [[7, 8, 9]] default_span" by (simp add: span_ok_def default_span_def)
  from cpio_insert_view [OF small_tree_ok sp, of "[0x61]" Regular "0x180"] obtain over where
    o: "cpio_insert small_tree [0x61] Regular 0x180 default_span = Ok over" by auto
  have l: "lookup_path \<lparr>cp_buffers = [[7, 8, 9]], cp_nodes = small_tree\<rparr> 0 [[0x61], [0x62]] = Ok (Some 2)"
    "lookup_path \<lparr>cp_buffers = [[7, 8, 9]], cp_nodes = small_tree\<rparr> 0 [[0x61]] = Ok (Some 1)"
    by (simp_all add: cpio_lookup_def cpio_node_def get_at_def small_tree_def bm_get_def)
  note k = cpio_insert_lookup [OF small_tree_ok sp _ o, THEN conjunct1, rule_format]
  have "lookup_path \<lparr>cp_buffers = [[7, 8, 9]], cp_nodes = over\<rparr> 0 [[0x61], [0x62]] = Err NotDirectory"
    using k [OF _ l(1)] by (simp add: small_components above_def del: lookup_path.simps)
  moreover have "lookup_path \<lparr>cp_buffers = [[7, 8, 9]], cp_nodes = over\<rparr> 0 [[0x61]] = Ok (Some 1)"
    using k [OF _ l(2)] by (simp add: small_components above_def del: lookup_path.simps)
  ultimately show ?thesis using l(1) o by blast
qed

text \<open>
  C13. A newc or CRC record written at an aligned offset of an archive is parsed back: its fields,
  where its name and data are, and the offset of the next record.
\<close>

theorem cpio_record_roundtrip:
  assumes "archive = pre @ newc_encode (if crc then CRC_MAGIC else NEWC_MAGIC) fs name data @ post"
    and "length archive \<le> MAX_BUFFER" and "length pre mod 4 = 0"
    and "length fs = 13" and "\<forall>f \<in> set fs. f < 2 ^ 32"
    and "fs ! 6 = length data" and "fs ! 11 = length name + 1" and "length name < CPIO_MAX_NAME"
    and "crc \<Longrightarrow> fs ! 12 = data_sum data"
  shows "parse_record archive (length pre) crc =
    Ok (\<lparr>cp_name = (length pre + NEWC_HEADER, length name), cp_mode = fs ! 1,
         cp_inode = (fs ! 7, fs ! 8, fs ! 0), cp_nlink = fs ! 4,
         cp_data = (length pre + align4 (NEWC_HEADER + length name + 1), length data)\<rparr>,
        length pre + length (newc_encode (if crc then CRC_MAGIC else NEWC_MAGIC) fs name data))"
  using assms by (intro parse_record_encode) blast+

theorem cpio_record_roundtrip_witness:
  "parse_record ([] @ newc_encode (if True then CRC_MAGIC else NEWC_MAGIC)
       [7, 0x81A4, 0, 0, 1, 0, 3, 8, 1, 0, 0, 2, 6] [0x61] [1, 2, 3] @ []) (length ([] :: bytes)) True =
    Ok (\<lparr>cp_name = (110, 1), cp_mode = 0x81A4, cp_inode = (8, 1, 7), cp_nlink = 1, cp_data = (112, 3)\<rparr>, 116)"
proof -
  let ?fs = "[7, 0x81A4, 0, 0, 1, 0, 3, 8, 1, 0, 0, 2, 6] :: nat list"
  have len: "length (newc_encode CRC_MAGIC ?fs [0x61] [1, 2, 3]) = 116"
    by (simp add: newc_encode_def Let_def length_newc_fields CRC_MAGIC_def pad4_def align4_eq)
  show ?thesis
    using cpio_record_roundtrip [OF refl, of "[]" True ?fs "[0x61]" "[1, 2, 3]" "[]"] len
    by (simp add: MAX_BUFFER_def CPIO_MAX_NAME_def data_sum_def NEWC_HEADER_def align4_eq)
qed

end
