(* ===== verification/Intern_Table.thy ===== *)
theory Intern_Table
  imports Fold_Frontend
begin

text \<open>
  Interning, as the optical and SquashFS frontends do it: a vector of inodes, whose indices are the
  node handles, and an ordered map from an on-disk key to the handle. \<open>intern_table\<close> is the
  contract of the frontends' \<^verbatim>\<open>intern\<close> methods; each frontend interprets it on its own method. The
  lemmas of the locale say that a handle keeps its meaning, that a key has one handle, and that
  interning it again changes nothing.
\<close>

text \<open>
  The invariant of a table: the map is sorted, its handles are the indices of the vector, each of
  exactly one key, and the inode at a handle is the one that \<open>good\<close> (what the medium says) ties to
  the key.
\<close>

definition table_ok :: "('k \<Rightarrow> 'v \<Rightarrow> bool) \<Rightarrow> 'v list \<Rightarrow> ('k :: linorder, node_id) btree \<Rightarrow> bool" where
  "table_ok good t m \<longleftrightarrow>
     bm_ok m \<and>
     (\<forall>k n. bm_get m k = Some n \<longrightarrow> n < length t \<and> good k (t ! n)) \<and>
     (\<forall>n < length t. \<exists>k. bm_get m k = Some n) \<and>
     (\<forall>k k' n. bm_get m k = Some n \<longrightarrow> bm_get m k' = Some n \<longrightarrow> k = k')"

lemma table_ok_Nil [simp]: "table_ok good [] []"
  by (simp add: table_ok_def)

lemma table_okD:
  assumes "table_ok good t m"
  shows "bm_ok m" and "bm_get m k = Some n \<Longrightarrow> n < length t \<and> good k (t ! n)"
    and "n < length t \<Longrightarrow> \<exists>k. bm_get m k = Some n"
    and "bm_get m k = Some n \<Longrightarrow> bm_get m k' = Some n \<Longrightarrow> k = k'"
  using assms unfolding table_ok_def by blast+

lemma table_ok_add:
  assumes ok: "table_ok good t m" and new: "bm_get m k = None" and g: "good k v"
  shows "table_ok good (t @ [v]) (bm_insert k (length t) m)"
proof -
  note d = table_okD [OF ok]
  have fresh: "bm_get m k' \<noteq> Some (length t)" for k' using d(2) [of k' "length t"] by auto
  have rng: "n < length (t @ [v]) \<and> good k' ((t @ [v]) ! n)"
    if "bm_get (bm_insert k (length t) m) k' = Some n" for k' n
  proof (cases "k' = k")
    case False
    then show ?thesis using that d(2) [of k' n] by (simp add: bm_get_insert nth_append)
  qed (use that g in \<open>auto simp: bm_get_insert\<close>)
  have surj: "\<exists>k'. bm_get (bm_insert k (length t) m) k' = Some n" if "n < length (t @ [v])" for n
  proof (cases "n = length t")
    case True
    then show ?thesis by (auto simp: bm_get_insert)
  next
    case False
    with that d(3) [of n] obtain k' where "bm_get m k' = Some n" by auto
    then show ?thesis using new by (intro exI [of _ k']) (auto simp: bm_get_insert)
  qed
  have inj: "k1 = k2" if "bm_get (bm_insert k (length t) m) k1 = Some n"
      "bm_get (bm_insert k (length t) m) k2 = Some n" for k1 k2 n
    using that fresh d(4) by (auto simp: bm_get_insert split: if_splits)
  from rng surj inj bm_ok_insert [OF d(1)] show ?thesis unfolding table_ok_def by blast
qed

text \<open>
  \<open>tab\<close> and \<open>idx\<close> read the vector and the map of a volume; \<open>base\<close> is what interning leaves alone
  of the volume's invariant, under which a key has one inode.
\<close>

locale intern_table =
  fixes tab :: "'s \<Rightarrow> 'v list" and idx :: "'s \<Rightarrow> ('k :: linorder, node_id) btree"
    and intern :: "'k \<Rightarrow> 'v \<Rightarrow> 's \<Rightarrow> node_id \<times> 's"
    and base :: "'s \<Rightarrow> bool" and good :: "'s \<Rightarrow> 'k \<Rightarrow> 'v \<Rightarrow> bool"
  assumes intern_hit: "good s k v \<Longrightarrow> bm_get (idx s) k = Some n \<Longrightarrow> intern k v s = (n, s)"
    and intern_miss: "good s k v \<Longrightarrow> bm_get (idx s) k = None \<Longrightarrow>
      fst (intern k v s) = length (tab s) \<and> tab (snd (intern k v s)) = tab s @ [v] \<and>
      idx (snd (intern k v s)) = bm_insert k (length (tab s)) (idx s)"
    and intern_base: "base s \<Longrightarrow> base (snd (intern k v s))"
    and intern_good: "base s \<Longrightarrow> good (snd (intern k v s)) = good s"
    and good_unique: "base s \<Longrightarrow> good s k v \<Longrightarrow> good s k v' \<Longrightarrow> v = v'"
begin

lemma intern_ok:
  assumes "base s" and "table_ok (good s) (tab s) (idx s)" and "good s k v" and "intern k v s = (n, s')"
  shows "base s'" and "good s' = good s" and "table_ok (good s') (tab s') (idx s')"
    and "n < length (tab s')" and "tab s' ! n = v" and "bm_get (idx s') k = Some n"
    and "m < length (tab s) \<Longrightarrow> m < length (tab s') \<and> tab s' ! m = tab s ! m"
proof -
  show "base s'" "good s' = good s"
    using intern_base [of s k v] intern_good [of s k v] assms(1,4) by simp_all
  have "table_ok (good s) (tab s') (idx s') \<and> n < length (tab s') \<and> tab s' ! n = v \<and>
      bm_get (idx s') k = Some n \<and> (m < length (tab s) \<longrightarrow> m < length (tab s') \<and> tab s' ! m = tab s ! m)"
  proof (cases "bm_get (idx s) k")
    case None
    with intern_miss [OF assms(3) None] assms(4)
    have "n = length (tab s)" "tab s' = tab s @ [v]" "idx s' = bm_insert k (length (tab s)) (idx s)" by simp_all
    with table_ok_add [of "good s" "tab s" "idx s" k v] None assms(2,3) show ?thesis
      by (simp add: nth_append bm_get_insert)
  next
    case (Some i)
    with intern_hit [OF assms(3) Some] assms(4) have "n = i" "s' = s" by simp_all
    moreover have "i < length (tab s)" "good s k (tab s ! i)" using table_okD(2) [OF assms(2) Some] by simp_all
    ultimately show ?thesis using good_unique [OF assms(1,3)] assms(2) Some by simp
  qed
  then show "table_ok (good s') (tab s') (idx s')" "n < length (tab s')" "tab s' ! n = v" "bm_get (idx s') k = Some n"
    and "m < length (tab s) \<Longrightarrow> m < length (tab s') \<and> tab s' ! m = tab s ! m"
    using \<open>good s' = good s\<close> by simp_all
qed

text \<open>Interning a key again gives the same handle and does not grow the table.\<close>

lemma intern_again:
  assumes "base s" and "good s k v" and "intern k v s = (n, s')"
  shows "intern k v s' = (n, s')"
proof (cases "bm_get (idx s) k")
  case None
  with intern_miss [OF assms(2) None] assms(3)
  have "n = length (tab s)" "idx s' = bm_insert k (length (tab s)) (idx s)" by simp_all
  then have "bm_get (idx s') k = Some n" by (simp add: bm_get_insert)
  moreover have "good s' k v" using intern_good [OF assms(1), of k v] assms(2,3) by simp
  ultimately show ?thesis using intern_hit by blast
next
  case (Some i)
  then show ?thesis using intern_hit [OF assms(2) Some] assms(3) by auto
qed

end

text \<open>
  The loop at the end of a \<^verbatim>\<open>read_dir\<close> whose listing holds keys: each child's inode is read and
  interned in turn. A child that cannot be read ends the loop and keeps what was interned.
\<close>

fun intern_children ::
  "('k \<Rightarrow> 'v \<Rightarrow> 's \<Rightarrow> node_id \<times> 's) \<Rightarrow> ('s \<Rightarrow> 'k \<Rightarrow> 'v result) \<Rightarrow> ('v \<Rightarrow> file_kind) \<Rightarrow> (bytes \<times> 'k) list \<Rightarrow> ('s, dir_entry list) op"
where
  "intern_children intern fetch kind [] s = (Ok [], s)"
| "intern_children intern fetch kind ((name, k) # es) s =
     (case fetch s k of
        Ok v \<Rightarrow>
          (case intern k v s of (n, s1) \<Rightarrow>
             (case intern_children intern fetch kind es s1 of
                (Ok out, s2) \<Rightarrow> (Ok (\<lparr>de_name = name, de_node = n, de_kind = kind v\<rparr> # out), s2)
              | (Err e, s2) \<Rightarrow> (Err e, s2)
              | (Panic p, s2) \<Rightarrow> (Panic p, s2)))
      | Err e \<Rightarrow> (Err e, s)
      | Panic p \<Rightarrow> (Panic p, s))"

text \<open>The same loop without the table: the inodes themselves.\<close>

fun fetch_children :: "('k \<Rightarrow> 'v result) \<Rightarrow> (bytes \<times> 'k) list \<Rightarrow> (bytes \<times> 'v) list result" where
  "fetch_children fetch [] = Ok []"
| "fetch_children fetch ((name, k) # es) =
     and_then (fetch k) (\<lambda>v. and_then (fetch_children fetch es) (\<lambda>out. Ok ((name, v) # out)))"

definition find_named :: "bytes \<Rightarrow> (bytes \<times> 'v) list \<Rightarrow> 'v option" where
  "find_named name es = map_option snd (find (\<lambda>e. fst e = name) es)"

lemma find_named_simps [simp]:
  "find_named name [] = None"
  "find_named name (e # es) = (if fst e = name then Some (snd e) else find_named name es)"
  by (simp_all add: find_named_def)

lemma find_entry_simps [simp]:
  "find_entry name [] = None"
  "find_entry name (e # es) = (if de_name e = name then Some (de_node e) else find_entry name es)"
  by (simp_all add: find_entry_def)

lemma no_panic_fetch_children:
  "(\<And>k. no_panic (fetch k)) \<Longrightarrow> no_panic (fetch_children fetch es)"
proof (induction es)
  case (Cons e es)
  then show ?case by (cases e) (auto simp: no_panic_simps)
qed simp

lemma only_overflow_fetch_children:
  "(\<And>k. only_overflow (fetch k)) \<Longrightarrow> only_overflow (fetch_children fetch es)"
proof (induction es)
  case (Cons e es)
  then show ?case by (cases e) (simp add: only_overflow_and_then)
qed simp

lemma fetch_children_map:
  "(\<And>x. x \<in> set xs \<Longrightarrow> fetch (k x) = Ok (v x)) \<Longrightarrow>
     fetch_children fetch (map (\<lambda>x. (nm x, k x)) xs) = Ok (map (\<lambda>x. (nm x, v x)) xs)"
  by (induction xs) simp_all

context intern_table
begin

text \<open>The relation between a volume and one it became: old handles keep their inodes.\<close>

lemma intern_children_ok:
  assumes "base s" and "table_ok (good s) (tab s) (idx s)"
    and fetch: "\<And>s k v. base s \<Longrightarrow> fetch s k = Ok v \<Longrightarrow> good s k v"
    and same: "\<And>s k v. fetch (snd (intern k v s)) = fetch s"
    and "intern_children intern fetch kind es s = (r, s')"
  shows "base s' \<and> good s' = good s \<and> fetch s' = fetch s \<and> table_ok (good s') (tab s') (idx s') \<and>
    (\<forall>m < length (tab s). m < length (tab s') \<and> tab s' ! m = tab s ! m) \<and>
    (case fetch_children (fetch s) es of
       Ok vs \<Rightarrow> \<exists>out. r = Ok out \<and> length out = length vs \<and>
         (\<forall>i < length vs. de_name (out ! i) = fst (vs ! i) \<and> de_kind (out ! i) = kind (snd (vs ! i)) \<and>
            de_node (out ! i) < length (tab s') \<and> tab s' ! de_node (out ! i) = snd (vs ! i))
     | Err e \<Rightarrow> r = Err e
     | Panic p \<Rightarrow> r = Panic p)"
  using assms(1,2,5)
proof (induction es arbitrary: s r s')
  case Nil
  then show ?case by auto
next
  case (Cons e es)
  obtain name k where e: "e = (name, k)" by fastforce
  show ?case
  proof (cases "fetch s k")
    case (Ok v)
    obtain n s1 where i: "intern k v s = (n, s1)" by fastforce
    have g: "good s k v" using fetch Cons.prems(1) Ok by blast
    note k1 = intern_ok [OF Cons.prems(1,2) g i]
    have f1: "fetch s1 = fetch s" using same [of k v s] i by simp
    obtain r2 s2 where r2: "intern_children intern fetch kind es s1 = (r2, s2)" by fastforce
    note IH = Cons.IH [OF k1(1,3) r2]
    have s2: "s' = s2" using Cons.prems(3) e Ok i r2 by (auto split: result.splits)
    have n2: "n < length (tab s2)" "tab s2 ! n = v" using IH k1(4,5) by auto
    show ?thesis
    proof (cases "fetch_children (fetch s) es")
      case (Ok vs)
      with IH f1 obtain out where out: "r2 = Ok out" "length out = length vs"
        "\<forall>i < length vs. de_name (out ! i) = fst (vs ! i) \<and> de_kind (out ! i) = kind (snd (vs ! i)) \<and>
            de_node (out ! i) < length (tab s2) \<and> tab s2 ! de_node (out ! i) = snd (vs ! i)" by auto
      let ?out = "\<lparr>de_name = name, de_node = n, de_kind = kind v\<rparr> # out"
      have "r = Ok ?out" using Cons.prems(3) e \<open>fetch s k = Ok v\<close> i r2 out(1) by auto
      moreover have "\<forall>i < length ((name, v) # vs). de_name (?out ! i) = fst (((name, v) # vs) ! i) \<and>
          de_kind (?out ! i) = kind (snd (((name, v) # vs) ! i)) \<and>
          de_node (?out ! i) < length (tab s2) \<and> tab s2 ! de_node (?out ! i) = snd (((name, v) # vs) ! i)"
        using out(3) n2 by (auto simp: nth_Cons split: nat.splits)
      moreover have "fetch_children (fetch s) (e # es) = Ok ((name, v) # vs)"
        using e \<open>fetch s k = Ok v\<close> Ok by simp
      ultimately show ?thesis using IH s2 k1(2,7) f1 out(2) by auto
    next
      case (Err x)
      then show ?thesis using IH s2 k1(2,7) f1 Cons.prems(3) e \<open>fetch s k = Ok v\<close> i r2 by auto
    next
      case (Panic x)
      then show ?thesis using IH s2 k1(2,7) f1 Cons.prems(3) e \<open>fetch s k = Ok v\<close> i r2 by auto
    qed
  qed (use Cons.prems e in auto)
qed

end

text \<open>Searching the entries by name finds the handle of the inode that the same search finds.\<close>

lemma find_entry_named:
  assumes "length out = length vs"
    and "\<forall>i < length vs. de_name (out ! i) = fst (vs ! i) \<and> de_node (out ! i) < length t \<and> t ! de_node (out ! i) = snd (vs ! i)"
  shows "(case find_named name vs of
      Some v \<Rightarrow> \<exists>n. find_entry name out = Some n \<and> n < length t \<and> t ! n = v
    | None \<Rightarrow> find_entry name out = None)"
  using assms
proof (induction out vs rule: list_induct2)
  case (Cons o1 out v vs)
  from Cons.prems have "de_name o1 = fst v \<and> de_node o1 < length t \<and> t ! de_node o1 = snd v" by force
  moreover have "\<forall>i < length vs. de_name (out ! i) = fst (vs ! i) \<and> de_node (out ! i) < length t \<and> t ! de_node (out ! i) = snd (vs ! i)"
    using Cons.prems by force
  ultimately show ?case using Cons.IH by (auto split: option.splits)
qed simp


section \<open>Frontends whose listings hold keys\<close>

text \<open>
  The inodes below a directory: its listing, and what the medium says of each key in turn. This is
  what a \<^verbatim>\<open>read_dir\<close> means without the table.
\<close>

definition children_of ::
  "('s \<Rightarrow> 'k \<Rightarrow> 'v result) \<Rightarrow> ('s \<Rightarrow> 'v \<Rightarrow> (bytes \<times> 'k) list result) \<Rightarrow> 's \<Rightarrow> 'v \<Rightarrow> (bytes \<times> 'v) list result"
where
  "children_of fetch listing s v = and_then (listing s v) (fetch_children (fetch s))"

text \<open>
  The contract of a frontend whose \<^verbatim>\<open>read_dir\<close> interns the children of a listing and whose
  \<^verbatim>\<open>lookup\<close> searches it: listing and fetching do not depend on what has been interned.
\<close>

locale interned_tree = intern_table tab idx intern base good
  for tab :: "'s \<Rightarrow> 'v list" and idx :: "'s \<Rightarrow> ('k :: linorder, node_id) btree"
    and intern :: "'k \<Rightarrow> 'v \<Rightarrow> 's \<Rightarrow> node_id \<times> 's" and base :: "'s \<Rightarrow> bool" and good :: "'s \<Rightarrow> 'k \<Rightarrow> 'v \<Rightarrow> bool" +
  fixes fetch :: "'s \<Rightarrow> 'k \<Rightarrow> 'v result" and kind :: "'v \<Rightarrow> file_kind"
    and listing :: "'s \<Rightarrow> 'v \<Rightarrow> (bytes \<times> 'k) list result"
    and read_dir :: "node_id \<Rightarrow> ('s, dir_entry list) op" and lookup :: "node_id \<Rightarrow> bytes \<Rightarrow> ('s, node_id option) op"
  assumes fetch_good: "base s \<Longrightarrow> fetch s k = Ok v \<Longrightarrow> good s k v"
    and fetch_same: "fetch (snd (intern k v s)) = fetch s"
    and listing_same: "listing (snd (intern k v s)) = listing s"
    and read_dir_eq: "read_dir d s =
      (case and_then (ok_or (get_at (tab s) d) NotFound) (listing s) of
         Ok es \<Rightarrow> intern_children intern fetch kind es s
       | Err e \<Rightarrow> (Err e, s)
       | Panic p \<Rightarrow> (Panic p, s))"
    and lookup_eq: "lookup d nm = op_bind (read_dir d) (\<lambda>es. op_return (Ok (find_entry nm es)))"
begin

lemma intern_children_same:
  assumes "\<And>k v s. proj (snd (intern k v s)) = proj s"
  shows "intern_children intern fetch kind es s = (r, s') \<Longrightarrow> proj s' = proj s"
proof (induction es arbitrary: s r s')
  case (Cons e es)
  obtain name k where e: "e = (name, k)" by fastforce
  show ?case
  proof (cases "fetch s k")
    case (Ok v)
    obtain n s1 where i: "intern k v s = (n, s1)" by fastforce
    obtain r2 s2 where c: "intern_children intern fetch kind es s1 = (r2, s2)" by fastforce
    then have "s' = s2" using Cons.prems e Ok i by (auto split: result.splits)
    then show ?thesis using Cons.IH [OF c] assms [of k v s] i by simp
  qed (use Cons.prems e in auto)
qed simp

lemma read_dir_cases:
  assumes "base s" and "table_ok (good s) (tab s) (idx s)" and "read_dir d s = (r, s')"
  shows "base s'" and "table_ok (good s') (tab s') (idx s')" and "fetch s' = fetch s" and "listing s' = listing s"
    and "m < length (tab s) \<Longrightarrow> m < length (tab s') \<and> tab s' ! m = tab s ! m"
    and "case and_then (ok_or (get_at (tab s) d) NotFound) (children_of fetch listing s) of
       Ok vs \<Rightarrow> \<exists>out. r = Ok out \<and> length out = length vs \<and>
         (\<forall>i < length vs. de_name (out ! i) = fst (vs ! i) \<and> de_kind (out ! i) = kind (snd (vs ! i)) \<and>
            de_node (out ! i) < length (tab s') \<and> tab s' ! de_node (out ! i) = snd (vs ! i))
     | Err e \<Rightarrow> r = Err e
     | Panic p \<Rightarrow> r = Panic p"
proof -
  let ?l = "and_then (ok_or (get_at (tab s) d) NotFound) (listing s)"
  have eq: "and_then (ok_or (get_at (tab s) d) NotFound) (children_of fetch listing s) =
      and_then ?l (fetch_children (fetch s))"
    by (cases "ok_or (get_at (tab s) d) NotFound") (simp_all add: children_of_def)
  have "base s' \<and> table_ok (good s') (tab s') (idx s') \<and> fetch s' = fetch s \<and> listing s' = listing s \<and>
    (\<forall>m < length (tab s). m < length (tab s') \<and> tab s' ! m = tab s ! m) \<and>
    (case and_then ?l (fetch_children (fetch s)) of
       Ok vs \<Rightarrow> \<exists>out. r = Ok out \<and> length out = length vs \<and>
         (\<forall>i < length vs. de_name (out ! i) = fst (vs ! i) \<and> de_kind (out ! i) = kind (snd (vs ! i)) \<and>
            de_node (out ! i) < length (tab s') \<and> tab s' ! de_node (out ! i) = snd (vs ! i))
     | Err e \<Rightarrow> r = Err e
     | Panic p \<Rightarrow> r = Panic p)"
  proof (cases ?l)
    case (Ok es)
    then have c: "intern_children intern fetch kind es s = (r, s')" using assms(3) read_dir_eq by simp
    note i = intern_children_ok [OF assms(1,2) fetch_good fetch_same c]
    then have g: "good s' = good s" by simp
    show ?thesis
      using i intern_children_same [where proj = listing, OF listing_same c] Ok unfolding g by simp
  qed (use assms read_dir_eq in auto)
  then show "base s'" "table_ok (good s') (tab s') (idx s')" "fetch s' = fetch s" "listing s' = listing s"
    and "m < length (tab s) \<Longrightarrow> m < length (tab s') \<and> tab s' ! m = tab s ! m"
    and "case and_then (ok_or (get_at (tab s) d) NotFound) (children_of fetch listing s) of
       Ok vs \<Rightarrow> \<exists>out. r = Ok out \<and> length out = length vs \<and>
         (\<forall>i < length vs. de_name (out ! i) = fst (vs ! i) \<and> de_kind (out ! i) = kind (snd (vs ! i)) \<and>
            de_node (out ! i) < length (tab s') \<and> tab s' ! de_node (out ! i) = snd (vs ! i))
     | Err e \<Rightarrow> r = Err e
     | Panic p \<Rightarrow> r = Panic p"
    unfolding eq by simp_all
qed

text \<open>A listed handle names an inode of the listed kind.\<close>

lemma read_dir_kinds:
  assumes "base s" and "table_ok (good s) (tab s) (idx s)" and "read_dir d s = (Ok es, s')" and "e \<in> set es"
  shows "de_node e < length (tab s') \<and> kind (tab s' ! de_node e) = de_kind e"
proof -
  let ?c = "and_then (ok_or (get_at (tab s) d) NotFound) (children_of fetch listing s)"
  note k = read_dir_cases(6) [OF assms(1-3)]
  show ?thesis
  proof (cases ?c)
    case (Ok vs)
    from assms(4) obtain i where "i < length es" "e = es ! i" by (auto simp: in_set_conv_nth)
    then show ?thesis using k Ok by auto
  qed (use k in auto)
qed

text \<open>A listing whose children can all be read gives exactly them, in order, with handles on them.\<close>

lemma read_dir_lists:
  assumes "base s" and "table_ok (good s) (tab s) (idx s)" and "get_at (tab s) d = Some v" and "listing s v = Ok es"
    and "\<forall>e \<in> set es. fetch s (snd e) = Ok (child (snd e))"
  shows "\<exists>out s'. read_dir d s = (Ok out, s') \<and>
    map (\<lambda>e. (de_name e, de_kind e)) out = map (\<lambda>e. (fst e, kind (child (snd e)))) es \<and>
    (\<forall>i < length out. get_at (tab s') (de_node (out ! i)) = Some (child (snd (es ! i))))"
proof -
  have "fetch_children (fetch s) (map (\<lambda>e. (fst e, snd e)) es) = Ok (map (\<lambda>e. (fst e, child (snd e))) es)"
    using assms(5) by (intro fetch_children_map) simp
  then have c: "and_then (ok_or (get_at (tab s) d) NotFound) (children_of fetch listing s) = Ok (map (\<lambda>e. (fst e, child (snd e))) es)"
    using assms(3,4) by (simp add: children_of_def)
  obtain r s' where r: "read_dir d s = (r, s')" by fastforce
  from read_dir_cases(6) [OF assms(1,2) r] c obtain out where out: "r = Ok out" "length out = length es"
    "\<forall>i < length es. de_name (out ! i) = fst (es ! i) \<and> de_kind (out ! i) = kind (child (snd (es ! i))) \<and>
       de_node (out ! i) < length (tab s') \<and> tab s' ! de_node (out ! i) = child (snd (es ! i))"
    by auto
  have "map (\<lambda>e. (de_name e, de_kind e)) out = map (\<lambda>e. (fst e, kind (child (snd e)))) es"
    using out(2,3) by (intro nth_equalityI) simp_all
  moreover have "\<forall>i < length out. get_at (tab s') (de_node (out ! i)) = Some (child (snd (es ! i)))"
    using out(2,3) by (simp add: get_at_def)
  ultimately show ?thesis using r out(1) by blast
qed

lemma read_dir_only_overflow:
  assumes "base s" and "table_ok (good s) (tab s) (idx s)"
    and "\<And>v. v \<in> set (tab s) \<Longrightarrow> only_overflow (children_of fetch listing s v)"
  shows "only_overflow (fst (read_dir d s))"
proof -
  obtain r s' where r: "read_dir d s = (r, s')" by fastforce
  let ?c = "and_then (ok_or (get_at (tab s) d) NotFound) (children_of fetch listing s)"
  have "only_overflow ?c" using assms(3) by (auto simp: only_overflow_and_then ok_or_eq_Ok get_at_eq_Some)
  then show ?thesis using read_dir_cases(6) [OF assms(1,2) r] r by (cases ?c) (auto simp: only_overflow_def)
qed

lemma lookup_only_overflow: "only_overflow (fst (read_dir d s)) \<Longrightarrow> only_overflow (fst (lookup d nm s))"
proof -
  have "fst (lookup d nm s) = and_then (fst (read_dir d s)) (\<lambda>es. Ok (find_entry nm es))"
    by (cases "read_dir d s"; cases "fst (read_dir d s)") (simp_all add: lookup_eq op_bind_def op_return_def)
  then show "only_overflow (fst (read_dir d s)) \<Longrightarrow> ?thesis" by (simp add: only_overflow_and_then)
qed

text \<open>A lookup keeps what a listing keeps, and finds the handle of the child of that name.\<close>

lemma lookup_cases:
  assumes "base s" and "table_ok (good s) (tab s) (idx s)" and "lookup d nm s = (r, s')"
  shows "\<exists>rd. read_dir d s = (rd, s')"
    and "case and_then (ok_or (get_at (tab s) d) NotFound) (children_of fetch listing s) of
       Ok vs \<Rightarrow> (case find_named nm vs of
           Some v \<Rightarrow> \<exists>n. r = Ok (Some n) \<and> n < length (tab s') \<and> tab s' ! n = v
         | None \<Rightarrow> r = Ok None)
     | Err e \<Rightarrow> r = Err e
     | Panic p \<Rightarrow> r = Panic p"
proof -
  obtain rd s1 where rd: "read_dir d s = (rd, s1)" by fastforce
  have s1: "s1 = s'" and r: "r = and_then rd (\<lambda>es. Ok (find_entry nm es))"
    using assms(3) rd by (cases rd; simp add: lookup_eq op_bind_def op_return_def)+
  show "\<exists>rd. read_dir d s = (rd, s')" using rd s1 by simp
  let ?c = "and_then (ok_or (get_at (tab s) d) NotFound) (children_of fetch listing s)"
  note k = read_dir_cases(6) [OF assms(1,2) rd [unfolded s1]]
  show "case ?c of
       Ok vs \<Rightarrow> (case find_named nm vs of
           Some v \<Rightarrow> \<exists>n. r = Ok (Some n) \<and> n < length (tab s') \<and> tab s' ! n = v
         | None \<Rightarrow> r = Ok None)
     | Err e \<Rightarrow> r = Err e
     | Panic p \<Rightarrow> r = Panic p"
  proof (cases ?c)
    case (Ok vs)
    with k obtain out where out: "rd = Ok out" "length out = length vs"
      "\<forall>i < length vs. de_name (out ! i) = fst (vs ! i) \<and> de_node (out ! i) < length (tab s') \<and>
         tab s' ! de_node (out ! i) = snd (vs ! i)" by auto
    from find_entry_named [OF out(2,3), of nm] Ok r out(1) show ?thesis by (auto split: option.splits)
  qed (use k r in auto)
qed

end

end
