(* ===== verification/Rock_Ridge.thy ===== *)
theory Rock_Ridge
  imports Rust_Text
begin

text \<open>
  The Rock Ridge parser of the ISO frontend (\<^verbatim>\<open>crates/lamfold-iso/src/rock_ridge.rs\<close>): the tagged
  entries of a System Use area, collected by a parser that is fed one area at a time. The loops
  walk an area by index; their guards keep every index in range, so the model reads with \<open>(!)\<close>.
  The lemmas show that feeding is a fold over the entries that an area holds, which gives the round
  trips for names and link targets spread over several entries.
\<close>

record zisofs =
  zf_uncompressed_size :: nat
  zf_block_size_log2 :: nat

record rr_info =
  rr_name :: "bytes option"
  rr_mode :: "nat option"
  rr_symlink_target :: "bytes option"
  rr_zisofs :: "zisofs option"

function detect_sp_loop :: "bytes \<Rightarrow> nat \<Rightarrow> nat option" where
  "detect_sp_loop su p =
     (if p + 4 \<le> length su then
        let len = unat (su ! (p + 2)) in
        if len < 4 \<or> p + len > length su then None
        else if slice su p (p + 2) = [0x53, 0x50] \<and> len \<ge> 7 \<and> su ! (p + 4) = 0xBE \<and> su ! (p + 5) = 0xEF
        then Some (unat (su ! (p + 6)))
        else detect_sp_loop su (p + len)
      else None)"
  by pat_completeness auto
termination
  by (relation "measure (\<lambda>(su, p). length su - p)") auto

definition detect_sp :: "bytes \<Rightarrow> nat option" where
  "detect_sp su = detect_sp_loop su 0"

record continuation =
  ce_block :: nat
  ce_offset :: nat
  ce_len :: nat

record rr_parser =
  rp_info :: rr_info
  rp_name :: bytes
  rp_have_nm :: bool
  rp_sl :: bytes
  rp_have_sl :: bool
  rp_sl_continues :: bool

definition rr_parser_default :: rr_parser where
  "rr_parser_default =
     \<lparr>rp_info = \<lparr>rr_name = None, rr_mode = None, rr_symlink_target = None, rr_zisofs = None\<rparr>,
      rp_name = [], rp_have_nm = False, rp_sl = [], rp_have_sl = False, rp_sl_continues = False\<rparr>"

text \<open>What one component adds to the target: \<open>cont\<close> is the CONTINUE flag of the one before.\<close>

definition sl_component :: "byte \<Rightarrow> bytes \<Rightarrow> bytes \<Rightarrow> bool \<Rightarrow> bytes" where
  "sl_component flags content out cont =
     (if flags AND 0x08 \<noteq> 0 then (if out = [] then [0x2F] else out)
      else
        let out1 = (if \<not> cont \<and> out \<noteq> [] \<and> last out \<noteq> 0x2F then out @ [0x2F] else out) in
        if flags AND 0x02 \<noteq> 0 then out1 @ [0x2E]
        else if flags AND 0x04 \<noteq> 0 then out1 @ [0x2E, 0x2E]
        else out1 @ content)"

fun parse_sl_components :: "bytes \<Rightarrow> bytes \<Rightarrow> bool \<Rightarrow> bytes \<times> bool" where
  "parse_sl_components (flags # clen # rest) out cont =
     (if unat clen > length rest then (out, cont)
      else parse_sl_components (drop (unat clen) rest)
             (sl_component flags (take (unat clen) rest) out cont) (flags AND 0x01 \<noteq> 0))"
| "parse_sl_components other out cont = (out, cont)"

text \<open>The arms of the match on an entry's signature, \<^verbatim>\<open>ST\<close> apart.\<close>

definition feed_entry :: "bytes \<Rightarrow> bytes \<Rightarrow> rr_parser \<Rightarrow> continuation option \<Rightarrow> rr_parser \<times> continuation option" where
  "feed_entry sig data rp nxt =
     (if sig = [0x4E, 0x4D] then
        (if data \<noteq> [] \<and> data ! 0 AND 0x06 = 0
         then (rp\<lparr>rp_name := rp_name rp @ drop 1 data, rp_have_nm := True\<rparr>, nxt)
         else (rp, nxt))
      else if sig = [0x50, 0x58] then
        (if length data \<ge> 4
         then (rp\<lparr>rp_info := (rp_info rp)\<lparr>rr_mode := Some (from_le (slice data 0 4))\<rparr>\<rparr>, nxt)
         else (rp, nxt))
      else if sig = [0x53, 0x4C] then
        (let rp1 = rp\<lparr>rp_have_sl := True\<rparr> in
         if data \<noteq> [] then
           (case parse_sl_components (drop 1 data) (rp_sl rp1) (rp_sl_continues rp1) of
              (sl, cont) \<Rightarrow> (rp1\<lparr>rp_sl := sl, rp_sl_continues := cont\<rparr>, nxt))
         else (rp1, nxt))
      else if sig = [0x5A, 0x46] then
        (if length data \<ge> 8 \<and> slice data 0 2 = [0x70, 0x7A]
         then (rp\<lparr>rp_info := (rp_info rp)\<lparr>rr_zisofs :=
                 Some \<lparr>zf_uncompressed_size = from_le (slice data 4 8), zf_block_size_log2 = unat (data ! 3)\<rparr>\<rparr>\<rparr>, nxt)
         else (rp, nxt))
      else if sig = [0x43, 0x45] then
        (if length data \<ge> 24
         then (rp, Some \<lparr>ce_block = from_le (slice data 0 4), ce_offset = from_le (slice data 8 12),
                         ce_len = from_le (slice data 16 20)\<rparr>)
         else (rp, nxt))
      else (rp, nxt))"

function feed_loop :: "bytes \<Rightarrow> nat \<Rightarrow> rr_parser \<Rightarrow> continuation option \<Rightarrow> rr_parser \<times> continuation option" where
  "feed_loop su p rp nxt =
     (if p + 4 \<le> length su then
        let len = unat (su ! (p + 2)) in
        if len < 4 \<or> p + len > length su then (rp, nxt)
        else
          let sig = slice su p (p + 2); data = slice su (p + 4) (p + len) in
          if sig = [0x53, 0x54] then (rp, nxt)
          else
            let (rp', nxt') = feed_entry sig data rp nxt in
            feed_loop su (p + len) rp' nxt'
      else (rp, nxt))"
  by pat_completeness auto
termination
  by (relation "measure (\<lambda>(su, p, rp, nxt). length su - p)") auto

definition rr_feed :: "rr_parser \<Rightarrow> bytes \<Rightarrow> rr_parser \<times> continuation option" where
  "rr_feed rp su = feed_loop su 0 rp None"

definition rr_finish :: "rr_parser \<Rightarrow> rr_info" where
  "rr_finish rp =
     (let info = (if rp_have_nm rp then
                    (case from_utf8 (rp_name rp) of
                       Some s \<Rightarrow> if s \<noteq> [] then (rp_info rp)\<lparr>rr_name := Some s\<rparr> else rp_info rp
                     | None \<Rightarrow> rp_info rp)
                  else rp_info rp) in
      if rp_have_sl rp then info\<lparr>rr_symlink_target := Some (rp_sl rp)\<rparr> else info)"

declare detect_sp_loop.simps [simp del] feed_loop.simps [simp del]

lemma rr_parser_default_simps [simp]:
  "rp_name rr_parser_default = []" "\<not> rp_have_nm rr_parser_default"
  "rp_sl rr_parser_default = []" "\<not> rp_have_sl rr_parser_default" "\<not> rp_sl_continues rr_parser_default"
  by (simp_all add: rr_parser_default_def)


section \<open>An area as a list of entries\<close>

type_synonym susp_entry = "bytes \<times> bytes"

definition susp_ok :: "susp_entry \<Rightarrow> bool" where
  "susp_ok e \<longleftrightarrow> length (fst e) = 2 \<and> length (snd e) \<le> 251"

text \<open>An entry as it is recorded: signature, length, version 1, data.\<close>

definition susp_encode :: "susp_entry \<Rightarrow> bytes" where
  "susp_encode e = fst e @ [byte_of (length (snd e) + 4), 1] @ snd e"

definition susp_area :: "susp_entry list \<Rightarrow> bytes" where
  "susp_area es = concat (map susp_encode es)"

text \<open>What may follow the last entry: too few bytes for another, or a zero length.\<close>

definition susp_end :: "bytes \<Rightarrow> bool" where
  "susp_end bs \<longleftrightarrow> length bs < 4 \<or> unat (bs ! 2) < 4"

fun feed_entries :: "susp_entry list \<Rightarrow> rr_parser \<times> continuation option \<Rightarrow> rr_parser \<times> continuation option" where
  "feed_entries [] st = st"
| "feed_entries (e # es) st =
     (if fst e = [0x53, 0x54] then st else feed_entries es (feed_entry (fst e) (snd e) (fst st) (snd st)))"

lemma feed_entries_append:
  "\<forall>e \<in> set es. fst e \<noteq> [0x53, 0x54] \<Longrightarrow> feed_entries (es @ fs) st = feed_entries fs (feed_entries es st)"
  by (induction es arbitrary: st) auto

lemma length_susp_encode: "susp_ok e \<Longrightarrow> length (susp_encode e) = length (snd e) + 4"
  by (simp add: susp_encode_def susp_ok_def)

lemma susp_encode_parts:
  assumes "susp_ok e"
  shows "unat ((pre @ susp_encode e @ post) ! (length pre + 2)) = length (snd e) + 4"
    and "slice (pre @ susp_encode e @ post) (length pre) (length pre + 2) = fst e"
    and "slice (pre @ susp_encode e @ post) (length pre + 4) (length pre + (length (snd e) + 4)) = snd e"
  using assms by (simp_all add: susp_ok_def susp_encode_def slice_def nth_append)

lemma feed_loop_end:
  assumes "susp_end post"
  shows "feed_loop (pre @ post) (length pre) rp nxt = (rp, nxt)"
  using assms by (subst feed_loop.simps) (auto simp: susp_end_def nth_append Let_def)

text \<open>A terminator ends an area as well, whatever stands behind it.\<close>

definition area_end :: "bytes \<Rightarrow> bool" where
  "area_end bs \<longleftrightarrow> susp_end bs \<or> (\<exists>junk. bs = susp_encode ([0x53, 0x54], []) @ junk)"

lemma feed_loop_area_end:
  assumes "area_end post"
  shows "feed_loop (pre @ post) (length pre) rp nxt = (rp, nxt)"
proof (cases "susp_end post")
  case False
  with assms obtain junk where j: "post = susp_encode ([0x53, 0x54], []) @ junk" by (auto simp: area_end_def)
  have "susp_ok ([0x53, 0x54], [])" by (simp add: susp_ok_def)
  from susp_encode_parts [OF this, of pre junk] length_susp_encode [OF this] show ?thesis
    unfolding j by (subst feed_loop.simps) (simp add: Let_def)
qed (rule feed_loop_end)

lemma feed_loop_encode:
  assumes "\<forall>e \<in> set es. susp_ok e" and "area_end post"
  shows "feed_loop (pre @ susp_area es @ post) (length pre) rp nxt = feed_entries es (rp, nxt)"
  using assms
proof (induction es arbitrary: pre rp nxt)
  case Nil
  then show ?case by (simp add: susp_area_def feed_loop_area_end)
next
  case (Cons e es)
  let ?su = "pre @ susp_area (e # es) @ post"
  have su: "?su = pre @ susp_encode e @ (susp_area es @ post)" by (simp add: susp_area_def)
  have ok: "susp_ok e" using Cons.prems by simp
  note parts = susp_encode_parts [OF ok, of pre "susp_area es @ post", folded su]
  have len: "length (susp_encode e) = length (snd e) + 4" using ok by (rule length_susp_encode)
  have "feed_loop ?su (length pre + (length (snd e) + 4)) rp' nxt' = feed_entries es (rp', nxt')" for rp' nxt'
    using Cons.IH [of "pre @ susp_encode e" rp' nxt'] Cons.prems len su by simp
  moreover have "length pre + 4 \<le> length ?su" "length pre + (length (snd e) + 4) \<le> length ?su"
    using su len by simp_all
  ultimately show ?case
    using parts by (subst feed_loop.simps) (simp add: Let_def case_prod_beta)
qed

lemma rr_feed_encode:
  "\<forall>e \<in> set es. susp_ok e \<Longrightarrow> area_end post \<Longrightarrow> rr_feed rp (susp_area es @ post) = feed_entries es (rp, None)"
  using feed_loop_encode [of es post "[]"] by (simp add: rr_feed_def)


section \<open>Names and link targets over several entries\<close>

text \<open>The parser after an entry, which does not depend on the continuation found so far.\<close>

definition rp_step :: "susp_entry \<Rightarrow> rr_parser \<Rightarrow> rr_parser" where
  "rp_step e rp = fst (feed_entry (fst e) (snd e) rp None)"

lemma fst_feed_entry: "fst (feed_entry sig data rp nxt) = rp_step (sig, data) rp"
  by (simp add: rp_step_def feed_entry_def Let_def split: prod.splits)

lemma fst_feed_entries:
  "\<forall>e \<in> set es. fst e \<noteq> [0x53, 0x54] \<Longrightarrow> fst (feed_entries es st) = fold rp_step es (fst st)"
  by (induction es arbitrary: st) (auto simp: fst_feed_entry)

text \<open>The areas of one record, in the order in which they are fed, each with what follows its entries.\<close>

definition feed_areas :: "(susp_entry list \<times> bytes) list \<Rightarrow> rr_parser \<Rightarrow> rr_parser" where
  "feed_areas areas rp = fold (\<lambda>(es, pad) rp. fst (rr_feed rp (susp_area es @ pad))) areas rp"

definition area_ok :: "susp_entry list \<times> bytes \<Rightarrow> bool" where
  "area_ok a \<longleftrightarrow> (\<forall>e \<in> set (fst a). susp_ok e \<and> fst e \<noteq> [0x53, 0x54]) \<and> susp_end (snd a)"

lemma feed_areas_fold:
  "\<forall>a \<in> set areas. area_ok a \<Longrightarrow> feed_areas areas rp = fold rp_step (concat (map fst areas)) rp"
proof (induction areas arbitrary: rp)
  case (Cons a areas)
  obtain es pad where a: "a = (es, pad)" by fastforce
  then have "fst (rr_feed rp (susp_area es @ pad)) = fold rp_step es rp"
    using Cons.prems by (simp add: area_ok_def area_end_def rr_feed_encode fst_feed_entries)
  then show ?case using Cons a by (simp add: feed_areas_def)
qed (simp add: feed_areas_def)

text \<open>The name: the \<^verbatim>\<open>NM\<close> entries that are no alias of the current or parent directory.\<close>

definition is_nm :: "susp_entry \<Rightarrow> bool" where
  "is_nm e \<longleftrightarrow> fst e = [0x4E, 0x4D] \<and> snd e \<noteq> [] \<and> snd e ! 0 AND 0x06 = 0"

definition nm_text :: "susp_entry list \<Rightarrow> bytes" where
  "nm_text es = concat (map (\<lambda>e. drop 1 (snd e)) (filter is_nm es))"

lemma rp_step_name:
  "rp_name (rp_step e rp) = rp_name rp @ (if is_nm e then drop 1 (snd e) else [])"
  "rp_have_nm (rp_step e rp) = (rp_have_nm rp \<or> is_nm e)"
  by (auto simp: rp_step_def feed_entry_def is_nm_def Let_def split: prod.splits)

lemma fold_rp_step_name:
  "rp_name (fold rp_step es rp) = rp_name rp @ nm_text es"
  "rp_have_nm (fold rp_step es rp) = (rp_have_nm rp \<or> (\<exists>e \<in> set es. is_nm e))"
  by (induction es arbitrary: rp) (auto simp: rp_step_name nm_text_def)

text \<open>The target: a fold over the components that the \<^verbatim>\<open>SL\<close> entries hold.\<close>

fun sl_fold :: "(byte \<times> bytes) list \<Rightarrow> bytes \<times> bool \<Rightarrow> bytes \<times> bool" where
  "sl_fold [] st = st"
| "sl_fold ((flags, content) # cs) st =
     sl_fold cs (sl_component flags content (fst st) (snd st), flags AND 0x01 \<noteq> 0)"

definition sl_encode :: "byte \<times> bytes \<Rightarrow> bytes" where
  "sl_encode c = fst c # byte_of (length (snd c)) # snd c"

definition sl_entry :: "(byte \<times> bytes) list \<Rightarrow> susp_entry" where
  "sl_entry cs = ([0x53, 0x4C], 0 # concat (map sl_encode cs))"

lemma sl_fold_append: "sl_fold (cs @ ds) st = sl_fold ds (sl_fold cs st)"
  by (induction cs st rule: sl_fold.induct) auto

lemma parse_sl_encode:
  "\<forall>c \<in> set cs. length (snd c) < 256 \<Longrightarrow>
     parse_sl_components (concat (map sl_encode cs)) out cont = sl_fold cs (out, cont)"
proof (induction cs arbitrary: out cont)
  case (Cons c cs)
  then show ?case by (cases c) (simp add: sl_encode_def)
qed simp

lemma rp_step_sl:
  assumes "fst e \<noteq> [0x53, 0x4C]"
  shows "rp_sl (rp_step e rp) = rp_sl rp" and "rp_sl_continues (rp_step e rp) = rp_sl_continues rp"
    and "rp_have_sl (rp_step e rp) = rp_have_sl rp"
  using assms by (auto simp: rp_step_def feed_entry_def)

lemma rp_step_sl_entry:
  assumes "\<forall>c \<in> set cs. length (snd c) < 256"
  shows "(rp_sl (rp_step (sl_entry cs) rp), rp_sl_continues (rp_step (sl_entry cs) rp)) =
      sl_fold cs (rp_sl rp, rp_sl_continues rp)"
    and "rp_have_sl (rp_step (sl_entry cs) rp)"
  using parse_sl_encode [OF assms]
  by (simp_all add: rp_step_def feed_entry_def sl_entry_def split: prod.splits)

lemma fold_rp_step_sl:
  assumes "filter (\<lambda>e. fst e = [0x53, 0x4C]) es = map sl_entry css"
    and "\<forall>c \<in> set (concat css). length (snd c) < 256"
  shows "(rp_sl (fold rp_step es rp), rp_sl_continues (fold rp_step es rp)) =
      sl_fold (concat css) (rp_sl rp, rp_sl_continues rp) \<and>
    rp_have_sl (fold rp_step es rp) = (rp_have_sl rp \<or> css \<noteq> [])"
  using assms
proof (induction es arbitrary: css rp)
  case (Cons e es)
  show ?case
  proof (cases "fst e = [0x53, 0x4C]")
    case True
    with Cons.prems(1) obtain cs css' where css: "css = cs # css'" "e = sl_entry cs"
      "filter (\<lambda>e. fst e = [0x53, 0x4C]) es = map sl_entry css'"
      by (cases css) auto
    note IH = Cons.IH [OF css(3), of "rp_step e rp"]
    have "\<forall>c \<in> set cs. length (snd c) < 256" using Cons.prems(2) css(1) by simp
    from rp_step_sl_entry [OF this, of rp] css IH Cons.prems(2) show ?thesis
      by (simp add: sl_fold_append)
  next
    case False
    with Cons.prems(1) have "filter (\<lambda>e. fst e = [0x53, 0x4C]) es = map sl_entry css" by simp
    from Cons.IH [OF this Cons.prems(2), of "rp_step e rp"] rp_step_sl [OF False, of rp] show ?thesis by simp
  qed
qed simp

text \<open>
  A target as the standard records it: components by name (cut into pieces where one entry is too
  short for it), the current and the parent directory, and a root in front of an absolute target.
\<close>

datatype sl_part = SlCurrent | SlParent | SlName "bytes list"

fun part_text :: "sl_part \<Rightarrow> bytes" where
  "part_text SlCurrent = [0x2E]"
| "part_text SlParent = [0x2E, 0x2E]"
| "part_text (SlName pieces) = concat pieces"

fun name_comps :: "bytes list \<Rightarrow> (byte \<times> bytes) list" where
  "name_comps [] = []"
| "name_comps [p] = [(0, p)]"
| "name_comps (p # q # ps) = (0x01, p) # name_comps (q # ps)"

fun part_comps :: "sl_part \<Rightarrow> (byte \<times> bytes) list" where
  "part_comps SlCurrent = [(0x02, [])]"
| "part_comps SlParent = [(0x04, [])]"
| "part_comps (SlName pieces) = name_comps pieces"

fun part_ok :: "sl_part \<Rightarrow> bool" where
  "part_ok (SlName pieces) \<longleftrightarrow>
     concat pieces \<noteq> [] \<and> 0x2F \<notin> set (concat pieces) \<and> (\<forall>p \<in> set pieces. length p < 256)"
| "part_ok p \<longleftrightarrow> True"

definition sl_comps :: "bool \<Rightarrow> sl_part list \<Rightarrow> (byte \<times> bytes) list" where
  "sl_comps absolute parts = (if absolute then [(0x08, [])] else []) @ concat (map part_comps parts)"

fun sl_join :: "sl_part list \<Rightarrow> bytes" where
  "sl_join [] = []"
| "sl_join (p # ps) = part_text p @ concat (map (\<lambda>q. 0x2F # part_text q) ps)"

definition sl_text :: "bool \<Rightarrow> sl_part list \<Rightarrow> bytes" where
  "sl_text absolute parts = (if absolute then [0x2F] else []) @ sl_join parts"

definition with_sep :: "bytes \<Rightarrow> bytes" where
  "with_sep out = (if out \<noteq> [] \<and> last out \<noteq> 0x2F then out @ [0x2F] else out)"

lemma name_comps_length: "\<forall>p \<in> set ps. length p < 256 \<Longrightarrow> c \<in> set (name_comps ps) \<Longrightarrow> length (snd c) < 256"
  by (induction ps rule: name_comps.induct) auto

lemma part_comps_length: "part_ok p \<Longrightarrow> c \<in> set (part_comps p) \<Longrightarrow> length (snd c) < 256"
  by (cases p) (auto simp: name_comps_length)

lemma sl_fold_name_cont:
  "ps \<noteq> [] \<Longrightarrow> sl_fold (name_comps ps) (out, True) = (out @ concat ps, False)"
  by (induction ps arbitrary: out rule: name_comps.induct) (auto simp: sl_component_def)

lemma sl_fold_name:
  "ps \<noteq> [] \<Longrightarrow> sl_fold (name_comps ps) (out, False) = (with_sep out @ concat ps, False)"
  by (cases ps rule: name_comps.cases) (auto simp: sl_component_def with_sep_def sl_fold_name_cont)

lemma sl_fold_part: "part_ok p \<Longrightarrow> sl_fold (part_comps p) (out, False) = (with_sep out @ part_text p, False)"
proof (cases p)
  case (SlName ps)
  assume "part_ok p"
  with SlName have "ps \<noteq> []" by auto
  with SlName show ?thesis by (simp add: sl_fold_name)
qed (simp_all add: sl_component_def with_sep_def)

lemma part_text_end: "part_ok p \<Longrightarrow> part_text p \<noteq> [] \<and> last (part_text p) \<noteq> 0x2F"
proof (cases p)
  case (SlName ps)
  assume "part_ok p"
  with SlName have "concat ps \<noteq> []" "0x2F \<notin> set (concat ps)" by simp_all
  with SlName last_in_set [of "concat ps"] show ?thesis by (simp only: part_text.simps) metis
qed simp_all

lemma sl_fold_parts:
  "\<forall>p \<in> set ps. part_ok p \<Longrightarrow> out \<noteq> [] \<Longrightarrow> last out \<noteq> 0x2F \<Longrightarrow>
     sl_fold (concat (map part_comps ps)) (out, False) = (out @ concat (map (\<lambda>q. 0x2F # part_text q) ps), False)"
proof (induction ps arbitrary: out)
  case (Cons p ps)
  let ?out = "out @ 0x2F # part_text p"
  have "?out \<noteq> []" "last ?out \<noteq> 0x2F" using part_text_end [of p] Cons.prems by simp_all
  with Cons show ?case by (simp add: sl_fold_append sl_fold_part with_sep_def)
qed simp

lemma sl_fold_target:
  assumes "\<forall>p \<in> set parts. part_ok p"
  shows "sl_fold (sl_comps absolute parts) ([], False) = (sl_text absolute parts, False)"
proof (cases parts)
  case Nil
  then show ?thesis by (simp add: sl_comps_def sl_text_def sl_component_def)
next
  case (Cons p ps)
  then have p: "part_ok p" and ps: "\<forall>p \<in> set ps. part_ok p" using assms by simp_all
  note t = part_text_end [OF p]
  show ?thesis
  proof (cases absolute)
    case True
    have "sl_fold (concat (map part_comps ps)) ([0x2F] @ part_text p, False) =
        (([0x2F] @ part_text p) @ concat (map (\<lambda>q. 0x2F # part_text q) ps), False)"
      by (rule sl_fold_parts) (use ps t in auto)
    with True Cons p show ?thesis
      by (simp add: sl_comps_def sl_text_def sl_fold_append sl_fold_part sl_component_def with_sep_def)
  next
    case False
    with Cons p ps t show ?thesis
      by (simp add: sl_comps_def sl_text_def sl_fold_append sl_fold_part with_sep_def sl_fold_parts)
  qed
qed

lemma sl_comps_length:
  "\<forall>p \<in> set parts. part_ok p \<Longrightarrow> c \<in> set (sl_comps absolute parts) \<Longrightarrow> length (snd c) < 256"
  by (auto simp: sl_comps_def part_comps_length split: if_splits)



section \<open>What the entries of a record say\<close>

text \<open>The entries of an area other than its terminator, and how a continuation and a zisofs file are recorded.\<close>

definition entries_ok :: "susp_entry list \<Rightarrow> bool" where
  "entries_ok es \<longleftrightarrow> (\<forall>e \<in> set es. susp_ok e \<and> fst e \<noteq> [0x53, 0x54])"

definition ce_entry :: "nat \<Rightarrow> nat \<Rightarrow> nat \<Rightarrow> susp_entry" where
  "ce_entry block off n =
     ([0x43, 0x45], to_le 4 block @ to_be 4 block @ to_le 4 off @ to_be 4 off @ to_le 4 n @ to_be 4 n)"

definition zf_entry :: "zisofs \<Rightarrow> susp_entry" where
  "zf_entry z = ([0x5A, 0x46], [0x70, 0x7A, 4, byte_of (zf_block_size_log2 z)] @ to_le 4 (zf_uncompressed_size z))"

lemma snd_feed_entry_other: "sig \<noteq> [0x43, 0x45] \<Longrightarrow> snd (feed_entry sig data rp nxt) = nxt"
  by (simp add: feed_entry_def Let_def split: prod.splits)

lemma snd_feed_entry_ce:
  assumes "block < 2 ^ 32" and "off < 2 ^ 32" and "n < 2 ^ 32"
  shows "snd (feed_entry (fst (ce_entry block off n)) (snd (ce_entry block off n)) rp nxt) =
    Some \<lparr>ce_block = block, ce_offset = off, ce_len = n\<rparr>"
  using assms by (simp add: feed_entry_def ce_entry_def slice_def from_le_to_le)

lemma snd_feed_entries_none:
  "entries_ok es \<Longrightarrow> filter (\<lambda>e. fst e = [0x43, 0x45]) es = [] \<Longrightarrow> snd (feed_entries es st) = snd st"
  by (induction es arbitrary: st) (auto simp: entries_ok_def snd_feed_entry_other split: if_splits)

lemma snd_feed_entries_ce:
  assumes "block < 2 ^ 32" and "off < 2 ^ 32" and "n < 2 ^ 32"
  shows "entries_ok es \<Longrightarrow> filter (\<lambda>e. fst e = [0x43, 0x45]) es = [ce_entry block off n] \<Longrightarrow>
    snd (feed_entries es st) = Some \<lparr>ce_block = block, ce_offset = off, ce_len = n\<rparr>"
proof (induction es arbitrary: st)
  case (Cons e es)
  show ?case
  proof (cases "fst e = [0x43, 0x45]")
    case True
    then have e: "e = ce_entry block off n" "filter (\<lambda>e. fst e = [0x43, 0x45]) es = []" using Cons.prems(2) by simp_all
    have es: "entries_ok es" using Cons.prems(1) by (simp add: entries_ok_def)
    show ?thesis using snd_feed_entries_none [OF es e(2)] snd_feed_entry_ce [OF assms] True by (simp add: e(1))
  next
    case False
    then show ?thesis using Cons by (simp add: entries_ok_def)
  qed
qed simp

lemma rp_step_info:
  "rr_name (rp_info (rp_step e rp)) = rr_name (rp_info rp)"
  "rr_symlink_target (rp_info (rp_step e rp)) = rr_symlink_target (rp_info rp)"
  "fst e \<noteq> [0x5A, 0x46] \<Longrightarrow> rr_zisofs (rp_info (rp_step e rp)) = rr_zisofs (rp_info rp)"
  by (simp_all add: rp_step_def feed_entry_def Let_def split: prod.splits)

lemma fold_rp_step_info:
  "rr_name (rp_info (fold rp_step es rp)) = rr_name (rp_info rp)"
  "rr_symlink_target (rp_info (fold rp_step es rp)) = rr_symlink_target (rp_info rp)"
  "filter (\<lambda>e. fst e = [0x5A, 0x46]) es = [] \<Longrightarrow> rr_zisofs (rp_info (fold rp_step es rp)) = rr_zisofs (rp_info rp)"
  by (induction es arbitrary: rp) (auto simp: rp_step_info split: if_splits)

lemma fold_rp_step_zf:
  assumes "zf_uncompressed_size z < 2 ^ 32" and "zf_block_size_log2 z < 256"
  shows "filter (\<lambda>e. fst e = [0x5A, 0x46]) es = [zf_entry z] \<Longrightarrow> rr_zisofs (rp_info (fold rp_step es rp)) = Some z"
proof (induction es arbitrary: rp)
  case (Cons e es)
  show ?case
  proof (cases "fst e = [0x5A, 0x46]")
    case True
    then have "e = zf_entry z" "filter (\<lambda>e. fst e = [0x5A, 0x46]) es = []" using Cons.prems by simp_all
    moreover have "rr_zisofs (rp_info (rp_step (zf_entry z) rp)) = Some z"
      using assms by (simp add: rp_step_def feed_entry_def zf_entry_def slice_def from_le_to_le)
    ultimately show ?thesis by (simp add: fold_rp_step_info)
  next
    case False
    then show ?thesis using Cons by simp
  qed
qed simp

text \<open>The name of a file with base name \<open>base\<close>: the text of its name entries, when that is a string that is not empty.\<close>

definition rr_named :: "susp_entry list \<Rightarrow> bytes \<Rightarrow> bytes" where
  "rr_named es base = (if nm_text es \<noteq> [] \<and> utf8_valid (nm_text es) then nm_text es else base)"

text \<open>The link target that the entries record, if they record one, and the parameters of a zisofs file.\<close>

definition target_recorded :: "susp_entry list \<Rightarrow> bytes option \<Rightarrow> bool" where
  "target_recorded es target \<longleftrightarrow>
     (\<exists>css. filter (\<lambda>e. fst e = [0x53, 0x4C]) es = map sl_entry css \<and>
        (if css = [] then target = None
         else \<exists>absolute parts. concat css = sl_comps absolute parts \<and> (\<forall>p \<in> set parts. part_ok p) \<and>
           target = Some (sl_text absolute parts)))"

definition zf_recorded :: "susp_entry list \<Rightarrow> zisofs option \<Rightarrow> bool" where
  "zf_recorded es zf \<longleftrightarrow>
     filter (\<lambda>e. fst e = [0x5A, 0x46]) es = (case zf of None \<Rightarrow> [] | Some z \<Rightarrow> [zf_entry z]) \<and>
     (\<forall>z. zf = Some z \<longrightarrow> zf_uncompressed_size z < 2 ^ 32 \<and> zf_block_size_log2 z < 256)"

lemma rr_finish_recorded:
  assumes "target_recorded es target" and "zf_recorded es zf"
  shows "(case rr_name (rr_finish (fold rp_step es rr_parser_default)) of Some n \<Rightarrow> n | None \<Rightarrow> base) = rr_named es base"
    and "rr_symlink_target (rr_finish (fold rp_step es rr_parser_default)) = target"
    and "rr_zisofs (rr_finish (fold rp_step es rr_parser_default)) = zf"
proof -
  let ?rp = "fold rp_step es rr_parser_default"
  have i: "rr_name (rp_info ?rp) = None" "rr_symlink_target (rp_info ?rp) = None"
    by (simp_all add: fold_rp_step_info) (simp_all add: rr_parser_default_def)
  have "rp_name ?rp = nm_text es" by (simp add: fold_rp_step_name)
  moreover have "rp_have_nm ?rp" if "nm_text es \<noteq> []" using that by (auto simp: fold_rp_step_name nm_text_def)
  ultimately show "(case rr_name (rr_finish ?rp) of Some n \<Rightarrow> n | None \<Rightarrow> base) = rr_named es base"
    using i(1) by (auto simp: rr_finish_def rr_named_def from_utf8_def Let_def)
  from assms(1) obtain css where css: "filter (\<lambda>e. fst e = [0x53, 0x4C]) es = map sl_entry css"
    "if css = [] then target = None
     else \<exists>absolute parts. concat css = sl_comps absolute parts \<and> (\<forall>p \<in> set parts. part_ok p) \<and>
       target = Some (sl_text absolute parts)" by (auto simp: target_recorded_def)
  have "\<forall>c \<in> set (concat css). length (snd c) < 256"
  proof (cases "css = []")
    case False
    with css(2) obtain absolute parts where p: "concat css = sl_comps absolute parts" "\<forall>p \<in> set parts. part_ok p" by auto
    show ?thesis unfolding p(1) using sl_comps_length [OF p(2)] by blast
  qed simp
  from fold_rp_step_sl [OF css(1) this, of rr_parser_default]
  have s: "(rp_sl ?rp, rp_sl_continues ?rp) = sl_fold (concat css) ([], False)" "rp_have_sl ?rp = (css \<noteq> [])" by simp_all
  show "rr_symlink_target (rr_finish ?rp) = target"
  proof (cases "css = []")
    case True
    then show ?thesis using s(2) css(2) i(2) by (auto simp: rr_finish_def Let_def split: option.splits)
  next
    case False
    with css(2) obtain absolute parts where p: "concat css = sl_comps absolute parts" "\<forall>p \<in> set parts. part_ok p"
      "target = Some (sl_text absolute parts)" by auto
    have "rp_sl ?rp = sl_text absolute parts" using s(1) sl_fold_target [OF p(2)] p(1) by simp
    then show ?thesis using s(2) False p(3) by (simp add: rr_finish_def Let_def)
  qed
  show "rr_zisofs (rr_finish ?rp) = zf"
  proof -
    have "rr_zisofs (rr_finish rp) = rr_zisofs (rp_info rp)" for rp by (simp add: rr_finish_def Let_def split: option.splits)
    moreover have "rr_zisofs (rp_info ?rp) = zf"
    proof (cases zf)
      case None
      then show ?thesis using assms(2) by (simp add: zf_recorded_def fold_rp_step_info) (simp add: rr_parser_default_def)
    next
      case (Some z)
      then show ?thesis using assms(2) fold_rp_step_zf [of z es rr_parser_default] by (simp add: zf_recorded_def)
    qed
    ultimately show ?thesis by simp
  qed
qed


section \<open>Field widths\<close>

text \<open>What a parser has collected, and the continuation it reports, have the widths of their fields.\<close>

definition rr_widths :: "rr_parser \<times> continuation option \<Rightarrow> bool" where
  "rr_widths st \<longleftrightarrow>
     (\<forall>z. rr_zisofs (rp_info (fst st)) = Some z \<longrightarrow> zf_uncompressed_size z < 2 ^ 32) \<and>
     (\<forall>ce. snd st = Some ce \<longrightarrow> ce_block ce < 2 ^ 32 \<and> ce_offset ce < 2 ^ 32 \<and> ce_len ce < 2 ^ 32)"

lemma from_le_slice4: "from_le (slice bs i (i + 4)) < 2 ^ 32"
  using from_le_slice_less [of bs i 4] by simp

lemma feed_entry_widths: "rr_widths (rp, nxt) \<Longrightarrow> rr_widths (feed_entry sig data rp nxt)"
  using from_le_slice4 [of data 0] from_le_slice4 [of data 4] from_le_slice4 [of data 8] from_le_slice4 [of data 16]
  by (auto simp: rr_widths_def feed_entry_def Let_def split: prod.splits)

lemma feed_loop_widths: "rr_widths (rp, nxt) \<Longrightarrow> rr_widths (feed_loop su p rp nxt)"
proof (induction su p rp nxt rule: feed_loop.induct)
  case (1 su p rp nxt)
  let ?len = "unat (su ! (p + 2))"
  let ?st = "feed_entry (slice su p (p + 2)) (slice su (p + 4) (p + ?len)) rp nxt"
  have "rr_widths (fst ?st, snd ?st)" using feed_entry_widths "1.prems" by simp
  then show ?case using 1 by (subst feed_loop.simps) (auto simp: Let_def split: prod.splits)
qed

lemma rr_feed_widths: "rr_widths (rp, None) \<Longrightarrow> rr_widths (rr_feed rp su)"
  by (simp add: rr_feed_def feed_loop_widths)

lemma rr_feed_widths': "rr_widths (rp, nxt) \<Longrightarrow> rr_widths (rr_feed rp su)"
  by (rule rr_feed_widths) (simp add: rr_widths_def)

lemma rr_widths_default [simp]: "rr_widths (rr_parser_default, None)"
  by (simp add: rr_widths_def rr_parser_default_def)

lemma rr_finish_zisofs [simp]: "rr_zisofs (rr_finish rp) = rr_zisofs (rp_info rp)"
  by (simp add: rr_finish_def Let_def split: option.splits)


section \<open>Properties\<close>

text \<open>
  C18. A POSIX name and a link target that are spread over any number of \<^verbatim>\<open>NM\<close> and \<^verbatim>\<open>SL\<close> entries, in
  the record and its continuation areas, among any other entries, are read back whole: the name
  pieces in order, and the target with one separator between components, none inside a component
  that was cut, and a leading one exactly when the target is absolute.
\<close>

theorem rock_ridge_roundtrip:
  assumes "\<forall>a \<in> set areas. area_ok a" and "es = concat (map fst areas)"
    and "utf8_valid (nm_text es)" and "nm_text es \<noteq> []"
    and "filter (\<lambda>e. fst e = [0x53, 0x4C]) es = map sl_entry css" and "css \<noteq> []"
    and "concat css = sl_comps absolute parts" and "\<forall>p \<in> set parts. part_ok p"
  shows "rr_name (rr_finish (feed_areas areas rr_parser_default)) = Some (nm_text es) \<and>
    rr_symlink_target (rr_finish (feed_areas areas rr_parser_default)) = Some (sl_text absolute parts)"
proof -
  let ?rp = "feed_areas areas rr_parser_default"
  have rp: "?rp = fold rp_step es rr_parser_default" using feed_areas_fold [OF assms(1)] assms(2) by simp
  have "\<exists>e \<in> set es. is_nm e" using assms(4) by (auto simp: nm_text_def)
  then have nm: "rp_name ?rp = nm_text es" "rp_have_nm ?rp"
    by (simp_all add: rp fold_rp_step_name)
  have "\<forall>c \<in> set (concat css). length (snd c) < 256" using sl_comps_length assms(7,8) by auto
  from fold_rp_step_sl [OF assms(5) this, of rr_parser_default] sl_fold_target [OF assms(8)] assms(6,7)
  have "rp_sl ?rp = sl_text absolute parts" "rp_have_sl ?rp" by (simp_all add: rp)
  with nm assms(3,4) show ?thesis by (simp add: rr_finish_def from_utf8_def)
qed

theorem rock_ridge_roundtrip_witness:
  "rr_symlink_target (rr_finish (feed_areas
      [([([0x4E, 0x4D], [1, 0x61]), sl_entry [(0x08, []), (0x01, [0x75])]], []),
       ([sl_entry [(0, [0x73, 0x72]), (0x04, [])], ([0x4E, 0x4D], [0, 0x62])], [0])] rr_parser_default)) =
    Some [0x2F, 0x75, 0x73, 0x72, 0x2F, 0x2E, 0x2E]"
proof -
  let ?areas = "[([([0x4E, 0x4D], [1, 0x61]), sl_entry [(0x08, []), (0x01, [0x75])]], []),
       ([sl_entry [(0, [0x73, 0x72]), (0x04, [])], ([0x4E, 0x4D], [0, 0x62])], [0])] :: (susp_entry list \<times> bytes) list"
  let ?css = "[[(0x08, []), (0x01, [0x75])], [(0, [0x73, 0x72]), (0x04, [])]] :: (byte \<times> bytes) list list"
  let ?parts = "[SlName [[0x75], [0x73, 0x72]], SlParent]"
  have "\<forall>a \<in> set ?areas. area_ok a"
    by (simp add: area_ok_def susp_ok_def susp_end_def sl_entry_def sl_encode_def)
  moreover have "nm_text (concat (map fst ?areas)) = [0x61, 0x62]"
    by (simp add: nm_text_def is_nm_def sl_entry_def)
  moreover have "filter (\<lambda>e. fst e = [0x53, 0x4C]) (concat (map fst ?areas)) = map sl_entry ?css"
    by (simp add: sl_entry_def)
  moreover have "concat ?css = sl_comps True ?parts" "\<forall>p \<in> set ?parts. part_ok p"
    by (simp_all add: sl_comps_def)
  ultimately show ?thesis
    using rock_ridge_roundtrip [OF _ refl, of ?areas ?css True ?parts]
    by (simp add: utf8_valid_ascii sl_text_def)
qed

end
