(* ===== verification/El_Torito.thy ===== *)
theory El_Torito
  imports Fold_Prelude
begin

text \<open>
  The El Torito boot catalog (\<^verbatim>\<open>crates/lamfold-iso/src/el_torito.rs\<close>): the search for the UEFI
  boot image, and the size of a FAT image from its boot sector. The loops walk the catalog by
  index under guards that keep every index in range; offsets stay below the catalog's length plus
  two mebibytes, so the saturating operations of the source do not saturate.
\<close>

definition PLATFORM_UEFI :: byte where "PLATFORM_UEFI = 0xEF"
definition BOOTABLE :: byte where "BOOTABLE = 0x88"

record uefi_image =
  ui_lba :: nat
  ui_sectors :: nat

definition et_parse_entry :: "bytes \<Rightarrow> uefi_image option" where
  "et_parse_entry e =
     (if length e < 12 \<or> e ! 0 \<noteq> BOOTABLE then None
      else Some \<lparr>ui_lba = from_le (slice e 8 12), ui_sectors = from_le (slice e 6 8)\<rparr>)"

text \<open>The entries of a UEFI section: the image found, or the offset after the entries.\<close>

fun et_section :: "bytes \<Rightarrow> nat \<Rightarrow> nat \<Rightarrow> uefi_image option \<times> nat" where
  "et_section cat 0 off = (None, off)"
| "et_section cat (Suc n) off =
     (if off + 32 > length cat then (None, off)
      else (case et_parse_entry (slice cat off (off + 32)) of
              Some img \<Rightarrow> (Some img, off)
            | None \<Rightarrow> et_section cat n (off + 32)))"

lemma et_section_ge: "off \<le> snd (et_section cat n off)"
  by (induction cat n off rule: et_section.induct) (auto split: option.splits)

function et_sections :: "bytes \<Rightarrow> nat \<Rightarrow> uefi_image option" where
  "et_sections cat off =
     (if off + 32 \<le> length cat then
        let hdr = slice cat off (off + 32); indicator = hdr ! 0 in
        if indicator \<noteq> 0x90 \<and> indicator \<noteq> 0x91 then None
        else
          let platform = hdr ! 1; n_entries = from_le (slice hdr 2 4);
            (found, off') = (if platform = PLATFORM_UEFI then et_section cat n_entries (off + 32)
                             else (None, off + 32 + n_entries * 32)) in
          case found of
            Some img \<Rightarrow> Some img
          | None \<Rightarrow> if indicator = 0x91 then None else et_sections cat off'
      else None)"
  by pat_completeness auto
termination
proof (relation "measure (\<lambda>(cat, off). length cat - off)", goal_cases)
  case (2 cat off hdr indicator platform n_entries x found off')
  moreover have "off + 32 \<le> off'"
    using 2(6-8) et_section_ge [of "off + 32" cat n_entries] by (metis Pair_inject le_add1 prod.collapse)
  ultimately show ?case by auto
qed simp

definition parse_catalog :: "bytes \<Rightarrow> uefi_image option" where
  "parse_catalog cat =
     (if length cat < 64 then None
      else if cat ! 0 \<noteq> 0x01 \<or> cat ! 30 \<noteq> 0x55 \<or> cat ! 31 \<noteq> 0xAA then None
      else if cat ! 1 = PLATFORM_UEFI then et_parse_entry (slice cat 32 64)
      else et_sections cat 64)"

definition fat_image_sectors :: "bytes \<Rightarrow> nat option" where
  "fat_image_sectors boot =
     Option.bind (get_range boot 510 512) (\<lambda>sig.
       if sig \<noteq> [0x55, 0xAA] then None
       else
         Option.bind (get_at boot 11) (\<lambda>b0.
         Option.bind (get_at boot 12) (\<lambda>b1.
         let bytes_per_sector = from_le [b0, b1] in
         if bytes_per_sector \<notin> {512, 1024, 2048, 4096} then None
         else
           Option.bind (get_at boot 19) (\<lambda>t0.
           Option.bind (get_at boot 20) (\<lambda>t1.
           Option.bind (get_range boot 32 36) (\<lambda>t32.
           let total16 = from_le [t0, t1]; total32 = from_le t32;
             sectors = (if total16 \<noteq> 0 then total16 else total32) in
           if sectors = 0 then None
           else checked_mul 32 sectors (bytes_per_sector div 512)))))))"

declare et_sections.simps [simp del]

lemma et_parse_entry_less: "et_parse_entry e = Some img \<Longrightarrow> ui_lba img < 2 ^ 32"
  using from_le_slice_less [of e 8 4] by (auto simp: et_parse_entry_def split: if_splits)

lemma et_section_less: "et_section cat n off = (Some img, off') \<Longrightarrow> ui_lba img < 2 ^ 32"
  by (induction cat n off rule: et_section.induct)
    (auto split: if_splits option.splits dest: et_parse_entry_less)

lemma et_sections_less: "et_sections cat off = Some img \<Longrightarrow> ui_lba img < 2 ^ 32"
proof (induction cat off rule: et_sections.induct)
  case (1 cat off)
  note eq = "1.prems" [unfolded et_sections.simps [of cat off] Let_def]
  show ?case
  proof (cases "slice cat off (off + 32) ! 1 = PLATFORM_UEFI")
    case True
    obtain f off' where f: "et_section cat (from_le (slice (slice cat off (off + 32)) 2 4)) (off + 32) = (f, off')"
      by fastforce
    with eq True "1.IH" [OF _ refl refl _ refl refl _ refl] show ?thesis
      by (cases f) (auto split: if_splits dest: et_section_less)
  next
    case False
    with eq "1.IH" [OF _ refl refl _ refl refl _ refl] show ?thesis by (auto split: if_splits)
  qed
qed

lemma parse_catalog_less: "parse_catalog cat = Some img \<Longrightarrow> ui_lba img < 2 ^ 32"
  by (auto simp: parse_catalog_def split: if_splits dest: et_parse_entry_less et_sections_less)


section \<open>Catalogs as they are recorded\<close>

record boot_entry =
  be_bootable :: bool
  be_image :: uefi_image

definition entry_ok :: "boot_entry \<Rightarrow> bool" where
  "entry_ok e \<longleftrightarrow> ui_lba (be_image e) < 2 ^ 32 \<and> ui_sectors (be_image e) < 2 ^ 16"

definition et_encode_entry :: "boot_entry \<Rightarrow> bytes" where
  "et_encode_entry e =
     [if be_bootable e then BOOTABLE else 0] @ replicate 5 0 @ to_le 2 (ui_sectors (be_image e)) @
     to_le 4 (ui_lba (be_image e)) @ replicate 20 0"

text \<open>A section: its platform and its entries. The last header is marked as such.\<close>

definition et_encode_section :: "byte \<Rightarrow> byte \<times> boot_entry list \<Rightarrow> bytes" where
  "et_encode_section indicator s =
     [indicator, fst s] @ to_le 2 (length (snd s)) @ replicate 28 0 @ concat (map et_encode_entry (snd s))"

fun et_encode_sections :: "(byte \<times> boot_entry list) list \<Rightarrow> bytes" where
  "et_encode_sections [] = []"
| "et_encode_sections [s] = et_encode_section 0x91 s"
| "et_encode_sections (s # t # ss) = et_encode_section 0x90 s @ et_encode_sections (t # ss)"

definition et_encode_validation :: "byte \<Rightarrow> bytes" where
  "et_encode_validation platform = [0x01, platform] @ replicate 28 0 @ [0x55, 0xAA]"

definition first_image :: "boot_entry list \<Rightarrow> uefi_image option" where
  "first_image es = map_option be_image (find be_bootable es)"

definition uefi_entries :: "(byte \<times> boot_entry list) list \<Rightarrow> boot_entry list" where
  "uefi_entries ss = concat (map snd (filter (\<lambda>s. fst s = PLATFORM_UEFI) ss))"

lemma first_image_append: "first_image (es @ fs) = (case first_image es of Some i \<Rightarrow> Some i | None \<Rightarrow> first_image fs)"
  by (induction es) (auto simp: first_image_def)

lemma length_et_encode_entry [simp]: "length (et_encode_entry e) = 32"
  by (simp add: et_encode_entry_def)

lemma length_concat_entries: "length (concat (map et_encode_entry es)) = 32 * length es"
  by (induction es) auto

lemma et_parse_encode_entry:
  assumes "entry_ok e"
  shows "et_parse_entry (et_encode_entry e) = (if be_bootable e then Some (be_image e) else None)"
proof -
  have "from_le (to_le 4 (ui_lba (be_image e))) = ui_lba (be_image e)"
    "from_le (to_le 2 (ui_sectors (be_image e))) = ui_sectors (be_image e)"
    using assms by (simp_all add: entry_ok_def from_le_to_le)
  then show ?thesis
    by (simp add: et_parse_entry_def) (simp add: et_encode_entry_def slice_def BOOTABLE_def)
qed

lemma et_section_encode:
  assumes "\<forall>e \<in> set es. entry_ok e"
  shows "\<exists>off. et_section (pre @ concat (map et_encode_entry es) @ post) (length es) (length pre) =
      (first_image es, off) \<and> (first_image es = None \<longrightarrow> off = length pre + 32 * length es)"
  using assms
proof (induction es arbitrary: pre)
  case Nil
  then show ?case by (simp add: first_image_def)
next
  case (Cons e es)
  let ?cat = "pre @ concat (map et_encode_entry (e # es)) @ post"
  have sl: "slice ?cat (length pre) (length pre + 32) = et_encode_entry e" by (simp add: slice_def)
  have le: "\<not> length ?cat < length pre + 32" by simp
  show ?case
  proof (cases "be_bootable e")
    case True
    then show ?thesis using sl le et_parse_encode_entry [of e] Cons.prems by (simp add: first_image_def)
  next
    case False
    have "first_image (e # es) = first_image es" using False by (simp add: first_image_def)
    moreover have "et_section ?cat (length (e # es)) (length pre) = et_section ?cat (length es) (length pre + 32)"
      using False sl le et_parse_encode_entry [of e] Cons.prems by simp
    ultimately show ?thesis using Cons.IH [of "pre @ et_encode_entry e"] Cons.prems by (simp add: add.assoc)
  qed
qed

lemma et_section_header:
  fixes s :: "byte \<times> boot_entry list"
  assumes "length (snd s) < 2 ^ 16"
  shows "slice (pre @ et_encode_section ind s @ post) (length pre) (length pre + 32) ! 0 = ind"
    and "slice (pre @ et_encode_section ind s @ post) (length pre) (length pre + 32) ! 1 = fst s"
    and "from_le (slice (slice (pre @ et_encode_section ind s @ post) (length pre) (length pre + 32)) 2 4) = length (snd s)"
  using assms from_le_to_le [of "length (snd s)" 2]
  by (simp_all add: et_encode_section_def slice_def)

lemma et_sections_step:
  assumes "length (snd s) < 2 ^ 16" and "\<forall>e \<in> set (snd s). entry_ok e" and "ind = 0x90 \<or> ind = 0x91"
  shows "et_sections (pre @ et_encode_section ind s @ post) (length pre) =
    (case (if fst s = PLATFORM_UEFI then first_image (snd s) else None) of
       Some img \<Rightarrow> Some img
     | None \<Rightarrow> if ind = 0x91 then None
              else et_sections (pre @ et_encode_section ind s @ post) (length pre + length (et_encode_section ind s)))"
proof -
  let ?cat = "pre @ et_encode_section ind s @ post" and ?n = "length (snd s)"
  let ?hd = "[ind, fst s] @ to_le 2 ?n @ replicate 28 0"
  have cat: "?cat = (pre @ ?hd) @ concat (map et_encode_entry (snd s)) @ post" by (simp add: et_encode_section_def)
  have len: "length (et_encode_section ind s) = 32 + 32 * ?n"
    by (simp add: et_encode_section_def length_concat_entries)
  obtain off' where off': "et_section ?cat ?n (length pre + 32) = (first_image (snd s), off')"
    "first_image (snd s) = None \<longrightarrow> off' = length pre + 32 + 32 * ?n"
    using et_section_encode [OF assms(2), of "pre @ ?hd" post] unfolding cat by auto
  note hdr = et_section_header [OF assms(1), of pre ind post]
  have le: "length pre + 32 \<le> length ?cat" using len by simp
  show ?thesis
  proof (cases "fst s = PLATFORM_UEFI")
    case True
    then show ?thesis using hdr le off' assms(3) len
      by (subst et_sections.simps) (auto simp: Let_def add.assoc split: option.splits)
  next
    case False
    then show ?thesis using hdr le assms(3) len
      by (subst et_sections.simps) (auto simp: Let_def mult.commute add.assoc)
  qed
qed

lemma et_sections_encode:
  assumes "\<forall>s \<in> set ss. length (snd s) < 2 ^ 16 \<and> (\<forall>e \<in> set (snd s). entry_ok e)" and "ss \<noteq> []"
  shows "et_sections (pre @ et_encode_sections ss @ post) (length pre) = first_image (uefi_entries ss)"
  using assms
proof (induction ss arbitrary: pre rule: et_encode_sections.induct)
  case (2 s)
  then show ?case
    using et_sections_step [of s "0x91" pre post] by (auto simp: uefi_entries_def first_image_def split: option.splits)
next
  case (3 s t ss)
  let ?pre = "pre @ et_encode_section 0x90 s"
  have IH: "et_sections (?pre @ et_encode_sections (t # ss) @ post) (length ?pre) = first_image (uefi_entries (t # ss))"
    using "3.IH" [of ?pre] "3.prems" by simp
  have "et_sections (pre @ et_encode_section 0x90 s @ et_encode_sections (t # ss) @ post) (length pre) =
    (case (if fst s = PLATFORM_UEFI then first_image (snd s) else None) of
       Some img \<Rightarrow> Some img | None \<Rightarrow> first_image (uefi_entries (t # ss)))"
    using et_sections_step [of s "0x90" pre "et_encode_sections (t # ss) @ post"] "3.prems" IH
    by (simp split: option.splits)
  then show ?case by (auto simp: uefi_entries_def first_image_append split: option.splits)
qed simp

text \<open>Bytes that are no section header end the walk.\<close>

lemma et_sections_none:
  assumes "length post < 32 \<or> post ! 0 \<notin> {0x90, 0x91}"
  shows "et_sections (pre @ post) (length pre) = None"
proof (cases "length post < 32")
  case False
  then have "slice (pre @ post) (length pre) (length pre + 32) ! 0 = post ! 0" by (simp add: slice_def)
  then show ?thesis using assms False by (subst et_sections.simps) (simp add: Let_def)
qed (subst et_sections.simps, simp)


section \<open>Properties\<close>

text \<open>
  C19. What reading a recorded boot catalog gives, exactly. When the catalog itself is for UEFI
  (platform 0xEF), it is the default entry, if that is bootable: the sections are then not looked at,
  and a default entry that is not bootable gives no image even when a UEFI section holds a bootable
  entry. Otherwise it is the first bootable entry of the UEFI sections, whatever sections of other
  platforms stand between them and whatever follows the last section, and nothing when there is none;
  the default entry then does not count, also when there are no sections at all.
\<close>

theorem parse_catalog_exact:
  assumes "entry_ok initial"
    and "\<forall>s \<in> set ss. length (snd s) < 2 ^ 16 \<and> (\<forall>e \<in> set (snd s). entry_ok e)"
    and "ss = [] \<Longrightarrow> platform = PLATFORM_UEFI \<or> length post < 32 \<or> post ! 0 \<notin> {0x90, 0x91}"
  shows "parse_catalog (et_encode_validation platform @ et_encode_entry initial @ et_encode_sections ss @ post) =
    (if platform = PLATFORM_UEFI then if be_bootable initial then Some (be_image initial) else None
     else first_image (uefi_entries ss))"
proof -
  let ?cat = "et_encode_validation platform @ et_encode_entry initial @ et_encode_sections ss @ post"
  let ?pre = "et_encode_validation platform @ et_encode_entry initial"
  have val: "length (et_encode_validation platform) = 32" "et_encode_validation platform ! 0 = 0x01"
    "et_encode_validation platform ! 1 = platform" "et_encode_validation platform ! 30 = 0x55"
    "et_encode_validation platform ! 31 = 0xAA"
    by (simp_all add: et_encode_validation_def nth_append)
  then have cat: "\<not> length ?cat < 64" "?cat ! 0 = 0x01" "?cat ! 1 = platform" "?cat ! 30 = 0x55" "?cat ! 31 = 0xAA"
    "slice ?cat 32 64 = et_encode_entry initial"
    by (simp_all add: nth_append slice_def)
  moreover have "et_sections ?cat 64 = first_image (uefi_entries ss)" if "platform \<noteq> PLATFORM_UEFI"
  proof (cases "ss = []")
    case True
    then have "et_sections (?pre @ post) (length ?pre) = None"
      using assms(3) that et_sections_none [of post ?pre] by auto
    then show ?thesis using True val(1) by (simp add: uefi_entries_def first_image_def)
  next
    case False
    show ?thesis using et_sections_encode [OF assms(2) False, of ?pre post] val(1) by simp
  qed
  ultimately have "parse_catalog ?cat =
      (if platform = PLATFORM_UEFI then et_parse_entry (et_encode_entry initial) else first_image (uefi_entries ss))"
    unfolding parse_catalog_def by presburger
  then show ?thesis using et_parse_encode_entry [OF assms(1)] by simp
qed

theorem parse_catalog_exact_witness:
  "parse_catalog (et_encode_validation 0 @ et_encode_entry \<lparr>be_bootable = True, be_image = \<lparr>ui_lba = 20, ui_sectors = 4\<rparr>\<rparr> @
      et_encode_sections [(0, [\<lparr>be_bootable = True, be_image = \<lparr>ui_lba = 30, ui_sectors = 4\<rparr>\<rparr>]),
        (0xEF, [\<lparr>be_bootable = False, be_image = \<lparr>ui_lba = 40, ui_sectors = 1\<rparr>\<rparr>,
                \<lparr>be_bootable = True, be_image = \<lparr>ui_lba = 50, ui_sectors = 2880\<rparr>\<rparr>])] @ [0, 0]) =
      Some \<lparr>ui_lba = 50, ui_sectors = 2880\<rparr> \<and>
   parse_catalog (et_encode_validation 0xEF @ et_encode_entry \<lparr>be_bootable = False, be_image = \<lparr>ui_lba = 20, ui_sectors = 4\<rparr>\<rparr> @
      et_encode_sections [(0xEF, [\<lparr>be_bootable = True, be_image = \<lparr>ui_lba = 50, ui_sectors = 2880\<rparr>\<rparr>])] @ []) = None \<and>
   parse_catalog (et_encode_validation 0 @ et_encode_entry \<lparr>be_bootable = True, be_image = \<lparr>ui_lba = 20, ui_sectors = 4\<rparr>\<rparr> @
      et_encode_sections [] @ replicate 64 0) = None"
  by (intro conjI; subst parse_catalog_exact)
    (simp_all add: entry_ok_def PLATFORM_UEFI_def uefi_entries_def first_image_def)

end
