(* ===== verification/Iso_Records.thy ===== *)
theory Iso_Records
  imports Intern_Table Rock_Ridge El_Torito
begin

text \<open>
  The ISO 9660 volume and its directories (\<^verbatim>\<open>crates/lamfold-iso/src/iso9660.rs\<close>): the mounted
  volume, the decoding of file identifiers, and the scan of a directory extent with its padding,
  Rock Ridge areas and multi-extent chains. The scan's callback only collects, and what it
  collected is dropped when the scan fails, so the model returns the list of entries.
\<close>

definition VD_REGION_OFFSET :: nat where "VD_REGION_OFFSET = 16 * 2048"
definition VD_SIZE :: nat where "VD_SIZE = 2048"
definition VD_TYPE_BOOT_RECORD :: byte where "VD_TYPE_BOOT_RECORD = 0"
definition VD_TYPE_PRIMARY :: byte where "VD_TYPE_PRIMARY = 1"
definition VD_TYPE_SUPPLEMENTARY :: byte where "VD_TYPE_SUPPLEMENTARY = 2"
definition VD_TYPE_TERMINATOR :: byte where "VD_TYPE_TERMINATOR = 255"
definition STANDARD_ID :: bytes where "STANDARD_ID = [0x43, 0x44, 0x30, 0x30, 0x31]"
definition JOLIET_ESCAPE_PREFIX :: bytes where "JOLIET_ESCAPE_PREFIX = [0x25, 0x2F]"
definition JOLIET_ESCAPE_OFFSET :: nat where "JOLIET_ESCAPE_OFFSET = 88"
definition EL_TORITO_ID :: bytes where
  "EL_TORITO_ID = [0x45, 0x4C, 0x20, 0x54, 0x4F, 0x52, 0x49, 0x54, 0x4F, 0x20, 0x53, 0x50, 0x45,
     0x43, 0x49, 0x46, 0x49, 0x43, 0x41, 0x54, 0x49, 0x4F, 0x4E]"
definition ET_CATALOG_PTR_OFFSET :: nat where "ET_CATALOG_PTR_OFFSET = 71"
definition ZISOFS_MAGIC :: bytes where
  "ZISOFS_MAGIC = [0x37, 0xE4, 0x53, 0x96, 0xC9, 0xDB, 0xD6, 0x07]"
definition MAX_VD_SCAN :: nat where "MAX_VD_SCAN = 64"
definition MAX_CONTINUATIONS :: nat where "MAX_CONTINUATIONS = 16"
definition ROOT_KEY :: "nat \<times> nat" where "ROOT_KEY = (2 ^ 32 - 1, 2 ^ 32 - 1)"
definition EXTENT_LBA_LE :: nat where "EXTENT_LBA_LE = 2"
definition DATA_LEN_LE :: nat where "DATA_LEN_LE = 10"
definition FILE_FLAGS :: nat where "FILE_FLAGS = 25"
definition LEN_FI :: nat where "LEN_FI = 32"
definition FILE_ID :: nat where "FILE_ID = 33"
definition FLAG_DIRECTORY :: byte where "FLAG_DIRECTORY = 0x02"
definition FLAG_MULTI_EXTENT :: byte where "FLAG_MULTI_EXTENT = 0x80"
definition MAX_EXTENTS :: nat where "MAX_EXTENTS = 4096"

record iso_inode =
  ii_key :: "nat \<times> nat"
  ii_lba :: nat
  ii_size :: nat
  ii_extents :: "(nat \<times> nat) list"
  ii_kind :: file_kind
  ii_link_target :: "bytes option"
  ii_zisofs :: "zisofs option"

record iso =
  is_src :: block_source
  is_block_size :: nat
  is_nodes :: "iso_inode list"
  is_by_record :: "(nat \<times> nat, node_id) btree"
  is_rock_ridge :: bool
  is_susp_skip :: nat
  is_joliet :: bool
  is_catalog_lba :: "nat option"

definition iso_le_u16 :: "bytes \<Rightarrow> nat \<Rightarrow> nat result" where
  "iso_le_u16 = le_field ''iso: truncated u16 field'' 2"

definition iso_le_u32 :: "bytes \<Rightarrow> nat \<Rightarrow> nat result" where
  "iso_le_u32 = le_field ''iso: truncated u32 field'' 4"

text \<open>Drop a \<^verbatim>\<open>;version\<close> suffix and one trailing dot.\<close>

definition strip_version :: "bytes \<Rightarrow> bytes" where
  "strip_version raw =
     (let base = hd (split_on 0x3B raw) in
      if base \<noteq> [] \<and> last base = 0x2E then butlast base else base)"

definition decode_name :: "bytes \<Rightarrow> bool \<Rightarrow> bytes result" where
  "decode_name fi is_dir =
     and_then (ok_or (from_utf8 fi) (InvalidPath ''iso: non-utf8 file id'')) (\<lambda>raw.
       Ok (if is_dir then raw else strip_version raw))"

definition decode_name_joliet :: "bytes \<Rightarrow> bool \<Rightarrow> bytes result" where
  "decode_name_joliet fi is_dir =
     and_then (ok_or (decode_utf16 (utf16be_units fi)) (InvalidPath ''iso: bad UTF-16 in joliet name'')) (\<lambda>cs.
       Ok (if is_dir then string_of_chars cs else strip_version (string_of_chars cs)))"

definition iso_intern :: "iso_inode \<Rightarrow> iso \<Rightarrow> node_id \<times> iso" where
  "iso_intern inode s =
     (case bm_get (is_by_record s) (ii_key inode) of
        Some n \<Rightarrow> (n, s)
      | None \<Rightarrow>
          let n = length (is_nodes s) in
          (n, s\<lparr>is_nodes := is_nodes s @ [inode], is_by_record := bm_insert (ii_key inode) n (is_by_record s)\<rparr>))"

definition iso_inode_of :: "iso \<Rightarrow> node_id \<Rightarrow> iso_inode result" where
  "iso_inode_of s node = ok_or (get_at (is_nodes s) node) NotFound"

definition read_dir_extent :: "iso \<Rightarrow> iso_inode \<Rightarrow> bytes result" where
  "read_dir_extent s inode =
     and_then (checked_full_read_len (ii_size inode)) (\<lambda>len.
     and_then (umul 64 (ii_lba inode) (is_block_size s)) (\<lambda>off.
       src_read (is_src s) off len))"

definition detect_susp :: "iso \<Rightarrow> iso_inode \<Rightarrow> nat option result" where
  "detect_susp s root =
     and_then (read_dir_extent s root) (\<lambda>buf.
       if buf = [] then Ok None
       else
         and_then (ok_or (get_range buf 0 (unat (buf ! 0))) (Corrupt ''iso: short root record'')) (\<lambda>record.
         and_then (ok_or (get_at record LEN_FI) (Corrupt ''iso: short root record'')) (\<lambda>fi_len.
           let pad = (if unat fi_len mod 2 = 0 then 1 else 0);
             su_start = FILE_ID + unat fi_len + pad;
             su = (case get_from record su_start of Some x \<Rightarrow> x | None \<Rightarrow> []) in
           Ok (detect_sp su))))"

text \<open>The chain of continuation areas; \<open>left\<close> more may be followed.\<close>

fun rr_continue :: "iso \<Rightarrow> nat \<Rightarrow> rr_parser \<times> continuation option \<Rightarrow> rr_info result" where
  "rr_continue s left (rp, None) = Ok (rr_finish rp)"
| "rr_continue s 0 (rp, Some ce) = Err (Corrupt ''iso: bad Rock Ridge continuation area'')"
| "rr_continue s (Suc left) (rp, Some ce) =
     (if ce_len ce = 0 \<or> ce_len ce > is_block_size s
      then Err (Corrupt ''iso: bad Rock Ridge continuation area'')
      else
        and_then (umul 64 (ce_block ce) (is_block_size s)) (\<lambda>b.
        and_then (uadd 64 b (ce_offset ce)) (\<lambda>at.
        and_then (uadd 64 at (ce_len ce)) (\<lambda>stop.
        if stop > src_len (is_src s)
        then Err (Corrupt ''iso: Rock Ridge continuation past the volume'')
        else and_then (src_read (is_src s) at (ce_len ce)) (\<lambda>area. rr_continue s left (rr_feed rp area))))))"

definition parse_rock_ridge :: "iso \<Rightarrow> bytes \<Rightarrow> rr_info result" where
  "parse_rock_ridge s su = rr_continue s MAX_CONTINUATIONS (rr_feed rr_parser_default su)"

definition first_fi :: "bytes \<Rightarrow> nat \<Rightarrow> bytes result" where
  "first_fi buf pos =
     and_then (ok_or (get_at buf pos) (Corrupt ''iso: short record'')) (\<lambda>len.
     and_then (ok_or (get_range buf pos (pos + unat len)) (Corrupt ''iso: directory record overruns extent'')) (\<lambda>record.
     and_then (ok_or (get_at record LEN_FI) (Corrupt ''iso: short record'')) (\<lambda>fi_len.
       ok_or (get_range record FILE_ID (FILE_ID + unat fi_len)) (Corrupt ''iso: file id overruns record''))))"

text \<open>The System Use area of a record, behind the volume's skip length.\<close>

definition record_rock_ridge :: "iso \<Rightarrow> bytes \<Rightarrow> nat \<Rightarrow> rr_info option result" where
  "record_rock_ridge s record fi_len =
     (if is_rock_ridge s then
        let pad = (if fi_len mod 2 = 0 then 1 else 0); su_start = FILE_ID + fi_len + pad in
        case get_from record su_start of
          Some su \<Rightarrow>
            and_then (parse_rock_ridge s (case get_from su (is_susp_skip s) of Some x \<Rightarrow> x | None \<Rightarrow> [])) (\<lambda>rr.
              Ok (Some rr))
        | None \<Rightarrow> Ok None
      else Ok None)"

text \<open>The entry of a record that starts a file or is a directory.\<close>

definition fresh_entry ::
  "iso \<Rightarrow> nat \<Rightarrow> nat \<Rightarrow> bytes \<Rightarrow> bytes \<Rightarrow> bool \<Rightarrow> nat \<Rightarrow> nat \<Rightarrow> (bytes \<times> iso_inode) result"
where
  "fresh_entry s dir_lba pos record fi is_dir lba sz =
     and_then (if is_joliet s then decode_name_joliet fi is_dir else decode_name fi is_dir) (\<lambda>base.
     and_then (record_rock_ridge s record (length fi)) (\<lambda>rr.
       let target = Option.bind rr rr_symlink_target in
       Ok (case Option.bind rr rr_name of Some n \<Rightarrow> n | None \<Rightarrow> base,
           \<lparr>ii_key = (dir_lba, pos), ii_lba = lba, ii_size = sz, ii_extents = [(lba, sz)],
            ii_kind = (if target \<noteq> None then Symlink else if is_dir then Directory else Regular),
            ii_link_target = target, ii_zisofs = Option.bind rr rr_zisofs\<rparr>)))"

type_synonym pending = "(bytes \<times> iso_inode) option"

text \<open>A record with a name: the next extent of the pending file, or an entry of its own.\<close>

definition scan_named ::
  "iso \<Rightarrow> nat \<Rightarrow> bytes \<Rightarrow> nat \<Rightarrow> bytes \<Rightarrow> pending \<Rightarrow> bytes \<Rightarrow> byte \<Rightarrow> nat \<Rightarrow> nat \<Rightarrow> (pending \<times> (bytes \<times> iso_inode) list) result"
where
  "scan_named s dir_lba buf pos record pend fi flags lba sz =
     (let is_dir = (flags AND FLAG_DIRECTORY \<noteq> 0); more = (flags AND FLAG_MULTI_EXTENT \<noteq> 0) in
     case pend of
       Some (first, inode) \<Rightarrow>
         and_then (if is_dir then Ok True else and_then (first_fi buf (snd (ii_key inode))) (\<lambda>f. Ok (fi \<noteq> f))) (\<lambda>broken.
         if broken then Err (Corrupt ''iso: broken multi-extent chain'')
         else if length (ii_extents inode) \<ge> MAX_EXTENTS then Err (Corrupt ''iso: too many extents'')
         else
           and_then (uadd 64 (ii_size inode) sz) (\<lambda>sum.
           let inode' = inode\<lparr>ii_extents := ii_extents inode @ [(lba, sz)], ii_size := sum\<rparr> in
           Ok (if more then (Some (first, inode'), []) else (None, [(first, inode')]))))
     | None \<Rightarrow>
         and_then (fresh_entry s dir_lba pos record fi is_dir lba sz) (\<lambda>e.
           Ok (if more \<and> \<not> is_dir then (Some e, []) else (None, [e]))))"

text \<open>
  One record that is no padding: what is pending after it, and the entry it completes, if any.
  \<open>record\<close> is \<^verbatim>\<open>rec\<close> of the source.
\<close>

definition scan_record ::
  "iso \<Rightarrow> nat \<Rightarrow> bytes \<Rightarrow> nat \<Rightarrow> bytes \<Rightarrow> pending \<Rightarrow> (pending \<times> (bytes \<times> iso_inode) list) result"
where
  "scan_record s dir_lba buf pos record pend =
     and_then (ok_or (get_at record LEN_FI) (Corrupt ''iso: short record'')) (\<lambda>fi_len.
     and_then (ok_or (get_range record FILE_ID (FILE_ID + unat fi_len)) (Corrupt ''iso: file id overruns record'')) (\<lambda>fi.
       if unat fi_len = 1 \<and> (fi ! 0 = 0x00 \<or> fi ! 0 = 0x01) then Ok (pend, [])
       else
         and_then (ok_or (get_at record FILE_FLAGS) (Corrupt ''iso: short flags'')) (\<lambda>flags.
         and_then (iso_le_u32 record EXTENT_LBA_LE) (\<lambda>lba.
         and_then (iso_le_u32 record DATA_LEN_LE) (\<lambda>sz.
           scan_named s dir_lba buf pos record pend fi flags lba sz)))))"

text \<open>
  The scan from a position. Division by a block size of zero panics; a mounted volume has none.
\<close>

function scan_entries ::
  "iso \<Rightarrow> nat \<Rightarrow> bytes \<Rightarrow> nat \<Rightarrow> pending \<Rightarrow> (bytes \<times> iso_inode) list result"
where
  "scan_entries s dir_lba buf pos pend =
     (let stop = (if pend \<noteq> None then Err (Corrupt ''iso: multi-extent file without its last record'') else Ok []) in
      if pos < length buf then
        let len = unat (buf ! pos) in
        if len = 0 then
          if is_block_size s = 0 then Panic DivideByZero
          else
            let nxt = (pos div is_block_size s + 1) * is_block_size s in
            if nxt \<le> pos then stop else scan_entries s dir_lba buf nxt pend
        else
          and_then (ok_or (get_range buf pos (pos + len)) (Corrupt ''iso: directory record overruns extent'')) (\<lambda>record.
          and_then (scan_record s dir_lba buf pos record pend) (\<lambda>x.
          and_then (scan_entries s dir_lba buf (pos + len) (fst x)) (\<lambda>rest. Ok (snd x @ rest))))
      else stop)"
  by pat_completeness auto
termination
  by (relation "measure (\<lambda>(s, dir_lba, buf, pos, pend). length buf - pos)") auto

declare scan_entries.simps [simp del]

lemma scan_entries_stop:
  "length buf \<le> pos \<Longrightarrow> scan_entries s dir_lba buf pos pend =
     (if pend \<noteq> None then Err (Corrupt ''iso: multi-extent file without its last record'') else Ok [])"
  by (subst scan_entries.simps) (simp add: Let_def)

lemma scan_entries_pad:
  assumes "pos < length buf" and "unat (buf ! pos) = 0"
  shows "scan_entries s dir_lba buf pos pend =
    (if is_block_size s = 0 then Panic DivideByZero
     else scan_entries s dir_lba buf ((pos div is_block_size s + 1) * is_block_size s) pend)"
proof (cases "is_block_size s = 0")
  case False
  then have "pos < (pos div is_block_size s + 1) * is_block_size s"
    using dividend_less_div_times [of "is_block_size s" pos] by (simp add: algebra_simps)
  with assms False show ?thesis by (subst scan_entries.simps) (simp add: Let_def)
qed (use assms in \<open>subst scan_entries.simps, simp add: Let_def\<close>)

lemma scan_entries_record:
  assumes "pos < length buf" and "unat (buf ! pos) \<noteq> 0"
  shows "scan_entries s dir_lba buf pos pend =
    and_then (ok_or (get_range buf pos (pos + unat (buf ! pos))) (Corrupt ''iso: directory record overruns extent'')) (\<lambda>record.
    and_then (scan_record s dir_lba buf pos record pend) (\<lambda>x.
    and_then (scan_entries s dir_lba buf (pos + unat (buf ! pos)) (fst x)) (\<lambda>rest. Ok (snd x @ rest))))"
  using assms by (subst scan_entries.simps) (simp add: Let_def)

definition for_each_entry :: "iso \<Rightarrow> iso_inode \<Rightarrow> (bytes \<times> iso_inode) list result" where
  "for_each_entry s dir =
     and_then (read_dir_extent s dir) (\<lambda>buf. scan_entries s (ii_lba dir) buf 0 None)"



section \<open>Bounds\<close>

definition inode_ok :: "iso_inode \<Rightarrow> bool" where
  "inode_ok i \<longleftrightarrow>
     ii_lba i < 2 ^ 32 \<and> length (ii_extents i) \<le> MAX_EXTENTS \<and>
     (\<forall>(l, n) \<in> set (ii_extents i). l < 2 ^ 32 \<and> n < 2 ^ 32) \<and>
     ii_size i = sum_list (map snd (ii_extents i)) \<and>
     (\<forall>z. ii_zisofs i = Some z \<longrightarrow> zf_uncompressed_size z < 2 ^ 32) \<and>
     (ii_kind i = Symlink \<longleftrightarrow> ii_link_target i \<noteq> None)"

text \<open>The parts of a mounted volume that no operation changes.\<close>

definition iso_static_ok :: "iso \<Rightarrow> bool" where
  "iso_static_ok s \<longleftrightarrow>
     sound_source (is_src s) \<and> 0 < is_block_size s \<and> is_block_size s < 2 ^ 16 \<and>
     (\<forall>lba. is_catalog_lba s = Some lba \<longrightarrow> lba < 2 ^ 32)"

lemma iso_le_u32_less: "iso_le_u32 b i = Ok v \<Longrightarrow> v < 2 ^ 32"
  using le_field_less [of _ 4] by (fastforce simp: iso_le_u32_def)

lemma no_panic_iso_le [no_panic_simps, simp]: "no_panic (iso_le_u16 b i)" "no_panic (iso_le_u32 b i)"
  by (simp_all add: iso_le_u16_def iso_le_u32_def)

lemma block_mult_less:
  assumes "a < 2 ^ 32" and "b < 2 ^ 16"
  shows "a * b < (2 ^ 48 :: nat)"
proof -
  have "a * b \<le> (2 ^ 32 - 1) * (2 ^ 16 - 1)" using assms by (intro mult_le_mono) auto
  also have "\<dots> < (2 ^ 48 :: nat)" by simp
  finally show ?thesis .
qed

lemma no_panic_block_mult: "a < 2 ^ 32 \<Longrightarrow> b < 2 ^ 16 \<Longrightarrow> no_panic (umul 64 a b)"
  using block_mult_less [of a b] by (simp add: no_panic_arith)

lemma no_panic_read_dir_extent:
  "iso_static_ok s \<Longrightarrow> ii_lba i < 2 ^ 32 \<Longrightarrow> no_panic (read_dir_extent s i)"
  by (simp add: read_dir_extent_def iso_static_ok_def no_panic_simps block_mult_less [THEN less_trans])

lemma rr_continue_ok:
  assumes "iso_static_ok s" and "rr_widths st"
  shows "no_panic (rr_continue s left st)"
    and "rr_continue s left st = Ok info \<Longrightarrow> (\<forall>z. rr_zisofs info = Some z \<longrightarrow> zf_uncompressed_size z < 2 ^ 32)"
proof -
  have "no_panic (rr_continue s left st) \<and>
    (\<forall>info. rr_continue s left st = Ok info \<longrightarrow> (\<forall>z. rr_zisofs info = Some z \<longrightarrow> zf_uncompressed_size z < 2 ^ 32))"
    using assms
  proof (induction s left st rule: rr_continue.induct)
    case (1 s left rp)
    then show ?case by (simp add: rr_widths_def)
  next
    case (3 s left rp ce)
    then have w: "ce_block ce < 2 ^ 32" "ce_offset ce < 2 ^ 32" "ce_len ce < 2 ^ 32" by (simp_all add: rr_widths_def)
    have bs: "is_block_size s < 2 ^ 16" and src: "sound_source (is_src s)"
      using "3.prems"(1) by (simp_all add: iso_static_ok_def)
    have p: "ce_block ce * is_block_size s < 2 ^ 48" using block_mult_less [OF w(1) bs] .
    then have sums: "umul 64 (ce_block ce) (is_block_size s) = Ok (ce_block ce * is_block_size s)"
      "uadd 64 (ce_block ce * is_block_size s) (ce_offset ce) = Ok (ce_block ce * is_block_size s + ce_offset ce)"
      "uadd 64 (ce_block ce * is_block_size s + ce_offset ce) (ce_len ce) =
        Ok (ce_block ce * is_block_size s + ce_offset ce + ce_len ce)"
      using w(2,3) by (simp_all add: uadd_def umul_def)
    have "rr_widths (rr_feed rp area)" for area using rr_feed_widths' "3.prems"(2) by blast
    with "3.IH" "3.prems"(1) sums src show ?case
      by (auto simp: no_panic_simps and_then_eq_Ok)
  qed simp
  then show "no_panic (rr_continue s left st)"
    and "rr_continue s left st = Ok info \<Longrightarrow> (\<forall>z. rr_zisofs info = Some z \<longrightarrow> zf_uncompressed_size z < 2 ^ 32)"
    by blast+
qed

lemma record_rock_ridge_ok:
  assumes "iso_static_ok s"
  shows "no_panic (record_rock_ridge s record n)"
    and "record_rock_ridge s record n = Ok (Some info) \<Longrightarrow> rr_zisofs info = Some z \<Longrightarrow> zf_uncompressed_size z < 2 ^ 32"
  using rr_continue_ok [OF assms rr_feed_widths [OF rr_widths_default]]
  by (auto simp: record_rock_ridge_def parse_rock_ridge_def Let_def no_panic_simps and_then_eq_Ok split: option.splits if_splits)

lemma no_panic_names [no_panic_simps, simp]:
  "no_panic (decode_name fi d)" "no_panic (decode_name_joliet fi d)" "no_panic (first_fi buf pos)"
  by (simp_all add: decode_name_def decode_name_joliet_def first_fi_def no_panic_simps)

lemma fresh_entry_ok:
  assumes "iso_static_ok s" and "lba < 2 ^ 32" and "sz < 2 ^ 32"
  shows "no_panic (fresh_entry s dir_lba pos record fi is_dir lba sz)"
    and "fresh_entry s dir_lba pos record fi is_dir lba sz = Ok e \<Longrightarrow> inode_ok (snd e) \<and> ii_key (snd e) = (dir_lba, pos)"
proof -
  show "no_panic (fresh_entry s dir_lba pos record fi is_dir lba sz)"
    using record_rock_ridge_ok(1) [OF assms(1)] by (simp add: fresh_entry_def no_panic_simps Let_def)
  assume "fresh_entry s dir_lba pos record fi is_dir lba sz = Ok e"
  then obtain rr where rr: "record_rock_ridge s record (length fi) = Ok rr"
    and e: "ii_lba (snd e) = lba" "ii_size (snd e) = sz" "ii_extents (snd e) = [(lba, sz)]"
      "ii_zisofs (snd e) = Option.bind rr rr_zisofs" "ii_link_target (snd e) = Option.bind rr rr_symlink_target"
      "ii_kind (snd e) = (if Option.bind rr rr_symlink_target \<noteq> None then Symlink else if is_dir then Directory else Regular)"
      "ii_key (snd e) = (dir_lba, pos)"
    by (auto simp: fresh_entry_def and_then_eq_Ok Let_def)
  have "zf_uncompressed_size z < 2 ^ 32" if "Option.bind rr rr_zisofs = Some z" for z
    using that rr record_rock_ridge_ok(2) [OF assms(1)] by (cases rr) auto
  with e assms(2,3) show "inode_ok (snd e) \<and> ii_key (snd e) = (dir_lba, pos)"
    by (simp add: inode_ok_def MAX_EXTENTS_def)
qed



section \<open>The scan of a directory\<close>

text \<open>The entries of a scan come from the record where a file starts; the pending one is behind \<open>pos\<close>.\<close>

definition pend_ok :: "nat \<Rightarrow> nat \<Rightarrow> pending \<Rightarrow> bool" where
  "pend_ok dir_lba pos pend \<longleftrightarrow>
     (case pend of None \<Rightarrow> True | Some e \<Rightarrow> inode_ok (snd e) \<and> fst (ii_key (snd e)) = dir_lba \<and> snd (ii_key (snd e)) < pos)"

definition entry_start :: "pending \<Rightarrow> nat \<Rightarrow> nat" where
  "entry_start pend pos = (case pend of None \<Rightarrow> pos | Some e \<Rightarrow> snd (ii_key (snd e)))"

lemma entry_start_le: "pend_ok dir_lba pos pend \<Longrightarrow> entry_start pend pos \<le> pos"
  by (auto simp: pend_ok_def entry_start_def split: option.splits)

lemma extend_inode_ok:
  assumes "inode_ok i" and "length (ii_extents i) < MAX_EXTENTS" and "lba < 2 ^ 32" and "sz < 2 ^ 32"
  shows "ii_size i + sz < 2 ^ 64"
    and "inode_ok (i\<lparr>ii_extents := ii_extents i @ [(lba, sz)], ii_size := ii_size i + sz\<rparr>)"
proof -
  have ex: "\<forall>(l, n) \<in> set (ii_extents i). n < 2 ^ 32" and sz: "ii_size i = sum_list (map snd (ii_extents i))"
    using assms(1) by (auto simp: inode_ok_def)
  have "sum_list (map snd (ii_extents i)) \<le> length (ii_extents i) * 2 ^ 32"
    using sum_list_mono [of "ii_extents i" snd "\<lambda>_. 2 ^ 32"] ex by (force simp: sum_list_triv)
  also have "\<dots> \<le> MAX_EXTENTS * 2 ^ 32" using assms(2) by simp
  finally have "ii_size i \<le> 2 ^ 44" by (simp add: sz MAX_EXTENTS_def)
  with assms(4) show "ii_size i + sz < 2 ^ 64" by simp
  show "inode_ok (i\<lparr>ii_extents := ii_extents i @ [(lba, sz)], ii_size := ii_size i + sz\<rparr>)"
    using assms by (auto simp: inode_ok_def)
qed

text \<open>What a record leaves: nothing new, a pending entry, or a finished one.\<close>

definition scan_step_ok :: "nat \<Rightarrow> nat \<Rightarrow> pending \<times> (bytes \<times> iso_inode) list \<Rightarrow> bool" where
  "scan_step_ok dir_lba start x \<longleftrightarrow>
     (case x of
        (None, out) \<Rightarrow> out = [] \<or> (\<exists>e. out = [e] \<and> inode_ok (snd e) \<and> ii_key (snd e) = (dir_lba, start))
      | (Some e, out) \<Rightarrow> out = [] \<and> inode_ok (snd e) \<and> ii_key (snd e) = (dir_lba, start))"

lemma scan_record_cases [consumes 1, case_names skip fresh more]:
  assumes "scan_record s dir_lba buf pos record pend = Ok x"
  obtains (skip) "x = (pend, [])"
    | (fresh) lba sz fi is_dir e where "pend = None"
        "iso_le_u32 record EXTENT_LBA_LE = Ok lba" "iso_le_u32 record DATA_LEN_LE = Ok sz"
        "fresh_entry s dir_lba pos record fi is_dir lba sz = Ok e" "x = (Some e, []) \<or> x = (None, [e])"
    | (more) first i lba sz i' where "pend = Some (first, i)"
        "iso_le_u32 record EXTENT_LBA_LE = Ok lba" "iso_le_u32 record DATA_LEN_LE = Ok sz"
        "length (ii_extents i) < MAX_EXTENTS"
        "i' = i\<lparr>ii_extents := ii_extents i @ [(lba, sz)], ii_size := ii_size i + sz\<rparr>"
        "x = (Some (first, i'), []) \<or> x = (None, [(first, i')])"
proof (cases "x = (pend, [])")
  case False
  with assms obtain fi flags lba sz where
    f: "iso_le_u32 record EXTENT_LBA_LE = Ok lba" "iso_le_u32 record DATA_LEN_LE = Ok sz"
    and b: "scan_named s dir_lba buf pos record pend fi flags lba sz = Ok x"
    unfolding scan_record_def and_then_eq_Ok by (auto simp: and_then_eq_Ok split: if_split_asm)
  show thesis
  proof (cases pend)
    case None
    with b obtain e where "fresh_entry s dir_lba pos record fi (flags AND FLAG_DIRECTORY \<noteq> 0) lba sz = Ok e"
      "x = (Some e, []) \<or> x = (None, [e])"
      by (auto simp: scan_named_def Let_def and_then_eq_Ok split: if_split_asm)
    with None f that(2) show thesis by blast
  next
    case (Some e)
    obtain first i where e: "e = (first, i)" by fastforce
    let ?i = "i\<lparr>ii_extents := ii_extents i @ [(lba, sz)], ii_size := ii_size i + sz\<rparr>"
    from b Some e have "length (ii_extents i) < MAX_EXTENTS" "x = (Some (first, ?i), []) \<or> x = (None, [(first, ?i)])"
      by (auto simp: scan_named_def Let_def and_then_eq_Ok uadd_eq_Ok not_le split: if_split_asm)
    with Some e f that(3) show thesis by blast
  qed
qed (use that in blast)

lemma scan_record_ok:
  assumes st: "iso_static_ok s" and pd: "pend_ok dir_lba pos pend"
  shows "no_panic (scan_record s dir_lba buf pos record pend)"
    and "scan_record s dir_lba buf pos record pend = Ok x \<Longrightarrow> scan_step_ok dir_lba (entry_start pend pos) x"
proof -
  note w = iso_le_u32_less
  show "no_panic (scan_record s dir_lba buf pos record pend)"
  proof (cases pend)
    case None
    then show ?thesis
      using fresh_entry_ok(1) [OF st] w by (auto simp: scan_record_def scan_named_def no_panic_simps Let_def)
  next
    case (Some e)
    obtain first i where e: "e = (first, i)" by fastforce
    have "inode_ok i" using pd Some e by (simp add: pend_ok_def)
    then have "ii_size i + sz < 2 ^ 64" if "iso_le_u32 record a = Ok lba" "iso_le_u32 record b = Ok sz"
        "length (ii_extents i) < MAX_EXTENTS" for a b lba sz
      using extend_inode_ok(1) w that by blast
    then show ?thesis using Some e
      by (auto simp: scan_record_def scan_named_def no_panic_simps Let_def not_le)
  qed
  assume "scan_record s dir_lba buf pos record pend = Ok x"
  then show "scan_step_ok dir_lba (entry_start pend pos) x"
  proof (cases rule: scan_record_cases)
    case skip
    then show ?thesis using pd
      by (auto simp: scan_step_ok_def pend_ok_def entry_start_def prod_eq_iff split: option.splits)
  next
    case (fresh lba sz fi is_dir e)
    have "inode_ok (snd e) \<and> ii_key (snd e) = (dir_lba, pos)"
      using fresh_entry_ok(2) [OF st w [OF fresh(2)] w [OF fresh(3)] fresh(4)] .
    then show ?thesis using fresh(1,5) by (auto simp: scan_step_ok_def entry_start_def)
  next
    case (more first i lba sz i')
    have i: "inode_ok i" "fst (ii_key i) = dir_lba" "entry_start pend pos = snd (ii_key i)"
      using pd more(1) by (simp_all add: pend_ok_def entry_start_def)
    have "inode_ok i'" using extend_inode_ok(2) [OF i(1) more(4) w w] more(2,3,5) by blast
    then show ?thesis using more(5,6) i by (auto simp: scan_step_ok_def prod_eq_iff)
  qed
qed

lemma scan_step_pend:
  assumes "scan_step_ok dir_lba start x" and "start \<le> pos" and "pos < pos'"
  shows "pend_ok dir_lba pos' (fst x)" and "start \<le> entry_start (fst x) pos'"
    and "\<forall>e \<in> set (snd x). start < entry_start (fst x) pos'"
  using assms by (auto simp: scan_step_ok_def pend_ok_def entry_start_def split: prod.splits option.splits)

lemma scan_entries_ok:
  assumes "iso_static_ok s" and "pend_ok dir_lba pos pend"
  shows "no_panic (scan_entries s dir_lba buf pos pend) \<and>
    (\<forall>es. scan_entries s dir_lba buf pos pend = Ok es \<longrightarrow>
       (\<forall>e \<in> set es. inode_ok (snd e) \<and> fst (ii_key (snd e)) = dir_lba \<and>
          entry_start pend pos \<le> snd (ii_key (snd e)) \<and> snd (ii_key (snd e)) < length buf) \<and>
       sorted_wrt (<) (map (\<lambda>e. snd (ii_key (snd e))) es))"
  using assms
proof (induction s dir_lba buf pos pend rule: scan_entries.induct)
  case (1 s dir_lba buf pos pend)
  let ?len = "unat (buf ! pos)" and ?bs = "is_block_size s"
  let ?nxt = "(pos div ?bs + 1) * ?bs"
  consider (stop) "length buf \<le> pos" | (pad) "pos < length buf" "?len = 0" | (rec) "pos < length buf" "?len \<noteq> 0"
    by linarith
  then show ?case
  proof cases
    case stop
    then show ?thesis by (simp add: scan_entries_stop)
  next
    case pad
    have bs: "?bs \<noteq> 0" using "1.prems"(1) by (simp add: iso_static_ok_def)
    have nx: "pos < ?nxt" using bs dividend_less_div_times [of ?bs pos] by (simp add: algebra_simps)
    have "pend_ok dir_lba ?nxt pend" "entry_start pend pos \<le> entry_start pend ?nxt"
      using "1.prems"(2) nx by (auto simp: pend_ok_def entry_start_def split: option.splits)
    with "1.IH"(1) [OF refl pad(1) refl pad(2) bs refl] nx "1.prems"(1) pad bs show ?thesis
      unfolding scan_entries_pad [OF pad] by fastforce
  next
    case rec
    let ?r = "slice buf pos (pos + ?len)"
    note sr = scan_record_ok [OF "1.prems"]
    have IH: "no_panic (scan_entries s dir_lba buf (pos + ?len) (fst x)) \<and>
      (\<forall>es. scan_entries s dir_lba buf (pos + ?len) (fst x) = Ok es \<longrightarrow>
        (\<forall>e \<in> set es. inode_ok (snd e) \<and> fst (ii_key (snd e)) = dir_lba \<and>
          entry_start (fst x) (pos + ?len) \<le> snd (ii_key (snd e)) \<and> snd (ii_key (snd e)) < length buf) \<and>
        sorted_wrt (<) (map (\<lambda>e. snd (ii_key (snd e))) es))"
      if "pos + ?len \<le> length buf" "scan_record s dir_lba buf pos ?r pend = Ok x" for x
      using "1.IH"(2) [OF refl rec(1) refl rec(2), of ?r x] that "1.prems"(1) rec(2)
        scan_step_pend(1) [OF sr(2) [OF that(2)] entry_start_le [OF "1.prems"(2)], of "pos + ?len"]
      by (simp add: get_range_def)
    have fin: "(\<forall>e \<in> set (snd x @ es). inode_ok (snd e) \<and> fst (ii_key (snd e)) = dir_lba \<and>
          entry_start pend pos \<le> snd (ii_key (snd e)) \<and> snd (ii_key (snd e)) < length buf) \<and>
        sorted_wrt (<) (map (\<lambda>e. snd (ii_key (snd e))) (snd x @ es))"
      if "pos + ?len \<le> length buf" "scan_record s dir_lba buf pos ?r pend = Ok x"
        "scan_entries s dir_lba buf (pos + ?len) (fst x) = Ok es" for x es
    proof -
      note st = sr(2) [OF that(2)]
      note pn = scan_step_pend [OF st entry_start_le [OF "1.prems"(2)], of "pos + ?len"]
      note ih = IH [OF that(1,2), THEN conjunct2, rule_format, OF that(3)]
      have out: "inode_ok (snd e) \<and> ii_key (snd e) = (dir_lba, entry_start pend pos)" if "e \<in> set (snd x)" for e
        using st that by (auto simp: scan_step_ok_def split: prod.splits option.splits)
      have "length (snd x) \<le> 1" using st by (auto simp: scan_step_ok_def split: prod.splits option.splits)
      then have "sorted_wrt (<) (map (\<lambda>e. snd (ii_key (snd e))) (snd x))"
        by (cases "snd x") auto
      moreover have "snd (ii_key (snd e)) < snd (ii_key (snd e'))" if "e \<in> set (snd x)" "e' \<in> set es" for e e'
        using out [OF that(1)] pn(3) that ih rec(2) by fastforce
      ultimately show ?thesis
        using ih out pn(2) rec(2) entry_start_le [OF "1.prems"(2)] rec(1)
        by (fastforce simp: sorted_wrt_append)
    qed
    have eq: "scan_entries s dir_lba buf pos pend =
        and_then (ok_or (get_range buf pos (pos + ?len)) (Corrupt ''iso: directory record overruns extent'')) (\<lambda>record.
        and_then (scan_record s dir_lba buf pos record pend) (\<lambda>x.
        and_then (scan_entries s dir_lba buf (pos + ?len) (fst x)) (\<lambda>rest. Ok (snd x @ rest))))"
      using rec by (rule scan_entries_record)
    show ?thesis
    proof (cases "pos + ?len \<le> length buf")
      case True
      then have eq1: "scan_entries s dir_lba buf pos pend =
          and_then (scan_record s dir_lba buf pos ?r pend) (\<lambda>x.
          and_then (scan_entries s dir_lba buf (pos + ?len) (fst x)) (\<lambda>rest. Ok (snd x @ rest)))"
        using eq by (simp add: get_range_def)
      show ?thesis
      proof (cases "scan_record s dir_lba buf pos ?r pend")
        case (Ok x)
        show ?thesis
        proof (cases "scan_entries s dir_lba buf (pos + ?len) (fst x)")
          case (Ok es)
          then show ?thesis using fin [OF True \<open>scan_record s dir_lba buf pos ?r pend = Ok x\<close> Ok] eq1
              \<open>scan_record s dir_lba buf pos ?r pend = Ok x\<close> by simp
        qed (use IH [OF True Ok] eq1 Ok in simp_all)
      qed (use sr(1) [of buf ?r] eq1 in simp_all)
    next
      case False
      then show ?thesis unfolding eq by (simp add: get_range_def)
    qed
  qed
qed



section \<open>A record names one inode\<close>

text \<open>
  Two directories of the same extent and different lengths list the same entries as far as the
  shorter one goes, so the pair of extent and record offset determines the inode.
\<close>

lemma get_range_take: "get_range (take n buf) a b = Some x \<Longrightarrow> get_range buf a b = Some x"
  by (auto simp: get_range_def slice_def drop_take min_def split: if_splits)

lemma get_at_take: "get_at (take n buf) i = Some x \<Longrightarrow> get_at buf i = Some x"
  by (auto simp: get_at_def split: if_splits)

lemma first_fi_take: "first_fi (take n buf) pos = Ok fi \<Longrightarrow> first_fi buf pos = Ok fi"
  by (auto simp: first_fi_def and_then_eq_Ok ok_or_eq_Ok dest!: get_range_take get_at_take)

lemma scan_named_take:
  assumes "scan_named s dir_lba (take n buf) pos record pend fi flags lba sz = Ok x"
  shows "scan_named s dir_lba buf pos record pend fi flags lba sz = Ok x"
proof (cases pend)
  case (Some e)
  obtain first i where e: "e = (first, i)" by fastforce
  show ?thesis
  proof (cases "first_fi (take n buf) (snd (ii_key i))")
    case (Ok f)
    then show ?thesis using assms Some e first_fi_take [OF Ok]
      by (simp add: scan_named_def Let_def split: if_split_asm)
  qed (use assms Some e in \<open>auto simp: scan_named_def Let_def split: if_split_asm\<close>)
qed (use assms in \<open>simp add: scan_named_def\<close>)

lemma scan_record_take:
  "scan_record s dir_lba (take n buf) pos record pend = Ok x \<Longrightarrow> scan_record s dir_lba buf pos record pend = Ok x"
  by (auto simp: scan_record_def and_then_eq_Ok split: if_split_asm dest!: scan_named_take)

lemma scan_entries_take:
  assumes "scan_entries s dir_lba (take n buf) pos pend = Ok es" and "scan_entries s dir_lba buf pos pend = Ok es'"
  shows "\<exists>rest. es' = es @ rest"
  using assms
proof (induction "length buf - pos" arbitrary: pos pend es es' rule: less_induct)
  case less
  let ?b1 = "take n buf" and ?len = "unat (buf ! pos)" and ?bs = "is_block_size s"
  let ?nxt = "(pos div ?bs + 1) * ?bs"
  consider (stop) "length ?b1 \<le> pos" | (pad) "pos < length ?b1" "?len = 0" | (rec) "pos < length ?b1" "?len \<noteq> 0"
    by linarith
  then show ?case
  proof cases
    case stop
    then show ?thesis using less.prems(1) by (auto simp: scan_entries_stop split: if_splits)
  next
    case pad
    then have p: "pos < length buf" "take n buf ! pos = buf ! pos" by simp_all
    have eq: "scan_entries s dir_lba ?b1 pos pend = (if ?bs = 0 then Panic DivideByZero else scan_entries s dir_lba ?b1 ?nxt pend)"
      "scan_entries s dir_lba buf pos pend = (if ?bs = 0 then Panic DivideByZero else scan_entries s dir_lba buf ?nxt pend)"
      using pad p by (simp_all add: scan_entries_pad)
    with less.prems(1) have bs: "?bs \<noteq> 0" by (cases "?bs = 0") simp_all
    have nx: "pos < ?nxt" using bs dividend_less_div_times [of ?bs pos] by (simp add: algebra_simps)
    have "scan_entries s dir_lba ?b1 ?nxt pend = Ok es" "scan_entries s dir_lba buf ?nxt pend = Ok es'"
      using less.prems eq bs by simp_all
    moreover have "length buf - ?nxt < length buf - pos" using nx p by linarith
    ultimately show ?thesis using less.hyps by blast
  next
    case rec
    then have p: "pos < length buf" "take n buf ! pos = buf ! pos" by simp_all
    have "\<exists>r x es1. get_range ?b1 pos (pos + ?len) = Some r \<and> scan_record s dir_lba ?b1 pos r pend = Ok x \<and>
        scan_entries s dir_lba ?b1 (pos + ?len) (fst x) = Ok es1 \<and> es = snd x @ es1"
    proof -
      have "unat (?b1 ! pos) \<noteq> 0" using p rec(2) by simp
      from less.prems(1) [unfolded scan_entries_record [OF rec(1) this] and_then_eq_Ok ok_or_eq_Ok] p(2)
      show ?thesis by (metis result.inject(1))
    qed
    then obtain r x es1 where 1: "get_range ?b1 pos (pos + ?len) = Some r"
      "scan_record s dir_lba ?b1 pos r pend = Ok x" "scan_entries s dir_lba ?b1 (pos + ?len) (fst x) = Ok es1"
      "es = snd x @ es1" by blast
    have "\<exists>es2. scan_entries s dir_lba buf (pos + ?len) (fst x) = Ok es2 \<and> es' = snd x @ es2"
      using less.prems(2) [unfolded scan_entries_record [OF p(1) rec(2)] get_range_take [OF 1(1)]]
        scan_record_take [OF 1(2)]
      by (simp add: and_then_eq_Ok) (metis result.inject(1))
    then obtain es2 where 2: "scan_entries s dir_lba buf (pos + ?len) (fst x) = Ok es2" "es' = snd x @ es2" by blast
    have "length buf - (pos + ?len) < length buf - pos" using rec p by simp
    from less.hyps [OF this 1(3) 2(1)] 1(4) 2(2) show ?thesis by auto
  qed
qed

lemma for_each_entry_ok:
  assumes "iso_static_ok s" and "ii_lba dir < 2 ^ 32"
  shows "no_panic (for_each_entry s dir)"
    and "for_each_entry s dir = Ok es \<Longrightarrow> e \<in> set es \<Longrightarrow>
      inode_ok (snd e) \<and> fst (ii_key (snd e)) = ii_lba dir \<and> ii_key (snd e) \<noteq> ROOT_KEY"
    and "for_each_entry s dir = Ok es \<Longrightarrow> distinct (map (\<lambda>e. ii_key (snd e)) es)"
proof -
  note sc = scan_entries_ok [OF assms(1), of "ii_lba dir" 0 None]
  have po: "pend_ok (ii_lba dir) 0 None" by (simp add: pend_ok_def)
  show "no_panic (for_each_entry s dir)"
    using no_panic_read_dir_extent [OF assms] sc [OF po] by (simp add: for_each_entry_def no_panic_simps)
  have src: "sound_source (is_src s)" using assms(1) by (simp add: iso_static_ok_def)
  assume "for_each_entry s dir = Ok es"
  then obtain buf where buf: "read_dir_extent s dir = Ok buf" "scan_entries s (ii_lba dir) buf 0 None = Ok es"
    by (auto simp: for_each_entry_def and_then_eq_Ok)
  have "length buf \<le> MAX_BOOT_FILE_BYTES"
    using buf(1) src_read_fills [OF src] by (auto simp: read_dir_extent_def and_then_eq_Ok checked_full_read_len_eq_Ok)
  then have len: "length buf < 2 ^ 32 - 1" by (simp add: MAX_BOOT_FILE_BYTES_def)
  show "inode_ok (snd e) \<and> fst (ii_key (snd e)) = ii_lba dir \<and> ii_key (snd e) \<noteq> ROOT_KEY" if "e \<in> set es"
    using sc [OF po, THEN conjunct2, rule_format, OF buf(2)] that len by (force simp: ROOT_KEY_def prod_eq_iff)
  have "distinct (map (\<lambda>e. snd (ii_key (snd e))) es)"
    using sc [OF po, THEN conjunct2, rule_format, OF buf(2)] by (simp add: strict_sorted_iff)
  then show "distinct (map (\<lambda>e. ii_key (snd e)) es)"
    by (auto simp: distinct_map inj_on_def)
qed

lemma for_each_entry_unique:
  assumes st: "iso_static_ok s" and "ii_lba d1 < 2 ^ 32" and "ii_lba d1 = ii_lba d2"
    and "for_each_entry s d1 = Ok es1" and "for_each_entry s d2 = Ok es2"
    and "e1 \<in> set es1" and "e2 \<in> set es2" and "ii_key (snd e1) = ii_key (snd e2)"
  shows "e1 = e2"
proof -
  have src: "sound_source (is_src s)" using st by (simp add: iso_static_ok_def)
  let ?off = "ii_lba d1 * is_block_size s"
  obtain b1 b2 where b: "src_read (is_src s) ?off (ii_size d1) = Ok b1" "scan_entries s (ii_lba d1) b1 0 None = Ok es1"
      "src_read (is_src s) ?off (ii_size d2) = Ok b2" "scan_entries s (ii_lba d1) b2 0 None = Ok es2"
    using assms(3-5) by (auto simp: for_each_entry_def read_dir_extent_def and_then_eq_Ok checked_full_read_len_eq_Ok umul_eq_Ok)
  have pre: "b = take (length b) b'" if "src_read (is_src s) ?off (ii_size d) = Ok b"
      "src_read (is_src s) ?off (ii_size d') = Ok b'" "ii_size d \<le> ii_size d'" for b b' d d'
    using medium.read_prefix [OF sound_source_medium [OF src] that(2,3)] that(1) src_read_fills [OF src that(1)] by simp
  have key: "distinct (map (\<lambda>e. ii_key (snd e)) es1)" "distinct (map (\<lambda>e. ii_key (snd e)) es2)"
    using for_each_entry_ok(3) [OF st] assms(2-5) by metis+
  have inj: "x = y" if "distinct (map (\<lambda>e. ii_key (snd e)) es)" "x \<in> set es" "y \<in> set es"
      "ii_key (snd x) = ii_key (snd y)" for x y and es :: "(bytes \<times> iso_inode) list"
    using that by (auto simp: distinct_map inj_on_def)
  show ?thesis
  proof (cases "ii_size d1 \<le> ii_size d2")
    case True
    then have "b1 = take (length b1) b2" using pre b(1,3) by blast
    then have "\<exists>rest. es2 = es1 @ rest" using scan_entries_take [of s "ii_lba d1" "length b1" b2] b(2,4) by metis
    then have "e1 \<in> set es2" using assms(6) by auto
    then show ?thesis using inj [OF key(2) _ assms(7,8)] by blast
  next
    case False
    then have "b2 = take (length b2) b1" using pre b(1,3) nat_le_linear by blast
    then have "\<exists>rest. es1 = es2 @ rest" using scan_entries_take [of s "ii_lba d1" "length b2" b1] b(2,4) by metis
    then have "e2 \<in> set es1" using assms(7) by auto
    then show ?thesis using inj [OF key(1) assms(6) _ assms(8)] by blast
  qed
qed


section \<open>Interning\<close>

text \<open>
  What the medium says of a key: the root's inode, which is the first that is interned, or the
  inode of an entry of some directory at the key's extent.
\<close>

definition iso_good :: "iso \<Rightarrow> nat \<times> nat \<Rightarrow> iso_inode \<Rightarrow> bool" where
  "iso_good s k v \<longleftrightarrow>
     ii_key v = k \<and>
     (if k = ROOT_KEY then is_nodes s \<noteq> [] \<and> v = is_nodes s ! 0
      else \<exists>dir es name. ii_lba dir = fst k \<and> ii_lba dir < 2 ^ 32 \<and> for_each_entry s dir = Ok es \<and> (name, v) \<in> set es)"

definition iso_base :: "iso \<Rightarrow> bool" where
  "iso_base s \<longleftrightarrow> iso_static_ok s \<and> is_nodes s \<noteq> [] \<and> ii_key (is_nodes s ! 0) = ROOT_KEY \<and>
     inode_ok (is_nodes s ! 0)"

lemma scan_entries_nodes:
  "scan_entries (s\<lparr>is_nodes := ns, is_by_record := br\<rparr>) dir_lba buf pos pend = scan_entries s dir_lba buf pos pend"
proof -
  let ?s = "s\<lparr>is_nodes := ns, is_by_record := br\<rparr>"
  have rr: "rr_continue ?s n st = rr_continue s n st" for n st
    by (induction s n st rule: rr_continue.induct) (auto intro!: and_then_cong)
  have "parse_rock_ridge ?s = parse_rock_ridge s" by (intro ext) (simp add: parse_rock_ridge_def rr)
  then have "record_rock_ridge ?s r n = record_rock_ridge s r n" for r n
    by (simp add: record_rock_ridge_def Let_def split: option.splits)
  then have fe: "fresh_entry ?s a b c d e f g = fresh_entry s a b c d e f g" for a b c d e f g
    by (simp add: fresh_entry_def)
  have sn: "scan_named ?s = scan_named s"
    by (intro ext) (simp only: scan_named_def fe)
  have sr: "scan_record ?s dir_lba buf pos r pend = scan_record s dir_lba buf pos r pend" for pos r pend
    unfolding scan_record_def sn ..
  show ?thesis
  proof (induction "length buf - pos" arbitrary: pos pend rule: less_induct)
    case less
    show ?case
      by (subst (1 2) scan_entries.simps) (auto simp: Let_def sr intro!: and_then_cong less)
  qed
qed

lemma iso_intern_simps:
  "iso_static_ok (snd (iso_intern v s)) = iso_static_ok s"
  "for_each_entry (snd (iso_intern v s)) = for_each_entry s"
  "is_nodes s \<noteq> [] \<Longrightarrow> is_nodes (snd (iso_intern v s)) ! 0 = is_nodes s ! 0 \<and> is_nodes (snd (iso_intern v s)) \<noteq> []"
  by (auto simp: iso_intern_def Let_def iso_static_ok_def for_each_entry_def fun_eq_iff read_dir_extent_def
      scan_entries_nodes nth_append split: option.splits)

interpretation iso_table: intern_table is_nodes is_by_record "\<lambda>k. iso_intern" iso_base iso_good
proof unfold_locales
  fix s k v v'
  assume b: "iso_base s" and g: "iso_good s k v" "iso_good s k v'"
  show "v = v'"
  proof (cases "k = ROOT_KEY")
    case True
    then show ?thesis using g by (simp add: iso_good_def)
  next
    case False
    with g obtain d1 es1 n1 d2 es2 n2 where
      "ii_lba d1 = fst k" "ii_lba d1 < 2 ^ 32" "for_each_entry s d1 = Ok es1" "(n1, v) \<in> set es1"
      "ii_lba d2 = fst k" "for_each_entry s d2 = Ok es2" "(n2, v') \<in> set es2" "ii_key v = k" "ii_key v' = k"
      unfolding iso_good_def by auto
    with for_each_entry_unique [of s d1 d2 es1 es2 "(n1, v)" "(n2, v')"] b show ?thesis by (simp add: iso_base_def)
  qed
next
  fix s k v
  assume "iso_base s"
  then show "iso_base (snd (iso_intern v s))" "iso_good (snd (iso_intern v s)) = iso_good s"
    by (auto simp: iso_good_def iso_base_def iso_intern_simps fun_eq_iff)
qed (auto simp: iso_good_def iso_intern_def Let_def)


text \<open>The invariant of a mounted volume.\<close>

definition iso_ok :: "iso \<Rightarrow> bool" where
  "iso_ok s \<longleftrightarrow> iso_base s \<and> table_ok (iso_good s) (is_nodes s) (is_by_record s)"

lemma iso_ok_static: "iso_ok s \<Longrightarrow> iso_static_ok s"
  by (simp add: iso_ok_def iso_base_def)

lemma iso_good_inode: "iso_base s \<Longrightarrow> iso_good s k v \<Longrightarrow> inode_ok v"
  using for_each_entry_ok(2) [of s] by (fastforce simp: iso_good_def iso_base_def split: if_splits)

lemma iso_inode_of_Ok: "iso_inode_of s n = Ok i \<longleftrightarrow> n < length (is_nodes s) \<and> i = is_nodes s ! n"
  by (auto simp: iso_inode_of_def result_simps)

lemma iso_inode_ok:
  assumes "iso_ok s" and "iso_inode_of s n = Ok i"
  shows "inode_ok i"
proof -
  have "n < length (is_nodes s)" "i = is_nodes s ! n" using assms(2) by (simp_all add: iso_inode_of_Ok)
  moreover then obtain k where "bm_get (is_by_record s) k = Some n"
    using table_okD(3) assms(1) unfolding iso_ok_def by blast
  ultimately have "iso_good s k i" using table_okD(2) assms(1) unfolding iso_ok_def by blast
  then show ?thesis using iso_good_inode [of s k i] assms(1) by (simp add: iso_ok_def)
qed

lemma entry_good:
  assumes "iso_static_ok s" and "ii_lba dir < 2 ^ 32" and "for_each_entry s dir = Ok es" and "(name, v) \<in> set es"
  shows "iso_good s (ii_key v) v"
  using for_each_entry_ok(2) [OF assms] assms(2-4) unfolding iso_good_def by auto

lemma iso_intern_ok:
  assumes "iso_ok s" and "iso_good s (ii_key v) v" and "iso_intern v s = (n, s')"
  shows "iso_ok s'" and "iso_good s' = iso_good s" and "for_each_entry s' = for_each_entry s"
    and "n < length (is_nodes s')" and "is_nodes s' ! n = v" and "is_nodes s' ! 0 = is_nodes s ! 0"
    and "m < length (is_nodes s) \<Longrightarrow> m < length (is_nodes s') \<and> is_nodes s' ! m = is_nodes s ! m"
proof -
  have b: "iso_base s" "table_ok (iso_good s) (is_nodes s) (is_by_record s)" using assms(1) by (simp_all add: iso_ok_def)
  note k = iso_table.intern_ok [OF b assms(2,3)]
  show "iso_ok s'" "iso_good s' = iso_good s" "n < length (is_nodes s')" "is_nodes s' ! n = v"
    and "m < length (is_nodes s) \<Longrightarrow> m < length (is_nodes s') \<and> is_nodes s' ! m = is_nodes s ! m"
    using k by (simp_all add: iso_ok_def)
  show "for_each_entry s' = for_each_entry s" "is_nodes s' ! 0 = is_nodes s ! 0"
    using iso_intern_simps(2) [where v = v and s = s] iso_intern_simps(3) [where v = v and s = s] b(1) assms(3)
    by (simp_all add: iso_base_def)
qed

end
