(* ===== verification/Iso9660.thy ===== *)
theory Iso9660
  imports Iso_Records Codec Fold_Path
begin

text \<open>
  The ISO 9660 frontend (\<^verbatim>\<open>crates/lamfold-iso/src/iso9660.rs\<close>): mounting through the volume
  descriptors, the El Torito side channel, reads over one or many extents and through zisofs, and
  the methods of the trait. \<open>zisofs_on\<close> is the cargo feature of that name. A read that fails gives
  an error without the buffer, which a caller must not use then.
\<close>

section \<open>Mounting\<close>

definition root_record :: "bytes \<Rightarrow> iso_inode result" where
  "root_record vd =
     and_then (ok_or (get_range vd 156 (156 + 34)) (Corrupt ''iso: short root directory record'')) (\<lambda>rdr.
     and_then (iso_le_u32 rdr EXTENT_LBA_LE) (\<lambda>lba.
     and_then (iso_le_u32 rdr DATA_LEN_LE) (\<lambda>sz.
       Ok \<lparr>ii_key = ROOT_KEY, ii_lba = lba, ii_size = sz, ii_extents = [(lba, sz)],
           ii_kind = Directory, ii_link_target = None, ii_zisofs = None\<rparr>)))"

text \<open>What the scan of the volume descriptors gathers.\<close>

record vd_scan =
  vs_block_size :: nat
  vs_catalog :: "nat option"
  vs_pvd_root :: "iso_inode option"
  vs_joliet_root :: "iso_inode option"

definition vd_step :: "bytes \<Rightarrow> vd_scan \<Rightarrow> vd_scan result" where
  "vd_step vd st =
     (if vd ! 0 = VD_TYPE_PRIMARY then
        and_then (iso_le_u16 vd 128) (\<lambda>bs.
          if bs = 0 then Err (Corrupt ''iso: zero logical block size'')
          else and_then (root_record vd) (\<lambda>root. Ok (st\<lparr>vs_block_size := bs, vs_pvd_root := Some root\<rparr>)))
      else if vd ! 0 = VD_TYPE_BOOT_RECORD then
        (if get_range vd 7 (7 + length EL_TORITO_ID) = Some EL_TORITO_ID
         then and_then (iso_le_u32 vd ET_CATALOG_PTR_OFFSET) (\<lambda>lba. Ok (st\<lparr>vs_catalog := Some lba\<rparr>))
         else Ok st)
      else if vd ! 0 = VD_TYPE_SUPPLEMENTARY then
        and_then (index_range vd JOLIET_ESCAPE_OFFSET (JOLIET_ESCAPE_OFFSET + 3)) (\<lambda>esc.
          if take 2 esc = JOLIET_ESCAPE_PREFIX \<and> (esc ! 2 = 0x40 \<or> esc ! 2 = 0x43 \<or> esc ! 2 = 0x45)
          then and_then (root_record vd) (\<lambda>root. Ok (st\<lparr>vs_joliet_root := Some root\<rparr>))
          else Ok st)
      else Ok st)"

text \<open>The scan: \<open>left\<close> descriptors may still be read, the next one is number \<open>i\<close>.\<close>

fun vd_loop :: "block_source \<Rightarrow> nat \<Rightarrow> nat \<Rightarrow> vd_scan \<Rightarrow> vd_scan result" where
  "vd_loop src 0 i st = Ok st"
| "vd_loop src (Suc left) i st =
     (let off = VD_REGION_OFFSET + i * VD_SIZE in
      if off + VD_SIZE > src_len src then Ok st
      else
        and_then (src_read src off VD_SIZE) (\<lambda>vd.
        if slice vd 1 6 \<noteq> STANDARD_ID then Err (Corrupt ''iso: missing CD001 standard id'')
        else if vd ! 0 = VD_TYPE_TERMINATOR then Ok st
        else and_then (vd_step vd st) (\<lambda>st'. vd_loop src left (i + 1) st')))"

definition iso_open :: "block_source \<Rightarrow> iso result" where
  "iso_open src =
     and_then (vd_loop src MAX_VD_SCAN 0
         \<lparr>vs_block_size = 2048, vs_catalog = None, vs_pvd_root = None, vs_joliet_root = None\<rparr>) (\<lambda>st.
     and_then (ok_or (vs_pvd_root st) (Corrupt ''iso: no primary volume descriptor'')) (\<lambda>pvd_root.
     let me = \<lparr>is_src = src, is_block_size = vs_block_size st, is_nodes = [], is_by_record = [],
               is_rock_ridge = False, is_susp_skip = 0, is_joliet = False, is_catalog_lba = vs_catalog st\<rparr> in
     and_then (detect_susp me pvd_root) (\<lambda>sp.
       Ok (case sp of
             Some skip \<Rightarrow> snd (iso_intern pvd_root (me\<lparr>is_rock_ridge := True, is_susp_skip := skip\<rparr>))
           | None \<Rightarrow>
               (case vs_joliet_root st of
                  Some jr \<Rightarrow> snd (iso_intern jr (me\<lparr>is_joliet := True\<rparr>))
                | None \<Rightarrow> snd (iso_intern pvd_root me))))))"

definition iso_probe :: "block_source \<Rightarrow> bool result" where
  "iso_probe src =
     (if src_len src < VD_REGION_OFFSET + 8 then Ok False
      else and_then (src_read src VD_REGION_OFFSET 8) (\<lambda>hdr. Ok (slice hdr 1 6 = STANDARD_ID)))"

definition el_torito_uefi_image :: "iso \<Rightarrow> uefi_image option result" where
  "el_torito_uefi_image s =
     (case is_catalog_lba s of
        None \<Rightarrow> Ok None
      | Some cat_lba \<Rightarrow>
          and_then (umul 64 cat_lba (is_block_size s)) (\<lambda>off.
          and_then (uadd 64 off VD_SIZE) (\<lambda>stop.
          if stop > src_len (is_src s) then Ok None
          else
            and_then (src_read (is_src s) off VD_SIZE) (\<lambda>cat.
            case parse_catalog cat of
              None \<Rightarrow> Ok None
            | Some img \<Rightarrow>
                if ui_sectors img \<le> 1 then
                  and_then (umul 64 (ui_lba img) (is_block_size s)) (\<lambda>at.
                  and_then (uadd 64 at 512) (\<lambda>stop.
                  if stop \<le> src_len (is_src s) then
                    and_then (src_read (is_src s) at 512) (\<lambda>boot.
                      Ok (Some (case fat_image_sectors boot of
                                  Some sectors \<Rightarrow> img\<lparr>ui_sectors := sectors\<rparr>
                                | None \<Rightarrow> img)))
                  else Ok (Some img)))
                else Ok (Some img)))))"


section \<open>Reading files\<close>

text \<open>A pointer of the zisofs block table.\<close>

definition zisofs_ptr :: "bytes \<Rightarrow> nat \<Rightarrow> nat result" where
  "zisofs_ptr head i = and_then (index_range head (16 + i * 4) (16 + i * 4 + 4)) (\<lambda>b. Ok (from_le b))"

text \<open>One compressed block, or the zeros of a hole.\<close>

definition zisofs_block ::
  "'r codec_lib \<Rightarrow> block_source \<Rightarrow> nat \<Rightarrow> bytes \<Rightarrow> nat \<Rightarrow> nat \<Rightarrow> bytes result"
where
  "zisofs_block lib src extent_off head blk this_uncomp =
     and_then (zisofs_ptr head blk) (\<lambda>cstart.
     and_then (zisofs_ptr head (blk + 1)) (\<lambda>cend.
     if cend \<le> cstart then Ok (replicate this_uncomp 0)
     else
       and_then (checked_full_read_len (cend - cstart)) (\<lambda>clen.
       and_then (uadd 64 extent_off cstart) (\<lambda>at.
       and_then (src_read src at clen) (\<lambda>cbuf. decode lib Zlib cbuf this_uncomp)))))"

text \<open>
  The loop over blocks: \<open>produced\<close> bytes are in the buffer and the next one is at \<open>cur\<close> of the
  file, so \<open>cur\<close> is the offset of the read plus \<open>produced\<close>.
\<close>

function zisofs_loop ::
  "'r codec_lib \<Rightarrow> block_source \<Rightarrow> nat \<Rightarrow> bytes \<Rightarrow> nat \<Rightarrow> nat \<Rightarrow> nat \<Rightarrow> nat \<Rightarrow> nat \<Rightarrow> bytes \<Rightarrow> (nat \<times> bytes) result"
where
  "zisofs_loop lib src extent_off head block_size uncompressed want produced cur buf =
     (if produced < want then
        let blk = cur div block_size; blk_base = blk * block_size in
        and_then (usub uncompressed blk_base) (\<lambda>left.
        let this_uncomp = min block_size left in
        and_then (zisofs_block lib src extent_off head blk this_uncomp) (\<lambda>decompressed.
        let in_blk = cur - blk_base; avail = length decompressed - in_blk; tk = min avail (want - produced) in
        if tk = 0 then Ok (produced, buf)
        else
          and_then (index_range decompressed in_blk (in_blk + tk)) (\<lambda>piece.
            zisofs_loop lib src extent_off head block_size uncompressed want (produced + tk) (cur + tk)
              (overwrite buf produced piece))))
      else Ok (produced, buf))"
  by pat_completeness auto
termination
  by (relation "measure (\<lambda>(lib, src, extent_off, head, block_size, uncompressed, want, produced, cur, buf). want - produced)") auto

definition read_zisofs ::
  "'r codec_lib \<Rightarrow> iso \<Rightarrow> iso_inode \<Rightarrow> zisofs \<Rightarrow> nat \<Rightarrow> bytes \<Rightarrow> (nat \<times> bytes) result"
where
  "read_zisofs lib s inode zi off buf =
     (let uncompressed = zf_uncompressed_size zi in
      if off \<ge> uncompressed then Ok (0, buf)
      else if zf_block_size_log2 zi \<ge> 31 then Err (Corrupt ''zisofs: implausible block size'')
      else
        let block_size = 2 ^ zf_block_size_log2 zi; n_blocks = div_ceil uncompressed block_size in
        and_then (ok_or (checked_mul 64 (n_blocks + 1) 4) (Corrupt ''zisofs: block table overflow'')) (\<lambda>table_bytes.
        and_then (uadd 64 16 table_bytes) (\<lambda>hl.
        and_then (checked_full_read_len hl) (\<lambda>head_len.
        and_then (umul 64 (ii_lba inode) (is_block_size s)) (\<lambda>extent_off.
        and_then (src_read (is_src s) extent_off head_len) (\<lambda>head.
        and_then (index_range head 0 8) (\<lambda>magic.
        if magic \<noteq> ZISOFS_MAGIC then Err (Corrupt ''zisofs: bad magic'')
        else
          let want = min (length buf) (uncompressed - off) in
          zisofs_loop lib (is_src s) extent_off head block_size uncompressed want 0 off buf)))))))"

text \<open>
  The walk over the extents: \<open>start\<close> is the file offset of the next extent, \<open>dn\<close> the bytes read.
\<close>

fun read_extents ::
  "block_source \<Rightarrow> nat \<Rightarrow> nat \<Rightarrow> nat \<Rightarrow> (nat \<times> nat) list \<Rightarrow> nat \<Rightarrow> nat \<Rightarrow> bytes \<Rightarrow> (nat \<times> bytes) result"
where
  "read_extents src bs off n [] dn start buf = Ok (dn, buf)"
| "read_extents src bs off n ((lba, len) # es) dn start buf =
     and_then (uadd 64 off dn) (\<lambda>pos.
     if dn = n then Ok (dn, buf)
     else
       and_then (uadd 64 start len) (\<lambda>stop.
       if pos < stop then
         and_then (usub pos start) (\<lambda>within.
         let tk = min (n - dn) (len - within) in
         and_then (umul 64 lba bs) (\<lambda>b.
         and_then (uadd 64 b within) (\<lambda>at.
         and_then (src_read src at tk) (\<lambda>piece.
           read_extents src bs off n es (dn + tk) stop (overwrite buf dn piece)))))
       else read_extents src bs off n es dn stop buf))"

definition iso_read_at ::
  "bool \<Rightarrow> 'r codec_lib \<Rightarrow> iso \<Rightarrow> node_id \<Rightarrow> nat \<Rightarrow> bytes \<Rightarrow> (nat \<times> bytes) result"
where
  "iso_read_at zisofs_on lib s node off buf =
     and_then (iso_inode_of s node) (\<lambda>inode.
       if ii_kind inode = Directory then Err IsDirectory
       else
         (case ii_zisofs inode of
            Some zi \<Rightarrow>
              if zisofs_on then read_zisofs lib s inode zi off buf
              else Err (Unsupported ''zisofs-compressed file: enable the `zisofs` feature'')
          | None \<Rightarrow>
              if off \<ge> ii_size inode then Ok (0, buf)
              else
                let n = min (length buf) (ii_size inode - off) in
                read_extents (is_src s) (is_block_size s) off n (ii_extents inode) 0 0 buf))"


section \<open>The methods of the trait\<close>

definition iso_root :: "iso \<Rightarrow> node_id" where
  "iso_root s = 0"

definition iso_lookup :: "node_id \<Rightarrow> bytes \<Rightarrow> (iso, node_id option) op" where
  "iso_lookup dir name s =
     (case and_then (iso_inode_of s dir) (\<lambda>dir_inode.
             if ii_kind dir_inode \<noteq> Directory then Err NotDirectory
             else and_then (for_each_entry s dir_inode) (\<lambda>es. Ok (find_named name es))) of
        Ok (Some i) \<Rightarrow> (case iso_intern i s of (n, s') \<Rightarrow> (Ok (Some n), s'))
      | Ok None \<Rightarrow> (Ok None, s)
      | Err e \<Rightarrow> (Err e, s)
      | Panic p \<Rightarrow> (Panic p, s))"

fun intern_collected :: "(bytes \<times> iso_inode) list \<Rightarrow> iso \<Rightarrow> dir_entry list \<times> iso" where
  "intern_collected [] s = ([], s)"
| "intern_collected ((name, inode) # es) s =
     (case iso_intern inode s of (n, s1) \<Rightarrow>
       (case intern_collected es s1 of (out, s2) \<Rightarrow>
         (\<lparr>de_name = name, de_node = n, de_kind = ii_kind inode\<rparr> # out, s2)))"

definition iso_read_dir :: "node_id \<Rightarrow> (iso, dir_entry list) op" where
  "iso_read_dir dir s =
     (case and_then (iso_inode_of s dir) (\<lambda>dir_inode.
             if ii_kind dir_inode \<noteq> Directory then Err NotDirectory else for_each_entry s dir_inode) of
        Ok collected \<Rightarrow> (case intern_collected collected s of (out, s') \<Rightarrow> (Ok out, s'))
      | Err e \<Rightarrow> (Err e, s)
      | Panic p \<Rightarrow> (Panic p, s))"

definition iso_metadata :: "iso \<Rightarrow> node_id \<Rightarrow> metadata result" where
  "iso_metadata s node =
     and_then (iso_inode_of s node) (\<lambda>inode.
       Ok \<lparr>md_kind = ii_kind inode,
           md_size = (case ii_zisofs inode of None \<Rightarrow> ii_size inode | Some z \<Rightarrow> zf_uncompressed_size z),
           md_mode = 0\<rparr>)"

definition iso_read_link :: "iso \<Rightarrow> node_id \<Rightarrow> bytes option result" where
  "iso_read_link s node = and_then (iso_inode_of s node) (\<lambda>inode. Ok (ii_link_target inode))"

definition iso_frontend :: "bool \<Rightarrow> 'r codec_lib \<Rightarrow> iso frontend" where
  "iso_frontend zisofs_on lib =
     \<lparr>fe_root = iso_root,
      fe_lookup = (\<lambda>cx. iso_lookup),
      fe_read_dir = (\<lambda>cx. iso_read_dir),
      fe_metadata = (\<lambda>cx node s. (iso_metadata s node, s)),
      fe_read_at = (\<lambda>cx node off buf s. (iso_read_at zisofs_on lib s node off buf, s)),
      fe_read_link = (\<lambda>cx node s. (iso_read_link s node, s))\<rparr>"

declare zisofs_loop.simps [simp del]



section \<open>Interning by the methods\<close>

lemma intern_collected_ok:
  assumes "iso_ok s" and "\<forall>e \<in> set es. iso_good s (ii_key (snd e)) (snd e)" and "intern_collected es s = (out, s')"
  shows "iso_ok s' \<and> for_each_entry s' = for_each_entry s \<and> is_nodes s' ! 0 = is_nodes s ! 0 \<and>
    (\<forall>m < length (is_nodes s). m < length (is_nodes s') \<and> is_nodes s' ! m = is_nodes s ! m) \<and>
    length out = length es \<and>
    (\<forall>i < length es. de_name (out ! i) = fst (es ! i) \<and> de_kind (out ! i) = ii_kind (snd (es ! i)) \<and>
       de_node (out ! i) < length (is_nodes s') \<and> is_nodes s' ! de_node (out ! i) = snd (es ! i))"
  using assms
proof (induction es arbitrary: s out)
  case (Cons e es)
  obtain name v where e: "e = (name, v)" by fastforce
  obtain n s1 where i: "iso_intern v s = (n, s1)" by fastforce
  have g: "iso_good s (ii_key v) v" using Cons.prems(2) e by simp
  note k = iso_intern_ok [OF Cons.prems(1) g i]
  obtain out2 where o2: "intern_collected es s1 = (out2, s')" "out = \<lparr>de_name = name, de_node = n, de_kind = ii_kind v\<rparr> # out2"
    using Cons.prems(3) e i by (auto split: prod.splits)
  have "\<forall>e \<in> set es. iso_good s1 (ii_key (snd e)) (snd e)" using Cons.prems(2) k(2) by simp
  note IH = Cons.IH [OF k(1) this o2(1)]
  have "n < length (is_nodes s')" "is_nodes s' ! n = v" using IH k(4,5) by auto
  with IH k(3,6,7) o2(2) e show ?case by (auto simp: nth_Cons split: nat.splits)
qed simp

definition iso_view :: "iso \<Rightarrow> iso_inode view" where
  "iso_view s =
     \<lparr>vw_root = is_nodes s ! 0,
      vw_lookup = (\<lambda>d name.
        if ii_kind d \<noteq> Directory then Err NotDirectory
        else and_then (for_each_entry s d) (\<lambda>es. Ok (find_named name es))),
      vw_metadata = (\<lambda>i. Ok \<lparr>md_kind = ii_kind i,
        md_size = (case ii_zisofs i of None \<Rightarrow> ii_size i | Some z \<Rightarrow> zf_uncompressed_size z), md_mode = 0\<rparr>),
      vw_link = (\<lambda>i. Ok (ii_link_target i))\<rparr>"

definition iso_repr :: "iso \<Rightarrow> node_id \<Rightarrow> iso_inode option" where
  "iso_repr s n = get_at (is_nodes s) n"

lemma iso_repr_Some: "iso_repr s n = Some i \<longleftrightarrow> iso_inode_of s n = Ok i"
  by (auto simp: iso_repr_def iso_inode_of_def result_simps)

lemma iso_view_eq:
  "for_each_entry s' = for_each_entry s \<Longrightarrow> is_nodes s' ! 0 = is_nodes s ! 0 \<Longrightarrow> iso_view s' = iso_view s"
  unfolding iso_view_def by (simp only:)

lemma find_named_mem: "find_named name es = Some v \<Longrightarrow> (name, v) \<in> set es"
  by (induction es) (auto split: if_splits)

lemma iso_lookup_cases:
  assumes ok: "iso_ok s" and r: "iso_lookup d nm s = (r, s')"
  shows "iso_ok s' \<and> iso_view s' = iso_view s \<and> (\<forall>n k. iso_repr s n = Some k \<longrightarrow> iso_repr s' n = Some k) \<and>
    (case and_then (iso_inode_of s d) (\<lambda>i. vw_lookup (iso_view s) i nm) of
       Ok (Some v) \<Rightarrow> \<exists>n. r = Ok (Some n) \<and> iso_repr s' n = Some v
     | Ok None \<Rightarrow> r = Ok None
     | Err e \<Rightarrow> r = Err e
     | Panic p \<Rightarrow> r = Panic p)"
proof -
  let ?q = "and_then (iso_inode_of s d) (\<lambda>i. vw_lookup (iso_view s) i nm)"
  have eq: "iso_lookup d nm s = (case ?q of
        Ok (Some i) \<Rightarrow> (case iso_intern i s of (n, s') \<Rightarrow> (Ok (Some n), s'))
      | Ok None \<Rightarrow> (Ok None, s) | Err e \<Rightarrow> (Err e, s) | Panic p \<Rightarrow> (Panic p, s))"
    by (simp add: iso_lookup_def iso_view_def)
  show ?thesis
  proof (cases "\<exists>v. ?q = Ok (Some v)")
    case True
    then obtain v where v: "?q = Ok (Some v)" by blast
    then obtain di es where di: "iso_inode_of s d = Ok di" "for_each_entry s di = Ok es" "find_named nm es = Some v"
      by (auto simp: and_then_eq_Ok iso_view_def split: if_splits)
    have "ii_lba di < 2 ^ 32" using iso_inode_ok [OF ok di(1)] by (simp add: inode_ok_def)
    from entry_good [OF iso_ok_static [OF ok] this di(2) find_named_mem [OF di(3)]]
    have g: "iso_good s (ii_key v) v" .
    obtain n where n: "iso_intern v s = (n, s')" "r = Ok (Some n)"
      using eq r v by (cases "iso_intern v s") simp
    note k = iso_intern_ok [OF ok g n(1)]
    show ?thesis using k v n(2) iso_view_eq [OF k(3,6)] by (auto simp: iso_repr_def get_at_def split: if_splits)
  next
    case False
    then show ?thesis using eq r ok by (cases ?q) (auto split: option.splits)
  qed
qed

lemma iso_read_dir_cases:
  assumes ok: "iso_ok s" and r: "iso_read_dir d s = (r, s')"
  shows "iso_ok s' \<and> iso_view s' = iso_view s \<and> (\<forall>n k. iso_repr s n = Some k \<longrightarrow> iso_repr s' n = Some k) \<and>
    (case and_then (iso_inode_of s d) (\<lambda>i. if ii_kind i \<noteq> Directory then Err NotDirectory else for_each_entry s i) of
       Ok es \<Rightarrow> \<exists>out. r = Ok out \<and> length out = length es \<and>
         (\<forall>i < length es. de_name (out ! i) = fst (es ! i) \<and> de_kind (out ! i) = ii_kind (snd (es ! i)) \<and>
            iso_repr s' (de_node (out ! i)) = Some (snd (es ! i)))
     | Err e \<Rightarrow> r = Err e
     | Panic p \<Rightarrow> r = Panic p)"
proof (cases "and_then (iso_inode_of s d) (\<lambda>i. if ii_kind i \<noteq> Directory then Err NotDirectory else for_each_entry s i)")
  case (Ok es)
  then obtain di where di: "iso_inode_of s d = Ok di" "for_each_entry s di = Ok es"
    by (auto simp: and_then_eq_Ok split: if_splits)
  have "ii_lba di < 2 ^ 32" using iso_inode_ok [OF ok di(1)] by (simp add: inode_ok_def)
  note g = entry_good [OF iso_ok_static [OF ok] this di(2)]
  obtain out where out: "intern_collected es s = (out, s')" "r = Ok out"
    using Ok r by (cases "intern_collected es s") (simp add: iso_read_dir_def)
  have "\<forall>e \<in> set es. iso_good s (ii_key (snd e)) (snd e)" using g by auto
  note k = intern_collected_ok [OF ok this out(1)]
  show ?thesis using Ok out k iso_view_eq [of s' s]
    by (auto simp: iso_repr_def get_at_def split: if_splits)
qed (use r ok in \<open>auto simp: iso_read_dir_def\<close>)



section \<open>Reads over extents\<close>

lemma read_extents_len:
  assumes src: "sound_source src"
  shows "read_extents src bs off n es dn start buf = Ok (k, buf') \<Longrightarrow> dn \<le> n \<Longrightarrow> n \<le> length buf \<Longrightarrow>
    k \<le> n \<and> length buf' = length buf"
proof (induction es arbitrary: dn start buf)
  case (Cons e es)
  obtain lba len where e: "e = (lba, len)" by fastforce
  let ?tk = "\<lambda>within. min (n - dn) (len - within)"
  from Cons.prems(1) e consider "k = dn" "buf' = buf"
    | stop where "read_extents src bs off n es dn stop buf = Ok (k, buf')"
    | stop within at piece where "src_read src at (?tk within) = Ok piece"
        "read_extents src bs off n es (dn + ?tk within) stop (overwrite buf dn piece) = Ok (k, buf')"
    by (auto simp: and_then_eq_Ok Let_def split: if_split_asm)
  then show ?case
  proof cases
    case (3 stop within at piece)
    have "length piece = ?tk within" using src_read_fills [OF src 3(1)] .
    then have "length (overwrite buf dn piece) = length buf" using Cons.prems(2,3) by simp
    with Cons.IH [OF 3(2)] Cons.prems(2,3) show ?thesis by simp
  qed (use Cons in auto)
qed auto

lemma read_extents_safe:
  assumes src: "sound_source src" and bs: "bs < 2 ^ 16"
  shows "\<forall>(l, m) \<in> set es. l < 2 ^ 32 \<and> m < 2 ^ 32 \<Longrightarrow> start \<le> off + dn \<or> dn = n \<Longrightarrow> dn \<le> n \<Longrightarrow>
    off + n < 2 ^ 64 \<Longrightarrow> start + sum_list (map snd es) < 2 ^ 64 \<Longrightarrow>
    no_panic (read_extents src bs off n es dn start buf)"
proof (induction es arbitrary: dn start buf)
  case (Cons e es)
  obtain lba len where e: "e = (lba, len)" by fastforce
  have w: "lba < 2 ^ 32" "len < 2 ^ 32" using Cons.prems(1) e by simp_all
  have lb: "lba * bs < 2 ^ 48" using block_mult_less [OF w(1) bs] .
  let ?pos = "off + dn" and ?stop = "start + len"
  have sums: "uadd 64 off dn = Ok ?pos" "uadd 64 start len = Ok ?stop" "umul 64 lba bs = Ok (lba * bs)"
    using Cons.prems e lb by (simp_all add: uadd_def umul_def)
  have es: "\<forall>(l, m) \<in> set es. l < 2 ^ 32 \<and> m < 2 ^ 32" "?stop + sum_list (map snd es) < 2 ^ 64"
    using Cons.prems(1,5) e by (simp_all add: add.assoc)
  show ?case
  proof (cases "dn = n")
    case True
    then show ?thesis using e sums by simp
  next
    case False
    then have st: "start \<le> ?pos" using Cons.prems(2) by simp
    show ?thesis
    proof (cases "?pos < ?stop")
      case False
      then have "no_panic (read_extents src bs off n es dn ?stop buf)"
        using Cons.IH [OF es(1) _ Cons.prems(3,4) es(2)] by simp
      then show ?thesis using e sums False by simp
    next
      case True
      let ?within = "?pos - start"
      let ?tk = "min (n - dn) (len - ?within)"
      have wi: "?within < len" using True st by linarith
      have "uadd 64 (lba * bs) ?within = Ok (lba * bs + ?within)" using lb wi w(2) by (simp add: uadd_def)
      moreover have "no_panic (read_extents src bs off n es (dn + ?tk) ?stop buf')" for buf'
        by (rule Cons.IH [OF es(1) _ _ Cons.prems(4) es(2)]) (use st Cons.prems(3) in \<open>auto simp: min_def\<close>)
      ultimately show ?thesis using e sums st True src by (simp add: usub_def Let_def no_panic_simps)
    qed
  qed
qed simp

text \<open>The data of a list of extents, one after the other; an empty extent is not read.\<close>

fun extents_data :: "block_source \<Rightarrow> nat \<Rightarrow> (nat \<times> nat) list \<Rightarrow> bytes result" where
  "extents_data src bs [] = Ok []"
| "extents_data src bs ((lba, len) # es) =
     and_then (if len = 0 then Ok [] else src_read src (lba * bs) len) (\<lambda>d.
     and_then (extents_data src bs es) (\<lambda>rest. Ok (d @ rest)))"

lemma extents_data_length:
  "sound_source src \<Longrightarrow> extents_data src bs es = Ok c \<Longrightarrow> length c = sum_list (map snd es)"
proof (induction es arbitrary: c)
  case (Cons e es)
  then show ?case
    by (cases e) (auto simp: and_then_eq_Ok dest: src_read_fills split: if_splits)
qed simp

lemma read_extents_data:
  assumes src: "sound_source src"
  shows "extents_data src bs es = Ok (drop start c) \<Longrightarrow> start \<le> length c \<Longrightarrow> start \<le> off + dn \<or> dn = n \<Longrightarrow> dn \<le> n \<Longrightarrow>
    off + n \<le> length c \<Longrightarrow> length c < 2 ^ 64 \<Longrightarrow> n \<le> length buf \<Longrightarrow>
    read_extents src bs off n es dn start buf = Ok (n, overwrite buf dn (slice c (off + dn) (off + n)))"
proof (induction es arbitrary: dn start buf)
  case Nil
  then have "length c \<le> start" by simp
  with Nil.prems have "dn = n" by linarith
  then show ?case by simp
next
  case (Cons e es)
  obtain lba len where e: "e = (lba, len)" by fastforce
  from Cons.prems(1) e obtain d rest where
    d: "(if len = 0 then Ok [] else src_read src (lba * bs) len) = Ok d"
    and rest: "extents_data src bs es = Ok rest" and c: "drop start c = d @ rest"
    by (auto simp: and_then_eq_Ok)
  have ld: "length d = len" using d src_read_fills [OF src] by (auto split: if_splits)
  let ?pos = "off + dn" and ?stop = "start + len"
  have "length (drop start c) = len + length rest" using c ld by simp
  then have lc: "?stop + length rest = length c" using Cons.prems(2) by simp
  have rest': "rest = drop ?stop c"
    using c ld by (metis add.commute append_eq_conv_conj drop_drop)
  have sums: "uadd 64 off dn = Ok ?pos" "uadd 64 start len = Ok ?stop"
    using Cons.prems lc by (simp_all add: uadd_def)
  show ?case
  proof (cases "dn = n")
    case True
    then show ?thesis using e sums by simp
  next
    case False
    then have st: "start \<le> ?pos" using Cons.prems(3) by simp
    show ?thesis
    proof (cases "?pos < ?stop")
      case False
      have "read_extents src bs off n es dn ?stop buf = Ok (n, overwrite buf dn (slice c ?pos (off + n)))"
        by (rule Cons.IH) (use Cons.prems rest rest' lc False \<open>dn \<noteq> n\<close> in auto)
      then show ?thesis using e sums False \<open>dn \<noteq> n\<close> by simp
    next
      case True
      let ?within = "?pos - start"
      define tk where "tk = min (n - dn) (len - ?within)"
      have wi: "?within + tk \<le> len" "len \<noteq> 0" "dn + tk \<le> n" "?stop \<le> off + (dn + tk) \<or> dn + tk = n"
        using True st Cons.prems(4) unfolding tk_def by linarith+
      have rd: "src_read src (lba * bs) len = Ok d" using d wi(2) by simp
      have at: "lba * bs + len < 2 ^ 63" using src_read_bound [OF src rd] .
      have ar: "usub ?pos start = Ok ?within" "umul 64 lba bs = Ok (lba * bs)"
        "uadd 64 (lba * bs) ?within = Ok (lba * bs + ?within)"
        using st at wi by (simp_all add: usub_def umul_def uadd_def)
      have "slice d ?within (?within + tk) = slice (d @ rest) ?within (?within + tk)"
        using wi(1) ld by (simp add: slice_append_left)
      also have "\<dots> = slice c ?pos (?pos + tk)" using c st by (simp add: slice_def flip: c)
      finally have pc: "src_read src (lba * bs + ?within) tk = Ok (slice c ?pos (?pos + tk))"
        using src_read_part [OF src rd wi(1)] by simp
      let ?buf = "overwrite buf dn (slice c ?pos (?pos + tk))"
      have lp: "length (slice c ?pos (?pos + tk)) = tk" using wi(3) Cons.prems(5) by simp
      then have lb: "n \<le> length ?buf" using wi(3) Cons.prems(7) by simp
      have "read_extents src bs off n es (dn + tk) ?stop ?buf =
          Ok (n, overwrite ?buf (dn + tk) (slice c (off + (dn + tk)) (off + n)))"
        by (rule Cons.IH) (use Cons.prems(5,6) rest rest' lc wi lb in auto)
      also have "off + (dn + tk) = ?pos + tk" by simp
      also have "overwrite ?buf (dn + tk) (slice c (?pos + tk) (off + n)) = overwrite buf dn (slice c ?pos (off + n))"
        by (rule overwrite_slices) (use wi(3) Cons.prems(5,7) in auto)
      finally have rec: "read_extents src bs off n es (dn + tk) ?stop ?buf =
          Ok (n, overwrite buf dn (slice c ?pos (off + n)))" .
      show ?thesis
        by (simp only: e read_extents.simps sums and_then.simps True \<open>dn \<noteq> n\<close> if_True if_False ar Let_def
            tk_def [symmetric] pc rec)
    qed
  qed
qed


section \<open>Reads through zisofs\<close>

lemma zisofs_loop_done: "\<not> produced < want \<Longrightarrow> zisofs_loop lib src eo head bs unc want produced cur buf = Ok (produced, buf)"
  by (simp add: zisofs_loop.simps)

lemma zisofs_loop_step:
  assumes "produced < want"
  shows "zisofs_loop lib src eo head bs unc want produced cur buf =
    and_then (usub unc (cur div bs * bs)) (\<lambda>left.
    and_then (zisofs_block lib src eo head (cur div bs) (min bs left)) (\<lambda>d.
      let tk = min (length d - (cur - cur div bs * bs)) (want - produced) in
      if tk = 0 then Ok (produced, buf)
      else zisofs_loop lib src eo head bs unc want (produced + tk) (cur + tk)
             (overwrite buf produced (slice d (cur - cur div bs * bs) (cur - cur div bs * bs + tk)))))"
proof -
  have "(if tk = 0 then Ok (produced, buf) else and_then (index_range d i (i + tk)) f) =
      (if tk = 0 then Ok (produced, buf) else f (slice d i (i + tk)))"
    if "tk = min (length d - i) (want - produced)" for tk i f and d :: bytes
    using that by (auto simp: index_range_def min_def)
  then show ?thesis using assms by (subst zisofs_loop.simps) (simp only: Let_def if_True)
qed

lemma zisofs_loop_len:
  "zisofs_loop lib src eo head bs unc want produced cur buf = Ok (k, buf') \<Longrightarrow> produced \<le> want \<Longrightarrow> want \<le> length buf \<Longrightarrow>
     k \<le> want \<and> length buf' = length buf"
proof (induction "want - produced" arbitrary: produced cur buf rule: less_induct)
  case less
  show ?case
  proof (cases "produced < want")
    case True
    let ?in = "cur - cur div bs * bs"
    obtain d where d: "(let tk = min (length d - ?in) (want - produced) in
      if tk = 0 then Ok (produced, buf)
      else zisofs_loop lib src eo head bs unc want (produced + tk) (cur + tk)
             (overwrite buf produced (slice d ?in (?in + tk)))) = Ok (k, buf')"
      using less.prems(1) unfolding zisofs_loop_step [OF True] and_then_eq_Ok by blast
    define tk where "tk = min (length d - ?in) (want - produced)"
    show ?thesis
    proof (cases "tk = 0")
      case False
      then have tk: "?in + tk \<le> length d" "produced + tk \<le> want" "want - (produced + tk) < want - produced"
        using True unfolding tk_def by linarith+
      then have "length (slice d ?in (?in + tk)) = tk" using length_slice [of ?in "?in + tk" d] by simp
      then have "length (overwrite buf produced (slice d ?in (?in + tk))) = length buf"
        using tk(2) less.prems(3) by (intro length_overwrite) simp
      moreover have "zisofs_loop lib src eo head bs unc want (produced + tk) (cur + tk)
             (overwrite buf produced (slice d ?in (?in + tk))) = Ok (k, buf')"
        using d False by (simp only: Let_def if_False flip: tk_def)
      ultimately show ?thesis using less.hyps tk(2,3) less.prems(3) by metis
    next
      case True
      have "Ok (produced, buf) = Ok (k, buf')" using d True by (simp only: Let_def if_True simp_thms flip: tk_def)
      then show ?thesis using \<open>produced < want\<close> by simp
    qed
  qed (use less.prems in \<open>simp add: zisofs_loop_done\<close>)
qed

lemma zisofs_ptr_less: "zisofs_ptr head i = Ok p \<Longrightarrow> p < 2 ^ 32"
  using from_le_slice4 [of head "16 + i * 4"] by (auto simp: zisofs_ptr_def and_then_eq_Ok index_range_eq_Ok)

lemma zisofs_block_safe:
  assumes "sound_source src" and "eo < 2 ^ 48" and "16 + (blk + 2) * 4 \<le> length head"
  shows "no_panic (zisofs_block lib src eo head blk n)"
proof -
  obtain a b where ab: "zisofs_ptr head blk = Ok a" "zisofs_ptr head (blk + 1) = Ok b"
    using assms(3) by (simp add: zisofs_ptr_def index_range_def)
  have "eo + a < 2 ^ 64" using zisofs_ptr_less [OF ab(1)] assms(2) by simp
  then show ?thesis using assms(1) ab by (simp add: zisofs_block_def no_panic_simps)
qed

lemma zisofs_block_index:
  assumes "0 < bs" and "cur < unc"
  shows "cur div bs < div_ceil unc bs" and "cur div bs * bs \<le> cur" and "cur < (cur div bs + 1) * bs"
proof -
  show a: "cur div bs * bs \<le> cur" by simp
  show "cur < (cur div bs + 1) * bs"
    using dividend_less_div_times [OF assms(1), of cur] by (simp add: algebra_simps)
  show "cur div bs < div_ceil unc bs"
  proof (rule ccontr)
    assume "\<not> cur div bs < div_ceil unc bs"
    then have "div_ceil unc bs * bs \<le> cur div bs * bs" by simp
    with a div_ceil_mult_ge [OF assms(1), of unc] assms(2) show False by linarith
  qed
qed

lemma zisofs_loop_safe:
  assumes src: "sound_source src" and eo: "eo < 2 ^ 48" and bs: "0 < bs"
    and hd: "length head = 16 + (div_ceil unc bs + 1) * 4"
  shows "produced \<le> want \<Longrightarrow> cur + (want - produced) \<le> unc \<Longrightarrow>
    no_panic (zisofs_loop lib src eo head bs unc want produced cur buf)"
proof (induction "want - produced" arbitrary: produced cur buf rule: less_induct)
  case less
  show ?case
  proof (cases "produced < want")
    case True
    then have cur: "cur < unc" using less.prems by linarith
    note ix = zisofs_block_index [OF bs cur]
    let ?blk = "cur div bs"
    have "no_panic (zisofs_block lib src eo head ?blk n)" for n
      by (rule zisofs_block_safe [OF src eo]) (use hd ix(1) in simp)
    moreover have "no_panic (zisofs_loop lib src eo head bs unc want (produced + tk) (cur + tk) buf')"
      if "0 < tk" "tk \<le> want - produced" for tk buf'
      by (rule less.hyps) (use that less.prems True in auto)
    moreover have "usub unc (?blk * bs) = Ok (unc - ?blk * bs)"
      using le_trans [OF ix(2) less_imp_le [OF cur]] by (simp add: usub_def)
    ultimately show ?thesis unfolding zisofs_loop_step [OF True] Let_def
      by (simp add: no_panic_and_then)
  qed (simp add: zisofs_loop_done)
qed

text \<open>The content of a zisofs file: every block of the table gives its part of it.\<close>

definition zisofs_data :: "'r codec_lib \<Rightarrow> block_source \<Rightarrow> nat \<Rightarrow> bytes \<Rightarrow> nat \<Rightarrow> bytes \<Rightarrow> bool" where
  "zisofs_data lib src eo head bs c \<longleftrightarrow>
     (\<forall>blk < div_ceil (length c) bs.
        zisofs_block lib src eo head blk (min bs (length c - blk * bs)) = Ok (slice c (blk * bs) (min ((blk + 1) * bs) (length c))))"

lemma zisofs_loop_data:
  assumes bs: "0 < bs" and data: "zisofs_data lib src eo head bs c"
  shows "produced \<le> want \<Longrightarrow> cur + (want - produced) \<le> length c \<Longrightarrow> want \<le> length buf \<Longrightarrow>
    zisofs_loop lib src eo head bs (length c) want produced cur buf =
      Ok (want, overwrite buf produced (slice c cur (cur + (want - produced))))"
proof (induction "want - produced" arbitrary: produced cur buf rule: less_induct)
  case less
  show ?case
  proof (cases "produced < want")
    case False
    with less.prems(1) show ?thesis by (simp add: zisofs_loop_done)
  next
    case True
    then have cur: "cur < length c" using less.prems by linarith
    note ix = zisofs_block_index [OF bs cur]
    let ?blk = "cur div bs" and ?stop = "min ((cur div bs + 1) * bs) (length c)"
    let ?d = "slice c (?blk * bs) ?stop" and ?in = "cur - ?blk * bs"
    have blk: "zisofs_block lib src eo head ?blk (min bs (length c - ?blk * bs)) = Ok ?d"
      using data ix(1) by (simp add: zisofs_data_def)
    have stop: "?blk * bs \<le> ?stop" "cur < ?stop" "?stop \<le> length c"
      using ix cur le_trans [OF ix(2) less_imp_le [OF cur]] by auto
    have ld: "length ?d = ?stop - ?blk * bs" using stop by simp
    define tk where "tk = min (length ?d - ?in) (want - produced)"
    have av: "length ?d - ?in = ?stop - cur" using ld ix(2) by simp
    then have tk: "tk \<noteq> 0" "cur + tk \<le> ?stop" "produced + tk \<le> want"
      using stop True unfolding tk_def by auto
    have "?blk * bs + ?in = cur" using ix(2) by simp
    with slice_slice [of "?blk * bs" ?in tk ?stop c] tk(2)
    have sl: "slice ?d ?in (?in + tk) = slice c cur (cur + tk)" by simp
    let ?buf = "overwrite buf produced (slice c cur (cur + tk))"
    have lp: "length (slice c cur (cur + tk)) = tk" using tk(2) stop(3) by simp
    have "zisofs_loop lib src eo head bs (length c) want (produced + tk) (cur + tk) ?buf =
        Ok (want, overwrite ?buf (produced + tk) (slice c (cur + tk) (cur + tk + (want - (produced + tk)))))"
      by (rule less.hyps) (use tk less.prems True lp in auto)
    also have "cur + tk + (want - (produced + tk)) = cur + (want - produced)" using tk(3) by simp
    also have "overwrite ?buf (produced + tk) (slice c (cur + tk) (cur + (want - produced))) =
        overwrite buf produced (slice c cur (cur + (want - produced)))"
      by (rule overwrite_slices) (use tk less.prems(3) stop(3) in auto)
    finally have rec: "zisofs_loop lib src eo head bs (length c) want (produced + tk) (cur + tk) ?buf =
        Ok (want, overwrite buf produced (slice c cur (cur + (want - produced))))" .
    have us: "usub (length c) (?blk * bs) = Ok (length c - ?blk * bs)"
      using le_trans [OF ix(2) less_imp_le [OF cur]] by (simp add: usub_def)
    show ?thesis
      by (simp only: zisofs_loop_step [OF True] us and_then.simps blk Let_def tk_def [symmetric] sl rec tk(1) if_False)
  qed
qed

lemma read_zisofs_ok:
  assumes "iso_static_ok s" and "inode_ok i" and "ii_zisofs i = Some z"
  shows "no_panic (read_zisofs lib s i z off buf)"
    and "read_zisofs lib s i z off buf = Ok (k, buf') \<Longrightarrow> k \<le> length buf \<and> length buf' = length buf"
proof -
  have src: "sound_source (is_src s)" and bs: "is_block_size s < 2 ^ 16" using assms(1) by (simp_all add: iso_static_ok_def)
  have w: "zf_uncompressed_size z < 2 ^ 32" "ii_lba i < 2 ^ 32" using assms(2,3) by (simp_all add: inode_ok_def)
  let ?unc = "zf_uncompressed_size z" and ?zb = "2 ^ zf_block_size_log2 z :: nat"
  have lb: "ii_lba i * is_block_size s < 2 ^ 48" using block_mult_less [OF w(2) bs] .
  let ?hl = "16 + (div_ceil ?unc ?zb + 1) * 4" and ?eo = "ii_lba i * is_block_size s"
  have nb: "div_ceil ?unc ?zb \<le> ?unc" by (rule div_ceil_le) simp
  then have ar: "checked_mul 64 (div_ceil ?unc ?zb + 1) 4 = Some ((div_ceil ?unc ?zb + 1) * 4)"
    "uadd 64 16 ((div_ceil ?unc ?zb + 1) * 4) = Ok ?hl" "umul 64 (ii_lba i) (is_block_size s) = Ok ?eo"
    using w(1) lb by (simp_all add: checked_mul_def uadd_def umul_def)
  have eq: "read_zisofs lib s i z off buf =
     (if off \<ge> ?unc then Ok (0, buf)
      else if zf_block_size_log2 z \<ge> 31 then Err (Corrupt ''zisofs: implausible block size'')
      else
        and_then (checked_full_read_len ?hl) (\<lambda>head_len.
        and_then (src_read (is_src s) ?eo head_len) (\<lambda>head.
        and_then (index_range head 0 8) (\<lambda>magic.
        if magic \<noteq> ZISOFS_MAGIC then Err (Corrupt ''zisofs: bad magic'')
        else zisofs_loop lib (is_src s) ?eo head ?zb ?unc (min (length buf) (?unc - off)) 0 off buf))))"
    by (simp only: read_zisofs_def Let_def ar ok_or_simps and_then.simps)
  have loop: "no_panic (zisofs_loop lib (is_src s) (ii_lba i * is_block_size s) head ?zb ?unc (min (length buf) (?unc - off)) 0 off buf)"
    if "off < ?unc" "length head = 16 + (div_ceil ?unc ?zb + 1) * 4" for head
    by (rule zisofs_loop_safe [OF src lb _ that(2)]) (use that in auto)
  show "no_panic (read_zisofs lib s i z off buf)"
    unfolding eq using src_read_fills [OF src]
    by (auto simp: no_panic_simps src checked_full_read_len_eq_Ok intro!: loop)
  assume "read_zisofs lib s i z off buf = Ok (k, buf')"
  then show "k \<le> length buf \<and> length buf' = length buf"
    unfolding eq by (auto simp: and_then_eq_Ok split: if_split_asm dest!: zisofs_loop_len)
qed


lemma read_zisofs_data:
  assumes st: "iso_static_ok s" and i: "inode_ok i" "ii_zisofs i = Some z"
    and z: "zf_uncompressed_size z = length c" "zf_block_size_log2 z < 31"
    and head: "src_read (is_src s) (ii_lba i * is_block_size s) (16 + (div_ceil (length c) (2 ^ zf_block_size_log2 z) + 1) * 4) = Ok head"
      "take 8 head = ZISOFS_MAGIC" "length head \<le> MAX_BOOT_FILE_BYTES"
    and data: "zisofs_data lib (is_src s) (ii_lba i * is_block_size s) head (2 ^ zf_block_size_log2 z) c"
    and off: "off < length c"
  shows "read_zisofs lib s i z off buf =
    Ok (min (length buf) (length c - off), overwrite buf 0 (slice c off (off + min (length buf) (length c - off))))"
proof -
  have src: "sound_source (is_src s)" using st by (simp add: iso_static_ok_def)
  let ?zb = "2 ^ zf_block_size_log2 z :: nat" and ?want = "min (length buf) (length c - off)"
  let ?hl = "16 + (div_ceil (length c) ?zb + 1) * 4" and ?eo = "ii_lba i * is_block_size s"
  have lh: "length head = ?hl" using src_read_fills [OF src head(1)] .
  have ar: "checked_mul 64 (div_ceil (length c) ?zb + 1) 4 = Some ((div_ceil (length c) ?zb + 1) * 4)"
    "uadd 64 16 ((div_ceil (length c) ?zb + 1) * 4) = Ok ?hl" "umul 64 (ii_lba i) (is_block_size s) = Ok ?eo"
    "checked_full_read_len ?hl = Ok ?hl"
    using head(3) lh src_read_bound [OF src head(1)]
    by (simp_all add: checked_mul_def uadd_def umul_def checked_full_read_len_eq_Ok MAX_BOOT_FILE_BYTES_def)
  have mg: "index_range head 0 8 = Ok ZISOFS_MAGIC" using lh head(2) by (simp add: index_range_def slice_def)
  have "zisofs_loop lib (is_src s) ?eo head ?zb (length c) ?want 0 off buf =
      Ok (?want, overwrite buf 0 (slice c off (off + (?want - 0))))"
    by (rule zisofs_loop_data [OF _ data]) (use off in auto)
  moreover have "\<not> length c \<le> off" "\<not> 31 \<le> zf_block_size_log2 z" using off z(2) by simp_all
  ultimately show ?thesis
    by (simp only: read_zisofs_def z(1) Let_def ar ok_or_simps and_then.simps head(1) mg if_False simp_thms diff_zero)
qed


section \<open>The contract\<close>

lemma iso_read_at_ok:
  assumes ok: "iso_ok s"
  shows "no_panic (iso_read_at zf lib s node off buf)"
    and "iso_read_at zf lib s node off buf = Ok (k, buf') \<Longrightarrow> k \<le> length buf \<and> length buf' = length buf"
proof -
  note st = iso_ok_static [OF ok]
  have src: "sound_source (is_src s)" "is_block_size s < 2 ^ 16" using st by (simp_all add: iso_static_ok_def)
  have "no_panic (iso_read_at zf lib s node off buf) \<and>
    (\<forall>k buf'. iso_read_at zf lib s node off buf = Ok (k, buf') \<longrightarrow> k \<le> length buf \<and> length buf' = length buf)"
  proof (cases "iso_inode_of s node")
    case (Ok i)
    have i: "inode_ok i" using iso_inode_ok [OF ok Ok] .
    show ?thesis
    proof (cases "ii_zisofs i")
      case None
      have sz: "ii_size i = sum_list (map snd (ii_extents i))" "\<forall>(l, n) \<in> set (ii_extents i). l < 2 ^ 32 \<and> n < 2 ^ 32"
        "length (ii_extents i) \<le> MAX_EXTENTS" using i by (simp_all add: inode_ok_def)
      have "sum_list (map snd (ii_extents i)) \<le> length (ii_extents i) * 2 ^ 32"
        using sum_list_mono [of "ii_extents i" snd "\<lambda>_. 2 ^ 32"] sz(2) by (force simp: sum_list_triv)
      also have "\<dots> \<le> MAX_EXTENTS * 2 ^ 32" using sz(3) by simp
      finally have b: "sum_list (map snd (ii_extents i)) < 2 ^ 64" by (simp add: MAX_EXTENTS_def)
      let ?n = "min (length buf) (ii_size i - off)"
      let ?r = "read_extents (is_src s) (is_block_size s) off ?n (ii_extents i) 0 0 buf"
      have safe: "no_panic ?r" if "off < ii_size i"
        by (rule read_extents_safe [OF src sz(2)]) (use that b sz(1) in auto)
      have len: "?r = Ok (k, buf') \<Longrightarrow> k \<le> length buf \<and> length buf' = length buf" for k buf'
        using read_extents_len [OF src(1), of _ off ?n _ 0 0 buf k buf'] by simp
      have eq: "iso_read_at zf lib s node off buf =
          (if ii_kind i = Directory then Err IsDirectory else if off \<ge> ii_size i then Ok (0, buf) else ?r)"
        using Ok None by (simp add: iso_read_at_def Let_def)
      show ?thesis
      proof (cases "ii_kind i = Directory \<or> off \<ge> ii_size i")
        case True
        then show ?thesis unfolding eq by auto
      next
        case False
        then have "iso_read_at zf lib s node off buf = ?r" "no_panic ?r" using eq safe by simp_all
        with len show ?thesis by metis
      qed
    next
      case (Some z)
      then show ?thesis using Ok read_zisofs_ok [OF st i Some, of lib off buf] by (auto simp: iso_read_at_def)
    qed
  qed (auto simp: iso_read_at_def iso_inode_of_def ok_or_def split: option.splits)
  then show "no_panic (iso_read_at zf lib s node off buf)"
    and "iso_read_at zf lib s node off buf = Ok (k, buf') \<Longrightarrow> k \<le> length buf \<and> length buf' = length buf" by blast+
qed

lemma no_panic_iso_inode_of [simp]: "no_panic (iso_inode_of s n)"
  by (simp add: iso_inode_of_def)

lemma iso_frontend_simps [simp]:
  "fe_root (iso_frontend zf lib) s = 0"
  "fe_lookup (iso_frontend zf lib) cx = iso_lookup" "fe_read_dir (iso_frontend zf lib) cx = iso_read_dir"
  "fe_metadata (iso_frontend zf lib) cx n s = (iso_metadata s n, s)"
  "fe_read_at (iso_frontend zf lib) cx n off buf s = (iso_read_at zf lib s n off buf, s)"
  "fe_read_link (iso_frontend zf lib) cx n s = (iso_read_link s n, s)"
  by (simp_all add: iso_frontend_def iso_root_def)

interpretation iso: fold_frontend "iso_frontend zf lib" iso_ok for zf lib
proof unfold_locales
  fix s cx n off buf k buf' s'
  assume "iso_ok s" "fe_read_at (iso_frontend zf lib) cx n off buf s = (Ok (k, buf'), s')"
  then show "k \<le> length buf \<and> length buf' = length buf"
    using iso_read_at_ok(2) [of s zf lib n off buf k buf'] by auto
next
  fix s cx d nm r s'
  assume "iso_ok s" "fe_lookup (iso_frontend zf lib) cx d nm s = (r, s')"
  then show "iso_ok s' \<and> fe_root (iso_frontend zf lib) s' = fe_root (iso_frontend zf lib) s"
    using iso_lookup_cases [of s d nm r s'] by simp
next
  fix s cx d r s'
  assume "iso_ok s" "fe_read_dir (iso_frontend zf lib) cx d s = (r, s')"
  then show "iso_ok s' \<and> fe_root (iso_frontend zf lib) s' = fe_root (iso_frontend zf lib) s"
    using iso_read_dir_cases [of s d r s'] by simp
qed simp_all

interpretation iso: panic_free_frontend "iso_frontend zf lib" iso_ok for zf lib
proof unfold_locales
  fix s cx d nm
  assume ok: "iso_ok s"
  have fe: "no_panic (for_each_entry s i)" if "iso_inode_of s d = Ok i" for i
    using for_each_entry_ok(1) [OF iso_ok_static [OF ok]] iso_inode_ok [OF ok that] by (simp add: inode_ok_def)
  obtain r s' where r: "iso_lookup d nm s = (r, s')" by fastforce
  have "no_panic (and_then (iso_inode_of s d) (\<lambda>i. vw_lookup (iso_view s) i nm))"
    using fe by (auto simp: iso_view_def no_panic_simps)
  then show "no_panic (fst (fe_lookup (iso_frontend zf lib) cx d nm s))"
    using iso_lookup_cases [OF ok r] r
    by (cases "and_then (iso_inode_of s d) (\<lambda>i. vw_lookup (iso_view s) i nm)") (auto split: option.splits)
  obtain r s' where r: "iso_read_dir d s = (r, s')" by fastforce
  let ?q = "and_then (iso_inode_of s d) (\<lambda>i. if ii_kind i \<noteq> Directory then Err NotDirectory else for_each_entry s i)"
  have "no_panic ?q" using fe by (auto simp: no_panic_simps)
  then show "no_panic (fst (fe_read_dir (iso_frontend zf lib) cx d s))"
    using iso_read_dir_cases [OF ok r] r by (cases ?q) auto
qed (simp_all add: iso_read_at_ok(1) iso_metadata_def iso_read_link_def no_panic_simps)

interpretation iso: tree_frontend "iso_frontend zf lib" iso_ok cx iso_repr iso_view for zf lib cx
proof unfold_locales
  fix s
  assume "iso_ok s"
  then show "iso_repr s (fe_root (iso_frontend zf lib) s) = Some (vw_root (iso_view s))"
    by (simp add: iso_ok_def iso_base_def iso_repr_def get_at_def iso_view_def)
next
  fix s d kd nm r1 s'
  assume "iso_ok s" "iso_repr s d = Some kd" "fe_lookup (iso_frontend zf lib) cx d nm s = (r1, s')"
  with iso_lookup_cases [of s d nm r1 s']
  show "iso_view s' = iso_view s \<and> (\<forall>n k. iso_repr s n = Some k \<longrightarrow> iso_repr s' n = Some k) \<and>
      (case vw_lookup (iso_view s) kd nm of
         Ok (Some kc) \<Rightarrow> \<exists>c. r1 = Ok (Some c) \<and> iso_repr s' c = Some kc
       | Ok None \<Rightarrow> r1 = Ok None | Err e \<Rightarrow> r1 = Err e | Panic p \<Rightarrow> r1 = Panic p)"
    by (simp add: iso_repr_Some)
qed (auto simp: iso_repr_Some iso_metadata_def iso_read_link_def iso_view_def)

definition iso_content :: "bool \<Rightarrow> 'r codec_lib \<Rightarrow> iso \<Rightarrow> node_id \<Rightarrow> bytes \<Rightarrow> bool" where
  "iso_content zf lib s n c \<longleftrightarrow>
     (\<exists>i. iso_inode_of s n = Ok i \<and> ii_kind i \<noteq> Directory \<and>
        (case ii_zisofs i of
           None \<Rightarrow> extents_data (is_src s) (is_block_size s) (ii_extents i) = Ok c
         | Some z \<Rightarrow>
             zf \<and> zf_uncompressed_size z = length c \<and> zf_block_size_log2 z < 31 \<and>
             (\<exists>head. src_read (is_src s) (ii_lba i * is_block_size s)
                  (16 + (div_ceil (length c) (2 ^ zf_block_size_log2 z) + 1) * 4) = Ok head \<and>
                take 8 head = ZISOFS_MAGIC \<and> length head \<le> MAX_BOOT_FILE_BYTES \<and>
                zisofs_data lib (is_src s) (ii_lba i * is_block_size s) head (2 ^ zf_block_size_log2 z) c)))"

lemma iso_read_at_content:
  assumes ok: "iso_ok s" and c: "iso_content zf lib s n c" and off: "off < length c"
  shows "iso_read_at zf lib s n off buf =
    Ok (min (length buf) (length c - off), overwrite buf 0 (slice c off (off + min (length buf) (length c - off))))"
proof -
  note st = iso_ok_static [OF ok]
  have src: "sound_source (is_src s)" using st by (simp add: iso_static_ok_def)
  from c obtain i where i: "iso_inode_of s n = Ok i" "ii_kind i \<noteq> Directory" by (auto simp: iso_content_def)
  have iok: "inode_ok i" using iso_inode_ok [OF ok i(1)] .
  show ?thesis
  proof (cases "ii_zisofs i")
    case None
    with c i have d: "extents_data (is_src s) (is_block_size s) (ii_extents i) = Ok (drop 0 c)"
      by (simp add: iso_content_def)
    have sz: "ii_size i = length c" using extents_data_length [OF src d] iok by (simp add: inode_ok_def)
    let ?n = "min (length buf) (length c - off)"
    have "length c \<le> 2 ^ 44"
    proof -
      have "sum_list (map snd (ii_extents i)) \<le> length (ii_extents i) * 2 ^ 32"
        using sum_list_mono [of "ii_extents i" snd "\<lambda>_. 2 ^ 32"] iok by (force simp: sum_list_triv inode_ok_def)
      also have "\<dots> \<le> MAX_EXTENTS * 2 ^ 32" using iok by (simp add: inode_ok_def)
      finally show ?thesis using sz iok by (simp add: MAX_EXTENTS_def inode_ok_def)
    qed
    then have "read_extents (is_src s) (is_block_size s) off ?n (ii_extents i) 0 0 buf =
        Ok (?n, overwrite buf 0 (slice c (off + 0) (off + ?n)))"
      by (intro read_extents_data [OF src d]) (use off in auto)
    then show ?thesis using i None sz off by (simp add: iso_read_at_def Let_def)
  next
    case (Some z)
    with c i obtain head where h: "zf" "zf_uncompressed_size z = length c" "zf_block_size_log2 z < 31"
      "src_read (is_src s) (ii_lba i * is_block_size s) (16 + (div_ceil (length c) (2 ^ zf_block_size_log2 z) + 1) * 4) = Ok head"
      "take 8 head = ZISOFS_MAGIC" "length head \<le> MAX_BOOT_FILE_BYTES"
      "zisofs_data lib (is_src s) (ii_lba i * is_block_size s) head (2 ^ zf_block_size_log2 z) c"
      by (auto simp: iso_content_def)
    from read_zisofs_data [OF st iok Some h(2-7) off] i Some h(1) show ?thesis by (simp add: iso_read_at_def)
  qed
qed

lemma iso_read_at_past:
  assumes ok: "iso_ok s" and c: "iso_content zf lib s n c" and off: "length c \<le> off"
  shows "iso_read_at zf lib s n off buf = Ok (0, buf)"
proof -
  from c obtain i where i: "iso_inode_of s n = Ok i" "ii_kind i \<noteq> Directory" by (auto simp: iso_content_def)
  have "sound_source (is_src s)" using iso_ok_static [OF ok] by (simp add: iso_static_ok_def)
  then have "ii_zisofs i = None \<Longrightarrow> ii_size i = length c"
    using c i extents_data_length iso_inode_ok [OF ok i(1)] by (auto simp: iso_content_def inode_ok_def)
  then show ?thesis using i c off
    by (cases "ii_zisofs i") (auto simp: iso_read_at_def iso_content_def read_zisofs_def)
qed

interpretation iso: content_frontend "iso_frontend zf lib" iso_ok cx "iso_content zf lib" for zf lib cx
proof unfold_locales
  fix s n c
  assume ok: "iso_ok s" and c: "iso_content zf lib s n c"
  have src: "sound_source (is_src s)" using iso_ok_static [OF ok] by (simp add: iso_static_ok_def)
  from c obtain i where i: "iso_inode_of s n = Ok i" "ii_kind i \<noteq> Directory"
    "(case ii_zisofs i of None \<Rightarrow> ii_size i | Some z \<Rightarrow> zf_uncompressed_size z) = length c"
    using extents_data_length [OF src] iso_inode_ok [OF ok]
    by (auto simp: iso_content_def inode_ok_def split: option.splits)
  then show "\<exists>md s'. fe_metadata (iso_frontend zf lib) cx n s = (Ok md, s') \<and> md_kind md \<noteq> Directory \<and>
      md_size md = length c \<and> iso_content zf lib s' n c"
    using c by (simp add: iso_metadata_def)
  fix off and buf :: bytes
  assume off: "off < length c" and "buf \<noteq> []"
  then show "\<exists>k s'. fe_read_at (iso_frontend zf lib) cx n off buf s =
      (Ok (k, overwrite buf 0 (slice c off (off + k))), s') \<and>
      0 < k \<and> k \<le> length buf \<and> off + k \<le> length c \<and> iso_content zf lib s' n c"
    using iso_read_at_content [OF ok c off, of buf] c
    by (intro exI [of _ "min (length buf) (length c - off)"] exI [of _ s]) auto
qed



section \<open>Mounting gives a volume that keeps the contract\<close>

definition vd_scan_ok :: "vd_scan \<Rightarrow> bool" where
  "vd_scan_ok st \<longleftrightarrow>
     0 < vs_block_size st \<and> vs_block_size st < 2 ^ 16 \<and>
     (\<forall>lba. vs_catalog st = Some lba \<longrightarrow> lba < 2 ^ 32) \<and>
     (\<forall>r. vs_pvd_root st = Some r \<or> vs_joliet_root st = Some r \<longrightarrow> inode_ok r \<and> ii_key r = ROOT_KEY)"

lemma no_panic_root_record [simp]: "no_panic (root_record vd)"
  by (simp add: root_record_def no_panic_simps)

lemma root_record_ok: "root_record vd = Ok r \<Longrightarrow> inode_ok r \<and> ii_key r = ROOT_KEY"
  by (auto simp: root_record_def and_then_eq_Ok inode_ok_def MAX_EXTENTS_def dest: iso_le_u32_less)

lemma vd_step_ok:
  assumes "vd_scan_ok st" and "length vd = VD_SIZE"
  shows "no_panic (vd_step vd st)" and "vd_step vd st = Ok st' \<Longrightarrow> vd_scan_ok st'"
proof -
  show "no_panic (vd_step vd st)"
    using assms(2) by (auto simp: vd_step_def no_panic_simps VD_SIZE_def JOLIET_ESCAPE_OFFSET_def)
  have bs: "v < 2 ^ 16" if "iso_le_u16 vd 128 = Ok v" for v
    using le_field_less [of _ 2 vd 128 v] that by (auto simp: iso_le_u16_def)
  assume "vd_step vd st = Ok st'"
  then consider "st' = st" | v r where "iso_le_u16 vd 128 = Ok v" "v \<noteq> 0" "root_record vd = Ok r"
      "st' = st\<lparr>vs_block_size := v, vs_pvd_root := Some r\<rparr>"
    | lba where "iso_le_u32 vd ET_CATALOG_PTR_OFFSET = Ok lba" "st' = st\<lparr>vs_catalog := Some lba\<rparr>"
    | r where "root_record vd = Ok r" "st' = st\<lparr>vs_joliet_root := Some r\<rparr>"
    by (auto simp: vd_step_def and_then_eq_Ok split: if_splits)
  then show "vd_scan_ok st'"
  proof cases
    case 2
    then show ?thesis using assms(1) bs root_record_ok by (auto simp: vd_scan_ok_def)
  next
    case 3
    then show ?thesis using assms(1) iso_le_u32_less by (auto simp: vd_scan_ok_def)
  next
    case 4
    then show ?thesis using assms(1) root_record_ok by (auto simp: vd_scan_ok_def)
  qed (use assms(1) in simp)
qed

lemma vd_loop_ok:
  assumes src: "sound_source src"
  shows "vd_scan_ok st \<Longrightarrow> no_panic (vd_loop src left i st) \<and> (\<forall>st'. vd_loop src left i st = Ok st' \<longrightarrow> vd_scan_ok st')"
proof (induction left arbitrary: i st)
  case (Suc left)
  let ?off = "VD_REGION_OFFSET + i * VD_SIZE"
  have step: "no_panic (vd_step vd st)" "vd_step vd st = Ok st' \<Longrightarrow> vd_scan_ok st'"
    if "src_read src ?off VD_SIZE = Ok vd" for vd st'
    using vd_step_ok [OF Suc.prems src_read_fills [OF src that]] by blast+
  have ih: "no_panic (vd_loop src left j st1)" "vd_loop src left j st1 = Ok st' \<Longrightarrow> vd_scan_ok st'"
    if "vd_scan_ok st1" for j st1 st'
    using Suc.IH [OF that] by blast+
  show ?case
    using ih step Suc.prems src by (auto simp: Let_def no_panic_simps and_then_eq_Ok split: if_splits intro: ih(2) step(2))
qed simp

lemma detect_susp_safe: "iso_static_ok s \<Longrightarrow> inode_ok r \<Longrightarrow> no_panic (detect_susp s r)"
  using no_panic_read_dir_extent [of s r] by (simp add: detect_susp_def inode_ok_def no_panic_simps Let_def)

lemma first_intern_ok:
  assumes "iso_static_ok s" and "inode_ok r" and "ii_key r = ROOT_KEY" and "is_nodes s = []" and "is_by_record s = []"
  shows "iso_ok (snd (iso_intern r s))"
proof -
  let ?s = "s\<lparr>is_nodes := [r], is_by_record := [(ROOT_KEY, 0)]\<rparr>"
  have "snd (iso_intern r s) = ?s" using assms(3-5) by (simp add: iso_intern_def Let_def)
  moreover have "iso_base ?s" using assms(1-3) by (simp add: iso_base_def iso_static_ok_def)
  moreover have "table_ok (iso_good ?s) [r] [(ROOT_KEY, 0)]"
    using table_ok_add [of "iso_good ?s" "[]" "[]" ROOT_KEY r] assms(3) by (simp add: iso_good_def)
  ultimately show ?thesis by (simp add: iso_ok_def)
qed

lemma iso_open_ok:
  assumes src: "sound_source src"
  shows "no_panic (iso_open src)" and "iso_open src = Ok s \<Longrightarrow> iso_ok s \<and> is_src s = src"
proof -
  let ?st0 = "\<lparr>vs_block_size = 2048, vs_catalog = None, vs_pvd_root = None, vs_joliet_root = None\<rparr>"
  have "vd_scan_ok ?st0" by (simp add: vd_scan_ok_def)
  note vd = vd_loop_ok [OF src this, of MAX_VD_SCAN 0]
  let ?me = "\<lambda>st. \<lparr>is_src = src, is_block_size = vs_block_size st, is_nodes = [], is_by_record = [],
               is_rock_ridge = False, is_susp_skip = 0, is_joliet = False, is_catalog_lba = vs_catalog st\<rparr>"
  have me: "iso_static_ok (?me st)" if "vd_scan_ok st" for st
    using that src by (simp add: iso_static_ok_def vd_scan_ok_def)
  show "no_panic (iso_open src)"
    using vd me detect_susp_safe by (auto simp: iso_open_def no_panic_simps Let_def ok_or_eq_Ok vd_scan_ok_def)
  assume "iso_open src = Ok s"
  then obtain st r sp where o: "vd_loop src MAX_VD_SCAN 0 ?st0 = Ok st" "vs_pvd_root st = Some r"
    "detect_susp (?me st) r = Ok sp" and
    s: "s = (case sp of
          Some skip \<Rightarrow> snd (iso_intern r ((?me st)\<lparr>is_rock_ridge := True, is_susp_skip := skip\<rparr>))
        | None \<Rightarrow> (case vs_joliet_root st of
              Some jr \<Rightarrow> snd (iso_intern jr ((?me st)\<lparr>is_joliet := True\<rparr>))
            | None \<Rightarrow> snd (iso_intern r (?me st))))"
    unfolding iso_open_def and_then_eq_Ok ok_or_eq_Ok Let_def result.inject by metis
  have st: "vd_scan_ok st" using vd o(1) by blast
  have good: "iso_ok (snd (iso_intern x m)) \<and> is_src (snd (iso_intern x m)) = src"
    if "vs_pvd_root st = Some x \<or> vs_joliet_root st = Some x" "iso_static_ok m" "is_nodes m = []" "is_by_record m = []" "is_src m = src"
    for x m
    using first_intern_ok [OF that(2) _ _ that(3,4)] that st by (auto simp: vd_scan_ok_def iso_intern_def Let_def)
  have var: "iso_static_ok ((?me st)\<lparr>is_rock_ridge := True, is_susp_skip := k\<rparr>)" "iso_static_ok ((?me st)\<lparr>is_joliet := True\<rparr>)" for k
    using me [OF st] by (simp_all add: iso_static_ok_def)
  show "iso_ok s \<and> is_src s = src"
  proof (cases sp)
    case (Some k)
    with s good [OF _ var(1) [of k]] o(2) show ?thesis by simp
  next
    case None
    with s good [OF _ me [OF st]] good [OF _ var(2)] o(2) show ?thesis by (cases "vs_joliet_root st") simp_all
  qed
qed

lemma el_torito_uefi_image_safe: "iso_static_ok s \<Longrightarrow> no_panic (el_torito_uefi_image s)"
proof -
  assume st: "iso_static_ok s"
  then have bs: "is_block_size s < 2 ^ 16" and src: "sound_source (is_src s)" by (simp_all add: iso_static_ok_def)
  have m: "umul 64 a (is_block_size s) = Ok (a * is_block_size s)" "a * is_block_size s + 2048 < 2 ^ 64" if "a < 2 ^ 32" for a
    using block_mult_less [OF that bs] by (simp_all add: umul_def)
  show ?thesis
  proof (cases "is_catalog_lba s")
    case (Some lba)
    then have "lba < 2 ^ 32" using st by (simp add: iso_static_ok_def)
    note c = m [OF this]
    have img: "umul 64 (ui_lba img) (is_block_size s) = Ok (ui_lba img * is_block_size s)"
      "uadd 64 (ui_lba img * is_block_size s) 512 = Ok (ui_lba img * is_block_size s + 512)"
      if "parse_catalog cat = Some img" for cat img
      using m [OF parse_catalog_less [OF that]] by (simp_all add: uadd_def)
    have "no_panic (case parse_catalog cat of None \<Rightarrow> Ok None
      | Some img \<Rightarrow>
          if ui_sectors img \<le> 1 then
            and_then (umul 64 (ui_lba img) (is_block_size s)) (\<lambda>at.
            and_then (uadd 64 at 512) (\<lambda>stop.
            if stop \<le> src_len (is_src s) then
              and_then (src_read (is_src s) at 512) (\<lambda>boot.
                Ok (Some (case fat_image_sectors boot of
                            Some sectors \<Rightarrow> img\<lparr>ui_sectors := sectors\<rparr>
                          | None \<Rightarrow> img)))
            else Ok (Some img)))
          else Ok (Some img))" for cat
      using img [of cat] src by (cases "parse_catalog cat") (simp_all add: no_panic_simps)
    moreover have "uadd 64 (lba * is_block_size s) VD_SIZE = Ok (lba * is_block_size s + VD_SIZE)"
      using c(2) by (simp add: uadd_def VD_SIZE_def)
    ultimately show ?thesis using c(1) src Some by (simp add: el_torito_uefi_image_def no_panic_simps)
  qed (simp add: el_torito_uefi_image_def)
qed

end
