(* ===== verification/Iso_Images.thy ===== *)
theory Iso_Images
  imports Iso9660
begin

text \<open>
  ISO 9660 directories as they are recorded, and what the reader makes of them: the encoding of a
  directory record with its System Use area and the continuation areas behind it, the placing of
  records so that none crosses a sector, and files of several extents as a run of records. The
  listing of such an extent gives the recorded files back.
\<close>

text \<open>
  A file: its name, link target and zisofs parameters as they are to be found, and how it is recorded:
  its identifier, the bytes of its System Use area and its extents.
\<close>

record disc_file =
  df_name :: bytes
  df_target :: "bytes option"
  df_zisofs :: "zisofs option"
  df_fi :: bytes
  df_su :: bytes
  df_is_dir :: bool
  df_extents :: "(nat \<times> nat) list"

definition dr_encode :: "bytes \<Rightarrow> bytes \<Rightarrow> byte \<Rightarrow> nat \<times> nat \<Rightarrow> bytes" where
  "dr_encode fi su flags ex =
     [byte_of (33 + length fi + (if even (length fi) then 1 else 0) + length su), 0] @
     to_le 4 (fst ex) @ to_be 4 (fst ex) @ to_le 4 (snd ex) @ to_be 4 (snd ex) @ replicate 7 0 @
     [flags, 0, 0] @ replicate 4 0 @ [byte_of (length fi)] @ fi @ (if even (length fi) then [0] else []) @ su"

text \<open>Every record of a file but the last says that more follow.\<close>

fun extent_records :: "bytes \<Rightarrow> bytes \<Rightarrow> (nat \<times> nat) list \<Rightarrow> bytes list" where
  "extent_records fi su [] = []"
| "extent_records fi su [ex] = [dr_encode fi su 0 ex]"
| "extent_records fi su (ex # e # es) = dr_encode fi su FLAG_MULTI_EXTENT ex # extent_records fi su (e # es)"

definition file_records :: "disc_file \<Rightarrow> bytes list" where
  "file_records f =
     (if df_is_dir f then [dr_encode (df_fi f) (df_su f) FLAG_DIRECTORY (df_extents f ! 0)]
      else extent_records (df_fi f) (df_su f) (df_extents f))"

text \<open>Where a record of \<open>n\<close> bytes goes: here, or at the next sector when it would cross into it.\<close>

definition place :: "nat \<Rightarrow> nat \<Rightarrow> nat \<Rightarrow> nat" where
  "place bs pos n = (if pos mod bs + n \<le> bs then pos else (pos div bs + 1) * bs)"

fun dir_layout :: "nat \<Rightarrow> nat \<Rightarrow> bytes list \<Rightarrow> bytes" where
  "dir_layout bs pos [] = []"
| "dir_layout bs pos (r # rs) =
     (let p = place bs pos (length r) in replicate (p - pos) 0 @ r @ dir_layout bs (p + length r) rs)"

text \<open>The directory itself and its parent: their System Use areas and extents.\<close>

definition dir_extent ::
  "nat \<Rightarrow> bytes \<times> nat \<times> nat \<Rightarrow> bytes \<times> nat \<times> nat \<Rightarrow> disc_file list \<Rightarrow> nat \<Rightarrow> bytes"
where
  "dir_extent bs self parent fs k =
     dir_layout bs 0 ([dr_encode [0x00] (fst self) FLAG_DIRECTORY (snd self),
       dr_encode [0x01] (fst parent) FLAG_DIRECTORY (snd parent)] @ concat (map file_records fs)) @ replicate k 0"

definition record_fits :: "nat \<Rightarrow> bytes \<Rightarrow> bytes \<Rightarrow> nat \<times> nat \<Rightarrow> bool" where
  "record_fits bs fi su ex \<longleftrightarrow>
     34 + length fi + length su \<le> 255 \<and> 34 + length fi + length su \<le> bs \<and> fst ex < 2 ^ 32 \<and> snd ex < 2 ^ 32"

text \<open>
  The entries of a System Use area \<open>su\<close> and of the continuation areas behind it: every area but the
  last has one entry that says where on the medium the next is.
\<close>

fun areas_recorded :: "iso \<Rightarrow> bytes \<Rightarrow> susp_entry list list \<Rightarrow> bool" where
  "areas_recorded s su [] \<longleftrightarrow> False"
| "areas_recorded s su [es] \<longleftrightarrow>
     (\<exists>rest. su = susp_area es @ rest \<and> area_end rest) \<and> entries_ok es \<and> filter (\<lambda>e. fst e = [0x43, 0x45]) es = []"
| "areas_recorded s su (es # fs # ess) \<longleftrightarrow>
     (\<exists>rest. su = susp_area es @ rest \<and> area_end rest) \<and> entries_ok es \<and>
     (\<exists>block off su'. filter (\<lambda>e. fst e = [0x43, 0x45]) es = [ce_entry block off (length su')] \<and>
        block < 2 ^ 32 \<and> off < 2 ^ 32 \<and> su' \<noteq> [] \<and> length su' \<le> is_block_size s \<and>
        recorded (is_src s) (block * is_block_size s + off) su' \<and> areas_recorded s su' (fs # ess))"

text \<open>What the file is called and what else it is, with the extension and without.\<close>

definition disc_file_is :: "iso \<Rightarrow> disc_file \<Rightarrow> bytes \<Rightarrow> bool" where
  "disc_file_is s f base \<longleftrightarrow>
     (if is_rock_ridge s
      then \<exists>ess. areas_recorded s (drop (is_susp_skip s) (df_su f)) ess \<and> length ess \<le> MAX_CONTINUATIONS + 1 \<and>
        df_name f = rr_named (concat ess) base \<and> target_recorded (concat ess) (df_target f) \<and>
        zf_recorded (concat ess) (df_zisofs f)
      else df_name f = base \<and> df_target f = None \<and> df_zisofs f = None)"

definition disc_file_ok :: "iso \<Rightarrow> disc_file \<Rightarrow> bool" where
  "disc_file_ok s f \<longleftrightarrow>
     (\<exists>base. (if is_joliet s then decode_name_joliet (df_fi f) (df_is_dir f) else decode_name (df_fi f) (df_is_dir f)) = Ok base \<and>
        disc_file_is s f base) \<and>
     df_fi f \<noteq> [0x00] \<and> df_fi f \<noteq> [0x01] \<and>
     (\<forall>ex \<in> set (df_extents f). record_fits (is_block_size s) (df_fi f) (df_su f) ex) \<and>
     df_extents f \<noteq> [] \<and> length (df_extents f) \<le> (if df_is_dir f then 1 else MAX_EXTENTS)"

definition disc_kind :: "disc_file \<Rightarrow> file_kind" where
  "disc_kind f = (if df_target f \<noteq> None then Symlink else if df_is_dir f then Directory else Regular)"


section \<open>Rock Ridge areas\<close>

lemma rr_continue_recorded:
  assumes st: "iso_static_ok s"
  shows "areas_recorded s su ess \<Longrightarrow> length ess \<le> left + 1 \<Longrightarrow>
    rr_continue s left (rr_feed rp su) = Ok (rr_finish (fold rp_step (concat ess) rp))"
  using st
proof (induction s su ess arbitrary: left rp rule: areas_recorded.induct)
  case (2 s su es)
  then obtain rest where su: "su = susp_area es @ rest" "area_end rest" "entries_ok es"
    and ce: "filter (\<lambda>e. fst e = [0x43, 0x45]) es = []" by auto
  have f: "rr_feed rp su = feed_entries es (rp, None)"
    unfolding su(1) by (rule rr_feed_encode) (use su(2,3) in \<open>auto simp: entries_ok_def\<close>)
  have "fst (feed_entries es (rp, None)) = fold rp_step es rp"
    using fst_feed_entries [of es "(rp, None)"] su(3) by (simp add: entries_ok_def)
  moreover have "snd (feed_entries es (rp, None)) = None" using snd_feed_entries_none [OF su(3) ce] by simp
  ultimately have "feed_entries es (rp, None) = (fold rp_step es rp, None)" by (metis prod.collapse)
  then show ?case by (simp add: f)
next
  case (3 s su es fs ess)
  have st: "sound_source (is_src s)" "is_block_size s < 2 ^ 16" using "3.prems"(3) by (simp_all add: iso_static_ok_def)
  from "3.prems"(1) obtain rest block off su' where su: "su = susp_area es @ rest" "area_end rest" "entries_ok es"
    and ce: "filter (\<lambda>e. fst e = [0x43, 0x45]) es = [ce_entry block off (length su')]" "block < 2 ^ 32" "off < 2 ^ 32"
      "su' \<noteq> []" "length su' \<le> is_block_size s"
    and r: "recorded (is_src s) (block * is_block_size s + off) su'" and next': "areas_recorded s su' (fs # ess)" by auto
  have f: "rr_feed rp su = feed_entries es (rp, None)"
    unfolding su(1) by (rule rr_feed_encode) (use su(2,3) in \<open>auto simp: entries_ok_def\<close>)
  have l: "length su' < 2 ^ 32" using ce(5) st(2) by simp
  have "fst (feed_entries es (rp, None)) = fold rp_step es rp"
    using fst_feed_entries [of es "(rp, None)"] su(3) by (simp add: entries_ok_def)
  moreover have "snd (feed_entries es (rp, None)) = Some \<lparr>ce_block = block, ce_offset = off, ce_len = length su'\<rparr>"
    by (rule snd_feed_entries_ce [OF ce(2,3) l su(3) ce(1)])
  ultimately have e: "feed_entries es (rp, None) =
      (fold rp_step es rp, Some \<lparr>ce_block = block, ce_offset = off, ce_len = length su'\<rparr>)" by (metis prod.collapse)
  obtain k where k: "left = Suc k" "length (fs # ess) \<le> k + 1" using "3.prems"(2) by (cases left) auto
  have bound: "block * is_block_size s + off + length su' < 2 ^ 63" using recorded_bound [OF st(1) r] .
  have len: "block * is_block_size s + off + length su' \<le> src_len (is_src s)"
    using src_read_in_range [OF st(1) r [unfolded recorded_def]] .
  have "rr_continue s left (rr_feed rp su) = rr_continue s k (rr_feed (fold rp_step es rp) su')"
    using ce(4,5) bound len r by (simp add: f e k(1) umul_def uadd_def recorded_def)
  then show ?case using "3.IH" [OF next' k(2) "3.prems"(3)] by simp
qed simp

lemma parse_rock_ridge_recorded:
  assumes "iso_static_ok s" and "areas_recorded s su ess" and "length ess \<le> MAX_CONTINUATIONS + 1"
  shows "parse_rock_ridge s su = Ok (rr_finish (fold rp_step (concat ess) rr_parser_default))"
  using rr_continue_recorded [OF assms] by (simp add: parse_rock_ridge_def)


section \<open>One record\<close>

lemma dr_length: "length (dr_encode fi su flags ex) = 33 + length fi + (if even (length fi) then 1 else 0) + length su"
  by (simp add: dr_encode_def)

lemma dr_length_pos: "0 < length (dr_encode fi su flags ex)"
  by (simp add: dr_length)

lemma dr_head:
  "34 + length fi + length su \<le> 255 \<Longrightarrow> unat (dr_encode fi su flags ex ! 0) = length (dr_encode fi su flags ex)"
  by (simp add: dr_length) (simp add: dr_encode_def)

lemma record_fitsD:
  assumes "record_fits bs fi su ex"
  shows "34 + length fi + length su \<le> 255" and "fst ex < 2 ^ 32" and "snd ex < 2 ^ 32" and "0 < bs"
  using assms by (simp_all add: record_fits_def)

lemma dr_fields:
  assumes "record_fits bs fi su ex"
  shows "get_at (dr_encode fi su flags ex) LEN_FI = Some (byte_of (length fi))"
    and "get_range (dr_encode fi su flags ex) FILE_ID (FILE_ID + length fi) = Some fi"
    and "get_at (dr_encode fi su flags ex) FILE_FLAGS = Some flags"
    and "iso_le_u32 (dr_encode fi su flags ex) EXTENT_LBA_LE = Ok (fst ex)"
    and "iso_le_u32 (dr_encode fi su flags ex) DATA_LEN_LE = Ok (snd ex)"
proof -
  let ?r = "dr_encode fi su flags ex"
  have len: "33 + length fi \<le> length ?r" by (simp add: dr_length)
  show "get_at ?r LEN_FI = Some (byte_of (length fi))"
    using len by (simp add: get_at_def LEN_FI_def) (simp add: dr_encode_def nth_append)
  show "get_range ?r FILE_ID (FILE_ID + length fi) = Some fi"
    using len by (simp add: get_range_def FILE_ID_def) (simp add: dr_encode_def slice_def)
  show "get_at ?r FILE_FLAGS = Some flags"
    using len by (simp add: get_at_def FILE_FLAGS_def) (simp add: dr_encode_def nth_append)
  have "from_le (to_le 4 (fst ex)) = fst ex" "from_le (to_le 4 (snd ex)) = snd ex"
    using record_fitsD [OF assms] by (simp_all add: from_le_to_le)
  then show "iso_le_u32 ?r EXTENT_LBA_LE = Ok (fst ex)" "iso_le_u32 ?r DATA_LEN_LE = Ok (snd ex)"
    using len by (simp_all add: iso_le_u32_def le_field_eq_Ok EXTENT_LBA_LE_def DATA_LEN_LE_def)
      (simp_all add: dr_encode_def slice_def)
qed

text \<open>The System Use area, behind the identifier and its padding.\<close>

lemma dr_su:
  "get_from (dr_encode fi su flags ex) (FILE_ID + length fi + (if length fi mod 2 = 0 then 1 else 0)) = Some su"
proof -
  define pre where "pre = [byte_of (33 + length fi + (if even (length fi) then 1 else 0) + length su), 0] @
     to_le 4 (fst ex) @ to_be 4 (fst ex) @ to_le 4 (snd ex) @ to_be 4 (snd ex) @ replicate 7 0 @
     [flags, 0, 0] @ replicate 4 0 @ [byte_of (length fi)] @ fi @ (if even (length fi) then [0] else [])"
  have "length pre = FILE_ID + length fi + (if length fi mod 2 = 0 then 1 else 0)"
    by (simp add: pre_def FILE_ID_def even_iff_mod_2_eq_zero)
  moreover have "dr_encode fi su flags ex = pre @ su" by (simp add: dr_encode_def pre_def)
  ultimately show ?thesis by (simp add: get_from_def)
qed

lemma fresh_entry_recorded:
  assumes st: "iso_static_ok s" and ok: "disc_file_ok s f"
  shows "fresh_entry s lba p (dr_encode (df_fi f) (df_su f) flags ex) (df_fi f) (df_is_dir f) (fst ex) (snd ex) =
    Ok (df_name f, \<lparr>ii_key = (lba, p), ii_lba = fst ex, ii_size = snd ex, ii_extents = [ex], ii_kind = disc_kind f,
      ii_link_target = df_target f, ii_zisofs = df_zisofs f\<rparr>)"
proof -
  let ?r = "dr_encode (df_fi f) (df_su f) flags ex"
  from ok obtain base where
    base: "(if is_joliet s then decode_name_joliet (df_fi f) (df_is_dir f) else decode_name (df_fi f) (df_is_dir f)) = Ok base"
    and df: "disc_file_is s f base" by (auto simp: disc_file_ok_def)
  have "\<exists>rr. record_rock_ridge s ?r (length (df_fi f)) = Ok rr \<and>
      (case Option.bind rr rr_name of Some n \<Rightarrow> n | None \<Rightarrow> base) = df_name f \<and>
      Option.bind rr rr_symlink_target = df_target f \<and> Option.bind rr rr_zisofs = df_zisofs f"
  proof (cases "is_rock_ridge s")
    case False
    then show ?thesis using df by (simp add: record_rock_ridge_def disc_file_is_def)
  next
    case True
    with df obtain ess where a: "areas_recorded s (drop (is_susp_skip s) (df_su f)) ess" "length ess \<le> MAX_CONTINUATIONS + 1"
      and n: "df_name f = rr_named (concat ess) base"
      and tz: "target_recorded (concat ess) (df_target f)" "zf_recorded (concat ess) (df_zisofs f)"
      by (auto simp: disc_file_is_def)
    have "(case get_from (df_su f) (is_susp_skip s) of Some x \<Rightarrow> x | None \<Rightarrow> []) = drop (is_susp_skip s) (df_su f)"
      by (simp add: get_from_def)
    then have "record_rock_ridge s ?r (length (df_fi f)) =
        Ok (Some (rr_finish (fold rp_step (concat ess) rr_parser_default)))"
      using True parse_rock_ridge_recorded [OF st a] by (simp add: record_rock_ridge_def Let_def dr_su)
    then show ?thesis using rr_finish_recorded(1) [OF tz, of base] rr_finish_recorded(2,3) [OF tz] n by simp
  qed
  then show ?thesis using base by (auto simp: fresh_entry_def disc_kind_def Let_def)
qed

text \<open>A record at \<open>pos\<close> gives back its identifier.\<close>

lemma first_fi_encode:
  assumes "drop pos buf = dr_encode fi su flags ex @ post" and fit: "record_fits bs fi su ex"
  shows "first_fi buf pos = Ok fi"
proof -
  let ?r = "dr_encode fi su flags ex"
  have fi: "length fi \<le> 221" using record_fitsD(1) [OF fit] by simp
  have p: "pos < length buf" using assms(1) dr_length_pos by (metis append_is_Nil_conv drop_all le_less_linear length_greater_0_conv)
  then have "buf ! pos = ?r ! 0"
    using assms(1) dr_length_pos by (metis hd_drop_conv_nth hd_append2 hd_conv_nth length_greater_0_conv)
  then have h: "get_at buf pos = Some (?r ! 0)" using p by (simp add: get_at_def)
  have l: "length buf = pos + length ?r + length post" using arg_cong [OF assms(1), of length] p by simp
  have "get_range buf pos (pos + unat (?r ! 0)) = Some ?r"
    using dr_head [OF record_fitsD(1) [OF fit], of flags ex] assms(1) l by (simp add: get_range_def slice_def)
  with h dr_fields [OF fit, of flags] fi show ?thesis by (simp add: first_fi_def)
qed

text \<open>The scan at padding in front of a placed record.\<close>

lemma scan_place:
  assumes bs: "0 < is_block_size s" and d: "drop pos buf = replicate (p - pos) 0 @ r @ post"
    and p: "p = place (is_block_size s) pos (length r)" and r: "unat (r ! 0) = length r" "0 < length r"
  shows "scan_entries s lba buf pos pend =
      and_then (scan_record s lba buf p r pend) (\<lambda>x.
      and_then (scan_entries s lba buf (p + length r) (fst x)) (\<lambda>rest. Ok (snd x @ rest)))"
    and "drop p buf = r @ post"
proof -
  have lt: "pos < (pos div is_block_size s + 1) * is_block_size s"
    using dividend_less_div_times [OF bs, of pos] by (simp add: algebra_simps)
  then have le: "pos \<le> p" by (simp add: p place_def)
  show dp: "drop p buf = r @ post"
  proof -
    have "drop p buf = drop (p - pos) (drop pos buf)" using le by simp
    then show ?thesis using d by simp
  qed
  then have pl: "p < length buf" using r(2) by (metis append_is_Nil_conv drop_all le_less_linear length_greater_0_conv)
  then have hd: "buf ! p = r ! 0" using dp r(2) by (metis hd_drop_conv_nth hd_append2 hd_conv_nth length_greater_0_conv)
  have l: "length buf = p + length r + length post" using arg_cong [OF dp, of length] pl by simp
  have at_p: "scan_entries s lba buf p pend = and_then (scan_record s lba buf p r pend) (\<lambda>x.
      and_then (scan_entries s lba buf (p + length r) (fst x)) (\<lambda>rest. Ok (snd x @ rest)))"
    using scan_entries_record [OF pl, of s lba pend] hd r dp l by (simp add: get_range_def slice_def)
  have "scan_entries s lba buf pos pend = scan_entries s lba buf p pend"
  proof (cases "p = pos")
    case False
    then have q: "p = (pos div is_block_size s + 1) * is_block_size s" by (simp add: p place_def split: if_splits)
    have gt: "0 < p - pos" using le False by simp
    have "pos < length buf" using le pl by simp
    moreover have "buf ! pos = 0"
    proof -
      have "buf ! pos = hd (drop pos buf)" using calculation by (simp add: hd_drop_conv_nth)
      then show ?thesis using d gt by (simp add: hd_append hd_replicate)
    qed
    ultimately have "scan_entries s lba buf pos pend =
        scan_entries s lba buf ((pos div is_block_size s + 1) * is_block_size s) pend"
      using scan_entries_pad [of pos buf s lba pend] bs by simp
    then show ?thesis unfolding q .
  qed simp
  with at_p show "scan_entries s lba buf pos pend = and_then (scan_record s lba buf p r pend) (\<lambda>x.
      and_then (scan_entries s lba buf (p + length r) (fst x)) (\<lambda>rest. Ok (snd x @ rest)))" by simp
qed

lemma scan_zeros:
  assumes "0 < is_block_size s" and "\<forall>i < length buf. pos \<le> i \<longrightarrow> buf ! i = 0"
  shows "scan_entries s lba buf pos None = Ok []"
  using assms(2)
proof (induction "length buf - pos" arbitrary: pos rule: less_induct)
  case less
  let ?nxt = "(pos div is_block_size s + 1) * is_block_size s"
  have lt: "pos < ?nxt"
    using dividend_less_div_times [OF assms(1), of pos] by (simp add: algebra_simps)
  show ?case
  proof (cases "pos < length buf")
    case True
    have "\<forall>i < length buf. ?nxt \<le> i \<longrightarrow> buf ! i = 0" using less.prems lt by (meson le_trans less_imp_le)
    then have "scan_entries s lba buf ?nxt None = Ok []" using less.hyps [of ?nxt] True lt
      by (meson diff_less_mono2)
    moreover have "unat (buf ! pos) = 0" using less.prems True by simp
    ultimately show ?thesis using scan_entries_pad [OF True, of s lba None] assms(1) by simp
  qed (simp add: scan_entries_stop)
qed


section \<open>A file of several extents\<close>

lemma scan_record_encode:
  assumes "record_fits bs fi su ex"
  shows "scan_record s lba buf p (dr_encode fi su flags ex) pend =
    (if fi = [0x00] \<or> fi = [0x01] then Ok (pend, [])
     else scan_named s lba buf p (dr_encode fi su flags ex) pend fi flags (fst ex) (snd ex))"
proof -
  have fi: "length fi \<le> 221" using record_fitsD(1) [OF assms] by simp
  have "length fi = 1 \<and> (fi ! 0 = 0x00 \<or> fi ! 0 = 0x01) \<longleftrightarrow> fi = [0x00] \<or> fi = [0x01]"
    by (cases fi) auto
  with dr_fields [OF assms, of flags] fi show ?thesis by (auto simp: scan_record_def)
qed

definition add_extents :: "iso_inode \<Rightarrow> (nat \<times> nat) list \<Rightarrow> iso_inode" where
  "add_extents i exts = i\<lparr>ii_extents := ii_extents i @ exts, ii_size := ii_size i + sum_list (map snd exts)\<rparr>"

lemma add_extents_Cons: "add_extents (add_extents i [ex]) exts = add_extents i (ex # exts)"
  by (simp add: add_extents_def)

lemma flags_simps [simp]:
  "FLAG_MULTI_EXTENT AND FLAG_DIRECTORY = 0" "FLAG_DIRECTORY AND FLAG_MULTI_EXTENT = 0"
  "FLAG_MULTI_EXTENT \<noteq> 0" "FLAG_DIRECTORY \<noteq> 0"
  by (simp_all add: FLAG_MULTI_EXTENT_def FLAG_DIRECTORY_def)

lemma scan_more:
  assumes "first_fi buf (snd (ii_key i)) = Ok fi" and "length (ii_extents i) < MAX_EXTENTS"
    and "ii_size i + snd ex < 2 ^ 64" and "flags = 0 \<or> flags = FLAG_MULTI_EXTENT"
  shows "scan_named s lba buf p r (Some (first, i)) fi flags (fst ex) (snd ex) =
    Ok (if flags = 0 then (None, [(first, add_extents i [ex])]) else (Some (first, add_extents i [ex]), []))"
  using assms by (auto simp: scan_named_def uadd_def add_extents_def Let_def)

lemma scan_pending:
  assumes "exts \<noteq> []" and "drop pos buf = dir_layout (is_block_size s) pos (extent_records fi su exts @ rest) @ tail"
    and "first_fi buf (snd (ii_key i)) = Ok fi" and "length (ii_extents i) + length exts \<le> MAX_EXTENTS"
    and "ii_size i + sum_list (map snd exts) < 2 ^ 64"
    and bs: "0 < is_block_size s" and fi: "fi \<noteq> [0x00]" "fi \<noteq> [0x01]"
    and w: "\<forall>ex \<in> set exts. record_fits (is_block_size s) fi su ex"
  shows "\<exists>pos'. drop pos' buf = dir_layout (is_block_size s) pos' rest @ tail \<and>
    scan_entries s lba buf pos (Some (first, i)) =
      and_then (scan_entries s lba buf pos' None) (\<lambda>r. Ok ((first, add_extents i exts) # r))"
  using assms(1-5) w
proof (induction exts arbitrary: pos i)
  case (Cons ex exts)
  define flags where "flags = (if exts = [] then 0 else FLAG_MULTI_EXTENT)"
  let ?r = "dr_encode fi su flags ex"
  define p where "p = place (is_block_size s) pos (length ?r)"
  have recs: "extent_records fi su (ex # exts) = ?r # extent_records fi su exts"
    by (cases exts) (simp_all add: flags_def)
  have wx: "record_fits (is_block_size s) fi su ex" using Cons.prems(6) by simp
  have d: "drop pos buf = replicate (p - pos) 0 @ ?r @
      (dir_layout (is_block_size s) (p + length ?r) (extent_records fi su exts @ rest) @ tail)"
    using Cons.prems(2) by (simp add: recs Let_def p_def)
  note sp = scan_place [OF bs d p_def dr_head [OF record_fitsD(1) [OF wx]] dr_length_pos]
  have d': "drop (p + length ?r) buf = dir_layout (is_block_size s) (p + length ?r) (extent_records fi su exts @ rest) @ tail"
  proof -
    have "drop (p + length ?r) buf = drop (length ?r) (drop p buf)" by (simp add: add.commute)
    then show ?thesis using sp(2) by simp
  qed
  have "flags = 0 \<longleftrightarrow> exts = []" by (simp add: flags_def FLAG_MULTI_EXTENT_def)
  moreover have "flags = 0 \<or> flags = FLAG_MULTI_EXTENT" by (simp add: flags_def)
  ultimately have sr: "scan_record s lba buf p ?r (Some (first, i)) =
      Ok (if exts = [] then (None, [(first, add_extents i [ex])]) else (Some (first, add_extents i [ex]), []))"
    using scan_more [OF Cons.prems(3), of ex flags] Cons.prems(4,5) scan_record_encode [OF wx] fi by simp
  show ?case
  proof (cases "exts = []")
    case True
    then show ?thesis using sp(1) [of lba "Some (first, i)"] sr d' by (intro exI [of _ "p + length ?r"]) simp
  next
    case False
    have "first_fi buf (snd (ii_key (add_extents i [ex]))) = Ok fi"
      "length (ii_extents (add_extents i [ex])) + length exts \<le> MAX_EXTENTS"
      "ii_size (add_extents i [ex]) + sum_list (map snd exts) < 2 ^ 64"
      using Cons.prems(3-5) by (simp_all add: add_extents_def)
    from Cons.IH [OF False d' this] Cons.prems(6) sp(1) [of lba "Some (first, i)"] sr False show ?thesis
      by (auto simp: add_extents_Cons and_then_Ok_right)
  qed
qed simp

definition disc_inode :: "nat \<Rightarrow> nat \<Rightarrow> disc_file \<Rightarrow> iso_inode" where
  "disc_inode lba p f =
     \<lparr>ii_key = (lba, p), ii_lba = fst (hd (df_extents f)), ii_size = sum_list (map snd (df_extents f)),
      ii_extents = df_extents f, ii_kind = disc_kind f,
      ii_link_target = df_target f, ii_zisofs = df_zisofs f\<rparr>"

lemma extents_total_less:
  assumes "\<forall>ex \<in> set exts. snd ex < (2 ^ 32 :: nat)" and "length exts \<le> MAX_EXTENTS"
  shows "sum_list (map snd exts) < 2 ^ 64"
proof -
  have "sum_list (map snd exts) \<le> length exts * 2 ^ 32"
    using sum_list_mono [of exts snd "\<lambda>_. 2 ^ 32"] assms(1) by (force simp: sum_list_triv)
  also have "\<dots> \<le> MAX_EXTENTS * 2 ^ 32" using assms(2) by simp
  finally show ?thesis by (simp add: MAX_EXTENTS_def)
qed

lemma scan_file:
  assumes st: "iso_static_ok s" and ok: "disc_file_ok s f"
    and lay: "drop pos buf = dir_layout (is_block_size s) pos (file_records f @ rest) @ tail"
  shows "\<exists>pos' p. drop pos' buf = dir_layout (is_block_size s) pos' rest @ tail \<and>
    scan_entries s lba buf pos None =
      and_then (scan_entries s lba buf pos' None) (\<lambda>r. Ok ((df_name f, disc_inode lba p f) # r))"
proof -
  obtain ex exts where ex: "df_extents f = ex # exts" using ok by (cases "df_extents f") (auto simp: disc_file_ok_def)
  have fi: "df_fi f \<noteq> [0x00]" "df_fi f \<noteq> [0x01]" and bs: "0 < is_block_size s"
    and w: "record_fits (is_block_size s) (df_fi f) (df_su f) ex"
      "\<forall>ex \<in> set exts. record_fits (is_block_size s) (df_fi f) (df_su f) ex"
    and n: "length (df_extents f) \<le> (if df_is_dir f then 1 else MAX_EXTENTS)"
    using ok ex st by (auto simp: disc_file_ok_def iso_static_ok_def)
  define flags where "flags = (if df_is_dir f then FLAG_DIRECTORY else if exts = [] then 0 else FLAG_MULTI_EXTENT)"
  let ?r = "dr_encode (df_fi f) (df_su f) flags ex"
    and ?more = "if df_is_dir f then [] else extent_records (df_fi f) (df_su f) exts"
  define p where "p = place (is_block_size s) pos (length ?r)"
  define q where "q = p + length ?r"
  have recs: "file_records f = ?r # ?more"
    using ex by (cases exts) (simp_all add: flags_def file_records_def)
  have d: "drop pos buf = replicate (p - pos) 0 @ ?r @ (dir_layout (is_block_size s) q (?more @ rest) @ tail)"
    using lay by (simp add: recs Let_def p_def q_def)
  note sp = scan_place [OF bs d p_def dr_head [OF record_fitsD(1) [OF w(1)]] dr_length_pos, folded q_def]
  have d': "drop q buf = dir_layout (is_block_size s) q (?more @ rest) @ tail"
  proof -
    have "drop q buf = drop (length ?r) (drop p buf)" by (simp add: add.commute q_def)
    then show ?thesis using sp(2) by simp
  qed
  have ffi: "first_fi buf p = Ok (df_fi f)" using first_fi_encode [OF sp(2) w(1)] .
  let ?i = "(disc_inode lba p f)\<lparr>ii_extents := [ex], ii_size := snd ex\<rparr>"
  have fe: "fresh_entry s lba p ?r (df_fi f) (df_is_dir f) (fst ex) (snd ex) = Ok (df_name f, ?i)"
    using fresh_entry_recorded [OF st ok, of lba p flags ex] ex by (simp add: disc_inode_def)
  have fl: "flags AND FLAG_DIRECTORY \<noteq> 0 \<longleftrightarrow> df_is_dir f"
    "flags AND FLAG_MULTI_EXTENT \<noteq> 0 \<longleftrightarrow> \<not> df_is_dir f \<and> exts \<noteq> []"
    by (simp_all add: flags_def)
  have "scan_named s lba buf p ?r None (df_fi f) flags (fst ex) (snd ex) =
      Ok (if \<not> df_is_dir f \<and> exts \<noteq> [] then (Some (df_name f, ?i), []) else (None, [(df_name f, ?i)]))"
    unfolding scan_named_def Let_def fl option.case fe by auto
  with scan_record_encode [OF w(1), of s lba buf p flags None] fi
  have sr: "scan_record s lba buf p ?r None =
      Ok (if \<not> df_is_dir f \<and> exts \<noteq> [] then (Some (df_name f, ?i), []) else (None, [(df_name f, ?i)]))" by simp
  show ?thesis
  proof (cases "\<not> df_is_dir f \<and> exts \<noteq> []")
    case False
    then have "exts = []" using n ex by (auto split: if_splits)
    then have "?i = disc_inode lba p f" "?more = []" using ex by (simp_all add: disc_inode_def)
    then show ?thesis using sp(1) [of lba None] sr d' False by (intro exI [of _ q] exI [of _ p]) auto
  next
    case True
    then have more: "?more = extent_records (df_fi f) (df_su f) exts" by simp
    have "\<forall>e \<in> set (ex # exts). snd e < 2 ^ 32" using w by (simp add: record_fits_def)
    then have tot: "ii_size ?i + sum_list (map snd exts) < 2 ^ 64"
      using extents_total_less [of "ex # exts"] n ex True by simp
    have key: "first_fi buf (snd (ii_key ?i)) = Ok (df_fi f)" using ffi by (simp add: disc_inode_def)
    have "length (ii_extents ?i) + length exts \<le> MAX_EXTENTS" using n ex True by simp
    from scan_pending [OF _ d' [unfolded more] key this tot bs fi w(2)] True obtain pos' where
      "drop pos' buf = dir_layout (is_block_size s) pos' rest @ tail"
      "scan_entries s lba buf q (Some (df_name f, ?i)) =
        and_then (scan_entries s lba buf pos' None) (\<lambda>r. Ok ((df_name f, add_extents ?i exts) # r))" by blast
    moreover have "add_extents ?i exts = disc_inode lba p f" using ex by (simp add: add_extents_def disc_inode_def)
    ultimately show ?thesis using sp(1) [of lba None] sr True by (auto simp: and_then_Ok_right)
  qed
qed

lemma scan_files:
  assumes "\<forall>f \<in> set fs. disc_file_ok s f" and "iso_static_ok s" and "0 < is_block_size s"
    and "drop pos buf = dir_layout (is_block_size s) pos (concat (map file_records fs)) @ replicate k 0"
  shows "\<exists>ps. length ps = length fs \<and>
    scan_entries s lba buf pos None = Ok (map (\<lambda>(p, f). (df_name f, disc_inode lba p f)) (zip ps fs))"
  using assms(1,4)
proof (induction fs arbitrary: pos)
  case Nil
  then have d: "drop pos buf = replicate k 0" by simp
  have "buf ! i = 0" if "i < length buf" "pos \<le> i" for i
  proof -
    have "buf ! i = drop pos buf ! (i - pos)" using that by simp
    then show ?thesis using d that by (metis diff_less_mono length_drop length_replicate nth_replicate)
  qed
  then show ?case using scan_zeros [OF assms(3)] by simp
next
  case (Cons f fs)
  then have "drop pos buf = dir_layout (is_block_size s) pos (file_records f @ concat (map file_records fs)) @ replicate k 0" by simp
  from scan_file [OF assms(2) _ this, of lba] Cons.prems(1) obtain pos' p where
    1: "drop pos' buf = dir_layout (is_block_size s) pos' (concat (map file_records fs)) @ replicate k 0"
    "scan_entries s lba buf pos None =
      and_then (scan_entries s lba buf pos' None) (\<lambda>r. Ok ((df_name f, disc_inode lba p f) # r))" by auto
  from Cons.IH [OF _ 1(1)] Cons.prems(1) obtain ps where
    "length ps = length fs" "scan_entries s lba buf pos' None = Ok (map (\<lambda>(p, f). (df_name f, disc_inode lba p f)) (zip ps fs))"
    by auto
  then show ?case using 1(2) by (intro exI [of _ "p # ps"]) simp
qed

text \<open>The records of the directory itself and of its parent are passed over.\<close>

lemma scan_dot_records:
  assumes bs: "0 < is_block_size s" and b: "b = 0x00 \<or> b = 0x01" and w: "record_fits (is_block_size s) [b] su ex"
    and lay: "drop pos buf = dir_layout (is_block_size s) pos (dr_encode [b] su FLAG_DIRECTORY ex # rest) @ tail"
  shows "\<exists>pos'. drop pos' buf = dir_layout (is_block_size s) pos' rest @ tail \<and>
    scan_entries s lba buf pos None = scan_entries s lba buf pos' None"
proof -
  let ?r = "dr_encode [b] su FLAG_DIRECTORY ex"
  define p where "p = place (is_block_size s) pos (length ?r)"
  define q where "q = p + length ?r"
  have d: "drop pos buf = replicate (p - pos) 0 @ ?r @ (dir_layout (is_block_size s) q rest @ tail)"
    using lay by (simp add: Let_def p_def q_def)
  note sp = scan_place [OF bs d p_def dr_head [OF record_fitsD(1) [OF w]] dr_length_pos, folded q_def]
  have "drop q buf = drop (length ?r) (drop p buf)" by (simp add: add.commute q_def)
  then have "drop q buf = dir_layout (is_block_size s) q rest @ tail" using sp(2) by simp
  moreover have "scan_record s lba buf p ?r None = Ok (None, [])"
    using scan_record_encode [OF w, of s lba buf p FLAG_DIRECTORY None] b by auto
  ultimately show ?thesis using sp(1) [of lba None] by (auto simp: and_then_Ok_right)
qed

lemma scan_dir_extent:
  assumes "\<forall>f \<in> set fs. disc_file_ok s f" and st: "iso_static_ok s"
    and w: "record_fits (is_block_size s) [0x00] (fst self) (snd self)"
      "record_fits (is_block_size s) [0x01] (fst parent) (snd parent)"
  shows "\<exists>ps. length ps = length fs \<and>
    scan_entries s lba (dir_extent (is_block_size s) self parent fs k) 0 None =
      Ok (map (\<lambda>(p, f). (df_name f, disc_inode lba p f)) (zip ps fs))"
proof -
  let ?buf = "dir_extent (is_block_size s) self parent fs k"
  have bs: "0 < is_block_size s" using st by (simp add: iso_static_ok_def)
  have "drop 0 ?buf = dir_layout (is_block_size s) 0 (dr_encode [0x00] (fst self) FLAG_DIRECTORY (snd self) #
      dr_encode [0x01] (fst parent) FLAG_DIRECTORY (snd parent) # concat (map file_records fs)) @ replicate k 0"
    by (simp add: dir_extent_def)
  from scan_dot_records [OF bs disjI1 [OF refl] w(1) this] obtain pos1 where
    1: "drop pos1 ?buf = dir_layout (is_block_size s) pos1
      (dr_encode [0x01] (fst parent) FLAG_DIRECTORY (snd parent) # concat (map file_records fs)) @ replicate k 0"
    "scan_entries s lba ?buf 0 None = scan_entries s lba ?buf pos1 None" by blast
  from scan_dot_records [OF bs disjI2 [OF refl] w(2) 1(1)] obtain pos2 where
    2: "drop pos2 ?buf = dir_layout (is_block_size s) pos2 (concat (map file_records fs)) @ replicate k 0"
    "scan_entries s lba ?buf pos1 None = scan_entries s lba ?buf pos2 None" by blast
  from scan_files [OF assms(1) st bs 2(1)] 1(2) 2(2) show ?thesis by simp
qed


section \<open>Listings and handles\<close>

lemma iso_listing:
  assumes ok: "iso_ok s" and dir: "iso_inode_of s d = Ok dir" "ii_kind dir = Directory"
    and ext: "read_dir_extent s dir = Ok (dir_extent (is_block_size s) self parent fs k)"
    and fs: "\<forall>f \<in> set fs. disc_file_ok s f"
    and w: "record_fits (is_block_size s) [0x00] (fst self) (snd self)"
      "record_fits (is_block_size s) [0x01] (fst parent) (snd parent)"
  shows "\<exists>out s'. iso_read_dir d s = (Ok out, s') \<and> iso_ok s' \<and>
    map (\<lambda>e. (de_name e, de_kind e)) out = map (\<lambda>f. (df_name f, disc_kind f)) fs \<and>
    (\<forall>i < length fs. \<exists>p. iso_inode_of s' (de_node (out ! i)) = Ok (disc_inode (ii_lba dir) p (fs ! i)))"
proof -
  from scan_dir_extent [OF fs iso_ok_static [OF ok] w, of "ii_lba dir" k] obtain ps where ps: "length ps = length fs"
    "scan_entries s (ii_lba dir) (dir_extent (is_block_size s) self parent fs k) 0 None =
      Ok (map (\<lambda>(p, f). (df_name f, disc_inode (ii_lba dir) p f)) (zip ps fs))" by blast
  let ?es = "map (\<lambda>(p, f). (df_name f, disc_inode (ii_lba dir) p f)) (zip ps fs)"
  have fe: "for_each_entry s dir = Ok ?es" using ps(2) ext by (simp add: for_each_entry_def)
  obtain r s' where r: "iso_read_dir d s = (r, s')" by fastforce
  from iso_read_dir_cases [OF ok r] fe dir obtain out where
    out: "iso_ok s'" "r = Ok out" "length out = length ?es"
    "\<forall>i < length ?es. de_name (out ! i) = fst (?es ! i) \<and> de_kind (out ! i) = ii_kind (snd (?es ! i)) \<and>
       iso_repr s' (de_node (out ! i)) = Some (snd (?es ! i))"
    by auto
  have e: "?es ! i = (df_name (fs ! i), disc_inode (ii_lba dir) (ps ! i) (fs ! i))" if "i < length fs" for i
    using that ps(1) by simp
  have "map (\<lambda>e. (de_name e, de_kind e)) out = map (\<lambda>f. (df_name f, disc_kind f)) fs"
    using out(3,4) e ps(1) by (intro nth_equalityI) (auto simp: disc_inode_def)
  moreover have "\<forall>i < length fs. \<exists>p. iso_inode_of s' (de_node (out ! i)) = Ok (disc_inode (ii_lba dir) p (fs ! i))"
    using out(4) e ps(1) by (auto simp: iso_repr_Some)
  ultimately show ?thesis using r out(1,2) by blast
qed

lemma intern_collected_static:
  "intern_collected es s = (out, s') \<Longrightarrow> is_src s' = is_src s \<and> is_block_size s' = is_block_size s"
proof (induction es arbitrary: s out)
  case (Cons e es)
  obtain n s1 where i: "iso_intern (snd e) s = (n, s1)" by fastforce
  then have "is_src s1 = is_src s \<and> is_block_size s1 = is_block_size s"
    by (auto simp: iso_intern_def Let_def split: option.splits)
  with Cons i show ?case by (cases e) (auto split: prod.splits)
qed simp

lemma iso_read_dir_static:
  "iso_read_dir d s = (r, s') \<Longrightarrow> is_src s' = is_src s \<and> is_block_size s' = is_block_size s"
  by (auto simp: iso_read_dir_def dest: intern_collected_static split: result.splits prod.splits)

lemma iso_lookup_again:
  assumes ok: "iso_ok s" and l: "iso_lookup d nm s = (Ok (Some n), s1)"
  shows "iso_lookup d nm s1 = (Ok (Some n), s1)"
proof -
  from l obtain di es i where i: "iso_inode_of s d = Ok di" "ii_kind di = Directory" "for_each_entry s di = Ok es"
    "find_named nm es = Some i" "iso_intern i s = (n, s1)"
    by (auto simp: iso_lookup_def and_then_eq_Ok split: result.splits option.splits if_splits prod.splits)
  have "ii_lba di < 2 ^ 32" using iso_inode_ok [OF ok i(1)] by (simp add: inode_ok_def)
  note g = entry_good [OF iso_ok_static [OF ok] this i(3) find_named_mem [OF i(4)]]
  note k = iso_intern_ok [OF ok g i(5)]
  have "iso_inode_of s1 d = Ok di" using i(1) k(7) [of d] by (simp add: iso_inode_of_Ok)
  moreover have "iso_intern i s1 = (n, s1)"
    using iso_table.intern_again [OF _ g i(5)] ok by (simp add: iso_ok_def)
  ultimately show ?thesis using i(2-4) k(3) by (simp add: iso_lookup_def)
qed


section \<open>A small disc\<close>

text \<open>
  Sectors of 64 bytes and Rock Ridge: a file of two extents with a name of its own, an empty directory
  with none, and a link whose target is in a continuation area.
\<close>

definition small_files :: "disc_file list" where
  "small_files =
     [\<lparr>df_name = ascii ''a'', df_target = None, df_zisofs = None, df_fi = ascii ''A.;1'',
        df_su = susp_area [([0x4E, 0x4D], [0, 0x61])], df_is_dir = False, df_extents = [(6, 3), (7, 2)]\<rparr>,
      \<lparr>df_name = ascii ''D'', df_target = None, df_zisofs = None, df_fi = ascii ''D'', df_su = [], df_is_dir = True,
        df_extents = [(8, 0)]\<rparr>,
      \<lparr>df_name = ascii ''L'', df_target = Some [0x2F, 0x61], df_zisofs = None, df_fi = ascii ''L'',
        df_su = susp_area [ce_entry 7 2 12], df_is_dir = False, df_extents = [(8, 0)]\<rparr>]"

text \<open>The continuation area: the target's components and two bytes of padding.\<close>

definition small_area :: bytes where
  "small_area = susp_area [sl_entry [(0x08, []), (0, [0x61])]] @ [0, 0]"

definition small_disc :: bytes where
  "small_disc = dir_extent 64 ([], 0, 384) ([], 0, 384) small_files 2 @ [1, 2, 3] @ replicate 61 0 @ [4, 5] @ small_area"

definition small_root :: iso_inode where
  "small_root = \<lparr>ii_key = ROOT_KEY, ii_lba = 0, ii_size = 384, ii_extents = [(0, 384)], ii_kind = Directory,
     ii_link_target = None, ii_zisofs = None\<rparr>"

definition small_volume :: iso where
  "small_volume = \<lparr>is_src = slice_source small_disc, is_block_size = 64, is_nodes = [small_root],
     is_by_record = [(ROOT_KEY, 0)], is_rock_ridge = True, is_susp_skip = 0, is_joliet = False, is_catalog_lba = None\<rparr>"

fun layout_end :: "nat \<Rightarrow> nat \<Rightarrow> nat list \<Rightarrow> nat" where
  "layout_end bs pos [] = pos"
| "layout_end bs pos (n # ns) = layout_end bs (place bs pos n + n) ns"

lemma place_ge: "0 < bs \<Longrightarrow> pos \<le> place bs pos n"
  using dividend_less_div_times [of bs pos] by (simp add: place_def algebra_simps)

lemma layout_end_ge: "0 < bs \<Longrightarrow> pos \<le> layout_end bs pos ns"
proof (induction ns arbitrary: pos)
  case (Cons n ns)
  show ?case using place_ge [OF Cons.prems, of pos n] Cons.IH [OF Cons.prems, of "place bs pos n + n"] by simp
qed simp

lemma dir_layout_length: "0 < bs \<Longrightarrow> length (dir_layout bs pos rs) = layout_end bs pos (map length rs) - pos"
proof (induction rs arbitrary: pos)
  case (Cons r rs)
  show ?case
    using place_ge [OF Cons.prems, of pos "length r"] Cons.IH [OF Cons.prems, of "place bs pos (length r) + length r"]
      layout_end_ge [OF Cons.prems, of "place bs pos (length r) + length r" "map length rs"]
    by (simp add: Let_def)
qed simp

lemma small_entries:
  "susp_area [([0x4E, 0x4D], [0, 0x61])] = [0x4E, 0x4D, 6, 1, 0, 0x61]" "length (susp_area [ce_entry 7 2 12]) = 28"
  "small_area = [0x53, 0x4C, 10, 1, 0, 8, 0, 0, 1, 0x61, 0, 0]"
  by (simp_all add: susp_area_def susp_encode_def ce_entry_def small_area_def sl_entry_def sl_encode_def byte_of_def)

lemma small_extent_length: "length (dir_extent 64 ([], 0, 384) ([], 0, 384) small_files 2) = 384"
proof -
  define rs where "rs = [dr_encode [0x00] [] FLAG_DIRECTORY (0, 384), dr_encode [0x01] [] FLAG_DIRECTORY (0, 384)] @
      concat (map file_records small_files)"
  have "map length rs = [34, 34, 44, 44, 34, 62]"
    by (simp add: rs_def small_files_def file_records_def dr_length small_entries) (simp add: ascii_def)
  moreover have "layout_end 64 0 [34, 34, 44, 44, 34, 62] = 382" by (simp add: place_def)
  ultimately have "length (dir_layout 64 0 rs) = 382" by (simp add: dir_layout_length)
  then show ?thesis unfolding dir_extent_def fst_conv snd_conv rs_def [symmetric] by simp
qed

lemma small_disc_length: "length small_disc = 462"
  by (simp add: small_disc_def small_extent_length small_entries)

lemma small_volume_ok: "iso_ok small_volume"
proof -
  let ?s = "small_volume\<lparr>is_nodes := [], is_by_record := []\<rparr>"
  have "iso_static_ok ?s"
    by (simp add: iso_static_ok_def small_volume_def sound_slice_source small_disc_length)
  moreover have "inode_ok small_root" by (simp add: inode_ok_def small_root_def MAX_EXTENTS_def)
  ultimately have "iso_ok (snd (iso_intern small_root ?s))"
    using first_intern_ok [of ?s small_root] by (simp add: small_root_def)
  moreover have "snd (iso_intern small_root ?s) = small_volume"
    by (simp add: iso_intern_def small_volume_def small_root_def)
  ultimately show ?thesis by simp
qed

lemma small_volume_root:
  "iso_inode_of small_volume 0 = Ok small_root"
  "read_dir_extent small_volume small_root =
     Ok (dir_extent (is_block_size small_volume) ([], 0, 384) ([], 0, 384) small_files 2)"
proof -
  show "iso_inode_of small_volume 0 = Ok small_root" by (simp add: iso_inode_of_Ok small_volume_def)
  have "slice small_disc 0 384 = dir_extent 64 ([], 0, 384) ([], 0, 384) small_files 2"
    by (simp add: small_disc_def slice_def small_extent_length)
  then show "read_dir_extent small_volume small_root =
     Ok (dir_extent (is_block_size small_volume) ([], 0, 384) ([], 0, 384) small_files 2)"
    by (simp add: read_dir_extent_def small_volume_def small_root_def checked_full_read_len_def checked_len_def
        usize_max_def MAX_BOOT_FILE_BYTES_def
        umul_def slice_read_at_eq_Ok small_disc_length)
qed

lemma small_volume_simps:
  "is_block_size small_volume = 64" "is_joliet small_volume = False" "is_rock_ridge small_volume = True"
  "is_susp_skip small_volume = 0" "is_src small_volume = slice_source small_disc" "ii_kind small_root = Directory"
  by (simp_all add: small_volume_def small_root_def)

lemma small_area_recorded: "recorded (slice_source small_disc) 450 small_area"
proof -
  have l: "length (dir_extent 64 ([], 0, 384) ([], 0, 384) small_files 2 @ [1, 2, 3] @ replicate 61 0 @ [4, 5]) = 450"
    by (simp add: small_extent_length)
  have "slice small_disc 450 462 = small_area"
    using slice_middle [OF l, of small_area "[]"] by (simp add: small_disc_def small_entries(3))
  then show ?thesis using small_disc_length by (simp add: recorded_def slice_read_at_eq_Ok small_entries(3))
qed

lemma small_areas:
  "areas_recorded small_volume (susp_area [([0x4E, 0x4D], [0, 0x61])]) [[([0x4E, 0x4D], [0, 0x61])]]"
  "areas_recorded small_volume [] [[]]"
  "areas_recorded small_volume (susp_area [ce_entry 7 2 12]) [[ce_entry 7 2 12], [sl_entry [(0x08, []), (0, [0x61])]]]"
proof -
  have e: "area_end []" "area_end [0, 0]" by (simp_all add: area_end_def susp_end_def)
  show "areas_recorded small_volume (susp_area [([0x4E, 0x4D], [0, 0x61])]) [[([0x4E, 0x4D], [0, 0x61])]]"
    using e(1) by (simp add: entries_ok_def susp_ok_def)
  show "areas_recorded small_volume [] [[]]" using e(1) by (simp add: entries_ok_def susp_area_def)
  have a: "areas_recorded small_volume small_area [[sl_entry [(0x08, []), (0, [0x61])]]]"
    using e(2) by (simp add: small_area_def entries_ok_def susp_ok_def sl_entry_def sl_encode_def)
  have l: "length small_area = 12" "small_area \<noteq> []" by (simp_all add: small_entries(3))
  show "areas_recorded small_volume (susp_area [ce_entry 7 2 12]) [[ce_entry 7 2 12], [sl_entry [(0x08, []), (0, [0x61])]]]"
    unfolding areas_recorded.simps(3)
  proof (intro conjI exI)
    show "susp_area [ce_entry 7 2 12] = susp_area [ce_entry 7 2 12] @ []" "area_end []" using e(1) by simp_all
    show "entries_ok [ce_entry 7 2 12]" by (simp add: entries_ok_def susp_ok_def ce_entry_def)
    show "filter (\<lambda>e. fst e = [0x43, 0x45]) [ce_entry 7 2 12] = [ce_entry 7 2 (length small_area)]"
      using l by (simp add: ce_entry_def)
    show "recorded (is_src small_volume) (7 * is_block_size small_volume + 2) small_area"
      using small_area_recorded by (simp add: small_volume_simps)
  qed (use a l in \<open>simp_all add: small_volume_simps\<close>)
qed

lemma small_files_ok: "\<forall>f \<in> set small_files. disc_file_ok small_volume f"
proof -
  have n: "decode_name (ascii ''A.;1'') False = Ok (ascii ''A'')" "decode_name (ascii ''D'') True = Ok (ascii ''D'')"
    "decode_name (ascii ''L'') False = Ok (ascii ''L'')"
    by (simp_all add: decode_name_def from_utf8_def utf8_valid_ascii ascii_def strip_version_def)
  have f: "disc_file_is small_volume (small_files ! 0) (ascii ''A'')"
    unfolding disc_file_is_def
    by (simp add: small_volume_simps small_files_def, intro exI [of _ "[[([0x4E, 0x4D], [0, 0x61])]]"] conjI small_areas)
      (simp_all add: rr_named_def nm_text_def is_nm_def utf8_valid_ascii ascii_def target_recorded_def zf_recorded_def
        MAX_CONTINUATIONS_def)
  have d: "disc_file_is small_volume (small_files ! 1) (ascii ''D'')"
    unfolding disc_file_is_def
    by (simp add: small_volume_simps small_files_def, intro exI [of _ "[[]]"] conjI small_areas)
      (simp_all add: rr_named_def nm_text_def target_recorded_def zf_recorded_def MAX_CONTINUATIONS_def)
  have l: "disc_file_is small_volume (small_files ! 2) (ascii ''L'')"
  proof -
    let ?es = "[ce_entry 7 2 12, sl_entry [(0x08, []), (0, [0x61])]]"
    have "target_recorded ?es (Some [0x2F, 0x61])"
      unfolding target_recorded_def
      by (intro exI [of _ "[[(0x08, []), (0, [0x61])]]"] conjI)
        (simp_all add: sl_entry_def ce_entry_def,
          intro exI [of _ True] exI [of _ "[SlName [[0x61]]]"], simp add: sl_comps_def sl_text_def)
    moreover have "zf_recorded ?es None" by (simp add: zf_recorded_def sl_entry_def ce_entry_def)
    moreover have "rr_named ?es (ascii ''L'') = ascii ''L''" by (simp add: rr_named_def nm_text_def is_nm_def sl_entry_def ce_entry_def)
    ultimately show ?thesis
      unfolding disc_file_is_def
      by (simp add: small_volume_simps small_files_def,
          intro exI [of _ "[[ce_entry 7 2 12], [sl_entry [(0x08, []), (0, [0x61])]]]"] conjI small_areas)
        (simp_all add: MAX_CONTINUATIONS_def)
  qed
  have i: "small_files = [small_files ! 0, small_files ! 1, small_files ! 2]" by (simp add: small_files_def)
  have "disc_file_ok small_volume (small_files ! 0)"
    unfolding disc_file_ok_def using f n(1)
    by (auto simp: small_volume_simps small_files_def record_fits_def MAX_EXTENTS_def small_entries) (simp_all add: ascii_def)
  moreover have "disc_file_ok small_volume (small_files ! 1)"
    unfolding disc_file_ok_def using d n(2)
    by (auto simp: small_volume_simps small_files_def record_fits_def MAX_EXTENTS_def) (simp_all add: ascii_def)
  moreover have "disc_file_ok small_volume (small_files ! 2)"
    unfolding disc_file_ok_def using l n(3)
    by (auto simp: small_volume_simps small_files_def record_fits_def MAX_EXTENTS_def small_entries) (simp_all add: ascii_def)
  ultimately show ?thesis by (subst i) simp
qed

lemma small_fits:
  "record_fits (is_block_size small_volume) [0x00] (fst ([], 0, 384)) (snd ([], 0, 384))"
  "record_fits (is_block_size small_volume) [0x01] (fst ([], 0, 384)) (snd ([], 0, 384))"
  by (simp_all add: record_fits_def small_volume_simps)


section \<open>Properties\<close>

text \<open>
  C14. A directory that was recorded with its own and its parent's record, any files and directories
  behind them, files of several extents as a run of records, no record across a sector and zeros
  at the end, is listed as exactly those entries in order, and every entry has a handle whose inode has
  the recorded extents and their total as its size, the link target and the zisofs parameters
  (\<open>disc_inode\<close>). On a volume with Rock Ridge every record may have a System Use area, behind the skip
  length of the volume, with any entries and with continuation areas elsewhere on the medium: the name
  is the text of the \<^verbatim>\<open>NM\<close> entries of all its areas, or the identifier without its version where there is
  none that is a string, and a file with \<^verbatim>\<open>SL\<close> entries is a link to the target they spell. On any other
  volume the areas are passed over, whatever they hold: the name is the identifier without its version
  and there is no target. Identifiers are UTF-8, or UCS-2 on a Joliet tree.
\<close>

theorem iso_directory_roundtrip:
  assumes "iso_ok s" and "iso_inode_of s d = Ok dir" and "ii_kind dir = Directory"
    and "read_dir_extent s dir = Ok (dir_extent (is_block_size s) self parent fs k)"
    and "\<forall>f \<in> set fs. disc_file_ok s f"
    and "record_fits (is_block_size s) [0x00] (fst self) (snd self)"
    and "record_fits (is_block_size s) [0x01] (fst parent) (snd parent)"
  shows "\<exists>out s'. iso_read_dir d s = (Ok out, s') \<and> iso_ok s' \<and>
    map (\<lambda>e. (de_name e, de_kind e)) out = map (\<lambda>f. (df_name f, disc_kind f)) fs \<and>
    (\<forall>i < length fs. \<exists>p. iso_inode_of s' (de_node (out ! i)) = Ok (disc_inode (ii_lba dir) p (fs ! i)))"
  using assms by (rule iso_listing)

theorem iso_directory_roundtrip_witness:
  "\<exists>out s'. iso_read_dir 0 small_volume = (Ok out, s') \<and>
     map (\<lambda>e. (de_name e, de_kind e)) out = [(ascii ''a'', Regular), (ascii ''D'', Directory), (ascii ''L'', Symlink)] \<and>
     iso_read_link s' (de_node (out ! 2)) = Ok (Some [0x2F, 0x61])"
proof -
  from iso_directory_roundtrip [OF small_volume_ok small_volume_root(1) small_volume_simps(6) small_volume_root(2)
      small_files_ok small_fits]
  obtain out s' where o: "iso_read_dir 0 small_volume = (Ok out, s')"
    "map (\<lambda>e. (de_name e, de_kind e)) out = map (\<lambda>f. (df_name f, disc_kind f)) small_files"
    "\<forall>i < length small_files. \<exists>p. iso_inode_of s' (de_node (out ! i)) = Ok (disc_inode (ii_lba small_root) p (small_files ! i))"
    by blast
  have "length small_files = 3" "df_target (small_files ! 2) = Some [0x2F, 0x61]"
    "map (\<lambda>f. (df_name f, disc_kind f)) small_files = [(ascii ''a'', Regular), (ascii ''D'', Directory), (ascii ''L'', Symlink)]"
    by (simp_all add: small_files_def disc_kind_def)
  note f = this
  from o(3) [rule_format, of 2] obtain p where
    "iso_inode_of s' (de_node (out ! 2)) = Ok (disc_inode (ii_lba small_root) p (small_files ! 2))"
    "df_target (small_files ! 2) = Some [0x2F, 0x61]" using f(1,2) by auto
  then have "iso_read_link s' (de_node (out ! 2)) = Ok (Some [0x2F, 0x61])"
    by (simp add: iso_read_link_def disc_inode_def)
  with o(1,2) f(3) show ?thesis by simp
qed

text \<open>
  C16. Reading a file at any offset gives exactly the bytes of its content from there on, as many as
  the buffer takes, and nothing past the end. The content of a plain file is its extents in order;
  that of a zisofs file is what its compressed blocks decode to, a missing block as zeros.
\<close>

theorem iso_read_exact:
  assumes "iso_ok s" and "iso_content zf lib s n c"
  shows "iso_read_at zf lib s n off buf =
    (if off < length c
     then Ok (min (length buf) (length c - off), overwrite buf 0 (slice c off (off + min (length buf) (length c - off))))
     else Ok (0, buf))"
  using iso_read_at_content [OF assms] iso_read_at_past [OF assms] by simp

theorem iso_read_exact_witness:
  "\<exists>n s'. iso_read_at False store_lib s' n 1 [0, 0, 0, 0, 0, 9] = Ok (4, [2, 3, 4, 5, 0, 9])"
proof -
  from iso_listing [OF small_volume_ok small_volume_root(1) small_volume_simps(6) small_volume_root(2)
      small_files_ok small_fits]
  obtain out s' where l: "iso_read_dir 0 small_volume = (Ok out, s')" "iso_ok s'"
    "\<forall>i < length small_files. \<exists>p. iso_inode_of s' (de_node (out ! i)) = Ok (disc_inode (ii_lba small_root) p (small_files ! i))"
    by blast
  have "0 < length small_files" by (simp add: small_files_def)
  with l(3) obtain p where "iso_inode_of s' (de_node (out ! 0)) = Ok (disc_inode (ii_lba small_root) p (small_files ! 0))" by blast
  then obtain i where i: "iso_inode_of s' (de_node (out ! 0)) = Ok i" "ii_extents i = [(6, 3), (7, 2)]"
    "ii_kind i = Regular" "ii_zisofs i = None"
    by (simp add: small_files_def disc_inode_def disc_kind_def)
  note o = l(2) i iso_read_dir_static [OF l(1)]
  have s: "slice small_disc 384 387 = [1, 2, 3]" "slice small_disc 448 450 = [4, 5]"
    by (simp_all add: small_disc_def slice_append_right small_extent_length) (simp_all add: slice_def)
  then have "slice_read_at small_disc 384 3 = Ok [1, 2, 3]" "slice_read_at small_disc 448 2 = Ok [4, 5]"
    by (simp_all add: slice_read_at_eq_Ok small_disc_length)
  then have "iso_content False store_lib s' (de_node (out ! 0)) [1, 2, 3, 4, 5]"
    using o by (simp add: iso_content_def small_volume_simps)
  from iso_read_exact [OF o(1) this, of 1 "[0, 0, 0, 0, 0, 9]"] show ?thesis
    by (intro exI [of _ "de_node (out ! 0)"] exI [of _ s']) (simp add: overwrite_0 slice_def numeral_eq_Suc)
qed

text \<open>
  C17. Handles are stable: a lookup that finds a name keeps the invariant and the meaning of every
  handle given out before, the handle it returns is that of the entry of that name, and asking
  again returns the same handle and changes nothing.
\<close>

theorem iso_handles_stable:
  assumes "iso_ok s" and "iso_lookup d name s = (Ok (Some n), s1)"
  shows "iso_ok s1 \<and> iso_lookup d name s1 = (Ok (Some n), s1) \<and>
    (\<forall>m i. iso_inode_of s m = Ok i \<longrightarrow> iso_inode_of s1 m = Ok i) \<and>
    (\<exists>di es i. iso_inode_of s d = Ok di \<and> for_each_entry s di = Ok es \<and> find_named name es = Some i \<and>
       iso_inode_of s1 n = Ok i)"
proof -
  note c = iso_lookup_cases [OF assms]
  from assms(2) obtain di es i where i: "iso_inode_of s d = Ok di" "ii_kind di = Directory" "for_each_entry s di = Ok es"
    "find_named name es = Some i"
    by (auto simp: iso_lookup_def and_then_eq_Ok split: result.splits option.splits if_splits prod.splits)
  then have "iso_inode_of s1 n = Ok i" using c by (simp add: iso_view_def iso_repr_Some)
  with i c iso_lookup_again [OF assms] show ?thesis by (auto simp: iso_repr_Some)
qed

theorem iso_handles_stable_witness:
  "\<exists>n s1. iso_lookup 0 (ascii ''a'') small_volume = (Ok (Some n), s1) \<and> iso_lookup 0 (ascii ''a'') s1 = (Ok (Some n), s1)"
proof -
  from scan_dir_extent [OF small_files_ok iso_ok_static [OF small_volume_ok] small_fits, of 0 2]
  obtain ps where "length ps = length small_files"
    "scan_entries small_volume 0 (dir_extent (is_block_size small_volume) ([], 0, 384) ([], 0, 384) small_files 2) 0 None =
      Ok (map (\<lambda>(p, f). (df_name f, disc_inode 0 p f)) (zip ps small_files))" by blast
  then obtain i es where "for_each_entry small_volume small_root = Ok ((ascii ''a'', i) # es)"
    using small_volume_root(2)
    by (auto simp: for_each_entry_def small_files_def small_root_def length_Suc_conv)
  then have "\<exists>n s1. iso_lookup 0 (ascii ''a'') small_volume = (Ok (Some n), s1)"
    using small_volume_root(1) by (auto simp: iso_lookup_def small_volume_simps split: prod.splits)
  then show ?thesis using iso_handles_stable [OF small_volume_ok] by blast
qed

text \<open>
  C15. Mounting never panics, on any medium, and what it mounts keeps the contract: the volume is
  well formed, and asking for its UEFI boot image, listing, stating and reading by any path never
  panic on it either, whatever the medium holds.
\<close>

theorem iso_mount_safe:
  assumes "sound_source src"
  shows "no_panic (iso_open src) \<and>
    (\<forall>s. iso_open src = Ok s \<longrightarrow>
       iso_ok s \<and> no_panic (el_torito_uefi_image s) \<and>
       no_panic (fst (read_path (iso_frontend zf lib) cx path s)) \<and>
       no_panic (fst (read_dir_path (iso_frontend zf lib) cx path s)) \<and>
       no_panic (fst (metadata_path (iso_frontend zf lib) cx path s)))"
proof (intro conjI allI impI)
  show "no_panic (iso_open src)" using iso_open_ok(1) [OF assms] .
  fix s assume "iso_open src = Ok s"
  then show ok: "iso_ok s" using iso_open_ok(2) [OF assms] by blast
  show "no_panic (el_torito_uefi_image s)" using el_torito_uefi_image_safe [OF iso_ok_static [OF ok]] .
  show "no_panic (fst (read_path (iso_frontend zf lib) cx path s))"
    "no_panic (fst (read_dir_path (iso_frontend zf lib) cx path s))"
    "no_panic (fst (metadata_path (iso_frontend zf lib) cx path s))"
    using iso.read_path_safe [OF ok] iso.read_dir_path_safe [OF ok] iso.metadata_path_safe [OF ok] by blast+
qed

theorem iso_mount_safe_witness: "no_panic (iso_open (slice_source small_disc))"
proof -
  have "sound_source (slice_source small_disc)" by (simp add: sound_slice_source small_disc_length)
  from iso_mount_safe [OF this] show ?thesis by blast
qed

end
