(* ===== verification/Udf.thy ===== *)
theory Udf
  imports Intern_Table Fold_Path
begin

text \<open>
  The UDF reader (\<^verbatim>\<open>crates/lamfold-udf/src/udf.rs\<close>): the descriptor chain from the anchor to the
  root directory, File Entries and Extended File Entries with inline data or allocation
  descriptors, File Identifier Descriptors, and the frontend, whose handles are interned by the
  block of the File Entry. Block addresses are sums of 32-bit values that the source computes
  unchecked: an overflow is the panic of a build with overflow checks.
\<close>

definition UDF_SECTOR :: nat where "UDF_SECTOR = 2048"
definition AVDP_SECTOR :: nat where "AVDP_SECTOR = 256"
definition TAG_AVDP :: nat where "TAG_AVDP = 2"
definition TAG_PARTITION :: nat where "TAG_PARTITION = 5"
definition TAG_LOGICAL_VOLUME :: nat where "TAG_LOGICAL_VOLUME = 6"
definition TAG_TERMINATING :: nat where "TAG_TERMINATING = 8"
definition TAG_FILE_SET :: nat where "TAG_FILE_SET = 256"
definition TAG_FID :: nat where "TAG_FID = 257"
definition TAG_FILE_ENTRY :: nat where "TAG_FILE_ENTRY = 261"
definition TAG_EXTENDED_FILE_ENTRY :: nat where "TAG_EXTENDED_FILE_ENTRY = 266"
definition UDF_FT_DIRECTORY :: byte where "UDF_FT_DIRECTORY = 4"
definition UDF_FT_REGULAR :: byte where "UDF_FT_REGULAR = 5"
definition UDF_FT_SYMLINK :: byte where "UDF_FT_SYMLINK = 12"
definition MAX_VDS_SECTORS :: nat where "MAX_VDS_SECTORS = 64"

text \<open>An extent without an address is not recorded and reads as zeros.\<close>

record udf_extent =
  ux_lba :: "nat option"
  ux_len :: nat

datatype udf_data = Inline bytes | Extents "udf_extent list"

record udf_inode =
  un_kind :: file_kind
  un_size :: nat
  un_data :: udf_data

record udf =
  ud_src :: block_source
  ud_block_size :: nat
  ud_partition_start :: nat
  ud_nodes :: "udf_inode list"
  ud_by_lba :: "(nat, node_id) btree"

definition udf_le_u16 :: "bytes \<Rightarrow> nat \<Rightarrow> nat result" where
  "udf_le_u16 = le_field ''udf: truncated u16'' 2"

definition udf_le_u32 :: "bytes \<Rightarrow> nat \<Rightarrow> nat result" where
  "udf_le_u32 = le_field ''udf: truncated u32'' 4"

definition udf_le_u64 :: "bytes \<Rightarrow> nat \<Rightarrow> nat result" where
  "udf_le_u64 = le_field ''udf: truncated u64'' 8"

definition udf_read_block :: "udf \<Rightarrow> nat \<Rightarrow> bytes result" where
  "udf_read_block s lba =
     and_then (umul 64 lba (ud_block_size s)) (\<lambda>off.
     and_then (uadd 64 off (ud_block_size s)) (\<lambda>stop.
     if stop > src_len (ud_src s) then Err (Corrupt ''udf: block past end of source'')
     else src_read (ud_src s) off (ud_block_size s)))"

definition udf_intern :: "nat \<Rightarrow> udf_inode \<Rightarrow> udf \<Rightarrow> node_id \<times> udf" where
  "udf_intern fe_lba inode s =
     (case bm_get (ud_by_lba s) fe_lba of
        Some n \<Rightarrow> (n, s)
      | None \<Rightarrow>
          let n = length (ud_nodes s) in
          (n, s\<lparr>ud_nodes := ud_nodes s @ [inode], ud_by_lba := bm_insert fe_lba n (ud_by_lba s)\<rparr>))"

definition udf_inode_of :: "udf \<Rightarrow> node_id \<Rightarrow> udf_inode result" where
  "udf_inode_of s node = ok_or (get_at (ud_nodes s) node) NotFound"

text \<open>
  The allocation descriptors in turn. The address is computed for every recorded length, also when
  the type of the extent makes no use of it.
\<close>

fun extents_from :: "nat \<Rightarrow> bytes list \<Rightarrow> udf_extent list result" where
  "extents_from partition_start [] = Ok []"
| "extents_from partition_start (c # cs) =
     (let raw = from_le (slice c 0 4); len = raw AND 0x3FFFFFFF; etype = drop_bit 30 raw in
      if len = 0 then extents_from partition_start cs
      else if etype = 3 then Err (Unsupported ''udf: allocation-extent continuation not supported'')
      else
        and_then (uadd 32 partition_start (from_le (slice c 4 8))) (\<lambda>lba.
        and_then (extents_from partition_start cs) (\<lambda>rest.
          Ok (\<lparr>ux_lba = (if etype = 0 then Some lba else None), ux_len = len\<rparr> # rest))))"

definition parse_extents :: "udf \<Rightarrow> bytes \<Rightarrow> nat \<Rightarrow> nat \<Rightarrow> nat \<Rightarrow> udf_data result" where
  "parse_extents s buf ad_off l_ad stride =
     and_then (ok_or (get_range buf ad_off (ad_off + l_ad)) (Corrupt ''udf: allocation descriptors out of bounds'')) (\<lambda>ads.
     and_then (extents_from (ud_partition_start s) (chunks_exact stride ads)) (\<lambda>ex. Ok (Extents ex)))"

text \<open>Where the two kinds of File Entry have their lengths and their extended attributes.\<close>

definition fe_layout :: "nat \<Rightarrow> (nat \<times> nat \<times> nat) result" where
  "fe_layout tag =
     (if tag = TAG_FILE_ENTRY then Ok (168, 172, 176)
      else if tag = TAG_EXTENDED_FILE_ENTRY then Ok (208, 212, 216)
      else Err (Corrupt ''udf: expected a File Entry''))"

definition udf_kind :: "byte \<Rightarrow> file_kind" where
  "udf_kind file_type =
     (if file_type = UDF_FT_DIRECTORY then Directory
      else if file_type = UDF_FT_REGULAR then Regular
      else if file_type = UDF_FT_SYMLINK then Symlink
      else Other)"

definition fe_data :: "udf \<Rightarrow> bytes \<Rightarrow> nat \<Rightarrow> nat \<Rightarrow> nat \<Rightarrow> nat \<Rightarrow> udf_data result" where
  "fe_data s buf ad_type info_len ad_off l_ad =
     (if ad_type = 3 then
        and_then (checked_full_read_len info_len) (\<lambda>n.
        and_then (ok_or (checked_add 64 ad_off n) (Corrupt ''udf: inline overflow'')) (\<lambda>stop.
        and_then (ok_or (get_range buf ad_off stop) (Corrupt ''udf: inline data out of bounds'')) (\<lambda>b. Ok (Inline b))))
      else if ad_type = 0 then parse_extents s buf ad_off l_ad 8
      else if ad_type = 1 then parse_extents s buf ad_off l_ad 16
      else Err (Unsupported ''udf: extended_ad allocation descriptors not supported''))"

definition parse_fe :: "udf \<Rightarrow> bytes \<Rightarrow> udf_inode result" where
  "parse_fe s buf =
     and_then (udf_le_u16 buf 0) (\<lambda>tag.
     and_then (fe_layout tag) (\<lambda>(l_ea_at, l_ad_at, ea_start).
     and_then (ok_or (get_at buf 27) (Corrupt ''udf: short ICBTag'')) (\<lambda>file_type.
     and_then (udf_le_u16 buf 34) (\<lambda>flags.
     and_then (udf_le_u64 buf 56) (\<lambda>info_len.
     and_then (udf_le_u32 buf l_ea_at) (\<lambda>l_ea.
     and_then (udf_le_u32 buf l_ad_at) (\<lambda>l_ad.
     and_then (ok_or (checked_add 64 ea_start l_ea) (Corrupt ''udf: L_EA overflow'')) (\<lambda>ad_off.
     and_then (fe_data s buf (flags AND 7) info_len ad_off l_ad) (\<lambda>data.
       Ok \<lparr>un_kind = udf_kind file_type, un_size = info_len, un_data = data\<rparr>)))))))))"

definition read_fe :: "udf \<Rightarrow> nat \<Rightarrow> udf_inode result" where
  "read_fe s fe_lba = and_then (udf_read_block s fe_lba) (parse_fe s)"

text \<open>The loop of \<^verbatim>\<open>read_all\<close>, with \<open>out\<close> read so far.\<close>

fun read_all_loop :: "udf \<Rightarrow> nat \<Rightarrow> udf_extent list \<Rightarrow> bytes \<Rightarrow> bytes result" where
  "read_all_loop s cap [] out = Ok out"
| "read_all_loop s cap (e # es) out =
     (if length out \<ge> cap then Ok out
      else
        let tk = min (ux_len e) (cap - length out) in
        case ux_lba e of
          Some lba \<Rightarrow>
            and_then (umul 64 lba (ud_block_size s)) (\<lambda>at.
            and_then (src_read (ud_src s) at tk) (\<lambda>chunk. read_all_loop s cap es (out @ chunk)))
        | None \<Rightarrow> read_all_loop s cap es (out @ replicate tk 0))"

definition read_all :: "udf \<Rightarrow> udf_inode \<Rightarrow> bytes result" where
  "read_all s inode =
     (case un_data inode of
        Inline b \<Rightarrow> Ok b
      | Extents ex \<Rightarrow>
          and_then (checked_full_read_len (un_size inode)) (\<lambda>cap.
          and_then (read_all_loop s cap ex []) (\<lambda>out. Ok (take cap out))))"

text \<open>A compressed-unicode name: Latin-1 behind an 8, big-endian UTF-16 behind a 16.\<close>

definition decode_udf_name :: "bytes \<Rightarrow> bytes result" where
  "decode_udf_name fi =
     (case fi of
        [] \<Rightarrow> Ok []
      | cid # rest \<Rightarrow>
          if cid = 8 then Ok (string_of_chars (map unat rest))
          else if cid = 16 then
            (case decode_utf16 (utf16be_units rest) of
               Some cs \<Rightarrow> Ok (string_of_chars cs)
             | None \<Rightarrow> Err (InvalidPath ''udf: bad UTF-16 in name''))
          else Err (InvalidPath ''udf: unknown name compression id''))"

text \<open>
  One File Identifier Descriptor at \<open>p\<close>: its entry, unless it is the parent's or deleted, and its
  padded length.
\<close>

definition parse_fid :: "bytes \<Rightarrow> nat \<Rightarrow> nat \<Rightarrow> ((bytes \<times> nat) list \<times> nat) result" where
  "parse_fid data partition_start p =
     and_then (index_at data (p + 18)) (\<lambda>fc.
     and_then (index_at data (p + 19)) (\<lambda>l_fi.
     and_then (udf_le_u32 data (p + 24)) (\<lambda>icb_lb.
     and_then (udf_le_u16 data (p + 36)) (\<lambda>l_iu.
     let fi_off = p + 38 + l_iu in
     and_then (ok_or (get_range data fi_off (fi_off + unat l_fi)) (Corrupt ''udf: FID name out of bounds'')) (\<lambda>fi.
     and_then (if fc AND 0x08 = 0 \<and> fc AND 0x04 = 0 then
                 and_then (decode_udf_name fi) (\<lambda>name.
                 and_then (uadd 32 partition_start icb_lb) (\<lambda>lba. Ok [(name, lba)]))
               else Ok []) (\<lambda>out.
       Ok (out, (38 + l_iu + unat l_fi + 3) div 4 * 4)))))))"

lemma parse_fid_advances: "parse_fid data ps p = Ok (out, n) \<Longrightarrow> 38 \<le> n"
  by (auto simp: parse_fid_def and_then_eq_Ok Let_def)

function fid_loop :: "bytes \<Rightarrow> nat \<Rightarrow> nat \<Rightarrow> (bytes \<times> nat) list result" where
  "fid_loop data partition_start p =
     (if p + 38 \<le> length data then
        and_then (udf_le_u16 data p) (\<lambda>tag.
        if tag \<noteq> TAG_FID then Ok []
        else
          and_then (parse_fid data partition_start p) (\<lambda>x.
          if snd x = 0 then Ok (fst x)
          else and_then (fid_loop data partition_start (p + snd x)) (\<lambda>rest. Ok (fst x @ rest))))
      else Ok [])"
  by pat_completeness auto
termination
  by (relation "measure (\<lambda>(data, ps, p). length data - p)") auto

declare fid_loop.simps [simp del]

definition parse_fids :: "bytes \<Rightarrow> nat \<Rightarrow> (bytes \<times> nat) list result" where
  "parse_fids data partition_start = fid_loop data partition_start 0"


section \<open>Mounting\<close>

definition udf_probe :: "block_source \<Rightarrow> bool result" where
  "udf_probe src =
     (let off = AVDP_SECTOR * UDF_SECTOR in
      if src_len src < off + 4 then Ok False
      else and_then (src_read src off 4) (\<lambda>t. Ok (from_le (slice t 0 2) = TAG_AVDP)))"

text \<open>
  The walk over the Main Volume Descriptor Sequence: \<open>left\<close> sectors remain from the \<open>i\<close>-th on, and
  the partition start and the logical volume's block size and file set are the last ones seen.
\<close>

fun vds_loop ::
  "udf \<Rightarrow> nat \<Rightarrow> nat \<Rightarrow> nat \<Rightarrow> nat option \<Rightarrow> (nat \<times> nat) option \<Rightarrow> (nat option \<times> (nat \<times> nat) option) result"
where
  "vds_loop s loc 0 i ps lvd = Ok (ps, lvd)"
| "vds_loop s loc (Suc left) i ps lvd =
     and_then (uadd 32 loc i) (\<lambda>lba.
     and_then (udf_read_block s lba) (\<lambda>b.
     and_then (udf_le_u16 b 0) (\<lambda>tag.
     if tag = TAG_PARTITION then
       and_then (udf_le_u32 b 188) (\<lambda>p. vds_loop s loc left (Suc i) (Some p) lvd)
     else if tag = TAG_LOGICAL_VOLUME then
       and_then (udf_le_u32 b 212) (\<lambda>lbs.
       and_then (udf_le_u32 b 252) (\<lambda>fsd_lb. vds_loop s loc left (Suc i) ps (Some (lbs, fsd_lb))))
     else if tag = TAG_TERMINATING then Ok (ps, lvd)
     else vds_loop s loc left (Suc i) ps lvd)))"

definition udf_open :: "block_source \<Rightarrow> udf result" where
  "udf_open src =
     (let me = \<lparr>ud_src = src, ud_block_size = UDF_SECTOR, ud_partition_start = 0, ud_nodes = [], ud_by_lba = []\<rparr> in
     and_then (udf_read_block me AVDP_SECTOR) (\<lambda>avdp.
     and_then (udf_le_u16 avdp 0) (\<lambda>tag.
     if tag \<noteq> TAG_AVDP then Err (Corrupt ''udf: no Anchor VD Pointer at sector 256'')
     else
       and_then (udf_le_u32 avdp 16) (\<lambda>mvds_len.
       and_then (udf_le_u32 avdp 20) (\<lambda>mvds_loc.
       and_then (vds_loop me mvds_loc (min (mvds_len div UDF_SECTOR) MAX_VDS_SECTORS) 0 None None) (\<lambda>(ps, lvd).
       and_then (ok_or ps (Corrupt ''udf: no Partition Descriptor'')) (\<lambda>partition_start.
       and_then (ok_or lvd (Corrupt ''udf: no Logical Volume Descriptor'')) (\<lambda>(lbs, fsd_lb).
       let me = me\<lparr>ud_partition_start := partition_start,
                  ud_block_size := (if lbs \<noteq> 0 then lbs else ud_block_size me)\<rparr> in
       and_then (uadd 32 partition_start fsd_lb) (\<lambda>fsd_lba.
       and_then (udf_read_block me fsd_lba) (\<lambda>fsd.
       and_then (udf_le_u16 fsd 0) (\<lambda>tag.
       if tag \<noteq> TAG_FILE_SET then Err (Corrupt ''udf: no File Set Descriptor'')
       else
         and_then (udf_le_u32 fsd 404) (\<lambda>root_icb_lb.
         and_then (uadd 32 partition_start root_icb_lb) (\<lambda>root_fe_lba.
         and_then (read_fe me root_fe_lba) (\<lambda>root.
           Ok (snd (udf_intern root_fe_lba root me))))))))))))))))"


section \<open>The methods of the trait\<close>

definition udf_root :: "udf \<Rightarrow> node_id" where
  "udf_root s = 0"

text \<open>The File Identifier Descriptors of a directory.\<close>

definition udf_listing :: "udf \<Rightarrow> udf_inode \<Rightarrow> (bytes \<times> nat) list result" where
  "udf_listing s inode =
     (if un_kind inode \<noteq> Directory then Err NotDirectory
      else and_then (read_all s inode) (\<lambda>data. parse_fids data (ud_partition_start s)))"

definition udf_read_dir :: "node_id \<Rightarrow> (udf, dir_entry list) op" where
  "udf_read_dir dir s =
     (case and_then (udf_inode_of s dir) (udf_listing s) of
        Ok fids \<Rightarrow> intern_children udf_intern read_fe un_kind fids s
      | Err e \<Rightarrow> (Err e, s)
      | Panic p \<Rightarrow> (Panic p, s))"

definition udf_lookup :: "node_id \<Rightarrow> bytes \<Rightarrow> (udf, node_id option) op" where
  "udf_lookup dir name = op_bind (udf_read_dir dir) (\<lambda>es. op_return (Ok (find_entry name es)))"

definition udf_metadata :: "udf \<Rightarrow> node_id \<Rightarrow> metadata result" where
  "udf_metadata s node =
     and_then (udf_inode_of s node) (\<lambda>inode.
       Ok \<lparr>md_kind = un_kind inode, md_size = un_size inode, md_mode = 0\<rparr>)"

text \<open>
  The walk over the extents: \<open>file_pos\<close> is the file offset of the next one, \<open>produced\<close> the bytes in
  the buffer.
\<close>

fun udf_read_extents ::
  "udf \<Rightarrow> nat \<Rightarrow> nat \<Rightarrow> udf_extent list \<Rightarrow> nat \<Rightarrow> nat \<Rightarrow> bytes \<Rightarrow> (nat \<times> bytes) result"
where
  "udf_read_extents s off want [] file_pos produced buf = Ok (produced, buf)"
| "udf_read_extents s off want (e # es) file_pos produced buf =
     (if produced \<ge> want then Ok (produced, buf)
      else
        and_then (uadd 64 file_pos (ux_len e)) (\<lambda>ext_end.
        and_then (uadd 64 off produced) (\<lambda>cur.
        if cur \<ge> ext_end then udf_read_extents s off want es ext_end produced buf
        else
          and_then (usub cur file_pos) (\<lambda>intra.
          let tk = min (ux_len e - intra) (want - produced) in
          case ux_lba e of
            Some lba \<Rightarrow>
              and_then (umul 64 lba (ud_block_size s)) (\<lambda>base.
              and_then (uadd 64 base intra) (\<lambda>at.
              and_then (src_read (ud_src s) at tk) (\<lambda>piece.
                udf_read_extents s off want es ext_end (produced + tk) (overwrite buf produced piece))))
          | None \<Rightarrow>
              udf_read_extents s off want es ext_end (produced + tk) (overwrite buf produced (replicate tk 0))))))"

definition udf_read_at :: "udf \<Rightarrow> node_id \<Rightarrow> nat \<Rightarrow> bytes \<Rightarrow> (nat \<times> bytes) result" where
  "udf_read_at s node off buf =
     and_then (udf_inode_of s node) (\<lambda>inode.
       if un_kind inode = Directory then Err IsDirectory
       else if off \<ge> un_size inode then Ok (0, buf)
       else
         let want = min (length buf) (un_size inode - off) in
         case un_data inode of
           Inline b \<Rightarrow>
             let n = min want (length b - off) in
             and_then (index_range b off (off + n)) (\<lambda>piece. Ok (n, overwrite buf 0 piece))
         | Extents ex \<Rightarrow> udf_read_extents s off want ex 0 0 buf)"

definition udf_frontend :: "udf frontend" where
  "udf_frontend =
     \<lparr>fe_root = udf_root,
      fe_lookup = (\<lambda>cx. udf_lookup),
      fe_read_dir = (\<lambda>cx. udf_read_dir),
      fe_metadata = (\<lambda>cx node s. (udf_metadata s node, s)),
      fe_read_at = (\<lambda>cx node off buf s. (udf_read_at s node off buf, s)),
      fe_read_link = default_read_link\<rparr>"


section \<open>Bounds\<close>

text \<open>What every inode of a volume satisfies, and the parts of a volume that no operation changes.\<close>

definition udf_inode_ok :: "udf_inode \<Rightarrow> bool" where
  "udf_inode_ok i \<longleftrightarrow>
     un_size i < 2 ^ 64 \<and>
     (case un_data i of
        Inline b \<Rightarrow> length b = un_size i
      | Extents ex \<Rightarrow> length ex < 2 ^ 32 \<and>
          (\<forall>e \<in> set ex. 0 < ux_len e \<and> ux_len e < 2 ^ 30 \<and> (\<forall>lba. ux_lba e = Some lba \<longrightarrow> lba < 2 ^ 32)))"

definition udf_base :: "udf \<Rightarrow> bool" where
  "udf_base s \<longleftrightarrow> sound_source (ud_src s) \<and> ud_block_size s < 2 ^ 32 \<and> ud_partition_start s < 2 ^ 32"

definition udf_good :: "udf \<Rightarrow> nat \<Rightarrow> udf_inode \<Rightarrow> bool" where
  "udf_good s k v \<longleftrightarrow> read_fe s k = Ok v"

definition udf_ok :: "udf \<Rightarrow> bool" where
  "udf_ok s \<longleftrightarrow> udf_base s \<and> table_ok (udf_good s) (ud_nodes s) (ud_by_lba s) \<and> ud_nodes s \<noteq> []"

lemma no_panic_udf_le [no_panic_simps, simp]:
  "no_panic (udf_le_u16 b i)" "no_panic (udf_le_u32 b i)" "no_panic (udf_le_u64 b i)"
  by (simp_all add: udf_le_u16_def udf_le_u32_def udf_le_u64_def)

lemma udf_le_less:
  "udf_le_u16 b i = Ok v \<Longrightarrow> v < 2 ^ 16" "udf_le_u32 b i = Ok v \<Longrightarrow> v < 2 ^ 32" "udf_le_u64 b i = Ok v \<Longrightarrow> v < 2 ^ 64"
  using le_field_less [of _ 2 b i v] le_field_less [of _ 4 b i v] le_field_less [of _ 8 b i v]
  by (auto simp: udf_le_u16_def udf_le_u32_def udf_le_u64_def)

lemma udf_block_less:
  assumes "a < 2 ^ 32" and "b < 2 ^ 32"
  shows "a * b + 2 ^ 32 \<le> (2 ^ 64 :: nat)"
proof -
  have "a * b \<le> (2 ^ 32 - 1) * (2 ^ 32 - 1)" using assms by (intro mult_le_mono) auto
  then show ?thesis by simp
qed

lemma udf_read_block_ok:
  assumes "udf_base s" and "lba < 2 ^ 32"
  shows "no_panic (udf_read_block s lba)" and "udf_read_block s lba = Ok b \<Longrightarrow> length b = ud_block_size s"
proof -
  have src: "sound_source (ud_src s)" and bs: "ud_block_size s < 2 ^ 32" using assms(1) by (simp_all add: udf_base_def)
  have "lba * ud_block_size s + 2 ^ 32 \<le> 2 ^ 64" using udf_block_less [OF assms(2) bs] .
  then have "umul 64 lba (ud_block_size s) = Ok (lba * ud_block_size s)"
    "uadd 64 (lba * ud_block_size s) (ud_block_size s) = Ok (lba * ud_block_size s + ud_block_size s)"
    using bs by (simp_all add: umul_def uadd_def)
  then show "no_panic (udf_read_block s lba)" using src
    by (simp add: udf_read_block_def no_panic_simps)
  show "udf_read_block s lba = Ok b \<Longrightarrow> length b = ud_block_size s"
    using src_read_fills [OF src] by (auto simp: udf_read_block_def and_then_eq_Ok split: if_splits)
qed

lemma extents_from_ok:
  "extents_from ps cs = Ok ex \<Longrightarrow> length ex \<le> length cs \<and>
     (\<forall>e \<in> set ex. 0 < ux_len e \<and> ux_len e < 2 ^ 30 \<and> (\<forall>lba. ux_lba e = Some lba \<longrightarrow> lba < 2 ^ 32))"
proof (induction ps cs arbitrary: ex rule: extents_from.induct)
  case (2 ps c cs)
  have "from_le (slice c 0 4) AND 0x3FFFFFFF < (2 ^ 30 :: nat)"
    using nat_and_mask [of "from_le (slice c 0 4)" 30] by simp
  with 2 show ?case by (fastforce simp: Let_def and_then_eq_Ok uadd_eq_Ok split: if_splits)
qed simp

lemma only_overflow_extents_from: "only_overflow (extents_from ps cs)"
  by (induction ps cs rule: extents_from.induct) (auto simp: Let_def only_overflow_and_then)

lemma parse_fe_ok:
  assumes "length buf < 2 ^ 32" and "parse_fe s buf = Ok i"
  shows "udf_inode_ok i"
proof -
  from assms(2) obtain ty info ad ad_off l_ad data where i:
    "i = \<lparr>un_kind = udf_kind ty, un_size = info, un_data = data\<rparr>" "udf_le_u64 buf 56 = Ok info"
    and d: "fe_data s buf ad info ad_off l_ad = Ok data"
    unfolding parse_fe_def and_then_eq_Ok case_prod_beta result.inject by metis
  have info: "info < 2 ^ 64" using udf_le_less(3) [OF i(2)] .
  have "length (chunks_exact k (slice buf a b)) < 2 ^ 32" for k a b
  proof -
    have "length (slice buf a b) \<le> length buf" by (simp add: slice_def)
    then show ?thesis using chunks_exact_length [of k "slice buf a b"] assms(1) by linarith
  qed
  moreover from d consider (inline) b where "data = Inline b" "length b = info"
    | (ext) k a b ex where "data = Extents ex" "extents_from (ud_partition_start s) (chunks_exact k (slice buf a b)) = Ok ex"
    by (auto simp: fe_data_def parse_extents_def and_then_eq_Ok ok_or_eq_Ok get_range_eq_Some
        checked_full_read_len_eq_Ok checked_add_eq_Some split: if_splits)
  then show ?thesis
  proof cases
    case ext
    then show ?thesis
      using extents_from_ok [OF ext(2)] calculation [of k a b] i(1) info by (simp add: udf_inode_ok_def)
  qed (use i(1) info in \<open>simp add: udf_inode_ok_def\<close>)
qed

lemma only_overflow_parse_fe: "only_overflow (parse_fe s buf)"
proof -
  have "only_overflow (fe_data s buf ad info a l)" for ad info a l
    by (simp add: fe_data_def parse_extents_def only_overflow_and_then no_panic_only_overflow only_overflow_extents_from)
  moreover have "only_overflow (fe_layout tag)" for tag by (simp add: fe_layout_def)
  ultimately show ?thesis
    by (auto simp: parse_fe_def only_overflow_and_then no_panic_only_overflow split: prod.splits)
qed

lemma read_fe_ok:
  assumes "udf_base s" and "read_fe s lba = Ok i"
  shows "udf_inode_ok i"
proof -
  from assms(2) obtain b where b: "udf_read_block s lba = Ok b" "parse_fe s b = Ok i"
    by (auto simp: read_fe_def and_then_eq_Ok)
  have "length b = ud_block_size s"
    using b(1) src_read_fills assms(1) by (auto simp: udf_read_block_def udf_base_def and_then_eq_Ok split: if_splits)
  then show ?thesis using parse_fe_ok [OF _ b(2)] assms(1) by (simp add: udf_base_def)
qed


section \<open>Interning\<close>

lemma read_fe_static:
  "ud_src s' = ud_src s \<Longrightarrow> ud_block_size s' = ud_block_size s \<Longrightarrow> ud_partition_start s' = ud_partition_start s \<Longrightarrow>
     read_fe s' = read_fe s"
proof -
  assume eq: "ud_src s' = ud_src s" "ud_block_size s' = ud_block_size s" "ud_partition_start s' = ud_partition_start s"
  have pe: "parse_extents s' = parse_extents s" by (intro ext) (simp only: parse_extents_def eq)
  have rb: "udf_read_block s' = udf_read_block s" by (intro ext) (simp only: udf_read_block_def eq)
  have "parse_fe s' = parse_fe s" by (intro ext) (simp only: parse_fe_def fe_data_def pe)
  then show ?thesis by (intro ext) (simp only: read_fe_def rb)
qed

lemma read_all_static:
  assumes "ud_src s' = ud_src s" and "ud_block_size s' = ud_block_size s"
  shows "read_all s' = read_all s"
proof -
  have "read_all_loop s' cap ex out = read_all_loop s cap ex out" for cap ex out
    by (induction ex arbitrary: out) (simp_all add: assms Let_def split: option.splits)
  then have "read_all_loop s' = read_all_loop s" by (intro ext)
  then show ?thesis by (intro ext) (simp only: read_all_def)
qed

lemma udf_intern_static:
  "ud_src (snd (udf_intern k v s)) = ud_src s" "ud_block_size (snd (udf_intern k v s)) = ud_block_size s"
  "ud_partition_start (snd (udf_intern k v s)) = ud_partition_start s"
  by (simp_all add: udf_intern_def Let_def split: option.splits)

lemmas udf_intern_same = read_fe_static [OF udf_intern_static] read_all_static [OF udf_intern_static(1,2)]

interpretation udf_table: intern_table ud_nodes ud_by_lba udf_intern udf_base udf_good
proof unfold_locales
  fix s k v
  show "udf_base s \<Longrightarrow> udf_base (snd (udf_intern k v s))" by (simp add: udf_base_def udf_intern_static)
  show "udf_good (snd (udf_intern k v s)) = udf_good s" by (simp add: fun_eq_iff udf_good_def udf_intern_same)
qed (auto simp: udf_good_def udf_intern_def Let_def)

interpretation udf_tree: interned_tree ud_nodes ud_by_lba udf_intern udf_base udf_good read_fe un_kind udf_listing
  udf_read_dir udf_lookup
proof unfold_locales
  fix s k v
  show "udf_listing (snd (udf_intern k v s)) = udf_listing s"
    by (simp add: fun_eq_iff udf_listing_def udf_intern_static udf_intern_same)
qed (simp_all add: udf_good_def udf_intern_same udf_read_dir_def udf_inode_of_def udf_lookup_def)

definition udf_view :: "udf \<Rightarrow> udf_inode view" where
  "udf_view s =
     \<lparr>vw_root = ud_nodes s ! 0,
      vw_lookup = (\<lambda>d name. and_then (children_of read_fe udf_listing s d) (\<lambda>vs. Ok (find_named name vs))),
      vw_metadata = (\<lambda>i. Ok \<lparr>md_kind = un_kind i, md_size = un_size i, md_mode = 0\<rparr>),
      vw_link = (\<lambda>i. Ok None)\<rparr>"

definition udf_repr :: "udf \<Rightarrow> node_id \<Rightarrow> udf_inode option" where
  "udf_repr s n = get_at (ud_nodes s) n"

lemma udf_repr_Some: "udf_repr s n = Some i \<longleftrightarrow> udf_inode_of s n = Ok i"
  by (auto simp: udf_repr_def udf_inode_of_def result_simps)

lemma udf_read_dir_keeps:
  assumes ok: "udf_ok s" and r: "udf_read_dir d s = (r, s')"
  shows "udf_ok s'" and "udf_view s' = udf_view s" and "udf_repr s n = Some k \<Longrightarrow> udf_repr s' n = Some k"
proof -
  have b: "udf_base s" "table_ok (udf_good s) (ud_nodes s) (ud_by_lba s)" "0 < length (ud_nodes s)"
    using ok by (simp_all add: udf_ok_def)
  note k = udf_tree.read_dir_cases [OF b(1,2) r]
  show "udf_ok s'" using k(1,2) k(5) [OF b(3)] by (auto simp: udf_ok_def)
  show "udf_view s' = udf_view s"
    using k(3,4) k(5) [OF b(3)] by (simp add: udf_view_def children_of_def)
  show "udf_repr s n = Some k \<Longrightarrow> udf_repr s' n = Some k"
    using k(5) [of n] by (auto simp: udf_repr_def result_simps)
qed

lemma udf_lookup_keeps:
  assumes ok: "udf_ok s" and r: "udf_lookup d nm s = (r, s')"
  shows "udf_ok s'" and "udf_view s' = udf_view s" and "udf_repr s n = Some k \<Longrightarrow> udf_repr s' n = Some k"
    and "case and_then (udf_inode_of s d) (\<lambda>i. vw_lookup (udf_view s) i nm) of
       Ok (Some v) \<Rightarrow> \<exists>n. r = Ok (Some n) \<and> udf_repr s' n = Some v
     | Ok None \<Rightarrow> r = Ok None
     | Err e \<Rightarrow> r = Err e
     | Panic p \<Rightarrow> r = Panic p"
proof -
  have b: "udf_base s" "table_ok (udf_good s) (ud_nodes s) (ud_by_lba s)" using ok by (simp_all add: udf_ok_def)
  note k = udf_tree.lookup_cases [OF b r]
  from k(1) obtain rd where rd: "udf_read_dir d s = (rd, s')" by blast
  show "udf_ok s'" "udf_view s' = udf_view s" "udf_repr s n = Some k \<Longrightarrow> udf_repr s' n = Some k"
    using udf_read_dir_keeps [OF ok rd] by blast+
  let ?c = "and_then (ok_or (get_at (ud_nodes s) d) NotFound) (children_of read_fe udf_listing s)"
  have eq: "and_then (udf_inode_of s d) (\<lambda>i. vw_lookup (udf_view s) i nm) =
      and_then ?c (\<lambda>vs. Ok (find_named nm vs))"
    by (simp add: udf_view_def udf_inode_of_def and_then_assoc)
  show "case and_then (udf_inode_of s d) (\<lambda>i. vw_lookup (udf_view s) i nm) of
       Ok (Some v) \<Rightarrow> \<exists>n. r = Ok (Some n) \<and> udf_repr s' n = Some v
     | Ok None \<Rightarrow> r = Ok None
     | Err e \<Rightarrow> r = Err e
     | Panic p \<Rightarrow> r = Panic p"
    unfolding eq using k(2) by (cases ?c) (auto simp: udf_repr_def get_at_def split: option.splits)
qed

lemma udf_inode_of_ok:
  assumes "udf_ok s" and "udf_inode_of s n = Ok i"
  shows "udf_inode_ok i"
proof -
  have t: "table_ok (udf_good s) (ud_nodes s) (ud_by_lba s)" and b: "udf_base s" using assms(1) by (simp_all add: udf_ok_def)
  have n: "n < length (ud_nodes s)" "i = ud_nodes s ! n" using assms(2) by (auto simp: udf_inode_of_def result_simps)
  from table_okD(3) [OF t n(1)] obtain k where "bm_get (ud_by_lba s) k = Some n" by blast
  from table_okD(2) [OF t this] n(2) read_fe_ok [OF b] show ?thesis by (auto simp: udf_good_def)
qed


section \<open>Reads\<close>

text \<open>The data of the extents, one after the other.\<close>

fun udf_extents_data :: "udf \<Rightarrow> udf_extent list \<Rightarrow> bytes result" where
  "udf_extents_data s [] = Ok []"
| "udf_extents_data s (e # es) =
     and_then (case ux_lba e of
                 Some lba \<Rightarrow> src_read (ud_src s) (lba * ud_block_size s) (ux_len e)
               | None \<Rightarrow> Ok (replicate (ux_len e) 0)) (\<lambda>d.
     and_then (udf_extents_data s es) (\<lambda>rest. Ok (d @ rest)))"

text \<open>A part of an extent is that part of its data, read or zeros.\<close>

definition extent_part :: "udf \<Rightarrow> udf_extent \<Rightarrow> nat \<Rightarrow> nat \<Rightarrow> bytes result" where
  "extent_part s e i k =
     (case ux_lba e of
        Some lba \<Rightarrow>
          and_then (umul 64 lba (ud_block_size s)) (\<lambda>base.
          and_then (uadd 64 base i) (\<lambda>at. src_read (ud_src s) at k))
      | None \<Rightarrow> Ok (replicate k 0))"

lemma udf_read_extents_Cons:
  "udf_read_extents s off want (e # es) file_pos produced buf =
     (if produced \<ge> want then Ok (produced, buf)
      else
        and_then (uadd 64 file_pos (ux_len e)) (\<lambda>ext_end.
        and_then (uadd 64 off produced) (\<lambda>cur.
        if cur \<ge> ext_end then udf_read_extents s off want es ext_end produced buf
        else
          and_then (usub cur file_pos) (\<lambda>intra.
          let tk = min (ux_len e - intra) (want - produced) in
          and_then (extent_part s e intra tk) (\<lambda>piece.
            udf_read_extents s off want es ext_end (produced + tk) (overwrite buf produced piece))))))"
  by (cases "ux_lba e") (simp_all add: extent_part_def Let_def and_then_assoc cong: if_cong)

declare udf_read_extents.simps(2) [simp del]

lemma extent_part_length:
  "sound_source (ud_src s) \<Longrightarrow> extent_part s e i k = Ok p \<Longrightarrow> length p = k"
  by (auto simp: extent_part_def and_then_eq_Ok dest: src_read_fills split: option.splits)

lemma extent_part_slice:
  assumes src: "sound_source (ud_src s)" and "i + k \<le> ux_len e"
    and d: "(case ux_lba e of Some lba \<Rightarrow> src_read (ud_src s) (lba * ud_block_size s) (ux_len e)
               | None \<Rightarrow> Ok (replicate (ux_len e) 0)) = Ok d"
  shows "extent_part s e i k = Ok (slice d i (i + k))" and "length d = ux_len e"
proof -
  show "length d = ux_len e" using d src_read_fills [OF src] by (auto split: option.splits)
  show "extent_part s e i k = Ok (slice d i (i + k))"
  proof (cases "ux_lba e")
    case None
    then show ?thesis using d assms(2) by (auto simp: extent_part_def slice_def min_def)
  next
    case (Some lba)
    with d have r: "src_read (ud_src s) (lba * ud_block_size s) (ux_len e) = Ok d" by simp
    have "lba * ud_block_size s + ux_len e < 2 ^ 63" using src_read_bound [OF src r] .
    then have "umul 64 lba (ud_block_size s) = Ok (lba * ud_block_size s)"
      "uadd 64 (lba * ud_block_size s) i = Ok (lba * ud_block_size s + i)"
      using assms(2) by (simp_all add: umul_def uadd_def)
    then show ?thesis using src_read_part [OF src r assms(2)] Some by (simp add: extent_part_def)
  qed
qed

lemma udf_extents_data_length:
  "sound_source (ud_src s) \<Longrightarrow> udf_extents_data s es = Ok d \<Longrightarrow> length d = sum_list (map ux_len es)"
proof (induction es arbitrary: d)
  case (Cons e es)
  then show ?case by (auto simp: and_then_eq_Ok dest: src_read_fills split: option.splits)
qed simp

lemma udf_read_extents_data:
  assumes src: "sound_source (ud_src s)"
  shows "udf_extents_data s es = Ok (drop pos d) \<Longrightarrow> pos \<le> length d \<Longrightarrow> pos \<le> off + produced \<or> produced = want \<Longrightarrow>
    produced \<le> want \<Longrightarrow> off + want \<le> length d \<Longrightarrow> length d < 2 ^ 64 \<Longrightarrow> want \<le> length buf \<Longrightarrow>
    udf_read_extents s off want es pos produced buf =
      Ok (want, overwrite buf produced (slice d (off + produced) (off + want)))"
proof (induction es arbitrary: produced pos buf)
  case Nil
  then have "length d \<le> pos" by simp
  with Nil.prems have "produced = want" by linarith
  then show ?case by simp
next
  case (Cons e es)
  let ?len = "ux_len e" and ?cur = "off + produced"
  from Cons.prems(1) obtain x rest where
    x: "(case ux_lba e of Some lba \<Rightarrow> src_read (ud_src s) (lba * ud_block_size s) ?len
          | None \<Rightarrow> Ok (replicate ?len 0)) = Ok x"
    and rest: "udf_extents_data s es = Ok rest" and c: "drop pos d = x @ rest"
    by (auto simp: and_then_eq_Ok)
  have lx: "length x = ?len" using extent_part_slice(2) [OF src _ x, of 0 0] by simp
  let ?stop = "pos + ?len"
  have "length (drop pos d) = ?len + length rest" using c lx by simp
  then have ld: "?stop + length rest = length d" using Cons.prems(2) by simp
  have rest': "rest = drop ?stop d" using c lx by (metis add.commute append_eq_conv_conj drop_drop)
  have sums: "uadd 64 off produced = Ok ?cur" "uadd 64 pos ?len = Ok ?stop"
    using Cons.prems ld by (simp_all add: uadd_def)
  show ?case
  proof (cases "produced = want")
    case True
    then show ?thesis by (simp add: udf_read_extents_Cons)
  next
    case False
    then have st: "pos \<le> ?cur" and pw: "produced < want" using Cons.prems(3,4) by auto
    show ?thesis
    proof (cases "?cur < ?stop")
      case False
      have "udf_read_extents s off want es ?stop produced buf = Ok (want, overwrite buf produced (slice d ?cur (off + want)))"
        by (rule Cons.IH) (use Cons.prems rest rest' ld False pw in auto)
      then show ?thesis using sums False pw by (simp add: udf_read_extents_Cons)
    next
      case True
      let ?in = "?cur - pos"
      define tk where "tk = min (?len - ?in) (want - produced)"
      have wi: "?in + tk \<le> ?len" "produced + tk \<le> want" "?stop \<le> off + (produced + tk) \<or> produced + tk = want"
        using True st Cons.prems(4) unfolding tk_def by linarith+
      have "slice x ?in (?in + tk) = slice (x @ rest) ?in (?in + tk)"
        using wi(1) lx by (simp add: slice_append_left)
      also have "\<dots> = slice d ?cur (?cur + tk)" using st by (simp add: slice_def flip: c)
      finally have pc: "extent_part s e ?in tk = Ok (slice d ?cur (?cur + tk))"
        using extent_part_slice(1) [OF src wi(1) x] by simp
      let ?buf = "overwrite buf produced (slice d ?cur (?cur + tk))"
      have "length (slice d ?cur (?cur + tk)) = tk" using wi(2) Cons.prems(5) by simp
      then have lb: "want \<le> length ?buf" using wi(2) Cons.prems(7) by simp
      have "udf_read_extents s off want es ?stop (produced + tk) ?buf =
          Ok (want, overwrite ?buf (produced + tk) (slice d (off + (produced + tk)) (off + want)))"
        by (rule Cons.IH) (use Cons.prems(5,6) rest rest' ld wi lb in auto)
      also have "off + (produced + tk) = ?cur + tk" by simp
      also have "overwrite ?buf (produced + tk) (slice d (?cur + tk) (off + want)) = overwrite buf produced (slice d ?cur (off + want))"
        by (rule overwrite_slices) (use wi(2) Cons.prems(5,7) in auto)
      finally have rec: "udf_read_extents s off want es ?stop (produced + tk) ?buf =
          Ok (want, overwrite buf produced (slice d ?cur (off + want)))" .
      have sb: "usub ?cur pos = Ok ?in" using st by (simp add: usub_def)
      have nle: "(?cur \<ge> ?stop) = False" "(produced \<ge> want) = False" using True pw by simp_all
      show ?thesis
        by (simp only: udf_read_extents_Cons sums sb and_then.simps nle if_False Let_def tk_def [symmetric] pc rec)
    qed
  qed
qed

lemma udf_read_extents_ok:
  assumes src: "sound_source (ud_src s)" and bs: "ud_block_size s < 2 ^ 32"
  shows "\<forall>e \<in> set es. ux_len e < 2 ^ 30 \<and> (\<forall>lba. ux_lba e = Some lba \<longrightarrow> lba < 2 ^ 32) \<Longrightarrow>
    pos \<le> off + produced \<or> produced = want \<Longrightarrow> produced \<le> want \<Longrightarrow> off + want < 2 ^ 64 \<Longrightarrow>
    pos + length es * 2 ^ 30 < 2 ^ 64 \<Longrightarrow> want \<le> length buf \<Longrightarrow>
    no_panic (udf_read_extents s off want es pos produced buf) \<and>
    (\<forall>k buf'. udf_read_extents s off want es pos produced buf = Ok (k, buf') \<longrightarrow> k \<le> want \<and> length buf' = length buf)"
proof (induction es arbitrary: produced pos buf)
  case (Cons e es)
  let ?len = "ux_len e" and ?cur = "off + produced" and ?stop = "pos + ux_len e"
  have w: "?len < 2 ^ 30" "\<And>lba. ux_lba e = Some lba \<Longrightarrow> lba < 2 ^ 32"
    and es: "\<forall>e \<in> set es. ux_len e < 2 ^ 30 \<and> (\<forall>lba. ux_lba e = Some lba \<longrightarrow> lba < 2 ^ 32)"
    "?stop + length es * 2 ^ 30 < 2 ^ 64"
    using Cons.prems(1,5) by auto
  have sums: "uadd 64 off produced = Ok ?cur" "uadd 64 pos ?len = Ok ?stop"
    using Cons.prems(3-5) w(1) by (simp_all add: uadd_def)
  show ?case
  proof (cases "produced = want")
    case True
    then show ?thesis by (simp add: udf_read_extents_Cons)
  next
    case False
    then have st: "pos \<le> ?cur" and pw: "produced < want" using Cons.prems(2,3) by auto
    show ?thesis
    proof (cases "?cur < ?stop")
      case False
      then have eq: "udf_read_extents s off want (e # es) pos produced buf = udf_read_extents s off want es ?stop produced buf"
        using sums pw by (simp add: udf_read_extents_Cons)
      have "?stop \<le> ?cur \<or> produced = want" using False by simp
      then show ?thesis unfolding eq by (rule Cons.IH [OF es(1) _ Cons.prems(3,4) es(2) Cons.prems(6)])
    next
      case True
      define tk where "tk = min (?len - (?cur - pos)) (want - produced)"
      have wi: "produced + tk \<le> want" "?stop \<le> off + (produced + tk) \<or> produced + tk = want" "?cur - pos < ?len"
        using True st Cons.prems(3) unfolding tk_def by linarith+
      have safe: "no_panic (extent_part s e (?cur - pos) tk)"
      proof (cases "ux_lba e")
        case (Some lba)
        have "lba * ud_block_size s + 2 ^ 32 \<le> 2 ^ 64" using udf_block_less [OF w(2) [OF Some] bs] .
        then have "umul 64 lba (ud_block_size s) = Ok (lba * ud_block_size s)"
          "uadd 64 (lba * ud_block_size s) (?cur - pos) = Ok (lba * ud_block_size s + (?cur - pos))"
          using wi(3) w(1) by (simp_all add: umul_def uadd_def)
        then show ?thesis using Some src by (simp add: extent_part_def no_panic_simps)
      qed (simp add: extent_part_def)
      have IH: "no_panic (udf_read_extents s off want es ?stop (produced + tk) (overwrite buf produced piece)) \<and>
          (\<forall>k buf'. udf_read_extents s off want es ?stop (produced + tk) (overwrite buf produced piece) = Ok (k, buf') \<longrightarrow>
             k \<le> want \<and> length buf' = length buf)"
        if "extent_part s e (?cur - pos) tk = Ok piece" for piece
      proof -
        have "length (overwrite buf produced piece) = length buf"
          using extent_part_length [OF src that] wi(1) Cons.prems(6) by simp
        then have l: "want \<le> length (overwrite buf produced piece)" "length (overwrite buf produced piece) = length buf"
          using Cons.prems(6) by simp_all
        from Cons.IH [OF es(1) wi(2,1) Cons.prems(4) es(2) l(1)] show ?thesis unfolding l(2) .
      qed
      have sb: "usub ?cur pos = Ok (?cur - pos)" using st by (simp add: usub_def)
      have eq: "udf_read_extents s off want (e # es) pos produced buf =
          and_then (extent_part s e (?cur - pos) tk) (\<lambda>piece.
            udf_read_extents s off want es ?stop (produced + tk) (overwrite buf produced piece))"
      proof -
        have nle: "(?cur \<ge> ?stop) = False" "(produced \<ge> want) = False" using True pw by simp_all
        show ?thesis
          by (simp only: udf_read_extents_Cons sums sb and_then.simps nle if_False Let_def tk_def [symmetric])
      qed
      show ?thesis
      proof (cases "extent_part s e (?cur - pos) tk")
        case (Ok piece)
        from IH [OF Ok] show ?thesis unfolding eq Ok and_then.simps .
      qed (use safe in \<open>simp_all add: eq\<close>)
    qed
  qed
qed simp


section \<open>The frontend keeps its contract\<close>

lemma udf_read_at_ok:
  assumes ok: "udf_ok s"
  shows "no_panic (udf_read_at s n off buf)"
    and "udf_read_at s n off buf = Ok (k, buf') \<Longrightarrow> k \<le> length buf \<and> length buf' = length buf"
proof -
  have src: "sound_source (ud_src s)" and bs: "ud_block_size s < 2 ^ 32" using ok by (simp_all add: udf_ok_def udf_base_def)
  have "no_panic (udf_read_at s n off buf) \<and>
    (\<forall>k buf'. udf_read_at s n off buf = Ok (k, buf') \<longrightarrow> k \<le> length buf \<and> length buf' = length buf)"
  proof (cases "\<exists>i. udf_inode_of s n = Ok i \<and> un_kind i \<noteq> Directory \<and> off < un_size i")
    case False
    then show ?thesis by (cases "udf_inode_of s n") (auto simp: udf_read_at_def udf_inode_of_def ok_or_def split: option.splits)
  next
    case True
    then obtain i where i: "udf_inode_of s n = Ok i" "un_kind i \<noteq> Directory" "off < un_size i" by blast
    note iok = udf_inode_of_ok [OF ok i(1)]
    let ?w = "min (length buf) (un_size i - off)"
    show ?thesis
    proof (cases "un_data i")
      case (Inline b)
      then have "length b = un_size i" using iok by (simp add: udf_inode_ok_def)
      then show ?thesis using i Inline by (auto simp: udf_read_at_def Let_def index_range_def)
    next
      case (Extents ex)
      then have ex: "\<forall>e \<in> set ex. ux_len e < 2 ^ 30 \<and> (\<forall>lba. ux_lba e = Some lba \<longrightarrow> lba < 2 ^ 32)" "length ex < 2 ^ 32"
        and "un_size i < 2 ^ 64"
        using iok by (auto simp: udf_inode_ok_def)
      then have w: "off + ?w < 2 ^ 64" "?w \<le> length buf" using i(3) by auto
      have "length ex * 2 ^ 30 < 2 ^ 64" using ex(2) by simp
      then have r: "no_panic (udf_read_extents s off ?w ex 0 0 buf) \<and>
          (\<forall>k buf'. udf_read_extents s off ?w ex 0 0 buf = Ok (k, buf') \<longrightarrow> k \<le> ?w \<and> length buf' = length buf)"
        by (intro udf_read_extents_ok [OF src bs ex(1) _ _ w(1) _ w(2)]) simp_all
      have eq: "udf_read_at s n off buf = udf_read_extents s off ?w ex 0 0 buf"
        using i Extents by (simp add: udf_read_at_def Let_def)
      show ?thesis unfolding eq using r by (meson le_trans min.cobounded1)
    qed
  qed
  then show "no_panic (udf_read_at s n off buf)"
    and "udf_read_at s n off buf = Ok (k, buf') \<Longrightarrow> k \<le> length buf \<and> length buf' = length buf" by blast+
qed

lemma udf_frontend_simps [simp]:
  "fe_root udf_frontend s = 0"
  "fe_lookup udf_frontend cx = udf_lookup" "fe_read_dir udf_frontend cx = udf_read_dir"
  "fe_metadata udf_frontend cx n s = (udf_metadata s n, s)"
  "fe_read_at udf_frontend cx n off buf s = (udf_read_at s n off buf, s)"
  "fe_read_link udf_frontend cx n s = (Ok None, s)"
  by (simp_all add: udf_frontend_def udf_root_def default_read_link_def)

interpretation udf: fold_frontend udf_frontend udf_ok
proof unfold_locales
  fix s cx n off buf k buf' s'
  assume "udf_ok s" "fe_read_at udf_frontend cx n off buf s = (Ok (k, buf'), s')"
  then show "k \<le> length buf \<and> length buf' = length buf"
    using udf_read_at_ok(2) [of s n off buf k buf'] by auto
next
  fix s cx d nm r s'
  assume "udf_ok s" "fe_lookup udf_frontend cx d nm s = (r, s')"
  then show "udf_ok s' \<and> fe_root udf_frontend s' = fe_root udf_frontend s"
    using udf_lookup_keeps(1) [of s d nm r s'] by simp
next
  fix s cx d r s'
  assume "udf_ok s" "fe_read_dir udf_frontend cx d s = (r, s')"
  then show "udf_ok s' \<and> fe_root udf_frontend s' = fe_root udf_frontend s"
    using udf_read_dir_keeps(1) [of s d r s'] by simp
qed simp_all

interpretation udf: tree_frontend udf_frontend udf_ok cx udf_repr udf_view for cx
proof unfold_locales
  fix s
  assume "udf_ok s"
  then show "udf_repr s (fe_root udf_frontend s) = Some (vw_root (udf_view s))"
    by (simp add: udf_ok_def udf_repr_def get_at_def udf_view_def)
next
  fix s d kd nm r1 s'
  assume "udf_ok s" "udf_repr s d = Some kd" "fe_lookup udf_frontend cx d nm s = (r1, s')"
  with udf_lookup_keeps [of s d nm r1 s']
  show "udf_view s' = udf_view s \<and> (\<forall>n k. udf_repr s n = Some k \<longrightarrow> udf_repr s' n = Some k) \<and>
      (case vw_lookup (udf_view s) kd nm of
         Ok (Some kc) \<Rightarrow> \<exists>c. r1 = Ok (Some c) \<and> udf_repr s' c = Some kc
       | Ok None \<Rightarrow> r1 = Ok None | Err e \<Rightarrow> r1 = Err e | Panic p \<Rightarrow> r1 = Panic p)"
    by (simp add: udf_repr_Some)
qed (auto simp: udf_repr_Some udf_metadata_def udf_view_def)

text \<open>
  The content of a node: its inline bytes, or as much of its extents' data as its information
  length says.
\<close>

definition udf_content :: "udf \<Rightarrow> node_id \<Rightarrow> bytes \<Rightarrow> bool" where
  "udf_content s n c \<longleftrightarrow>
     (\<exists>i. udf_inode_of s n = Ok i \<and> un_kind i \<noteq> Directory \<and> un_size i = length c \<and>
        (case un_data i of
           Inline b \<Rightarrow> b = c
         | Extents ex \<Rightarrow> \<exists>d. udf_extents_data s ex = Ok d \<and> length d < 2 ^ 64 \<and> length c \<le> length d \<and> c = take (length c) d))"

lemma udf_read_at_content:
  assumes ok: "udf_ok s" and c: "udf_content s n c"
  shows "udf_read_at s n off buf =
    (if off < length c
     then Ok (min (length buf) (length c - off), overwrite buf 0 (slice c off (off + min (length buf) (length c - off))))
     else Ok (0, buf))"
proof -
  have src: "sound_source (ud_src s)" using ok by (simp add: udf_ok_def udf_base_def)
  from c obtain i where i: "udf_inode_of s n = Ok i" "un_kind i \<noteq> Directory" "un_size i = length c"
    and d: "case un_data i of Inline b \<Rightarrow> b = c
         | Extents ex \<Rightarrow> \<exists>d. udf_extents_data s ex = Ok d \<and> length d < 2 ^ 64 \<and> length c \<le> length d \<and> c = take (length c) d"
    by (auto simp: udf_content_def)
  let ?w = "min (length buf) (length c - off)"
  show ?thesis
  proof (cases "off < length c")
    case True
    show ?thesis
    proof (cases "un_data i")
      case (Inline b)
      then show ?thesis using i d True by (simp add: udf_read_at_def Let_def index_range_def)
    next
      case (Extents ex)
      with d obtain d where d: "udf_extents_data s ex = Ok (drop 0 d)" "length d < 2 ^ 64" "length c \<le> length d" "c = take (length c) d"
        by auto
      have "udf_read_extents s off ?w ex 0 0 buf = Ok (?w, overwrite buf 0 (slice d (off + 0) (off + ?w)))"
        by (rule udf_read_extents_data [OF src d(1)]) (use True d in auto)
      moreover have "slice d off (off + ?w) = slice c off (off + ?w)"
      proof -
        have "slice d off (off + ?w) = slice (take (length c) d) off (off + ?w)"
          using True by (simp add: slice_def drop_take min_def)
        then show ?thesis using d(4) by simp
      qed
      ultimately show ?thesis using i Extents True by (simp add: udf_read_at_def Let_def)
    qed
  qed (use i in \<open>simp add: udf_read_at_def\<close>)
qed

interpretation udf: content_frontend udf_frontend udf_ok cx udf_content for cx
proof unfold_locales
  fix s n c
  assume "udf_ok s" and c: "udf_content s n c"
  then obtain i where "udf_inode_of s n = Ok i" "un_kind i \<noteq> Directory" "un_size i = length c" by (auto simp: udf_content_def)
  then show "\<exists>md s'. fe_metadata udf_frontend cx n s = (Ok md, s') \<and> md_kind md \<noteq> Directory \<and>
      md_size md = length c \<and> udf_content s' n c"
    using c by (simp add: udf_metadata_def)
next
  fix s n c off and buf :: bytes
  assume ok: "udf_ok s" and c: "udf_content s n c" and off: "off < length c" and "buf \<noteq> []"
  then show "\<exists>k s'. fe_read_at udf_frontend cx n off buf s = (Ok (k, overwrite buf 0 (slice c off (off + k))), s') \<and>
      0 < k \<and> k \<le> length buf \<and> off + k \<le> length c \<and> udf_content s' n c"
    using udf_read_at_content [OF ok c, of off buf]
    by (intro exI [of _ "min (length buf) (length c - off)"] exI [of _ s]) auto
qed


section \<open>Where a hostile volume can panic\<close>

lemma fid_loop_only_overflow: "only_overflow (fid_loop data ps p)"
proof (induction data ps p rule: fid_loop.induct)
  case (1 data ps p)
  have "only_overflow (decode_udf_name fi)" for fi
    by (auto simp: decode_udf_name_def split: list.splits option.splits)
  then have "only_overflow (parse_fid data ps p)" if "p + 38 \<le> length data"
    using that by (simp add: parse_fid_def only_overflow_and_then no_panic_only_overflow index_at_def Let_def)
  then show ?case using 1 by (subst fid_loop.simps) (auto simp: only_overflow_and_then no_panic_only_overflow)
qed

lemma no_panic_read_all:
  assumes "udf_base s" and "udf_inode_ok i"
  shows "no_panic (read_all s i)"
proof (cases "un_data i")
  case (Extents ex)
  have src: "sound_source (ud_src s)" and bs: "ud_block_size s < 2 ^ 32" using assms(1) by (simp_all add: udf_base_def)
  have "no_panic (read_all_loop s cap ex out)" if "\<forall>e \<in> set ex. \<forall>lba. ux_lba e = Some lba \<longrightarrow> lba < 2 ^ 32" for cap out
    using that
  proof (induction ex arbitrary: out)
    case (Cons e es)
    show ?case
    proof (cases "ux_lba e")
      case (Some lba)
      then have "lba * ud_block_size s + 2 ^ 32 \<le> 2 ^ 64" using udf_block_less [OF _ bs, of lba] Cons.prems by simp
      then have "umul 64 lba (ud_block_size s) = Ok (lba * ud_block_size s)" by (simp add: umul_def)
      then show ?thesis using Some Cons src by (simp add: Let_def no_panic_simps)
    qed (use Cons in \<open>simp add: Let_def\<close>)
  qed simp
  then show ?thesis using Extents assms(2) by (simp add: read_all_def udf_inode_ok_def no_panic_simps)
qed (simp add: read_all_def)

lemma only_overflow_read_fe: "udf_base s \<Longrightarrow> lba < 2 ^ 32 \<Longrightarrow> only_overflow (read_fe s lba)"
  using udf_read_block_ok(1) [of s lba]
  by (simp add: read_fe_def only_overflow_and_then no_panic_only_overflow only_overflow_parse_fe)

lemma fid_loop_addresses: "fid_loop data ps p = Ok es \<Longrightarrow> \<forall>e \<in> set es. snd e < 2 ^ 32"
proof (induction data ps p arbitrary: es rule: fid_loop.induct)
  case (1 data ps p)
  show ?case
  proof (cases "p + 38 \<le> length data \<and> udf_le_u16 data p = Ok TAG_FID")
    case False
    then have "es = []" using "1.prems" by (subst (asm) fid_loop.simps) (auto simp: and_then_eq_Ok split: if_splits)
    then show ?thesis by simp
  next
    case True
    with "1.prems" obtain x where x: "parse_fid data ps p = Ok x"
      "(if snd x = 0 then Ok (fst x) else and_then (fid_loop data ps (p + snd x)) (\<lambda>rest. Ok (fst x @ rest))) = Ok es"
      by (subst (asm) fid_loop.simps) (auto simp: and_then_eq_Ok)
    have "\<forall>e \<in> set (fst x). snd e < 2 ^ 32"
      using x(1) by (auto simp: parse_fid_def and_then_eq_Ok Let_def uadd_eq_Ok split: if_splits)
    moreover have "\<forall>e \<in> set rest. snd e < 2 ^ 32" if "fid_loop data ps (p + snd x) = Ok rest" "snd x \<noteq> 0" for rest
      using "1.IH" [OF _ _ _ x(1) that(2) that(1)] True by simp
    ultimately show ?thesis using x(2) by (fastforce simp: and_then_eq_Ok split: if_splits)
  qed
qed

lemma children_only_overflow:
  assumes ok: "udf_base s" and i: "udf_inode_ok i"
  shows "only_overflow (children_of read_fe udf_listing s i)"
proof -
  have l: "only_overflow (udf_listing s i)"
    using no_panic_read_all [OF ok i]
    by (simp add: udf_listing_def only_overflow_and_then no_panic_only_overflow parse_fids_def fid_loop_only_overflow)
  have "\<forall>e \<in> set es. snd e < 2 ^ 32" if "udf_listing s i = Ok es" for es
  proof -
    from that obtain data where "fid_loop data (ud_partition_start s) 0 = Ok es"
      by (auto simp: udf_listing_def parse_fids_def and_then_eq_Ok split: if_splits)
    then show ?thesis by (rule fid_loop_addresses)
  qed
  moreover have "only_overflow (fetch_children (read_fe s) es)" if "\<forall>e \<in> set es. snd e < 2 ^ 32" for es :: "(bytes \<times> nat) list"
    using that
  proof (induction es)
    case (Cons e es)
    then show ?case using only_overflow_read_fe [OF ok, of "snd e"] by (cases e) (simp add: only_overflow_and_then)
  qed simp
  ultimately show ?thesis using l by (simp add: children_of_def only_overflow_and_then)
qed

lemma udf_read_dir_only_overflow: "udf_ok s \<Longrightarrow> only_overflow (fst (udf_read_dir d s))"
proof -
  assume ok: "udf_ok s"
  then have b: "udf_base s" "table_ok (udf_good s) (ud_nodes s) (ud_by_lba s)" by (simp_all add: udf_ok_def)
  obtain r s' where r: "udf_read_dir d s = (r, s')" by fastforce
  let ?c = "and_then (ok_or (get_at (ud_nodes s) d) NotFound) (children_of read_fe udf_listing s)"
  have "udf_inode_of s d = Ok i \<Longrightarrow> only_overflow (children_of read_fe udf_listing s i)" for i
    using children_only_overflow [OF b(1) udf_inode_of_ok [OF ok]] .
  then have "only_overflow ?c" by (auto simp: only_overflow_and_then udf_inode_of_def)
  then show ?thesis using udf_tree.read_dir_cases(6) [OF b r] r by (cases ?c) (auto simp: only_overflow_def)
qed

lemma udf_lookup_only_overflow: "udf_ok s \<Longrightarrow> only_overflow (fst (udf_lookup d nm s))"
proof -
  assume ok: "udf_ok s"
  have "fst (udf_lookup d nm s) = and_then (fst (udf_read_dir d s)) (\<lambda>es. Ok (find_entry nm es))"
    by (cases "udf_read_dir d s"; cases "fst (udf_read_dir d s)") (simp_all add: udf_lookup_def op_bind_def op_return_def)
  then show ?thesis using udf_read_dir_only_overflow [OF ok, of d] by (simp add: only_overflow_and_then)
qed


section \<open>Mounting gives a volume that keeps the contract\<close>

lemma vds_loop_ok:
  assumes b: "udf_base s"
  shows "only_overflow (vds_loop s loc left i ps lvd)"
    and "vds_loop s loc left i ps lvd = Ok (ps', lvd') \<Longrightarrow>
      (\<forall>p. ps = Some p \<longrightarrow> p < 2 ^ 32) \<Longrightarrow> (\<forall>a f. lvd = Some (a, f) \<longrightarrow> a < 2 ^ 32 \<and> f < 2 ^ 32) \<Longrightarrow>
      (\<forall>p. ps' = Some p \<longrightarrow> p < 2 ^ 32) \<and> (\<forall>a f. lvd' = Some (a, f) \<longrightarrow> a < 2 ^ 32 \<and> f < 2 ^ 32)"
proof -
  show "only_overflow (vds_loop s loc left i ps lvd)"
  proof (induction left arbitrary: i ps lvd)
    case (Suc left)
    have "only_overflow (udf_read_block s lba)" if "uadd 32 loc i = Ok lba" for lba
      using udf_read_block_ok(1) [OF b, of lba] that by (simp add: no_panic_only_overflow uadd_eq_Ok)
    with Suc show ?case by (simp add: only_overflow_and_then no_panic_only_overflow)
  qed simp
  show "vds_loop s loc left i ps lvd = Ok (ps', lvd') \<Longrightarrow>
      (\<forall>p. ps = Some p \<longrightarrow> p < 2 ^ 32) \<Longrightarrow> (\<forall>a f. lvd = Some (a, f) \<longrightarrow> a < 2 ^ 32 \<and> f < 2 ^ 32) \<Longrightarrow>
      (\<forall>p. ps' = Some p \<longrightarrow> p < 2 ^ 32) \<and> (\<forall>a f. lvd' = Some (a, f) \<longrightarrow> a < 2 ^ 32 \<and> f < 2 ^ 32)"
  proof (induction left arbitrary: i ps lvd)
    case (Suc left)
    from Suc.prems(1) consider "ps' = ps" "lvd' = lvd"
      | p b where "udf_le_u32 b 188 = Ok p" "vds_loop s loc left (Suc i) (Some p) lvd = Ok (ps', lvd')"
      | a f b where "udf_le_u32 b 212 = Ok a" "udf_le_u32 b 252 = Ok f"
          "vds_loop s loc left (Suc i) ps (Some (a, f)) = Ok (ps', lvd')"
      | "vds_loop s loc left (Suc i) ps lvd = Ok (ps', lvd')"
      by (auto simp: and_then_eq_Ok split: if_splits)
    then show ?case
    proof cases
      case (2 p b)
      show ?thesis by (rule Suc.IH [OF 2(2)]) (use Suc.prems(3) udf_le_less(2) [OF 2(1)] in auto)
    next
      case (3 a f b)
      show ?thesis
        by (rule Suc.IH [OF 3(3)]) (use Suc.prems(2) udf_le_less(2) [OF 3(1)] udf_le_less(2) [OF 3(2)] in auto)
    next
      case 4
      show ?thesis by (rule Suc.IH [OF 4 Suc.prems(2,3)])
    qed (use Suc.prems(2,3) in simp)
  qed simp
qed

text \<open>The volume after the descriptors, before the root is interned.\<close>

definition udf_mounted :: "block_source \<Rightarrow> nat \<Rightarrow> nat \<Rightarrow> udf" where
  "udf_mounted src ps lbs =
     \<lparr>ud_src = src, ud_block_size = (if lbs \<noteq> 0 then lbs else UDF_SECTOR), ud_partition_start = ps,
      ud_nodes = [], ud_by_lba = []\<rparr>"

definition udf_root_of :: "udf \<Rightarrow> nat \<Rightarrow> (nat \<times> udf_inode) result" where
  "udf_root_of me fsd_lb =
     and_then (uadd 32 (ud_partition_start me) fsd_lb) (\<lambda>fsd_lba.
     and_then (udf_read_block me fsd_lba) (\<lambda>fsd.
     and_then (udf_le_u16 fsd 0) (\<lambda>tag.
     if tag \<noteq> TAG_FILE_SET then Err (Corrupt ''udf: no File Set Descriptor'')
     else
       and_then (udf_le_u32 fsd 404) (\<lambda>root_icb_lb.
       and_then (uadd 32 (ud_partition_start me) root_icb_lb) (\<lambda>lba.
       and_then (read_fe me lba) (\<lambda>root. Ok (lba, root)))))))"

lemma udf_open_eq:
  "udf_open src =
     (let me = udf_mounted src 0 UDF_SECTOR in
     and_then (udf_read_block me AVDP_SECTOR) (\<lambda>avdp.
     and_then (udf_le_u16 avdp 0) (\<lambda>tag.
     if tag \<noteq> TAG_AVDP then Err (Corrupt ''udf: no Anchor VD Pointer at sector 256'')
     else
       and_then (udf_le_u32 avdp 16) (\<lambda>mvds_len.
       and_then (udf_le_u32 avdp 20) (\<lambda>mvds_loc.
       and_then (vds_loop me mvds_loc (min (mvds_len div UDF_SECTOR) MAX_VDS_SECTORS) 0 None None) (\<lambda>x.
       and_then (ok_or (fst x) (Corrupt ''udf: no Partition Descriptor'')) (\<lambda>ps.
       and_then (ok_or (snd x) (Corrupt ''udf: no Logical Volume Descriptor'')) (\<lambda>y.
       and_then (udf_root_of (udf_mounted src ps (fst y)) (snd y)) (\<lambda>r.
         Ok (snd (udf_intern (fst r) (snd r) (udf_mounted src ps (fst y)))))))))))))"
  by (simp add: udf_open_def Let_def udf_mounted_def udf_root_of_def UDF_SECTOR_def and_then_assoc case_prod_beta
      if_distrib [where f = "\<lambda>r. and_then r f" for f] cong: if_cong)

lemma udf_open_ok:
  assumes src: "sound_source src"
  shows "only_overflow (udf_open src)" and "udf_open src = Ok s \<Longrightarrow> udf_ok s \<and> ud_src s = src"
proof -
  let ?me = "udf_mounted src 0 UDF_SECTOR"
  have me: "udf_base ?me" using src by (simp add: udf_base_def udf_mounted_def UDF_SECTOR_def)
  have root: "only_overflow (udf_root_of me k)" if "udf_base me" for me k
  proof -
    have "only_overflow (udf_read_block me lba)" "only_overflow (read_fe me lba)" if "uadd 32 (ud_partition_start me) j = Ok lba" for j lba
      using udf_read_block_ok(1) [OF \<open>udf_base me\<close>, of lba] only_overflow_read_fe [OF \<open>udf_base me\<close>, of lba] that
      by (simp_all add: no_panic_only_overflow uadd_eq_Ok)
    then show ?thesis by (auto simp: udf_root_of_def only_overflow_and_then no_panic_only_overflow)
  qed
  have base: "udf_base (udf_mounted src ps (fst y))"
    if "vds_loop ?me loc left 0 None None = Ok x" "fst x = Some ps" "snd x = Some y" for loc left x ps y
  proof -
    have "vds_loop ?me loc left 0 None None = Ok (Some ps, Some (fst y, snd y))" using that by (cases x) simp
    from vds_loop_ok(2) [OF me this] have "ps < 2 ^ 32 \<and> fst y < 2 ^ 32" by (cases y) simp
    then show ?thesis using src by (simp add: udf_base_def udf_mounted_def UDF_SECTOR_def)
  qed
  have "no_panic (udf_read_block ?me AVDP_SECTOR)" using udf_read_block_ok(1) [OF me] by (simp add: AVDP_SECTOR_def)
  then show "only_overflow (udf_open src)"
    using vds_loop_ok(1) [OF me] base root
    by (auto simp: udf_open_eq Let_def only_overflow_and_then no_panic_only_overflow ok_or_eq_Ok)
  assume "udf_open src = Ok s"
  then obtain loc left x ps y r where o: "vds_loop ?me loc left 0 None None = Ok x" "fst x = Some ps" "snd x = Some y"
    "udf_root_of (udf_mounted src ps (fst y)) (snd y) = Ok r"
    "s = snd (udf_intern (fst r) (snd r) (udf_mounted src ps (fst y)))"
    by (auto simp: udf_open_eq Let_def and_then_eq_Ok ok_or_eq_Ok split: if_splits)
  let ?m = "udf_mounted src ps (fst y)"
  have b: "udf_base ?m" using base [OF o(1-3)] .
  have g: "udf_good ?m (fst r) (snd r)"
    using o(4) by (auto simp: udf_root_of_def udf_good_def and_then_eq_Ok split: if_splits)
  have t: "table_ok (udf_good ?m) (ud_nodes ?m) (ud_by_lba ?m)" by (simp add: udf_mounted_def)
  have i: "udf_intern (fst r) (snd r) ?m = (fst (udf_intern (fst r) (snd r) ?m), s)" using o(5) by simp
  note k = udf_table.intern_ok [OF b t g i]
  have "ud_src s = src" using o(5) by (simp add: udf_intern_static udf_mounted_def)
  then show "udf_ok s \<and> ud_src s = src" using k(1,3,4) by (auto simp: udf_ok_def)
qed

end
