(* ===== verification/Udf_Images.thy ===== *)
theory Udf_Images
  imports Udf
begin

text \<open>
  UDF structures as they are recorded, and what the reader makes of them: File Identifier
  Descriptors and the directories made of them, File Entries of both kinds with short or long
  allocation descriptors, and files read through them.
\<close>

section \<open>File Identifier Descriptors\<close>

record fid =
  fd_fc :: byte
  fd_icb :: nat
  fd_iu :: bytes
  fd_fi :: bytes
  fd_name :: bytes

definition fid_live :: "fid \<Rightarrow> bool" where
  "fid_live f \<longleftrightarrow> fd_fc f AND 0x08 = 0 \<and> fd_fc f AND 0x04 = 0"

definition fid_length :: "fid \<Rightarrow> nat" where
  "fid_length f = (38 + length (fd_iu f) + length (fd_fi f) + 3) div 4 * 4"

definition fid_encode :: "fid \<Rightarrow> bytes" where
  "fid_encode f =
     to_le 2 TAG_FID @ replicate 16 0 @ [fd_fc f, byte_of (length (fd_fi f))] @ replicate 4 0 @ to_le 4 (fd_icb f) @
     replicate 8 0 @ to_le 2 (length (fd_iu f)) @ fd_iu f @ fd_fi f @
     replicate (fid_length f - (38 + length (fd_iu f) + length (fd_fi f))) 0"

definition fid_ok :: "nat \<Rightarrow> fid \<Rightarrow> bool" where
  "fid_ok ps f \<longleftrightarrow>
     length (fd_fi f) < 256 \<and> length (fd_iu f) < 2 ^ 16 \<and> fd_icb f < 2 ^ 32 \<and>
     (fid_live f \<longrightarrow> decode_udf_name (fd_fi f) = Ok (fd_name f) \<and> ps + fd_icb f < 2 ^ 32)"

text \<open>What may follow the last descriptor: too little for one, or something without its tag.\<close>

definition fids_end :: "bytes \<Rightarrow> bool" where
  "fids_end tail \<longleftrightarrow> length tail < 38 \<or> from_le (take 2 tail) \<noteq> TAG_FID"

lemma fid_length_ge: "38 + length (fd_iu f) + length (fd_fi f) \<le> fid_length f"
  by (simp add: fid_length_def)

lemma length_fid_encode [simp]: "length (fid_encode f) = fid_length f"
  using fid_length_ge [of f] by (simp add: fid_encode_def)

lemma fid_fields:
  assumes "length (fd_fi f) < 256" and "length (fd_iu f) < 2 ^ 16" and "fd_icb f < 2 ^ 32"
  shows "udf_le_u16 (pre @ fid_encode f @ post) (length pre) = Ok TAG_FID"
    and "index_at (pre @ fid_encode f @ post) (length pre + 18) = Ok (fd_fc f)"
    and "index_at (pre @ fid_encode f @ post) (length pre + 19) = Ok (byte_of (length (fd_fi f)))"
    and "udf_le_u32 (pre @ fid_encode f @ post) (length pre + 24) = Ok (fd_icb f)"
    and "udf_le_u16 (pre @ fid_encode f @ post) (length pre + 36) = Ok (length (fd_iu f))"
    and "get_range (pre @ fid_encode f @ post) (length pre + 38 + length (fd_iu f))
           (length pre + 38 + length (fd_iu f) + length (fd_fi f)) = Some (fd_fi f)"
proof -
  let ?d = "pre @ fid_encode f @ post"
  have len: "38 + length (fd_iu f) + length (fd_fi f) \<le> length (fid_encode f)" using fid_length_ge [of f] by simp
  have le: "from_le (to_le 2 TAG_FID) = TAG_FID" "from_le (to_le 4 (fd_icb f)) = fd_icb f"
    "from_le (to_le 2 (length (fd_iu f))) = length (fd_iu f)"
    using assms by (simp_all add: from_le_to_le TAG_FID_def)
  have sl: "slice ?d (length pre + i) (length pre + j) = slice (fid_encode f) i j" if "j \<le> length (fid_encode f)" for i j
    using that by (simp add: slice_def)
  have "slice (fid_encode f) 0 2 = to_le 2 TAG_FID" "slice (fid_encode f) 24 28 = to_le 4 (fd_icb f)"
    "slice (fid_encode f) 36 38 = to_le 2 (length (fd_iu f))"
    by (simp_all add: fid_encode_def slice_def)
  then show "udf_le_u16 ?d (length pre) = Ok TAG_FID" "udf_le_u32 ?d (length pre + 24) = Ok (fd_icb f)"
    "udf_le_u16 ?d (length pre + 36) = Ok (length (fd_iu f))"
    using sl [of 2 0] sl [of 28 24] sl [of 38 36] len le
    by (simp_all add: udf_le_u16_def udf_le_u32_def le_field_eq_Ok ac_simps)
  show "index_at ?d (length pre + 18) = Ok (fd_fc f)" "index_at ?d (length pre + 19) = Ok (byte_of (length (fd_fi f)))"
    using len by (simp_all add: index_at_eq_Ok nth_append) (simp_all add: fid_encode_def nth_append)
  have "slice (fid_encode f) (38 + length (fd_iu f)) (38 + length (fd_iu f) + length (fd_fi f)) = fd_fi f"
  proof -
    define hdr where "hdr = to_le 2 TAG_FID @ replicate 16 0 @ [fd_fc f, byte_of (length (fd_fi f))] @ replicate 4 0 @
      to_le 4 (fd_icb f) @ replicate 8 0 @ to_le 2 (length (fd_iu f)) @ fd_iu f"
    have "length hdr = 38 + length (fd_iu f)" by (simp add: hdr_def)
    from slice_middle [OF this, of "fd_fi f" "replicate (fid_length f - (38 + length (fd_iu f) + length (fd_fi f))) 0"]
    show ?thesis by (simp add: fid_encode_def hdr_def)
  qed
  then show "get_range ?d (length pre + 38 + length (fd_iu f)) (length pre + 38 + length (fd_iu f) + length (fd_fi f)) =
      Some (fd_fi f)"
    using sl [of "38 + length (fd_iu f) + length (fd_fi f)" "38 + length (fd_iu f)"] len
    by (simp add: get_range_def add.assoc)
qed

lemma parse_fid_encode:
  assumes "fid_ok ps f"
  shows "parse_fid (pre @ fid_encode f @ post) ps (length pre) =
    Ok (if fid_live f then [(fd_name f, ps + fd_icb f)] else [], fid_length f)"
proof -
  have w: "length (fd_fi f) < 256" "length (fd_iu f) < 2 ^ 16" "fd_icb f < 2 ^ 32"
    using assms by (simp_all add: fid_ok_def)
  have "unat (byte_of (length (fd_fi f)) :: byte) = length (fd_fi f)" using w(1) by simp
  with fid_fields [OF w] assms show ?thesis
    by (auto simp: parse_fid_def Let_def fid_length_def fid_live_def fid_ok_def uadd_def)
qed

lemma fid_loop_encode:
  assumes "\<forall>f \<in> set fs. fid_ok ps f" and "fids_end tail"
  shows "fid_loop (pre @ concat (map fid_encode fs) @ tail) ps (length pre) =
    Ok (map (\<lambda>f. (fd_name f, ps + fd_icb f)) (filter fid_live fs))"
  using assms(1)
proof (induction fs arbitrary: pre)
  case Nil
  have "from_le (slice (pre @ tail) (length pre) (length pre + 2)) = from_le (take 2 tail)" by (simp add: slice_def)
  with assms(2) show ?case
    by (subst fid_loop.simps) (auto simp: fids_end_def udf_le_u16_def le_field_def get_range_def slice_def)
next
  case (Cons f fs)
  let ?d = "pre @ fid_encode f @ (concat (map fid_encode fs) @ tail)"
  have ok: "fid_ok ps f" using Cons.prems by simp
  have ge: "38 \<le> fid_length f" using fid_length_ge [of f] by simp
  have "fid_loop ?d ps (length pre) =
      and_then (fid_loop ?d ps (length pre + fid_length f)) (\<lambda>rest.
        Ok ((if fid_live f then [(fd_name f, ps + fd_icb f)] else []) @ rest))"
    using fid_fields(1) [of f pre "concat (map fid_encode fs) @ tail"] parse_fid_encode [OF ok] ok ge
    by (subst fid_loop.simps) (simp add: fid_ok_def)
  moreover have "fid_loop ?d ps (length pre + fid_length f) = Ok (map (\<lambda>f. (fd_name f, ps + fd_icb f)) (filter fid_live fs))"
    using Cons.IH [of "pre @ fid_encode f"] Cons.prems by simp
  ultimately show ?case by simp
qed


section \<open>File Entries\<close>

text \<open>An allocation descriptor: the type of the extent, its length and its block.\<close>

record alloc_desc =
  al_type :: nat
  al_len :: nat
  al_block :: nat

record file_entry =
  fe_ext :: bool
  fe_type :: byte
  fe_size :: nat
  fe_attrs :: bytes
  fe_long :: bool
  fe_allocs :: "alloc_desc list"

definition ad_encode :: "bool \<Rightarrow> alloc_desc \<Rightarrow> bytes" where
  "ad_encode long a =
     to_le 4 (al_type a * 2 ^ 30 + al_len a) @ to_le 4 (al_block a) @ (if long then replicate 8 0 else [])"

definition fe_encode :: "file_entry \<Rightarrow> bytes" where
  "fe_encode f =
     (let ads = concat (map (ad_encode (fe_long f)) (fe_allocs f)) in
      to_le 2 (if fe_ext f then TAG_EXTENDED_FILE_ENTRY else TAG_FILE_ENTRY) @ replicate 25 0 @ [fe_type f] @
      replicate 6 0 @ to_le 2 (if fe_long f then 1 else 0) @ replicate 20 0 @ to_le 8 (fe_size f) @
      replicate (if fe_ext f then 144 else 104) 0 @ to_le 4 (length (fe_attrs f)) @ to_le 4 (length ads) @
      fe_attrs f @ ads)"

definition file_entry_ok :: "nat \<Rightarrow> file_entry \<Rightarrow> bool" where
  "file_entry_ok ps f \<longleftrightarrow>
     fe_size f < 2 ^ 64 \<and> length (fe_attrs f) < 2 ^ 32 \<and> length (fe_allocs f) * 16 < 2 ^ 32 \<and>
     (\<forall>a \<in> set (fe_allocs f). al_type a < 3 \<and> al_len a < 2 ^ 30 \<and> al_block a < 2 ^ 32 \<and> ps + al_block a < 2 ^ 32)"

text \<open>The extents that the descriptors stand for; one of length zero stands for nothing.\<close>

definition alloc_extents :: "nat \<Rightarrow> alloc_desc list \<Rightarrow> udf_extent list" where
  "alloc_extents ps as =
     map (\<lambda>a. \<lparr>ux_lba = (if al_type a = 0 then Some (ps + al_block a) else None), ux_len = al_len a\<rparr>)
       (filter (\<lambda>a. al_len a \<noteq> 0) as)"

lemma length_ad_encode: "length (ad_encode long a) = (if long then 16 else 8)"
  by (simp add: ad_encode_def)

lemma ad_fields:
  assumes "al_type a < 4" and "al_len a < 2 ^ 30" and "al_block a < 2 ^ 32"
  shows "from_le (slice (ad_encode long a) 0 4) AND 0x3FFFFFFF = al_len a"
    and "drop_bit 30 (from_le (slice (ad_encode long a) 0 4)) = al_type a"
    and "from_le (slice (ad_encode long a) 4 8) = al_block a"
proof -
  define raw where "raw = al_type a * 2 ^ 30 + al_len a"
  have "from_le (to_le 4 raw) = raw" "from_le (to_le 4 (al_block a)) = al_block a"
    using assms by (simp_all add: raw_def from_le_to_le)
  then have f: "from_le (slice (ad_encode long a) 0 4) = raw" "from_le (slice (ad_encode long a) 4 8) = al_block a"
    unfolding ad_encode_def raw_def [symmetric] by (simp_all add: slice_def)
  have "raw AND 0x3FFFFFFF = al_len a" using nat_and_mask [of raw 30] assms(2) by (simp add: raw_def)
  moreover have "drop_bit 30 raw = al_type a" using assms(2) by (simp add: drop_bit_eq_div raw_def)
  ultimately show "from_le (slice (ad_encode long a) 0 4) AND 0x3FFFFFFF = al_len a"
    "drop_bit 30 (from_le (slice (ad_encode long a) 0 4)) = al_type a"
    "from_le (slice (ad_encode long a) 4 8) = al_block a"
    by (simp_all only: f)
qed

lemma extents_from_step:
  assumes "al_type a < 3" and "al_len a < 2 ^ 30" and "al_block a < 2 ^ 32"
  shows "extents_from ps (ad_encode long a # cs) =
    (if al_len a = 0 then extents_from ps cs
     else
       and_then (uadd 32 ps (al_block a)) (\<lambda>lba.
       and_then (extents_from ps cs) (\<lambda>rest.
         Ok (\<lparr>ux_lba = (if al_type a = 0 then Some lba else None), ux_len = al_len a\<rparr> # rest))))"
  using assms ad_fields [of a long] by (simp add: Let_def)

lemma extents_from_encode:
  assumes "\<forall>a \<in> set as. al_type a < 3 \<and> al_len a < 2 ^ 30 \<and> al_block a < 2 ^ 32 \<and> ps + al_block a < 2 ^ 32"
  shows "extents_from ps (map (ad_encode long) as) = Ok (alloc_extents ps as)"
  using assms
  by (induction as) (auto simp: alloc_extents_def extents_from_step uadd_def simp del: extents_from.simps(2))

lemma extents_from_overflow:
  assumes "\<forall>a \<in> set as. al_type a < 3 \<and> al_len a < 2 ^ 30 \<and> al_block a < 2 ^ 32 \<and> ps + al_block a < 2 ^ 32"
    and "al_type a < 3" "al_len a < 2 ^ 30" "al_len a \<noteq> 0" "al_block a < 2 ^ 32" and "2 ^ 32 \<le> ps + al_block a"
  shows "extents_from ps (map (ad_encode long) as @ ad_encode long a # cs) = Panic AddOverflow"
  using assms by (induction as) (auto simp: extents_from_step uadd_def simp del: extents_from.simps(2))

lemma fe_fields:
  assumes b: "b = to_le 2 tag @ replicate 25 0 @ [ty] @ replicate 6 0 @ to_le 2 ad @ replicate 20 0 @ to_le 8 sz @
      replicate z 0 @ to_le 4 n @ to_le 4 m @ rest"
    and w: "tag < 2 ^ 16" "ad < 2 ^ 16" "sz < 2 ^ 64" "n < 2 ^ 32" "m < 2 ^ 32"
  shows "udf_le_u16 b 0 = Ok tag" "get_at b 27 = Some ty" "udf_le_u16 b 34 = Ok ad" "udf_le_u64 b 56 = Ok sz"
    "udf_le_u32 b (64 + z) = Ok n" "udf_le_u32 b (68 + z) = Ok m" "drop (72 + z) b = rest" "72 + z \<le> length b"
proof -
  have len: "length b = 72 + z + length rest" by (simp add: b)
  have "slice b 0 (0 + 2) = to_le 2 tag" "slice b 34 (34 + 2) = to_le 2 ad" "slice b 56 (56 + 8) = to_le 8 sz"
    by (simp_all add: b slice_def)
  moreover have "slice b (64 + z) (64 + z + 4) = to_le 4 n" "slice b (68 + z) (68 + z + 4) = to_le 4 m"
  proof -
    define hdr where "hdr = to_le 2 tag @ replicate 25 0 @ [ty] @ replicate 6 0 @ to_le 2 ad @ replicate 20 0 @ to_le 8 sz @
      replicate z 0"
    have h: "length hdr = 64 + z" "length (hdr @ to_le 4 n) = 68 + z" by (simp_all add: hdr_def)
    show "slice b (64 + z) (64 + z + 4) = to_le 4 n"
      using slice_middle [OF h(1), of "to_le 4 n" "to_le 4 m @ rest"] by (simp add: b hdr_def)
    show "slice b (68 + z) (68 + z + 4) = to_le 4 m"
      using slice_middle [OF h(2), of "to_le 4 m" rest] by (simp add: b hdr_def)
  qed
  ultimately show "udf_le_u16 b 0 = Ok tag" "udf_le_u16 b 34 = Ok ad" "udf_le_u64 b 56 = Ok sz"
    "udf_le_u32 b (64 + z) = Ok n" "udf_le_u32 b (68 + z) = Ok m"
    using w len by (simp_all add: udf_le_u16_def udf_le_u32_def udf_le_u64_def le_field_at)
  show "get_at b 27 = Some ty" using len by (simp add: get_at_def) (simp add: b nth_append)
  show "72 + z \<le> length b" by (simp add: len)
  show "drop (72 + z) b = rest"
  proof -
    define hdr where "hdr = to_le 2 tag @ replicate 25 0 @ [ty] @ replicate 6 0 @ to_le 2 ad @ replicate 20 0 @ to_le 8 sz @
      replicate z 0 @ to_le 4 n @ to_le 4 m"
    have "b = hdr @ rest" by (simp add: b hdr_def)
    moreover have "length hdr = 72 + z" by (simp add: hdr_def)
    ultimately show ?thesis by simp
  qed
qed

lemma parse_fe_encode:
  assumes ok: "file_entry_ok (ud_partition_start s) f"
  shows "parse_fe s (fe_encode f @ post) =
    Ok \<lparr>un_kind = udf_kind (fe_type f), un_size = fe_size f,
        un_data = Extents (alloc_extents (ud_partition_start s) (fe_allocs f))\<rparr>"
proof -
  define ads where "ads = concat (map (ad_encode (fe_long f)) (fe_allocs f))"
  define tag where "tag = (if fe_ext f then TAG_EXTENDED_FILE_ENTRY else TAG_FILE_ENTRY)"
  define z where "z = (if fe_ext f then 144 else 104 :: nat)"
  define ad where "ad = (if fe_long f then 1 else 0 :: nat)"
  let ?b = "fe_encode f @ post" and ?n = "length (fe_attrs f)" and ?stride = "if fe_long f then 16 else 8 :: nat"
  have "length ads = length (fe_allocs f) * ?stride"
    by (simp add: ads_def length_concat length_ad_encode sum_list_triv comp_def)
  then have lads: "length ads < 2 ^ 32" using ok by (auto simp: file_entry_ok_def split: if_splits)
  have b: "?b = to_le 2 tag @ replicate 25 0 @ [fe_type f] @ replicate 6 0 @ to_le 2 ad @ replicate 20 0 @
      to_le 8 (fe_size f) @ replicate z 0 @ to_le 4 ?n @ to_le 4 (length ads) @ (fe_attrs f @ ads @ post)"
    by (simp add: fe_encode_def ads_def Let_def tag_def z_def ad_def)
  have tw: "tag < 2 ^ 16" "ad < 2 ^ 16" by (simp_all add: tag_def ad_def TAG_EXTENDED_FILE_ENTRY_def TAG_FILE_ENTRY_def)
  have sz: "fe_size f < 2 ^ 64" and n: "?n < 2 ^ 32" using ok by (simp_all add: file_entry_ok_def)
  note fl = fe_fields [OF b tw sz n lads]
  have lay: "fe_layout tag = Ok (64 + z, 68 + z, 72 + z)"
    by (simp add: fe_layout_def tag_def z_def TAG_EXTENDED_FILE_ENTRY_def TAG_FILE_ENTRY_def)
  have sum: "checked_add 64 (72 + z) ?n = Some (72 + z + ?n)"
    using n by (simp add: checked_add_eq_Some z_def)
  have "get_range ?b (72 + z + ?n) (72 + z + ?n + length ads) = Some ads"
  proof -
    have "drop (72 + z + ?n) ?b = drop ?n (drop (72 + z) ?b)" by (simp only: drop_drop add.commute)
    then have "drop (72 + z + ?n) ?b = ads @ post" unfolding fl(7) by simp
    moreover have "length ?b = 72 + z + length (fe_attrs f @ ads @ post)" unfolding b by simp
    ultimately show ?thesis by (simp add: get_range_def slice_def)
  qed
  moreover have "chunks_exact ?stride ads = map (ad_encode (fe_long f)) (fe_allocs f)"
    unfolding ads_def by (rule chunks_exact_concat) (auto simp: length_ad_encode)
  ultimately have "parse_extents s ?b (72 + z + ?n) (length ads) ?stride =
      Ok (Extents (alloc_extents (ud_partition_start s) (fe_allocs f)))"
    using extents_from_encode [of "fe_allocs f"] ok by (simp add: parse_extents_def file_entry_ok_def)
  moreover have "ad AND 7 = ad" by (simp add: ad_def)
  ultimately have data: "fe_data s ?b (ad AND 7) (fe_size f) (72 + z + ?n) (length ads) =
      Ok (Extents (alloc_extents (ud_partition_start s) (fe_allocs f)))"
    by (simp add: fe_data_def ad_def split: if_splits)
  show ?thesis
    unfolding parse_fe_def fl(1-6) and_then.simps lay case_prod_conv ok_or_simps sum data ..
qed


section \<open>Directories and files\<close>

lemma udf_listing_files:
  assumes ok: "udf_ok s" and dir: "udf_inode_of s d = Ok dir" "un_kind dir = Directory"
    and data: "read_all s dir = Ok (concat (map fid_encode fs) @ tail)"
    and fids: "\<forall>f \<in> set fs. fid_ok (ud_partition_start s) f" "fids_end tail"
    and children: "\<forall>f \<in> set fs. fid_live f \<longrightarrow> read_fe s (ud_partition_start s + fd_icb f) = Ok (child f)"
  shows "\<exists>out s'. udf_read_dir d s = (Ok out, s') \<and> udf_ok s' \<and>
    map (\<lambda>e. (de_name e, de_kind e)) out = map (\<lambda>f. (fd_name f, un_kind (child f))) (filter fid_live fs) \<and>
    (\<forall>i < length out. udf_inode_of s' (de_node (out ! i)) = Ok (child (filter fid_live fs ! i)))"
proof -
  let ?ps = "ud_partition_start s" and ?live = "filter fid_live fs"
  have b: "udf_base s" "table_ok (udf_good s) (ud_nodes s) (ud_by_lba s)" using ok by (simp_all add: udf_ok_def)
  have "udf_listing s dir = Ok (map (\<lambda>f. (fd_name f, ?ps + fd_icb f)) ?live)"
    using fid_loop_encode [OF fids, of "[]"] data dir(2) by (simp add: udf_listing_def parse_fids_def)
  moreover have "fetch_children (read_fe s) (map (\<lambda>f. (fd_name f, ?ps + fd_icb f)) ?live) = Ok (map (\<lambda>f. (fd_name f, child f)) ?live)"
    using children by (intro fetch_children_map) simp
  ultimately have c: "and_then (ok_or (get_at (ud_nodes s) d) NotFound) (children_of read_fe udf_listing s) =
      Ok (map (\<lambda>f. (fd_name f, child f)) ?live)"
    using dir(1) by (simp add: children_of_def udf_inode_of_def)
  obtain r s' where r: "udf_read_dir d s = (r, s')" by fastforce
  from udf_tree.read_dir_cases(6) [OF b r] c obtain out where out: "r = Ok out" "length out = length ?live"
    "\<forall>i < length ?live. de_name (out ! i) = fd_name (?live ! i) \<and> de_kind (out ! i) = un_kind (child (?live ! i)) \<and>
       de_node (out ! i) < length (ud_nodes s') \<and> ud_nodes s' ! de_node (out ! i) = child (?live ! i)"
    by auto
  have "map (\<lambda>e. (de_name e, de_kind e)) out = map (\<lambda>f. (fd_name f, un_kind (child f))) ?live"
    using out(2,3) by (intro nth_equalityI) simp_all
  moreover have "\<forall>i < length out. udf_inode_of s' (de_node (out ! i)) = Ok (child (?live ! i))"
    using out(2,3) by (simp add: udf_inode_of_def get_at_def)
  ultimately show ?thesis using r out(1) udf_read_dir_keeps(1) [OF ok r] by blast
qed

lemma udf_recorded_content:
  assumes ok: "udf_ok s" and n: "bm_get (ud_by_lba s) lba = Some n"
    and block: "udf_read_block s lba = Ok (fe_encode f @ post)" "file_entry_ok (ud_partition_start s) f"
    and ty: "fe_type f \<noteq> UDF_FT_DIRECTORY"
    and data: "udf_extents_data s (alloc_extents (ud_partition_start s) (fe_allocs f)) = Ok d"
    and sz: "fe_size f \<le> length d" and len: "length d < 2 ^ 64"
  shows "udf_content s n (take (fe_size f) d)"
proof -
  have t: "table_ok (udf_good s) (ud_nodes s) (ud_by_lba s)" using ok by (simp add: udf_ok_def)
  from table_okD(2) [OF t n] have i: "n < length (ud_nodes s)" "read_fe s lba = Ok (ud_nodes s ! n)"
    by (simp_all add: udf_good_def)
  then have "ud_nodes s ! n = \<lparr>un_kind = udf_kind (fe_type f), un_size = fe_size f,
      un_data = Extents (alloc_extents (ud_partition_start s) (fe_allocs f))\<rparr>"
    using block parse_fe_encode [OF block(2)] by (simp add: read_fe_def)
  moreover have "udf_kind (fe_type f) \<noteq> Directory" using ty by (simp add: udf_kind_def)
  ultimately show ?thesis using i(1) data sz len
    by (simp add: udf_content_def udf_inode_of_def get_at_def)
qed


section \<open>A small volume\<close>

text \<open>
  Blocks of 256 bytes and a partition from block 1 on: the root's File Entry, its data, the
  Extended File Entry of a file of a recorded and a sparse extent, and the recorded one.
\<close>

definition small_fid :: fid where
  "small_fid = \<lparr>fd_fc = 0, fd_icb = 2, fd_iu = [], fd_fi = [8, 0x61], fd_name = [0x61]\<rparr>"

definition small_root_fe :: file_entry where
  "small_root_fe = \<lparr>fe_ext = False, fe_type = UDF_FT_DIRECTORY, fe_size = 40, fe_attrs = [], fe_long = False,
     fe_allocs = [\<lparr>al_type = 0, al_len = 40, al_block = 1\<rparr>]\<rparr>"

definition small_file_fe :: file_entry where
  "small_file_fe = \<lparr>fe_ext = True, fe_type = UDF_FT_REGULAR, fe_size = 5, fe_attrs = [9], fe_long = True,
     fe_allocs = [\<lparr>al_type = 0, al_len = 3, al_block = 3\<rparr>, \<lparr>al_type = 1, al_len = 4, al_block = 0\<rparr>]\<rparr>"

definition block_of :: "bytes \<Rightarrow> bytes" where
  "block_of b = b @ replicate (256 - length b) 0"

definition small_udf_image :: bytes where
  "small_udf_image = block_of [] @ block_of (fe_encode small_root_fe) @ block_of (fid_encode small_fid) @
     block_of (fe_encode small_file_fe) @ [1, 2, 3]"

definition small_udf_root :: udf_inode where
  "small_udf_root = \<lparr>un_kind = Directory, un_size = 40, un_data = Extents [\<lparr>ux_lba = Some 2, ux_len = 40\<rparr>]\<rparr>"

definition small_udf_file :: udf_inode where
  "small_udf_file = \<lparr>un_kind = Regular, un_size = 5,
     un_data = Extents [\<lparr>ux_lba = Some 4, ux_len = 3\<rparr>, \<lparr>ux_lba = None, ux_len = 4\<rparr>]\<rparr>"

definition small_udf :: udf where
  "small_udf = \<lparr>ud_src = slice_source small_udf_image, ud_block_size = 256, ud_partition_start = 1,
     ud_nodes = [small_udf_root, small_udf_file], ud_by_lba = [(1, 0), (3, 1)]\<rparr>"

lemma length_fe_encode:
  "length (fe_encode f) = (if fe_ext f then 216 else 176) + length (fe_attrs f) +
     length (fe_allocs f) * (if fe_long f then 16 else 8)"
  by (simp add: fe_encode_def Let_def length_concat length_ad_encode sum_list_triv comp_def)

lemma block_of_length: "length b \<le> 256 \<Longrightarrow> length (block_of b) = 256"
  by (simp add: block_of_def)

lemma small_udf_lengths:
  "length (block_of []) = 256" "length (block_of (fe_encode small_root_fe)) = 256"
  "length (block_of (fid_encode small_fid)) = 256" "length (block_of (fe_encode small_file_fe)) = 256"
  by (simp_all add: block_of_length length_fe_encode small_root_fe_def small_file_fe_def small_fid_def fid_length_def)

lemma small_udf_image_length: "length small_udf_image = 1027"
  by (simp add: small_udf_image_def small_udf_lengths)

lemma small_udf_base: "udf_base small_udf"
  by (simp add: udf_base_def small_udf_def sound_slice_source small_udf_image_length)

lemma small_udf_simps:
  "ud_src small_udf = slice_source small_udf_image" "ud_block_size small_udf = 256" "ud_partition_start small_udf = 1"
  "ud_nodes small_udf = [small_udf_root, small_udf_file]" "ud_by_lba small_udf = [(1, 0), (3, 1)]"
  by (simp_all add: small_udf_def)

lemma small_udf_blocks:
  "slice small_udf_image 256 512 = block_of (fe_encode small_root_fe)"
  "slice small_udf_image 512 768 = block_of (fid_encode small_fid)"
  "slice small_udf_image 768 1024 = block_of (fe_encode small_file_fe)"
  "slice small_udf_image 1024 1027 = [1, 2, 3]"
  by (simp_all add: small_udf_image_def slice_def small_udf_lengths)

lemma small_udf_reads:
  "udf_read_block small_udf 1 = Ok (block_of (fe_encode small_root_fe))"
  "udf_read_block small_udf 3 = Ok (block_of (fe_encode small_file_fe))"
  by (simp_all add: udf_read_block_def small_udf_simps umul_def uadd_def slice_read_at_eq_Ok small_udf_image_length small_udf_blocks)

lemma small_udf_entries:
  "file_entry_ok (ud_partition_start small_udf) small_root_fe" "file_entry_ok (ud_partition_start small_udf) small_file_fe"
  by (simp_all add: file_entry_ok_def small_root_fe_def small_file_fe_def small_udf_def)

lemma small_udf_inodes: "read_fe small_udf 1 = Ok small_udf_root" "read_fe small_udf 3 = Ok small_udf_file"
proof -
  have "parse_fe small_udf (block_of (fe_encode small_root_fe)) = Ok small_udf_root"
    using parse_fe_encode [OF small_udf_entries(1), of "replicate (256 - length (fe_encode small_root_fe)) 0"]
    by (simp add: block_of_def small_udf_root_def udf_kind_def alloc_extents_def small_udf_simps)
      (simp add: small_root_fe_def)
  then show "read_fe small_udf 1 = Ok small_udf_root"
    using small_udf_reads(1) by (simp add: read_fe_def)
  have "parse_fe small_udf (block_of (fe_encode small_file_fe)) = Ok small_udf_file"
    using parse_fe_encode [OF small_udf_entries(2), of "replicate (256 - length (fe_encode small_file_fe)) 0"]
    by (simp add: block_of_def small_udf_file_def udf_kind_def alloc_extents_def small_udf_simps)
      (simp add: small_file_fe_def UDF_FT_REGULAR_def UDF_FT_DIRECTORY_def UDF_FT_SYMLINK_def)
  then show "read_fe small_udf 3 = Ok small_udf_file"
    using small_udf_reads(2) by (simp add: read_fe_def)
qed

lemma small_udf_ok: "udf_ok small_udf"
proof -
  have "table_ok (udf_good small_udf) [small_udf_root] [(1, 0)]"
    using table_ok_add [of "udf_good small_udf" "[]" "[]" 1 small_udf_root] small_udf_inodes(1) by (simp add: udf_good_def)
  from table_ok_add [OF this, of 3 small_udf_file] small_udf_inodes(2)
  have "table_ok (udf_good small_udf) (ud_nodes small_udf) (ud_by_lba small_udf)"
    by (simp add: udf_good_def bm_get_def small_udf_def)
  then show ?thesis using small_udf_base by (simp add: udf_ok_def) (simp add: small_udf_def)
qed

lemma small_udf_dir: "read_all small_udf small_udf_root = Ok (concat (map fid_encode [small_fid]) @ [])"
proof -
  have "length (fid_encode small_fid) = 40" by (simp add: small_fid_def fid_length_def)
  moreover have "slice small_udf_image 512 552 = take 40 (slice small_udf_image 512 768)" by (simp add: slice_def)
  ultimately have "slice small_udf_image 512 552 = fid_encode small_fid" by (simp add: small_udf_blocks block_of_def)
  then show ?thesis
    using \<open>length (fid_encode small_fid) = 40\<close>
    by (simp add: read_all_def small_udf_root_def checked_full_read_len_def checked_len_def usize_max_def
        MAX_BOOT_FILE_BYTES_def small_udf_def umul_def slice_read_at_def checked_add_def small_udf_image_length)
qed

lemma small_fid_ok: "fid_ok 1 small_fid" "fid_live small_fid"
  by (simp_all add: fid_ok_def small_fid_def fid_live_def decode_udf_name_def string_of_chars_def utf8_encode_def)
    (simp_all add: byte_of_def)


section \<open>Properties\<close>

text \<open>
  C20. A directory whose data is a run of File Identifier Descriptors, with any implementation use
  areas and paddings, is listed as exactly the ones that are neither deleted nor the parent's, in
  order, each with its decoded name, the kind of the File Entry at its block and a handle on it.
\<close>

theorem udf_directory_roundtrip:
  assumes "udf_ok s" and "udf_inode_of s d = Ok dir" and "un_kind dir = Directory"
    and "read_all s dir = Ok (concat (map fid_encode fs) @ tail)"
    and "\<forall>f \<in> set fs. fid_ok (ud_partition_start s) f" and "fids_end tail"
    and "\<forall>f \<in> set fs. fid_live f \<longrightarrow> read_fe s (ud_partition_start s + fd_icb f) = Ok (child f)"
  shows "\<exists>out s'. udf_read_dir d s = (Ok out, s') \<and> udf_ok s' \<and>
    map (\<lambda>e. (de_name e, de_kind e)) out = map (\<lambda>f. (fd_name f, un_kind (child f))) (filter fid_live fs) \<and>
    (\<forall>i < length out. udf_inode_of s' (de_node (out ! i)) = Ok (child (filter fid_live fs ! i)))"
  using assms by (rule udf_listing_files)

theorem udf_directory_roundtrip_witness:
  "\<exists>out s'. udf_read_dir 0 small_udf = (Ok out, s') \<and> map (\<lambda>e. (de_name e, de_kind e)) out = [([0x61], Regular)]"
proof -
  have r: "udf_inode_of small_udf 0 = Ok small_udf_root" "un_kind small_udf_root = Directory"
    by (simp_all add: udf_inode_of_def get_at_def small_udf_simps small_udf_root_def)
  have "1 + fd_icb small_fid = 3" by (simp add: small_fid_def)
  then have c: "\<forall>f \<in> set [small_fid]. fid_live f \<longrightarrow> read_fe small_udf (ud_partition_start small_udf + fd_icb f) = Ok small_udf_file"
    using small_udf_inodes(2) unfolding small_udf_simps by (simp del: One_nat_def add_2_eq_Suc add_2_eq_Suc')
  have "\<forall>f \<in> set [small_fid]. fid_ok (ud_partition_start small_udf) f" "fids_end []"
    using small_fid_ok(1) by (simp_all add: small_udf_simps fids_end_def)
  from udf_directory_roundtrip [OF small_udf_ok r small_udf_dir this c] small_fid_ok(2) show ?thesis
    by (auto simp: small_udf_file_def small_fid_def)
qed

text \<open>
  C21. A file recorded by a File Entry of either kind, with extended attributes and short or long
  allocation descriptors, recorded, sparse or empty, is read exactly: a read through the handle of
  its block gives the bytes of its extents from the offset on, up to its information length.
\<close>

theorem udf_file_roundtrip:
  assumes "udf_ok s" and "bm_get (ud_by_lba s) lba = Some n"
    and "udf_read_block s lba = Ok (fe_encode f @ post)" and "file_entry_ok (ud_partition_start s) f"
    and "fe_type f \<noteq> UDF_FT_DIRECTORY"
    and "udf_extents_data s (alloc_extents (ud_partition_start s) (fe_allocs f)) = Ok d"
    and "fe_size f \<le> length d" and "length d < 2 ^ 64" and "off < fe_size f"
  shows "udf_read_at s n off buf =
    Ok (min (length buf) (fe_size f - off), overwrite buf 0 (slice d off (off + min (length buf) (fe_size f - off))))"
proof -
  let ?c = "take (fe_size f) d"
  have "length ?c = fe_size f" using assms(7) by simp
  moreover have "slice ?c off (off + min (length buf) (fe_size f - off)) = slice d off (off + min (length buf) (fe_size f - off))"
    using assms(9) by (simp add: slice_def drop_take min_def)
  ultimately show ?thesis
    using udf_read_at_content [OF assms(1) udf_recorded_content [OF assms(1-8)], of off buf] assms(9) by simp
qed

theorem udf_file_roundtrip_witness: "udf_read_at small_udf 1 1 [7, 7, 7, 7, 7, 7] = Ok (4, [2, 3, 0, 0, 7, 7])"
proof -
  have n: "bm_get (ud_by_lba small_udf) 3 = Some 1" by (simp add: small_udf_def bm_get_def)
  have blk: "udf_read_block small_udf 3 = Ok (fe_encode small_file_fe @ replicate (256 - length (fe_encode small_file_fe)) 0)"
    by (simp add: small_udf_reads block_of_def)
  have ty: "fe_type small_file_fe \<noteq> UDF_FT_DIRECTORY"
    by (simp add: small_file_fe_def UDF_FT_REGULAR_def UDF_FT_DIRECTORY_def)
  have "alloc_extents (ud_partition_start small_udf) (fe_allocs small_file_fe) =
      [\<lparr>ux_lba = Some 4, ux_len = 3\<rparr>, \<lparr>ux_lba = None, ux_len = 4\<rparr>]"
    by (simp add: alloc_extents_def small_file_fe_def small_udf_simps)
  moreover have "src_read (ud_src small_udf) 1024 3 = Ok [1, 2, 3]"
    by (simp add: small_udf_simps slice_read_at_eq_Ok small_udf_image_length small_udf_blocks)
  moreover have "replicate 4 (0 :: byte) = [0, 0, 0, 0]" by (simp add: numeral_eq_Suc)
  ultimately have d: "udf_extents_data small_udf (alloc_extents (ud_partition_start small_udf) (fe_allocs small_file_fe)) =
      Ok [1, 2, 3, 0, 0, 0, 0]"
    by (simp add: small_udf_simps)
  have sz: "fe_size small_file_fe = 5" by (simp add: small_file_fe_def)
  let ?buf = "[7, 7, 7, 7, 7, 7] :: bytes"
  have "udf_read_at small_udf 1 1 ?buf = Ok (min (length ?buf) (fe_size small_file_fe - 1),
      overwrite ?buf 0 (slice [1, 2, 3, 0, 0, 0, 0] 1 (1 + min (length ?buf) (fe_size small_file_fe - 1))))"
    by (rule udf_file_roundtrip [OF small_udf_ok n blk small_udf_entries(2) ty d]) (simp_all add: sz)
  also have "\<dots> = Ok (4, [2, 3, 0, 0, 7, 7])" by (simp add: sz overwrite_0 slice_def numeral_eq_Suc)
  finally show ?thesis .
qed

text \<open>
  C22. On a hostile volume the only panic is the overflow of an addition or a multiplication that forms
  a block address (the source adds 32-bit values of the medium unchecked): neither mounting nor listing
  nor looking up ever indexes out of range or subtracts below zero, and reads and metadata of a mounted
  volume do not panic at all.
\<close>

theorem udf_only_overflow:
  assumes "sound_source src"
  shows "only_overflow (udf_open src) \<and>
    (\<forall>s. udf_open src = Ok s \<longrightarrow>
       udf_ok s \<and> only_overflow (fst (udf_read_dir d s)) \<and> only_overflow (fst (udf_lookup d nm s)) \<and>
       no_panic (udf_read_at s n off buf) \<and> no_panic (udf_metadata s n))"
proof (intro conjI allI impI)
  show "only_overflow (udf_open src)" using udf_open_ok(1) [OF assms] .
  fix s assume "udf_open src = Ok s"
  then show ok: "udf_ok s" using udf_open_ok(2) [OF assms] by blast
  show "only_overflow (fst (udf_read_dir d s))" using udf_read_dir_only_overflow [OF ok] .
  show "only_overflow (fst (udf_lookup d nm s))" using udf_lookup_only_overflow [OF ok] .
  show "no_panic (udf_read_at s n off buf)" using udf_read_at_ok(1) [OF ok] .
  show "no_panic (udf_metadata s n)" by (simp add: udf_metadata_def udf_inode_of_def no_panic_simps)
qed

theorem udf_only_overflow_witness: "only_overflow (udf_open (slice_source small_udf_image))"
proof -
  have "sound_source (slice_source small_udf_image)" by (simp add: sound_slice_source small_udf_image_length)
  from udf_only_overflow [OF this] show ?thesis by blast
qed

text \<open>
  C39. The overflow exists: a File Entry with an allocation descriptor of non-zero length whose block
  and the partition's start add up to more than 32 bits, the descriptors before it being in order,
  makes the reader panic in a build with overflow checks, even when the extent is a sparse one and
  the address is not used.
\<close>

theorem udf_address_overflow_panics:
  assumes "\<forall>a \<in> set as. al_type a < 3 \<and> al_len a < 2 ^ 30 \<and> al_block a < 2 ^ 32 \<and> ps + al_block a < 2 ^ 32"
    and "al_type a < 3" "al_len a < 2 ^ 30" "al_len a \<noteq> 0" "al_block a < 2 ^ 32" and "2 ^ 32 \<le> ps + al_block a"
  shows "extents_from ps (map (ad_encode long) (as @ a # rest)) = Panic AddOverflow"
  using extents_from_overflow [OF assms] by simp

theorem udf_address_overflow_panics_witness:
  "extents_from 257 (map (ad_encode False) ([] @ \<lparr>al_type = 1, al_len = 2048, al_block = 0xFFFFFFFF\<rparr> # [])) = Panic AddOverflow"
  by (rule udf_address_overflow_panics) simp_all

end
