(* ===== verification/Squash.thy ===== *)
theory Squash
  imports Intern_Table Codec Fold_Path
begin

text \<open>
  The SquashFS reader (\<^verbatim>\<open>crates/lamfold-squash/src/squash.rs\<close>): metadata blocks and the spans read
  across them, inodes, directory listings, fragments and data blocks, and the frontend, whose
  handles are interned by inode reference. The decompressors are a parameter. Sums of on-disk
  values that the source does not check are checked sums whose overflow is a panic.
\<close>

definition SQUASH_MAGIC :: nat where "SQUASH_MAGIC = 0x73717368"
definition META_MAX :: nat where "META_MAX = 8192"
definition NO_FRAGMENT :: nat where "NO_FRAGMENT = 0xFFFFFFFF"
definition SIZE_UNCOMPRESSED :: nat where "SIZE_UNCOMPRESSED = 2 ^ 24"
definition SIZE_MASK :: nat where "SIZE_MASK = 0x00FFFFFF"

datatype squash_body =
    SqDir (sd_block: nat) (sd_offset: nat) (sd_size: nat)
  | SqFile (sf_sizes: "nat list") (sf_offsets: "nat list") (sf_frag_idx: nat) (sf_frag_off: nat)
  | SqSymlink bytes
  | SqOther

record squash_inode =
  sq_kind :: file_kind
  sq_size :: nat
  sq_body :: squash_body

record squash =
  sq_src :: block_source
  sq_codec :: codec
  sq_block_size :: nat
  sq_inode_table :: nat
  sq_directory_table :: nat
  sq_fragment_table :: nat
  sq_nodes :: "squash_inode list"
  sq_by_ref :: "(nat, node_id) btree"

definition sq_le_u16 :: "bytes \<Rightarrow> nat \<Rightarrow> nat result" where
  "sq_le_u16 = le_field ''squashfs: truncated u16'' 2"

definition sq_le_u32 :: "bytes \<Rightarrow> nat \<Rightarrow> nat result" where
  "sq_le_u32 = le_field ''squashfs: truncated u32'' 4"

definition sq_le_u64 :: "bytes \<Rightarrow> nat \<Rightarrow> nat result" where
  "sq_le_u64 = le_field ''squashfs: truncated u64'' 8"


section \<open>Metadata\<close>

definition read_meta_block :: "'r codec_lib \<Rightarrow> squash \<Rightarrow> nat \<Rightarrow> (bytes \<times> nat) result" where
  "read_meta_block lib s at =
     and_then (src_read (sq_src s) at 2) (\<lambda>hdr.
     let h = from_le hdr; len = h AND 0x7FFF in
     and_then (uadd 64 at 2) (\<lambda>body.
     and_then (src_read (sq_src s) body len) (\<lambda>raw.
     and_then (if h AND 0x8000 \<noteq> 0 then Ok raw else decode lib (sq_codec s) raw META_MAX) (\<lambda>data.
     and_then (uadd 64 body len) (\<lambda>nxt. Ok (data, nxt))))))"

text \<open>
  The loop of \<^verbatim>\<open>read_meta_span\<close>: \<open>block\<close> is the current block, \<open>pos\<close> the place in it and \<open>nxt\<close> the
  offset of the block behind it. Every turn reads a byte at least, so it ends.
\<close>

function meta_span_loop ::
  "'r codec_lib \<Rightarrow> squash \<Rightarrow> nat \<Rightarrow> bytes \<Rightarrow> nat \<Rightarrow> nat \<Rightarrow> bytes \<Rightarrow> bytes result"
where
  "meta_span_loop lib s len block nxt pos out =
     (if length out < len then
        and_then (if pos \<ge> length block
                  then and_then (read_meta_block lib s nxt) (\<lambda>(b, n). Ok (b, n, 0))
                  else Ok (block, nxt, pos)) (\<lambda>(block, nxt, pos).
        if pos \<ge> length block then Ok out
        else
          let tk = min (len - length out) (length block - pos) in
          meta_span_loop lib s len block nxt (pos + tk) (out @ slice block pos (pos + tk)))
      else Ok out)"
  by pat_completeness auto
termination
  by (relation "measure (\<lambda>(lib, s, len, block, nxt, pos, out). len - length out)")
    (auto simp: and_then_eq_Ok split: if_splits)

declare meta_span_loop.simps [simp del]

definition read_meta_span :: "'r codec_lib \<Rightarrow> squash \<Rightarrow> nat \<Rightarrow> nat \<Rightarrow> nat \<Rightarrow> bytes result" where
  "read_meta_span lib s abs_block offset len =
     and_then (checked_full_read_len len) (\<lambda>_.
     and_then (read_meta_block lib s abs_block) (\<lambda>(block, nxt). meta_span_loop lib s len block nxt offset []))"


section \<open>Inodes\<close>

text \<open>Where each data block starts: they follow \<open>at\<close> back to back.\<close>

fun block_offsets :: "nat \<Rightarrow> nat list \<Rightarrow> nat list result" where
  "block_offsets at [] = Ok []"
| "block_offsets at (b # bs) =
     and_then (uadd 64 at (b AND SIZE_MASK)) (\<lambda>nxt.
     and_then (block_offsets nxt bs) (\<lambda>rest. Ok (at # rest)))"

definition block_count :: "squash \<Rightarrow> nat \<Rightarrow> nat \<Rightarrow> nat result" where
  "block_count s sz frag_idx =
     (if frag_idx \<noteq> NO_FRAGMENT then udiv sz (sq_block_size s) else udiv_ceil sz (sq_block_size s))"

text \<open>
  The end of both file branches: the block sizes behind a header of \<open>head\<close> bytes.
\<close>

definition file_inode ::
  "'r codec_lib \<Rightarrow> squash \<Rightarrow> nat \<Rightarrow> nat \<Rightarrow> nat \<Rightarrow> nat \<Rightarrow> nat \<Rightarrow> nat \<Rightarrow> nat \<Rightarrow> squash_inode result"
where
  "file_inode lib s abs_at off head blocks_start sz frag_idx frag_off =
     and_then (block_count s sz frag_idx) (\<lambda>n.
      and_then (umul 64 n 4) (\<lambda>table.
      and_then (uadd 64 head table) (\<lambda>len.
      and_then (read_meta_span lib s abs_at off len) (\<lambda>full.
      and_then (map_result (\<lambda>i. sq_le_u32 full (head + i * 4)) [0..<n]) (\<lambda>sizes.
      and_then (block_offsets blocks_start sizes) (\<lambda>offsets.
        Ok \<lparr>sq_kind = Regular, sq_size = sz, sq_body = SqFile sizes offsets frag_idx frag_off\<rparr>))))))"

definition squash_parse_inode :: "'r codec_lib \<Rightarrow> squash \<Rightarrow> nat \<Rightarrow> squash_inode result" where
  "squash_parse_inode lib s inode_ref =
     and_then (uadd 64 (sq_inode_table s) (drop_bit 16 inode_ref)) (\<lambda>abs_at.
     let off = inode_ref AND 0xFFFF in
     and_then (read_meta_span lib s abs_at off 16) (\<lambda>head.
     and_then (sq_le_u16 head 0) (\<lambda>itype.
     if itype = 1 then
       and_then (read_meta_span lib s abs_at off 32) (\<lambda>b.
       and_then (sq_le_u16 b 24) (\<lambda>sz.
       and_then (sq_le_u32 b 16) (\<lambda>blk.
       and_then (uadd 64 (sq_directory_table s) blk) (\<lambda>abs_block.
       and_then (sq_le_u16 b 26) (\<lambda>offset.
         Ok \<lparr>sq_kind = Directory, sq_size = sz, sq_body = SqDir abs_block offset sz\<rparr>)))))
     else if itype = 8 then
       and_then (read_meta_span lib s abs_at off 40) (\<lambda>b.
       and_then (sq_le_u32 b 20) (\<lambda>sz.
       and_then (sq_le_u32 b 24) (\<lambda>blk.
       and_then (uadd 64 (sq_directory_table s) blk) (\<lambda>abs_block.
       and_then (sq_le_u16 b 34) (\<lambda>offset.
         Ok \<lparr>sq_kind = Directory, sq_size = sz, sq_body = SqDir abs_block offset sz\<rparr>)))))
     else if itype = 2 then
       and_then (read_meta_span lib s abs_at off 32) (\<lambda>h.
       and_then (sq_le_u32 h 16) (\<lambda>blocks_start.
       and_then (sq_le_u32 h 20) (\<lambda>frag_idx.
       and_then (sq_le_u32 h 24) (\<lambda>frag_off.
       and_then (sq_le_u32 h 28) (\<lambda>sz.
         file_inode lib s abs_at off 32 blocks_start sz frag_idx frag_off)))))
     else if itype = 9 then
       and_then (read_meta_span lib s abs_at off 56) (\<lambda>h.
       and_then (sq_le_u64 h 16) (\<lambda>blocks_start.
       and_then (sq_le_u64 h 24) (\<lambda>sz.
       and_then (sq_le_u32 h 44) (\<lambda>frag_idx.
       and_then (sq_le_u32 h 48) (\<lambda>frag_off.
         file_inode lib s abs_at off 56 blocks_start sz frag_idx frag_off)))))
     else if itype = 3 \<or> itype = 10 then
       and_then (read_meta_span lib s abs_at off 24) (\<lambda>h.
       and_then (sq_le_u32 h 20) (\<lambda>len.
       and_then (checked_full_read_len len) (\<lambda>target_size.
       and_then (read_meta_span lib s abs_at off (24 + target_size)) (\<lambda>full.
       and_then (ok_or (get_range full 24 (24 + target_size)) (Corrupt ''squashfs: symlink target OOB'')) (\<lambda>target.
         Ok \<lparr>sq_kind = Symlink, sq_size = target_size, sq_body = SqSymlink target\<rparr>)))))
     else Ok \<lparr>sq_kind = Other, sq_size = 0, sq_body = SqOther\<rparr>)))"

definition squash_intern :: "nat \<Rightarrow> squash_inode \<Rightarrow> squash \<Rightarrow> node_id \<times> squash" where
  "squash_intern inode_ref inode s =
     (case bm_get (sq_by_ref s) inode_ref of
        Some n \<Rightarrow> (n, s)
      | None \<Rightarrow>
          let n = length (sq_nodes s) in
          (n, s\<lparr>sq_nodes := sq_nodes s @ [inode], sq_by_ref := bm_insert inode_ref n (sq_by_ref s)\<rparr>))"

definition squash_inode_of :: "squash \<Rightarrow> node_id \<Rightarrow> squash_inode result" where
  "squash_inode_of s node = ok_or (get_at (sq_nodes s) node) NotFound"


section \<open>Directory listings\<close>

text \<open>
  The entries behind one header, \<open>n\<close> at most; they end early where the listing has no room for
  another. The result is the entries and the place behind them.
\<close>

fun dir_run :: "bytes \<Rightarrow> nat \<Rightarrow> nat \<Rightarrow> nat \<Rightarrow> ((bytes \<times> nat) list \<times> nat) result" where
  "dir_run listing start 0 p = Ok ([], p)"
| "dir_run listing start (Suc n) p =
     (if p + 8 > length listing then Ok ([], p)
      else
        and_then (sq_le_u16 listing p) (\<lambda>eoff.
        and_then (sq_le_u16 listing (p + 6)) (\<lambda>nl.
        let nlen = nl + 1 in
        and_then (ok_or (get_range listing (p + 8) (p + 8 + nlen)) (Corrupt ''squashfs: dir entry name OOB'')) (\<lambda>name.
        and_then (dir_run listing start n (p + 8 + nlen)) (\<lambda>(es, p').
          Ok ((from_utf8_lossy name, push_bit 16 start OR eoff) # es, p'))))))"

lemma dir_run_advances: "dir_run listing start n p = Ok (es, p') \<Longrightarrow> p \<le> p'"
proof (induction listing start n p arbitrary: es rule: dir_run.induct)
  case (2 listing start n p)
  then show ?case by (fastforce simp: and_then_eq_Ok Let_def split: if_splits)
qed simp

function dir_loop :: "bytes \<Rightarrow> nat \<Rightarrow> (bytes \<times> nat) list result" where
  "dir_loop listing p =
     (if p + 12 \<le> length listing then
        and_then (sq_le_u32 listing p) (\<lambda>count.
        and_then (sq_le_u32 listing (p + 4)) (\<lambda>start.
        and_then (dir_run listing start (Suc count) (p + 12)) (\<lambda>x.
        and_then (dir_loop listing (snd x)) (\<lambda>rest. Ok (fst x @ rest)))))
      else Ok [])"
  by pat_completeness auto
termination
proof (relation "measure (\<lambda>(listing, p). length listing - p)", goal_cases)
  case (2 listing p count start x)
  then have "p + 12 \<le> snd x" by (cases x) (auto simp del: dir_run.simps dest: dir_run_advances)
  then show ?case using 2(1) by simp
qed simp

declare dir_loop.simps [simp del]

definition dir_entries :: "'r codec_lib \<Rightarrow> squash \<Rightarrow> nat \<Rightarrow> nat \<Rightarrow> nat \<Rightarrow> (bytes \<times> nat) list result" where
  "dir_entries lib s abs_block offset sz =
     and_then (read_meta_span lib s abs_block offset (sz - 3)) (\<lambda>listing. dir_loop listing 0)"


section \<open>Data\<close>

definition read_data_block :: "'r codec_lib \<Rightarrow> squash \<Rightarrow> nat \<Rightarrow> nat \<Rightarrow> bytes result" where
  "read_data_block lib s at raw_size =
     (let len = raw_size AND SIZE_MASK in
      if len = 0 then Ok []
      else
        and_then (src_read (sq_src s) at len) (\<lambda>raw.
        if raw_size AND SIZE_UNCOMPRESSED \<noteq> 0 then Ok raw
        else decode lib (sq_codec s) raw (sq_block_size s)))"

definition read_fragment :: "'r codec_lib \<Rightarrow> squash \<Rightarrow> nat \<Rightarrow> bytes result" where
  "read_fragment lib s idx =
     and_then (uadd 64 (sq_fragment_table s) (idx div 512 * 8)) (\<lambda>at.
     and_then (src_read (sq_src s) at 8) (\<lambda>ptr.
     and_then (read_meta_span lib s (from_le ptr) (idx mod 512 * 16) 16) (\<lambda>fe.
     and_then (sq_le_u64 fe 0) (\<lambda>start.
     and_then (sq_le_u32 fe 8) (\<lambda>raw_size. read_data_block lib s start raw_size)))))"

text \<open>The bytes \<open>within\<close> to \<open>within + want\<close> of the \<open>idx\<close>-th block of a file.\<close>

definition file_piece ::
  "'r codec_lib \<Rightarrow> squash \<Rightarrow> nat list \<Rightarrow> nat list \<Rightarrow> nat \<Rightarrow> nat \<Rightarrow> nat \<Rightarrow> nat \<Rightarrow> nat \<Rightarrow> bytes result"
where
  "file_piece lib s sizes offsets frag_idx frag_off idx within want =
     (case get_at sizes idx of
        Some raw \<Rightarrow>
          if raw AND SIZE_MASK = 0 then Ok (replicate want 0)
          else
            and_then (index_at offsets idx) (\<lambda>at.
            and_then (read_data_block lib s at raw) (\<lambda>block.
              ok_or (get_range block within (within + want)) (Corrupt ''squashfs: data block shorter than its file'')))
      | None \<Rightarrow>
          if frag_idx \<noteq> NO_FRAGMENT \<and> idx = length sizes then
            and_then (read_fragment lib s frag_idx) (\<lambda>frag.
            let start = frag_off + within in
              ok_or (get_range frag start (start + want)) (Corrupt ''squashfs: fragment tail OOB''))
          else Err (Corrupt ''squashfs: file longer than its blocks''))"

text \<open>
  The loop over the blocks that the window from \<open>off\<close> to \<open>lim\<close> touches, up to the size of the file,
  at \<open>pos\<close>. \<open>piece\<close> gives the bytes of a block. The place for them in the buffer is sliced before
  they are read.
\<close>

function squash_loop ::
  "(nat \<Rightarrow> nat \<Rightarrow> nat \<Rightarrow> bytes result) \<Rightarrow> nat \<Rightarrow> nat \<Rightarrow> nat \<Rightarrow> nat \<Rightarrow> nat \<Rightarrow> bytes \<Rightarrow> bytes result"
where
  "squash_loop piece bs sz off lim pos buf =
     (let stop = min sz lim in
      if pos < stop then
        and_then (udiv pos bs) (\<lambda>idx.
        let within = pos mod bs in
        and_then (usub sz (idx * bs)) (\<lambda>left.
        and_then (usub (min bs left) within) (\<lambda>room.
        let want = min room (stop - pos) in
        and_then (usub pos off) (\<lambda>at.
        and_then (index_range buf at (at + want)) (\<lambda>_.
        and_then (piece idx within want) (\<lambda>src.
          squash_loop piece bs sz off lim (pos + want) (overwrite buf at src)))))))
      else Ok buf)"
  by pat_completeness auto
termination
proof (relation "measure (\<lambda>(piece, bs, sz, off, lim, pos, buf). min sz lim - pos)", goal_cases)
  case (2 piece bs sz off lim pos buf stop idx within left room want at r src)
  have e: "pos div bs * bs + pos mod bs = pos" by simp
  have idx: "idx = pos div bs" "0 < bs" using 2(3) by (simp_all add: udiv_def split: if_splits)
  have "left = sz - idx * bs" "room = min bs left - within" using 2(5,6) by (simp_all add: usub_eq_Ok)
  moreover have "pos < sz" using 2(1,2) by simp
  then have "pos mod bs < sz - pos div bs * bs" using e by linarith
  ultimately have "0 < room" using idx 2(4) by simp
  moreover have "pos < stop" using 2(2) by simp
  ultimately have "0 < want" "want \<le> stop - pos" using 2(7) by simp_all
  with \<open>pos < stop\<close> 2(1) show ?case by simp
qed simp

declare squash_loop.simps [simp del]

definition squash_read_at :: "'r codec_lib \<Rightarrow> squash \<Rightarrow> node_id \<Rightarrow> nat \<Rightarrow> bytes \<Rightarrow> (nat \<times> bytes) result" where
  "squash_read_at lib s node off buf =
     and_then (squash_inode_of s node) (\<lambda>inode.
       case sq_body inode of
         SqFile sizes offsets frag_idx frag_off \<Rightarrow>
           if off \<ge> sq_size inode then Ok (0, buf)
           else
             and_then (uadd 64 off (length buf)) (\<lambda>lim.
             and_then (squash_loop (file_piece lib s sizes offsets frag_idx frag_off) (sq_block_size s)
                         (sq_size inode) off lim off buf) (\<lambda>buf'.
               Ok (min (sq_size inode) lim - off, buf')))
       | _ \<Rightarrow>
           Err (if sq_kind inode = Directory then IsDirectory
                else Unsupported ''squashfs: read of a non-regular inode''))"


section \<open>Mounting and the methods of the trait\<close>

definition squash_probe :: "block_source \<Rightarrow> bool result" where
  "squash_probe src =
     (if src_len src < 4 then Ok False
      else and_then (src_read src 0 4) (\<lambda>m. Ok (from_le m = SQUASH_MAGIC)))"

definition squash_codec :: "nat \<Rightarrow> codec result" where
  "squash_codec i =
     (if i = 1 then Ok Zlib
      else if i = 3 then Ok Lzo
      else if i = 4 then Ok Xz
      else if i = 5 then Ok Lz4
      else if i = 6 then Ok Zstd
      else if i = 2 then Err (Unsupported ''squashfs: legacy lzma1 compression'')
      else Err (Unsupported ''squashfs: unknown compression id''))"

definition squash_super :: "block_source \<Rightarrow> (squash \<times> nat) result" where
  "squash_super src =
     (if src_len src < 96 then Err (Corrupt ''squashfs: source shorter than superblock'')
      else
        and_then (src_read src 0 96) (\<lambda>sb.
        and_then (sq_le_u32 sb 0) (\<lambda>magic.
        if magic \<noteq> SQUASH_MAGIC then Err (Corrupt ''squashfs: bad magic'')
        else
          and_then (sq_le_u16 sb 20) (\<lambda>cid.
          and_then (squash_codec cid) (\<lambda>c.
          and_then (sq_le_u32 sb 12) (\<lambda>block_size.
          if block_size = 0 \<or> block_size > 2 ^ 20 then Err (Corrupt ''squashfs: implausible block size'')
          else
            and_then (sq_le_u64 sb 32) (\<lambda>root_ref.
            and_then (sq_le_u64 sb 64) (\<lambda>inodes.
            and_then (sq_le_u64 sb 72) (\<lambda>dirs.
            and_then (sq_le_u64 sb 80) (\<lambda>frags.
              Ok (\<lparr>sq_src = src, sq_codec = c, sq_block_size = block_size, sq_inode_table = inodes,
                   sq_directory_table = dirs, sq_fragment_table = frags, sq_nodes = [], sq_by_ref = []\<rparr>, root_ref)))))))))))"

definition squash_open :: "'r codec_lib \<Rightarrow> block_source \<Rightarrow> squash result" where
  "squash_open lib src =
     and_then (squash_super src) (\<lambda>(me, root_ref).
     and_then (squash_parse_inode lib me root_ref) (\<lambda>root.
       Ok (snd (squash_intern root_ref root me))))"

definition squash_root :: "squash \<Rightarrow> node_id" where
  "squash_root s = 0"

definition squash_listing :: "'r codec_lib \<Rightarrow> squash \<Rightarrow> squash_inode \<Rightarrow> (bytes \<times> nat) list result" where
  "squash_listing lib s inode =
     (case sq_body inode of
        SqDir abs_block offset sz \<Rightarrow> dir_entries lib s abs_block offset sz
      | _ \<Rightarrow> Err NotDirectory)"

definition squash_read_dir :: "'r codec_lib \<Rightarrow> node_id \<Rightarrow> (squash, dir_entry list) op" where
  "squash_read_dir lib dir s =
     (case and_then (squash_inode_of s dir) (squash_listing lib s) of
        Ok entries \<Rightarrow> intern_children squash_intern (squash_parse_inode lib) sq_kind entries s
      | Err e \<Rightarrow> (Err e, s)
      | Panic p \<Rightarrow> (Panic p, s))"

definition squash_lookup :: "'r codec_lib \<Rightarrow> node_id \<Rightarrow> bytes \<Rightarrow> (squash, node_id option) op" where
  "squash_lookup lib dir name = op_bind (squash_read_dir lib dir) (\<lambda>es. op_return (Ok (find_entry name es)))"

definition squash_metadata :: "squash \<Rightarrow> node_id \<Rightarrow> metadata result" where
  "squash_metadata s node =
     and_then (squash_inode_of s node) (\<lambda>inode.
       Ok \<lparr>md_kind = sq_kind inode, md_size = sq_size inode, md_mode = 0\<rparr>)"

definition squash_read_link :: "squash \<Rightarrow> node_id \<Rightarrow> bytes option result" where
  "squash_read_link s node =
     and_then (squash_inode_of s node) (\<lambda>inode.
       Ok (case sq_body inode of SqSymlink t \<Rightarrow> Some t | _ \<Rightarrow> None))"

definition squash_frontend :: "'r codec_lib \<Rightarrow> squash frontend" where
  "squash_frontend lib =
     \<lparr>fe_root = squash_root,
      fe_lookup = (\<lambda>cx. squash_lookup lib),
      fe_read_dir = (\<lambda>cx. squash_read_dir lib),
      fe_metadata = (\<lambda>cx node s. (squash_metadata s node, s)),
      fe_read_at = (\<lambda>cx node off buf s. (squash_read_at lib s node off buf, s)),
      fe_read_link = (\<lambda>cx node s. (squash_read_link s node, s))\<rparr>"


section \<open>Bounds\<close>

text \<open>
  What every inode of a volume satisfies. A file's block list has been read whole, so it is bounded
  by the read cap, and with it the file's size and every offset a read computes.
\<close>

definition squash_inode_ok :: "squash_inode \<Rightarrow> bool" where
  "squash_inode_ok i \<longleftrightarrow>
     (case sq_body i of
        SqDir _ _ _ \<Rightarrow> sq_kind i = Directory \<and> sq_size i < 2 ^ 32
      | SqFile sizes offsets frag_idx frag_off \<Rightarrow>
          sq_kind i = Regular \<and> length sizes * 4 \<le> MAX_BOOT_FILE_BYTES \<and> length offsets = length sizes \<and>
          sq_size i \<le> (length sizes + 1) * 2 ^ 20 \<and> frag_idx < 2 ^ 32 \<and> frag_off < 2 ^ 32
      | SqSymlink t \<Rightarrow> sq_kind i = Symlink \<and> sq_size i = length t \<and> length t \<le> MAX_BOOT_FILE_BYTES
      | SqOther \<Rightarrow> sq_kind i = Other \<and> sq_size i = 0)"

definition squash_base :: "squash \<Rightarrow> bool" where
  "squash_base s \<longleftrightarrow> sound_source (sq_src s) \<and> 0 < sq_block_size s \<and> sq_block_size s \<le> 2 ^ 20"

definition squash_good :: "'r codec_lib \<Rightarrow> squash \<Rightarrow> nat \<Rightarrow> squash_inode \<Rightarrow> bool" where
  "squash_good lib s k v \<longleftrightarrow> squash_parse_inode lib s k = Ok v"

definition squash_ok :: "'r codec_lib \<Rightarrow> squash \<Rightarrow> bool" where
  "squash_ok lib s \<longleftrightarrow> squash_base s \<and> table_ok (squash_good lib s) (sq_nodes s) (sq_by_ref s) \<and> sq_nodes s \<noteq> []"

lemma no_panic_sq_le [no_panic_simps, simp]:
  "no_panic (sq_le_u16 b i)" "no_panic (sq_le_u32 b i)" "no_panic (sq_le_u64 b i)"
  by (simp_all add: sq_le_u16_def sq_le_u32_def sq_le_u64_def)

lemma sq_le_less:
  "sq_le_u16 b i = Ok v \<Longrightarrow> v < 2 ^ 16" "sq_le_u32 b i = Ok v \<Longrightarrow> v < 2 ^ 32" "sq_le_u64 b i = Ok v \<Longrightarrow> v < 2 ^ 64"
  using le_field_less [of _ 2 b i v] le_field_less [of _ 4 b i v] le_field_less [of _ 8 b i v]
  by (auto simp: sq_le_u16_def sq_le_u32_def sq_le_u64_def)

lemma no_panic_read_meta_block:
  assumes src: "sound_source (sq_src s)"
  shows "no_panic (read_meta_block lib s at)"
proof -
  have "no_panic (uadd 64 at 2)" if "src_read (sq_src s) at 2 = Ok b" for b
    using src_read_bound [OF src that] by (simp add: no_panic_arith)
  moreover have "no_panic (uadd 64 at len)" if "src_read (sq_src s) at len = Ok b" for at len b
    using src_read_bound [OF src that] by (simp add: no_panic_arith)
  ultimately show ?thesis
    using src by (simp add: read_meta_block_def no_panic_and_then no_panic_src_read Let_def)
qed

lemma no_panic_meta_span_loop:
  "sound_source (sq_src s) \<Longrightarrow> no_panic (meta_span_loop lib s len block nxt pos out)"
proof (induction lib s len block nxt pos out rule: meta_span_loop.induct)
  case (1 lib s len block nxt pos out)
  have "no_panic (if pos \<ge> length block then and_then (read_meta_block lib s nxt) (\<lambda>(b, n). Ok (b, n, 0 :: nat))
      else Ok (block, nxt, pos))"
    using no_panic_read_meta_block [OF "1.prems"] by (auto simp: no_panic_simps)
  with 1 show ?case
    by (subst meta_span_loop.simps) (auto simp: no_panic_and_then Let_def split: prod.splits)
qed

lemma no_panic_read_meta_span: "sound_source (sq_src s) \<Longrightarrow> no_panic (read_meta_span lib s a off len)"
  by (auto simp: read_meta_span_def no_panic_simps no_panic_read_meta_block no_panic_meta_span_loop)

lemma read_meta_span_cap: "read_meta_span lib s a off len = Ok b \<Longrightarrow> len \<le> MAX_BOOT_FILE_BYTES"
  by (auto simp: read_meta_span_def and_then_eq_Ok checked_full_read_len_eq_Ok)

lemma block_offsets_length: "block_offsets at bs = Ok os \<Longrightarrow> length os = length bs"
  by (induction at bs arbitrary: os rule: block_offsets.induct) (auto simp: and_then_eq_Ok)

lemma only_overflow_block_offsets: "only_overflow (block_offsets at bs)"
  by (induction at bs rule: block_offsets.induct) (auto simp: only_overflow_and_then)

lemma map_result_length: "map_result f xs = Ok ys \<Longrightarrow> length ys = length xs"
  by (induction xs arbitrary: ys) (auto simp: and_then_eq_Ok)

lemma no_panic_map_result: "(\<And>x. no_panic (f x)) \<Longrightarrow> no_panic (map_result f xs)"
  by (induction xs) (auto simp: no_panic_simps)

lemma only_overflow_block_count: "0 < sq_block_size s \<Longrightarrow> only_overflow (block_count s sz frag_idx)"
  by (simp add: block_count_def udiv_def udiv_ceil_def)

lemma block_count_size:
  assumes "0 < sq_block_size s" and "sq_block_size s \<le> 2 ^ 20" and "block_count s sz frag_idx = Ok n"
  shows "sz \<le> (n + 1) * 2 ^ 20"
proof -
  let ?bs = "sq_block_size s"
  have "sz \<le> (n + 1) * ?bs"
  proof (cases "frag_idx \<noteq> NO_FRAGMENT")
    case True
    have "sz < (sz div ?bs + 1) * ?bs" using dividend_less_div_times [OF assms(1), of sz] by simp
    then show ?thesis using True assms(1,3) by (auto simp: block_count_def udiv_def)
  next
    case False
    then show ?thesis using div_ceil_mult_ge [OF assms(1), of sz] assms(1,3) by (auto simp: block_count_def udiv_ceil_def)
  qed
  also have "\<dots> \<le> (n + 1) * 2 ^ 20" using assms(2) by (intro mult_le_mono2)
  finally show ?thesis .
qed

lemma file_inode_ok:
  assumes b: "squash_base s" and "frag_idx < 2 ^ 32" and "frag_off < 2 ^ 32"
  shows "only_overflow (file_inode lib s a off head start sz frag_idx frag_off)"
    and "file_inode lib s a off head start sz frag_idx frag_off = Ok i \<Longrightarrow> squash_inode_ok i"
proof -
  have src: "sound_source (sq_src s)" and bs: "0 < sq_block_size s" "sq_block_size s \<le> 2 ^ 20"
    using b by (simp_all add: squash_base_def)
  show "only_overflow (file_inode lib s a off head start sz frag_idx frag_off)"
    by (simp add: file_inode_def Let_def only_overflow_and_then only_overflow_block_count [OF bs(1)]
        no_panic_only_overflow [OF no_panic_read_meta_span [OF src]]
        no_panic_only_overflow [OF no_panic_map_result] only_overflow_block_offsets)
  assume "file_inode lib s a off head start sz frag_idx frag_off = Ok i"
  then obtain n full sizes offsets where f: "read_meta_span lib s a off (head + n * 4) = Ok full"
    "map_result (\<lambda>i. sq_le_u32 full (head + i * 4)) [0..<n] = Ok sizes" "block_offsets start sizes = Ok offsets"
    "i = \<lparr>sq_kind = Regular, sq_size = sz, sq_body = SqFile sizes offsets frag_idx frag_off\<rparr>"
    and n: "block_count s sz frag_idx = Ok n"
    by (auto simp: file_inode_def Let_def and_then_eq_Ok uadd_eq_Ok umul_eq_Ok)
  have "length sizes = n" using map_result_length [OF f(2)] by simp
  moreover have "length offsets = length sizes" using block_offsets_length [OF f(3)] .
  moreover have "n * 4 \<le> MAX_BOOT_FILE_BYTES" using read_meta_span_cap [OF f(1)] by simp
  ultimately show "squash_inode_ok i"
    using block_count_size [OF bs n] assms(2,3) f(4) by (simp add: squash_inode_ok_def)
qed

lemma squash_parse_inode_ok:
  assumes b: "squash_base s"
  shows "only_overflow (squash_parse_inode lib s k)"
    and "squash_parse_inode lib s k = Ok i \<Longrightarrow> squash_inode_ok i"
proof -
  have src: "sound_source (sq_src s)" using b by (simp add: squash_base_def)
  show "only_overflow (squash_parse_inode lib s k)"
    by (auto simp: squash_parse_inode_def Let_def only_overflow_and_then no_panic_only_overflow
        no_panic_only_overflow [OF no_panic_read_meta_span [OF src]] intro!: file_inode_ok(1) [OF b] dest: sq_le_less(2))
  assume "squash_parse_inode lib s k = Ok i"
  then consider (dir) sz a o' where "i = \<lparr>sq_kind = Directory, sq_size = sz, sq_body = SqDir a o' sz\<rparr>" "sz < 2 ^ 32"
    | (reg) a off head start sz h j fi l fo where "file_inode lib s a off head start sz fi fo = Ok i"
        "sq_le_u32 h j = Ok fi" "sq_le_u32 h l = Ok fo"
    | (link) n t where "i = \<lparr>sq_kind = Symlink, sq_size = n, sq_body = SqSymlink t\<rparr>" "length t = n" "n \<le> MAX_BOOT_FILE_BYTES"
    | (other) "i = \<lparr>sq_kind = Other, sq_size = 0, sq_body = SqOther\<rparr>"
    unfolding squash_parse_inode_def Let_def and_then_eq_Ok
    by (auto simp: and_then_eq_Ok ok_or_eq_Ok get_range_eq_Some checked_full_read_len_eq_Ok split: if_splits
        dest: sq_le_less)
  then show "squash_inode_ok i"
  proof cases
    case reg
    then show ?thesis using file_inode_ok(2) [OF b _ _ reg(1)] sq_le_less(2) by blast
  qed (auto simp: squash_inode_ok_def)
qed


section \<open>Interning\<close>

text \<open>Nothing that reads the medium depends on what has been interned.\<close>

lemma meta_static:
  "read_meta_block lib (s\<lparr>sq_nodes := t, sq_by_ref := m\<rparr>) = read_meta_block lib s"
  "meta_span_loop lib (s\<lparr>sq_nodes := t, sq_by_ref := m\<rparr>) = meta_span_loop lib s"
  "read_meta_span lib (s\<lparr>sq_nodes := t, sq_by_ref := m\<rparr>) = read_meta_span lib s"
proof -
  let ?s = "s\<lparr>sq_nodes := t, sq_by_ref := m\<rparr>"
  show b: "read_meta_block lib ?s = read_meta_block lib s" by (intro ext) (simp add: read_meta_block_def Let_def cong: if_cong)
  have "meta_span_loop lib ?s len block nxt pos out = meta_span_loop lib s len block nxt pos out"
    for len block nxt pos out
  proof (induction lib s len block nxt pos out rule: meta_span_loop.induct)
    case (1 lib s len block nxt pos out)
    have b: "read_meta_block lib (s\<lparr>sq_nodes := t, sq_by_ref := m\<rparr>) = read_meta_block lib s"
      by (intro ext) (simp add: read_meta_block_def Let_def cong: if_cong)
    show ?case
      using 1 by (subst (1 2) meta_span_loop.simps) (auto simp: b Let_def intro!: and_then_cong split: prod.splits)
  qed
  then show "meta_span_loop lib ?s = meta_span_loop lib s" by (intro ext)
  then show "read_meta_span lib ?s = read_meta_span lib s" using b by (intro ext) (simp add: read_meta_span_def)
qed

lemma squash_static:
  "squash_parse_inode lib (s\<lparr>sq_nodes := t, sq_by_ref := m\<rparr>) = squash_parse_inode lib s"
  "squash_listing lib (s\<lparr>sq_nodes := t, sq_by_ref := m\<rparr>) = squash_listing lib s"
proof -
  let ?s = "s\<lparr>sq_nodes := t, sq_by_ref := m\<rparr>"
  have "file_inode lib ?s = file_inode lib s"
    by (intro ext) (simp add: file_inode_def block_count_def meta_static)
  then show "squash_parse_inode lib ?s = squash_parse_inode lib s"
    by (intro ext) (simp add: squash_parse_inode_def meta_static Let_def cong: if_cong)
  show "squash_listing lib ?s = squash_listing lib s"
    by (intro ext) (simp add: squash_listing_def dir_entries_def meta_static split: squash_body.splits)
qed

lemma squash_intern_form: "\<exists>t m. snd (squash_intern k v s) = s\<lparr>sq_nodes := t, sq_by_ref := m\<rparr>"
proof (cases "bm_get (sq_by_ref s) k")
  case None
  then show ?thesis by (auto simp: squash_intern_def Let_def)
next
  case (Some n)
  then have "snd (squash_intern k v s) = s\<lparr>sq_nodes := sq_nodes s, sq_by_ref := sq_by_ref s\<rparr>"
    by (simp add: squash_intern_def)
  then show ?thesis by blast
qed

lemma squash_intern_same:
  "squash_parse_inode lib (snd (squash_intern k v s)) = squash_parse_inode lib s"
  "squash_listing lib (snd (squash_intern k v s)) = squash_listing lib s"
  "squash_base (snd (squash_intern k v s)) = squash_base s"
  using squash_intern_form [of k v s] by (auto simp: squash_static squash_base_def)

interpretation squash_table: intern_table sq_nodes sq_by_ref squash_intern squash_base "squash_good lib" for lib
proof unfold_locales
  fix s k v
  show "squash_good lib (snd (squash_intern k v s)) = squash_good lib s" by (simp add: fun_eq_iff squash_good_def squash_intern_same)
  show "squash_base s \<Longrightarrow> squash_base (snd (squash_intern k v s))" by (simp add: squash_intern_same)
qed (auto simp: squash_good_def squash_intern_def Let_def)

interpretation squash_tree: interned_tree sq_nodes sq_by_ref squash_intern squash_base "squash_good lib"
  "squash_parse_inode lib" sq_kind "squash_listing lib" "squash_read_dir lib" "squash_lookup lib" for lib
  by unfold_locales
    (simp_all add: squash_good_def squash_intern_same squash_read_dir_def squash_inode_of_def squash_lookup_def)

definition squash_view :: "'r codec_lib \<Rightarrow> squash \<Rightarrow> squash_inode view" where
  "squash_view lib s =
     \<lparr>vw_root = sq_nodes s ! 0,
      vw_lookup = (\<lambda>d name. and_then (children_of (squash_parse_inode lib) (squash_listing lib) s d) (\<lambda>vs. Ok (find_named name vs))),
      vw_metadata = (\<lambda>i. Ok \<lparr>md_kind = sq_kind i, md_size = sq_size i, md_mode = 0\<rparr>),
      vw_link = (\<lambda>i. Ok (case sq_body i of SqSymlink t \<Rightarrow> Some t | _ \<Rightarrow> None))\<rparr>"

definition squash_repr :: "squash \<Rightarrow> node_id \<Rightarrow> squash_inode option" where
  "squash_repr s n = get_at (sq_nodes s) n"

lemma squash_repr_Some: "squash_repr s n = Some i \<longleftrightarrow> squash_inode_of s n = Ok i"
  by (auto simp: squash_repr_def squash_inode_of_def result_simps)

lemma squash_read_dir_keeps:
  assumes ok: "squash_ok lib s" and r: "squash_read_dir lib d s = (r, s')"
  shows "squash_ok lib s'" and "squash_view lib s' = squash_view lib s" and "squash_repr s n = Some k \<Longrightarrow> squash_repr s' n = Some k"
proof -
  have b: "squash_base s" "table_ok (squash_good lib s) (sq_nodes s) (sq_by_ref s)" "0 < length (sq_nodes s)"
    using ok by (simp_all add: squash_ok_def)
  note k = squash_tree.read_dir_cases [OF b(1,2) r]
  show "squash_ok lib s'" using k(1,2) k(5) [OF b(3)] by (auto simp: squash_ok_def)
  show "squash_view lib s' = squash_view lib s"
    using k(3,4) k(5) [OF b(3)] by (simp add: squash_view_def children_of_def)
  show "squash_repr s n = Some k \<Longrightarrow> squash_repr s' n = Some k"
    using k(5) [of n] by (auto simp: squash_repr_def result_simps)
qed

lemma squash_lookup_keeps:
  assumes ok: "squash_ok lib s" and r: "squash_lookup lib d nm s = (r, s')"
  shows "squash_ok lib s'" and "squash_view lib s' = squash_view lib s" and "squash_repr s n = Some k \<Longrightarrow> squash_repr s' n = Some k"
    and "case and_then (squash_inode_of s d) (\<lambda>i. vw_lookup (squash_view lib s) i nm) of
       Ok (Some v) \<Rightarrow> \<exists>n. r = Ok (Some n) \<and> squash_repr s' n = Some v
     | Ok None \<Rightarrow> r = Ok None
     | Err e \<Rightarrow> r = Err e
     | Panic p \<Rightarrow> r = Panic p"
proof -
  have b: "squash_base s" "table_ok (squash_good lib s) (sq_nodes s) (sq_by_ref s)" using ok by (simp_all add: squash_ok_def)
  note k = squash_tree.lookup_cases [OF b r]
  from k(1) obtain rd where rd: "squash_read_dir lib d s = (rd, s')" by blast
  show "squash_ok lib s'" "squash_view lib s' = squash_view lib s" "squash_repr s n = Some k \<Longrightarrow> squash_repr s' n = Some k"
    using squash_read_dir_keeps [OF ok rd] by blast+
  let ?c = "and_then (ok_or (get_at (sq_nodes s) d) NotFound) (children_of (squash_parse_inode lib) (squash_listing lib) s)"
  have eq: "and_then (squash_inode_of s d) (\<lambda>i. vw_lookup (squash_view lib s) i nm) =
      and_then ?c (\<lambda>vs. Ok (find_named nm vs))"
    by (simp add: squash_view_def squash_inode_of_def and_then_assoc)
  show "case and_then (squash_inode_of s d) (\<lambda>i. vw_lookup (squash_view lib s) i nm) of
       Ok (Some v) \<Rightarrow> \<exists>n. r = Ok (Some n) \<and> squash_repr s' n = Some v
     | Ok None \<Rightarrow> r = Ok None
     | Err e \<Rightarrow> r = Err e
     | Panic p \<Rightarrow> r = Panic p"
    unfolding eq using k(2) by (cases ?c) (auto simp: squash_repr_def get_at_def split: option.splits)
qed

lemma squash_inode_of_ok:
  assumes "squash_ok lib s" and "squash_inode_of s n = Ok i"
  shows "squash_inode_ok i"
proof -
  have t: "table_ok (squash_good lib s) (sq_nodes s) (sq_by_ref s)" and b: "squash_base s" using assms(1) by (simp_all add: squash_ok_def)
  have n: "n < length (sq_nodes s)" "i = sq_nodes s ! n" using assms(2) by (auto simp: squash_inode_of_def result_simps)
  from table_okD(3) [OF t n(1)] obtain k where "bm_get (sq_by_ref s) k = Some n" by blast
  from table_okD(2) [OF t this] n(2) squash_parse_inode_ok(2) [OF b] show ?thesis by (auto simp: squash_good_def)
qed


section \<open>Reads\<close>

text \<open>The piece a turn of the loop asks for: inside its block, inside the file and not empty.\<close>

definition squash_want :: "nat \<Rightarrow> nat \<Rightarrow> nat \<Rightarrow> nat \<Rightarrow> nat" where
  "squash_want bs sz lim pos = min (min bs (sz - pos div bs * bs) - pos mod bs) (min sz lim - pos)"

lemma squash_want_bounds:
  assumes "0 < bs" and "pos < min sz lim"
  shows "0 < squash_want bs sz lim pos" and "pos + squash_want bs sz lim pos \<le> min sz lim"
    and "pos mod bs + squash_want bs sz lim pos \<le> min bs (sz - pos div bs * bs)"
proof -
  have e: "pos div bs * bs + pos mod bs = pos" by simp
  have m: "pos mod bs < bs" using assms(1) by simp
  define stop where "stop = min sz lim"
  define len where "len = min bs (sz - pos div bs * bs)"
  have "pos < stop" using assms(2) by (simp add: stop_def)
  moreover have "pos mod bs < sz - pos div bs * bs" using e assms(2) by linarith
  then have "pos mod bs < len" using m by (simp add: len_def)
  ultimately have "0 < min (len - pos mod bs) (stop - pos) \<and> pos + min (len - pos mod bs) (stop - pos) \<le> stop \<and>
      pos mod bs + min (len - pos mod bs) (stop - pos) \<le> len" by (auto simp: min_def)
  then show "0 < squash_want bs sz lim pos" "pos + squash_want bs sz lim pos \<le> min sz lim"
    "pos mod bs + squash_want bs sz lim pos \<le> min bs (sz - pos div bs * bs)"
    unfolding squash_want_def stop_def len_def by blast+
qed

lemma squash_loop_step:
  assumes "0 < bs" and "pos < min sz lim" and "off \<le> pos" and "lim \<le> off + length buf"
  shows "squash_loop piece bs sz off lim pos buf =
    and_then (piece (pos div bs) (pos mod bs) (squash_want bs sz lim pos)) (\<lambda>src.
      squash_loop piece bs sz off lim (pos + squash_want bs sz lim pos) (overwrite buf (pos - off) src))"
proof -
  note b = squash_want_bounds [OF assms(1,2)]
  have w: "squash_want bs sz lim pos = min (min bs (sz - pos div bs * bs) - pos mod bs) (min sz lim - pos)"
    by (simp only: squash_want_def)
  have "pos div bs * bs \<le> sz" using assms(2) by (metis div_times_less_eq_dividend le_trans less_imp_le min_less_iff_conj)
  moreover have "pos mod bs \<le> min bs (sz - pos div bs * bs)" using b(3) by linarith
  moreover have "pos - off + squash_want bs sz lim pos \<le> length buf" using b(2) assms(3,4) by auto
  ultimately have u: "udiv pos bs = Ok (pos div bs)" "usub sz (pos div bs * bs) = Ok (sz - pos div bs * bs)"
    "usub (min bs (sz - pos div bs * bs)) (pos mod bs) = Ok (min bs (sz - pos div bs * bs) - pos mod bs)"
    "usub pos off = Ok (pos - off)"
    "index_range buf (pos - off) (pos - off + squash_want bs sz lim pos) =
       Ok (slice buf (pos - off) (pos - off + squash_want bs sz lim pos))"
    using assms(1,3) by (simp_all add: udiv_def usub_def index_range_def)
  show ?thesis
    unfolding squash_loop.simps [of piece bs sz off lim pos buf] Let_def u and_then.simps w [symmetric] if_P [OF assms(2)] ..
qed

lemma squash_loop_done: "\<not> pos < min sz lim \<Longrightarrow> squash_loop piece bs sz off lim pos buf = Ok buf"
  unfolding squash_loop.simps [of piece bs sz off lim pos buf] Let_def by (simp only: if_False)

lemma squash_loop_data:
  assumes bs: "0 < bs"
    and piece: "\<And>idx w k. idx * bs < length c \<Longrightarrow> w + k \<le> min bs (length c - idx * bs) \<Longrightarrow>
      piece idx w k = Ok (slice c (idx * bs + w) (idx * bs + w + k))"
  shows "off \<le> pos \<Longrightarrow> lim \<le> off + length buf \<Longrightarrow>
    squash_loop piece bs (length c) off lim pos buf = Ok (overwrite buf (pos - off) (slice c pos (min (length c) lim)))"
proof (induction "min (length c) lim - pos" arbitrary: pos buf rule: less_induct)
  case less
  show ?case
  proof (cases "pos < min (length c) lim")
    case False
    moreover have "slice c pos (min (length c) lim) = []" using False by (simp add: slice_def del: min_less_iff_conj)
    ultimately show ?thesis using squash_loop_done [OF False] by (simp only: overwrite_Nil)
  next
    case True
    define w where "w = squash_want bs (length c) lim pos"
    note b = squash_want_bounds [OF bs True, folded w_def]
    have e: "pos div bs * bs + pos mod bs = pos" by simp
    have "pos div bs * bs < length c" using e True by linarith
    from piece [OF this b(3)] have p: "piece (pos div bs) (pos mod bs) w = Ok (slice c pos (pos + w))" unfolding e .
    let ?buf = "overwrite buf (pos - off) (slice c pos (pos + w))"
    have d: "length (slice c pos (pos + w)) = w" using b(2) by simp
    have "pos - off + w \<le> length buf" using b(2) less.prems by auto
    then have l: "length ?buf = length buf" using length_overwrite [of "pos - off" "slice c pos (pos + w)" buf] d by simp
    have "squash_loop piece bs (length c) off lim (pos + w) ?buf =
        Ok (overwrite ?buf (pos + w - off) (slice c (pos + w) (min (length c) lim)))"
      by (rule less.hyps) (use b(1) True less.prems l in auto)
    also have "overwrite ?buf (pos + w - off) (slice c (pos + w) (min (length c) lim)) =
        overwrite buf (pos - off) (slice c pos (min (length c) lim))"
      by (rule overwrite_slices) (use b(2) less.prems in auto)
    finally show ?thesis by (simp add: squash_loop_step [OF bs True less.prems] w_def [symmetric] p)
  qed
qed

lemma squash_loop_ok:
  assumes bs: "0 < bs" and piece: "\<And>idx w k. only_overflow (piece idx w k)"
    and len: "\<And>idx w k d. piece idx w k = Ok d \<Longrightarrow> length d = k"
  shows "off \<le> pos \<Longrightarrow> lim \<le> off + length buf \<Longrightarrow>
    only_overflow (squash_loop piece bs sz off lim pos buf) \<and>
    (\<forall>buf'. squash_loop piece bs sz off lim pos buf = Ok buf' \<longrightarrow> length buf' = length buf)"
proof (induction "min sz lim - pos" arbitrary: pos buf rule: less_induct)
  case less
  show ?case
  proof (cases "pos < min sz lim")
    case False
    show ?thesis unfolding squash_loop_done [OF False] by simp
  next
    case True
    define w where "w = squash_want bs sz lim pos"
    note b = squash_want_bounds [OF bs True, folded w_def]
    note step = squash_loop_step [OF bs True less.prems, folded w_def, of piece]
    show ?thesis
    proof (cases "piece (pos div bs) (pos mod bs) w")
      case (Ok d)
      let ?buf = "overwrite buf (pos - off) d"
      have "pos - off + w \<le> length buf" using b(2) less.prems by auto
      then have l: "length ?buf = length buf" using length_overwrite [of "pos - off" d buf] len [OF Ok] by simp
      have "only_overflow (squash_loop piece bs sz off lim (pos + w) ?buf) \<and>
          (\<forall>buf'. squash_loop piece bs sz off lim (pos + w) ?buf = Ok buf' \<longrightarrow> length buf' = length ?buf)"
        by (rule less.hyps) (use b(1) True less.prems l in auto)
      then show ?thesis unfolding step Ok and_then.simps l .
    qed (use piece [of "pos div bs" "pos mod bs" w] in \<open>auto simp: step\<close>)
  qed
qed

lemma no_panic_read_data_block: "sound_source (sq_src s) \<Longrightarrow> no_panic (read_data_block lib s at raw)"
  by (simp add: read_data_block_def Let_def no_panic_simps no_panic_src_read)

lemma only_overflow_read_fragment:
  "sound_source (sq_src s) \<Longrightarrow> only_overflow (read_fragment lib s idx)"
  by (simp add: read_fragment_def only_overflow_and_then no_panic_only_overflow no_panic_src_read
      no_panic_read_meta_span no_panic_read_data_block)

lemma file_piece_ok:
  assumes src: "sound_source (sq_src s)" and "length offsets = length sizes"
  shows "only_overflow (file_piece lib s sizes offsets fi fo idx w k)"
    and "file_piece lib s sizes offsets fi fo idx w k = Ok d \<Longrightarrow> length d = k"
proof -
  show "only_overflow (file_piece lib s sizes offsets fi fo idx w k)"
    using assms(2) by (auto simp: file_piece_def only_overflow_and_then no_panic_only_overflow [OF no_panic_read_data_block [OF src]]
        only_overflow_read_fragment [OF src] index_at_def get_at_def Let_def)
  show "file_piece lib s sizes offsets fi fo idx w k = Ok d \<Longrightarrow> length d = k"
    by (auto simp: file_piece_def and_then_eq_Ok ok_or_eq_Ok get_range_eq_Some Let_def split: option.splits if_splits)
qed

text \<open>A part of a block is that part of the whole block.\<close>

lemma file_piece_part:
  assumes "file_piece lib s sizes offsets fi fo idx 0 n = Ok d" and "w + k \<le> n"
  shows "file_piece lib s sizes offsets fi fo idx w k = Ok (slice d w (w + k))"
  using assms slice_slice [of 0 w k n] slice_slice [of fo w k "fo + n"]
  by (auto simp: file_piece_def and_then_eq_Ok ok_or_eq_Ok get_range_eq_Some Let_def slice_def min_def
      split: option.splits if_splits)



section \<open>The frontend keeps its contract\<close>

lemma squash_read_at_ok:
  assumes ok: "squash_ok lib s"
  shows "only_overflow (squash_read_at lib s n off buf)"
    and "squash_read_at lib s n off buf = Ok (k, buf') \<Longrightarrow> k \<le> length buf \<and> length buf' = length buf"
proof -
  have src: "sound_source (sq_src s)" and bs: "0 < sq_block_size s" using ok by (simp_all add: squash_ok_def squash_base_def)
  have "only_overflow (squash_read_at lib s n off buf) \<and>
    (\<forall>k buf'. squash_read_at lib s n off buf = Ok (k, buf') \<longrightarrow> k \<le> length buf \<and> length buf' = length buf)"
  proof (cases "\<exists>i sizes offsets fi fo. squash_inode_of s n = Ok i \<and> sq_body i = SqFile sizes offsets fi fo \<and> off < sq_size i")
    case False
    then show ?thesis
      by (cases "squash_inode_of s n") (auto simp: squash_read_at_def squash_inode_of_def ok_or_def split: option.splits squash_body.splits)
  next
    case True
    then obtain i sizes offsets fi fo where i: "squash_inode_of s n = Ok i" "sq_body i = SqFile sizes offsets fi fo"
      "off < sq_size i" by blast
    have l: "length offsets = length sizes" using squash_inode_of_ok [OF ok i(1)] i(2) by (simp add: squash_inode_ok_def)
    have "only_overflow (squash_loop (file_piece lib s sizes offsets fi fo) (sq_block_size s) (sq_size i) off (off + length buf) off buf) \<and>
      (\<forall>buf'. squash_loop (file_piece lib s sizes offsets fi fo) (sq_block_size s) (sq_size i) off (off + length buf) off buf = Ok buf' \<longrightarrow>
        length buf' = length buf)"
      by (rule squash_loop_ok [OF bs file_piece_ok(1) [OF src l] file_piece_ok(2) [OF src l]]) simp_all
    then show ?thesis using i by (auto simp: squash_read_at_def only_overflow_and_then and_then_eq_Ok uadd_eq_Ok)
  qed
  then show "only_overflow (squash_read_at lib s n off buf)"
    and "squash_read_at lib s n off buf = Ok (k, buf') \<Longrightarrow> k \<le> length buf \<and> length buf' = length buf" by blast+
qed

lemma squash_frontend_simps [simp]:
  "fe_root (squash_frontend lib) s = 0"
  "fe_lookup (squash_frontend lib) cx = squash_lookup lib" "fe_read_dir (squash_frontend lib) cx = squash_read_dir lib"
  "fe_metadata (squash_frontend lib) cx n s = (squash_metadata s n, s)"
  "fe_read_at (squash_frontend lib) cx n off buf s = (squash_read_at lib s n off buf, s)"
  "fe_read_link (squash_frontend lib) cx n s = (squash_read_link s n, s)"
  by (simp_all add: squash_frontend_def squash_root_def)

interpretation squash: fold_frontend "squash_frontend lib" "squash_ok lib" for lib
proof unfold_locales
  fix s cx n off buf k buf' s'
  assume "squash_ok lib s" "fe_read_at (squash_frontend lib) cx n off buf s = (Ok (k, buf'), s')"
  then show "k \<le> length buf \<and> length buf' = length buf"
    using squash_read_at_ok(2) [of lib s n off buf k buf'] by auto
next
  fix s cx d nm r s'
  assume "squash_ok lib s" "fe_lookup (squash_frontend lib) cx d nm s = (r, s')"
  then show "squash_ok lib s' \<and> fe_root (squash_frontend lib) s' = fe_root (squash_frontend lib) s"
    using squash_lookup_keeps(1) [of lib s d nm r s'] by simp
next
  fix s cx d r s'
  assume "squash_ok lib s" "fe_read_dir (squash_frontend lib) cx d s = (r, s')"
  then show "squash_ok lib s' \<and> fe_root (squash_frontend lib) s' = fe_root (squash_frontend lib) s"
    using squash_read_dir_keeps(1) [of lib s d r s'] by simp
qed simp_all

interpretation squash: tree_frontend "squash_frontend lib" "squash_ok lib" cx squash_repr "squash_view lib" for lib cx
proof unfold_locales
  fix s
  assume "squash_ok lib s"
  then show "squash_repr s (fe_root (squash_frontend lib) s) = Some (vw_root (squash_view lib s))"
    by (simp add: squash_ok_def squash_repr_def get_at_def squash_view_def)
next
  fix s d kd nm r1 s'
  assume "squash_ok lib s" "squash_repr s d = Some kd" "fe_lookup (squash_frontend lib) cx d nm s = (r1, s')"
  with squash_lookup_keeps [of lib s d nm r1 s']
  show "squash_view lib s' = squash_view lib s \<and> (\<forall>n k. squash_repr s n = Some k \<longrightarrow> squash_repr s' n = Some k) \<and>
      (case vw_lookup (squash_view lib s) kd nm of
         Ok (Some kc) \<Rightarrow> \<exists>c. r1 = Ok (Some c) \<and> squash_repr s' c = Some kc
       | Ok None \<Rightarrow> r1 = Ok None | Err e \<Rightarrow> r1 = Err e | Panic p \<Rightarrow> r1 = Panic p)"
    by (simp add: squash_repr_Some)
qed (auto simp: squash_repr_Some squash_metadata_def squash_read_link_def squash_view_def)

interpretation squash: coherent_frontend "squash_frontend lib" "squash_ok lib" for lib
proof unfold_locales
  fix s cx d nm found s'
  assume "fe_lookup (squash_frontend lib) cx d nm s = (Ok found, s')"
  then show "\<exists>es s''. fe_read_dir (squash_frontend lib) cx d s = (Ok es, s'') \<and> found = find_entry nm es"
    by (auto simp: squash_lookup_def op_bind_Ok op_return_eq)
next
  fix s cx d es s' e
  assume ok: "squash_ok lib s" and rd: "fe_read_dir (squash_frontend lib) cx d s = (Ok es, s')" and e: "e \<in> set es"
  have b: "squash_base s" "table_ok (squash_good lib s) (sq_nodes s) (sq_by_ref s)" using ok by (simp_all add: squash_ok_def)
  have r: "squash_read_dir lib d s = (Ok es, s')" using rd by simp
  have "de_node e < length (sq_nodes s') \<and> sq_kind (sq_nodes s' ! de_node e) = de_kind e"
    by (rule squash_tree.read_dir_kinds [OF b r e])
  then show "\<exists>md s''. fe_metadata (squash_frontend lib) cx (de_node e) s' = (Ok md, s'') \<and> md_kind md = de_kind e"
    by (simp add: squash_metadata_def squash_inode_of_def get_at_def)
next
  fix s cx n md s'
  assume ok: "squash_ok lib s" and m: "fe_metadata (squash_frontend lib) cx n s = (Ok md, s')" "md_kind md = Symlink"
  from m(1) have md: "squash_metadata s n = Ok md" and s: "s' = s" by auto
  from md obtain i where i: "squash_inode_of s n = Ok i" "md = \<lparr>md_kind = sq_kind i, md_size = sq_size i, md_mode = 0\<rparr>"
    unfolding squash_metadata_def and_then_eq_Ok by blast
  have "sq_kind i = Symlink" using m(2) i(2) by simp
  then show "fst (fe_read_link (squash_frontend lib) cx n s') \<noteq> Ok None"
    using squash_inode_of_ok [OF ok i(1)] i(1) s by (simp add: squash_read_link_def squash_inode_ok_def split: squash_body.splits)
qed


section \<open>Contents and safety\<close>

text \<open>
  The content of a node: each of its blocks is, in whole, that part of the content. A sparse block
  is zeros, a stored or packed one what is on the medium, the tail a part of its fragment.
\<close>

definition squash_content :: "'r codec_lib \<Rightarrow> squash \<Rightarrow> node_id \<Rightarrow> bytes \<Rightarrow> bool" where
  "squash_content lib s n c \<longleftrightarrow>
     (\<exists>i sizes offsets fi fo. squash_inode_of s n = Ok i \<and> sq_body i = SqFile sizes offsets fi fo \<and> sq_size i = length c \<and>
        length c < 2 ^ 63 \<and>
        (\<forall>idx. idx * sq_block_size s < length c \<longrightarrow>
          file_piece lib s sizes offsets fi fo idx 0 (min (sq_block_size s) (length c - idx * sq_block_size s)) =
            Ok (slice c (idx * sq_block_size s) (min ((idx + 1) * sq_block_size s) (length c)))))"

lemma squash_read_at_content:
  assumes ok: "squash_ok lib s" and c: "squash_content lib s n c" and len: "length buf < 2 ^ 63"
  shows "squash_read_at lib s n off buf =
    (if off < length c
     then Ok (min (length c) (off + length buf) - off, overwrite buf 0 (slice c off (min (length c) (off + length buf))))
     else Ok (0, buf))"
proof -
  let ?bs = "sq_block_size s"
  have bs: "0 < ?bs" using ok by (simp add: squash_ok_def squash_base_def)
  from c obtain i sizes offsets fi fo where i: "squash_inode_of s n = Ok i" "sq_body i = SqFile sizes offsets fi fo"
    "sq_size i = length c" "length c < 2 ^ 63"
    and p: "\<And>idx. idx * ?bs < length c \<Longrightarrow>
      file_piece lib s sizes offsets fi fo idx 0 (min ?bs (length c - idx * ?bs)) = Ok (slice c (idx * ?bs) (min ((idx + 1) * ?bs) (length c)))"
    by (auto simp: squash_content_def)
  have "file_piece lib s sizes offsets fi fo idx w k = Ok (slice c (idx * ?bs + w) (idx * ?bs + w + k))"
    if h: "idx * ?bs < length c" "w + k \<le> min ?bs (length c - idx * ?bs)" for idx w k
  proof -
    have "idx * ?bs + w + k \<le> min ((idx + 1) * ?bs) (length c)" using h by auto
    from slice_slice [OF this] file_piece_part [OF p [OF h(1)] h(2)] show ?thesis by simp
  qed
  from squash_loop_data [OF bs this, of off off "off + length buf" buf]
  have "squash_loop (file_piece lib s sizes offsets fi fo) ?bs (length c) off (off + length buf) off buf =
      Ok (overwrite buf 0 (slice c off (min (length c) (off + length buf))))" by simp
  then show ?thesis using i len by (auto simp: squash_read_at_def uadd_def)
qed

interpretation squash: content_frontend "squash_frontend lib" "squash_ok lib" cx
  "\<lambda>s n c. squash_content lib s n c" for lib cx
proof unfold_locales
  fix s n c
  assume "squash_ok lib s" and c: "squash_content lib s n c"
  then obtain i where i: "squash_inode_of s n = Ok i" "sq_kind i \<noteq> Directory" "sq_size i = length c"
    using squash_inode_of_ok by (fastforce simp: squash_content_def squash_inode_ok_def)
  then show "\<exists>md s'. fe_metadata (squash_frontend lib) cx n s = (Ok md, s') \<and> md_kind md \<noteq> Directory \<and>
      md_size md = length c \<and> squash_content lib s' n c"
    using c by (simp add: squash_metadata_def)
next
  fix s n c off and buf :: bytes
  assume ok: "squash_ok lib s" and c: "squash_content lib s n c" and off: "off < length c" and "buf \<noteq> []" and "length buf < 2 ^ 63"
  then show "\<exists>k s'. fe_read_at (squash_frontend lib) cx n off buf s = (Ok (k, overwrite buf 0 (slice c off (off + k))), s') \<and>
      0 < k \<and> k \<le> length buf \<and> off + k \<le> length c \<and> squash_content lib s' n c"
    using squash_read_at_content [OF ok c, of buf off]
    by (intro exI [of _ "min (length c) (off + length buf) - off"] exI [of _ s]) (auto simp: min_def)
qed


lemma no_panic_dir_run: "no_panic (dir_run listing start n p)"
  by (induction listing start n p rule: dir_run.induct) (auto simp: no_panic_simps Let_def)

lemma no_panic_dir_loop: "no_panic (dir_loop listing p)"
proof (induction listing p rule: dir_loop.induct)
  case (1 listing p)
  then show ?case by (subst dir_loop.simps) (auto simp: no_panic_and_then no_panic_dir_run simp del: dir_run.simps)
qed

lemma squash_read_dir_only_overflow: "squash_ok lib s \<Longrightarrow> only_overflow (fst (squash_read_dir lib d s))"
proof -
  assume ok: "squash_ok lib s"
  then have b: "squash_base s" "table_ok (squash_good lib s) (sq_nodes s) (sq_by_ref s)" by (simp_all add: squash_ok_def)
  have "no_panic (squash_listing lib s v)" for v
    using b(1) by (simp add: squash_listing_def dir_entries_def squash_base_def no_panic_and_then no_panic_read_meta_span
        no_panic_dir_loop split: squash_body.splits)
  then have "only_overflow (children_of (squash_parse_inode lib) (squash_listing lib) s v)" for v
    using only_overflow_fetch_children [where fetch = "squash_parse_inode lib s", OF squash_parse_inode_ok(1) [OF b(1)]]
    by (simp add: children_of_def only_overflow_and_then no_panic_only_overflow)
  then show ?thesis using squash_tree.read_dir_only_overflow [OF b] by blast
qed

lemma squash_open_ok:
  assumes src: "sound_source src"
  shows "only_overflow (squash_open lib src)" and "squash_open lib src = Ok s \<Longrightarrow> squash_ok lib s \<and> sq_src s = src"
proof -
  have sup: "squash_base me \<and> sq_nodes me = [] \<and> sq_by_ref me = [] \<and> sq_src me = src" if "squash_super src = Ok (me, r)" for me r
    using that src by (auto simp: squash_super_def and_then_eq_Ok squash_base_def split: if_splits)
  have "no_panic (squash_codec c)" for c by (simp add: squash_codec_def)
  then have "no_panic (squash_super src)"
    using src by (simp add: squash_super_def no_panic_simps no_panic_src_read)
  then show "only_overflow (squash_open lib src)"
    using sup squash_parse_inode_ok(1) by (auto simp: squash_open_def only_overflow_and_then no_panic_only_overflow split: prod.splits)
  assume "squash_open lib src = Ok s"
  then obtain me r v where o: "squash_super src = Ok (me, r)" "squash_parse_inode lib me r = Ok v" "s = snd (squash_intern r v me)"
    by (auto simp: squash_open_def and_then_eq_Ok split: prod.splits)
  have b: "squash_base me" and t: "table_ok (squash_good lib me) (sq_nodes me) (sq_by_ref me)" and g: "squash_good lib me r v"
    using sup [OF o(1)] o(2) by (simp_all add: squash_good_def)
  have i: "squash_intern r v me = (fst (squash_intern r v me), s)" using o(3) by simp
  note k = squash_table.intern_ok [OF b t g i]
  have "sq_src s = src" using squash_intern_form [of r v me] sup [OF o(1)] o(3) by auto
  then show "squash_ok lib s \<and> sq_src s = src" using k(1,3,4) by (auto simp: squash_ok_def)
qed


end
