(* ===== verification/Squash_Images.thy ===== *)
theory Squash_Images
  imports Squash
begin

text \<open>
  SquashFS structures as they are recorded, and what the reader makes of them: chains of metadata
  blocks, directory listings, and files of sparse, stored and packed blocks with a fragment tail.
\<close>

section \<open>Metadata chains\<close>

text \<open>A metadata block as it stands on the medium: stored, or packed with the bytes it unpacks to.\<close>

datatype meta_form = MetaStored bytes | MetaPacked bytes bytes

fun meta_plain :: "meta_form \<Rightarrow> bytes" where
  "meta_plain (MetaStored b) = b"
| "meta_plain (MetaPacked c b) = b"

fun meta_disk :: "meta_form \<Rightarrow> bytes" where
  "meta_disk (MetaStored b) = to_le 2 (0x8000 + length b) @ b"
| "meta_disk (MetaPacked c b) = to_le 2 (length c) @ c"

fun meta_ok :: "'r codec_lib \<Rightarrow> squash \<Rightarrow> meta_form \<Rightarrow> bool" where
  "meta_ok lib s (MetaStored b) \<longleftrightarrow> b \<noteq> [] \<and> length b < 0x8000"
| "meta_ok lib s (MetaPacked c b) \<longleftrightarrow> b \<noteq> [] \<and> length c < 0x8000 \<and> decode lib (sq_codec s) c META_MAX = Ok b"

lemma meta_header:
  "n < 0x8000 \<Longrightarrow> (0x8000 + n) AND 0x7FFF = (n :: nat)" "n < 0x8000 \<Longrightarrow> (0x8000 + n) AND 0x8000 \<noteq> (0 :: nat)"
  "n < 0x8000 \<Longrightarrow> n AND 0x7FFF = (n :: nat)" "n < 0x8000 \<Longrightarrow> n AND 0x8000 = (0 :: nat)"
proof -
  assume n: "n < 0x8000"
  show "(0x8000 + n) AND 0x7FFF = n" "n AND 0x7FFF = n"
    using n nat_and_mask [of _ 15] by simp_all
  have "(0x8000 + n) AND 0x8000 = 0x8000" "n AND 0x8000 = 0"
    using n nat_and_high [of "0x8000 + n" 15 1] nat_and_high [of n 15 1] by simp_all
  then show "(0x8000 + n) AND 0x8000 \<noteq> 0" "n AND 0x8000 = 0" by simp_all
qed

lemma read_meta_block_recorded:
  assumes src: "sound_source (sq_src s)" and ok: "meta_ok lib s m" and r: "recorded (sq_src s) at (meta_disk m)"
  shows "read_meta_block lib s at = Ok (meta_plain m, at + length (meta_disk m))"
proof -
  obtain h body where m: "meta_disk m = to_le 2 h @ body" "h < 2 ^ 16" "h AND 0x7FFF = length body"
    "(if h AND 0x8000 \<noteq> 0 then Ok body else decode lib (sq_codec s) body META_MAX) = Ok (meta_plain m)"
  proof (cases m)
    case (MetaStored b)
    with ok that [of "0x8000 + length b" b] meta_header [of "length b"] show ?thesis by simp
  next
    case (MetaPacked c b)
    with ok that [of "length c" c] meta_header [of "length c"] show ?thesis by simp
  qed
  have r': "src_read (sq_src s) at 2 = Ok (to_le 2 h)" "src_read (sq_src s) (at + 2) (length body) = Ok body"
    using recorded_append [OF src r [unfolded m(1)]] by (simp_all add: recorded_def)
  have u: "uadd 64 at 2 = Ok (at + 2)" "uadd 64 (at + 2) (length body) = Ok (at + 2 + length body)"
    using recorded_bound [OF src r] m(1) by (simp_all add: uadd_def)
  have le: "from_le (to_le 2 h) = h" using m(2) by (intro from_le_to_le) simp
  show ?thesis
    by (simp only: read_meta_block_def r' u le Let_def and_then.simps m(3,4) m(1) length_append length_to_le add.assoc)
qed

text \<open>Blocks that follow each other from \<open>at\<close> on.\<close>

fun meta_chain :: "'r codec_lib \<Rightarrow> squash \<Rightarrow> nat \<Rightarrow> bytes list \<Rightarrow> bool" where
  "meta_chain lib s at [] \<longleftrightarrow> True"
| "meta_chain lib s at (b # bs) \<longleftrightarrow> b \<noteq> [] \<and> (\<exists>n. read_meta_block lib s at = Ok (b, n) \<and> meta_chain lib s n bs)"

lemma meta_chain_recorded:
  assumes src: "sound_source (sq_src s)"
  shows "\<forall>m \<in> set ms. meta_ok lib s m \<Longrightarrow> recorded (sq_src s) at (concat (map meta_disk ms)) \<Longrightarrow>
    meta_chain lib s at (map meta_plain ms)"
proof (induction ms arbitrary: at)
  case (Cons m ms)
  have r: "recorded (sq_src s) at (meta_disk m)" "recorded (sq_src s) (at + length (meta_disk m)) (concat (map meta_disk ms))"
    using recorded_append [OF src, of at "meta_disk m" "concat (map meta_disk ms)"] Cons.prems(2) by simp_all
  have "meta_plain m \<noteq> []" using Cons.prems(1) by (cases m) simp_all
  then show ?case
    using read_meta_block_recorded [OF src _ r(1)] Cons.IH [OF _ r(2)] Cons.prems(1) by auto
qed simp

lemma meta_span_fetch:
  "length out < len \<Longrightarrow> length block \<le> pos \<Longrightarrow> read_meta_block lib s nxt = Ok (b, n) \<Longrightarrow> b \<noteq> [] \<Longrightarrow>
     meta_span_loop lib s len block nxt pos out = meta_span_loop lib s len b n 0 out"
  by (subst (1 2) meta_span_loop.simps) simp

lemma meta_span_take:
  assumes "length out < len" and "pos < length block" and "tk = min (len - length out) (length block - pos)"
  shows "meta_span_loop lib s len block nxt pos out =
     meta_span_loop lib s len block nxt (pos + tk) (out @ slice block pos (pos + tk))"
  using assms by (subst meta_span_loop.simps) (simp add: Let_def)

lemma meta_span_chain:
  "meta_chain lib s nxt bs \<Longrightarrow> pos \<le> length block \<Longrightarrow> length out \<le> len \<Longrightarrow>
     len - length out \<le> length (drop pos block @ concat bs) \<Longrightarrow>
     meta_span_loop lib s len block nxt pos out = Ok (out @ take (len - length out) (drop pos block @ concat bs))"
proof (induction "len - length out" arbitrary: block nxt pos out bs rule: less_induct)
  case less
  show ?case
  proof (cases "length out = len")
    case True
    then show ?thesis by (subst meta_span_loop.simps) simp
  next
    case False
    then have lt: "length out < len" using less.prems(3) by simp
    have take: "meta_span_loop lib s len block nxt pos out = Ok (out @ take (len - length out) (drop pos block @ concat bs))"
      if "meta_chain lib s nxt bs" "pos < length block" "len - length out \<le> length (drop pos block @ concat bs)" for block nxt pos bs
    proof -
      define tk where "tk = min (len - length out) (length block - pos)"
      let ?out = "out @ slice block pos (pos + tk)"
      have tk: "0 < tk" "tk \<le> len - length out" "pos + tk \<le> length block" using lt that(2) by (auto simp: tk_def)
      have lo: "length ?out = length out + tk" using tk(3) by simp
      have d: "drop pos block = slice block pos (pos + tk) @ drop (pos + tk) block"
        using append_take_drop_id [of tk "drop pos block"] by (simp add: slice_def add.commute)
      have "meta_span_loop lib s len block nxt (pos + tk) ?out =
          Ok (?out @ take (len - length ?out) (drop (pos + tk) block @ concat bs))"
      proof (rule less.hyps [OF _ that(1) tk(3)])
        show "len - length ?out < len - length out" "length ?out \<le> len" using tk lt lo by simp_all
        show "len - length ?out \<le> length (drop (pos + tk) block @ concat bs)" using that(3) tk lo by simp
      qed
      moreover have "?out @ take (len - length ?out) (drop (pos + tk) block @ concat bs) =
          out @ take (len - length out) (drop pos block @ concat bs)"
        using tk lo by (simp add: d)
      ultimately show ?thesis by (simp only: meta_span_take [OF lt that(2) tk_def])
    qed
    show ?thesis
    proof (cases "pos < length block")
      case True
      then show ?thesis using take less.prems(1,4) by blast
    next
      case False
      then have e: "drop pos block = []" "length block \<le> pos" by simp_all
      with less.prems(4) lt obtain b bs' where bs: "bs = b # bs'" by (cases bs) auto
      with less.prems(1) obtain n where n: "read_meta_block lib s nxt = Ok (b, n)" "b \<noteq> []" "meta_chain lib s n bs'" by auto
      have "meta_span_loop lib s len b n 0 out = Ok (out @ take (len - length out) (drop 0 b @ concat bs'))"
        using n less.prems(4) e bs by (intro take) simp_all
      then show ?thesis using meta_span_fetch [OF lt e(2) n(1,2)] e(1) bs by simp
    qed
  qed
qed

lemma read_meta_span_chain:
  assumes "meta_chain lib s at (b # bs)" and "off \<le> length b" and "off + len \<le> length (concat (b # bs))"
    and "len \<le> MAX_BOOT_FILE_BYTES"
  shows "read_meta_span lib s at off len = Ok (slice (concat (b # bs)) off (off + len))"
proof -
  from assms(1) obtain n where n: "read_meta_block lib s at = Ok (b, n)" "meta_chain lib s n bs" by auto
  have "meta_span_loop lib s len b n off [] = Ok (take len (drop off b @ concat bs))"
    using meta_span_chain [OF n(2) assms(2), of "[]" len] assms(2,3) by simp
  moreover have "checked_full_read_len len = Ok len" using assms(4) by (simp add: checked_full_read_len_eq_Ok)
  ultimately show ?thesis using n(1) assms(2) by (simp add: read_meta_span_def slice_def)
qed


text \<open>
  The bytes \<open>bs\<close> stand at place \<open>off\<close> of a chain of metadata blocks that begins at \<open>at\<close>; they may
  cross from block to block.
\<close>

definition meta_recorded :: "'r codec_lib \<Rightarrow> squash \<Rightarrow> nat \<Rightarrow> nat \<Rightarrow> bytes \<Rightarrow> bool" where
  "meta_recorded lib s at off bs \<longleftrightarrow>
     (\<exists>m ms. (\<forall>x \<in> set (m # ms). meta_ok lib s x) \<and> recorded (sq_src s) at (concat (map meta_disk (m # ms))) \<and>
        off \<le> length (meta_plain m) \<and> off + length bs \<le> length (concat (map meta_plain (m # ms))) \<and>
        slice (concat (map meta_plain (m # ms))) off (off + length bs) = bs)"

lemma read_meta_span_recorded:
  assumes src: "sound_source (sq_src s)" and r: "meta_recorded lib s at off bs"
    and "len \<le> length bs" and "len \<le> MAX_BOOT_FILE_BYTES"
  shows "read_meta_span lib s at off len = Ok (take len bs)"
proof -
  from r obtain m ms where m: "\<forall>x \<in> set (m # ms). meta_ok lib s x"
    "recorded (sq_src s) at (concat (map meta_disk (m # ms)))" "off \<le> length (meta_plain m)"
    "off + length bs \<le> length (concat (map meta_plain (m # ms)))"
    "slice (concat (map meta_plain (m # ms))) off (off + length bs) = bs"
    unfolding meta_recorded_def by blast
  have "meta_chain lib s at (meta_plain m # map meta_plain ms)" using meta_chain_recorded [OF src m(1,2)] by simp
  from read_meta_span_chain [OF this m(3), of len] m(4) assms(3,4)
  have "read_meta_span lib s at off len = Ok (slice (concat (map meta_plain (m # ms))) off (off + len))" by simp
  also have "slice (concat (map meta_plain (m # ms))) off (off + len) =
      take len (slice (concat (map meta_plain (m # ms))) off (off + length bs))"
    using assms(3) by (simp add: slice_def min_def)
  finally show ?thesis unfolding m(5) .
qed

lemma meta_recorded_at: "sound_source (sq_src s) \<Longrightarrow> meta_recorded lib s at off bs \<Longrightarrow> at < 2 ^ 63"
  unfolding meta_recorded_def using recorded_bound [of "sq_src s" at] by fastforce

section \<open>Directory listings\<close>

text \<open>
  An entry: the place of its inode in the metadata block that its run names, two fields the reader
  makes no use of, and the name. A run: the entries, the block, and the run's inode number.
\<close>

record sq_dirent =
  se_off :: nat
  se_misc :: bytes
  se_name :: bytes

record sq_run =
  sr_start :: nat
  sr_number :: bytes
  sr_entries :: "sq_dirent list"

definition dirent_encode :: "sq_dirent \<Rightarrow> bytes" where
  "dirent_encode e = to_le 2 (se_off e) @ se_misc e @ to_le 2 (length (se_name e) - 1) @ se_name e"

definition run_encode :: "sq_run \<Rightarrow> bytes" where
  "run_encode r =
     to_le 4 (length (sr_entries r) - 1) @ to_le 4 (sr_start r) @ sr_number r @ concat (map dirent_encode (sr_entries r))"

definition dirent_ok :: "sq_dirent \<Rightarrow> bool" where
  "dirent_ok e \<longleftrightarrow> se_off e < 2 ^ 16 \<and> length (se_misc e) = 4 \<and> se_name e \<noteq> [] \<and> length (se_name e) \<le> 2 ^ 16"

definition run_ok :: "sq_run \<Rightarrow> bool" where
  "run_ok r \<longleftrightarrow> sr_start r < 2 ^ 32 \<and> length (sr_number r) = 4 \<and> sr_entries r \<noteq> [] \<and>
     length (sr_entries r) \<le> 2 ^ 32 \<and> (\<forall>e \<in> set (sr_entries r). dirent_ok e)"

text \<open>What the reader makes of a run: names, and inode references of the block and the place in it.\<close>

definition run_children :: "sq_run \<Rightarrow> (bytes \<times> nat) list" where
  "run_children r = map (\<lambda>e. (from_utf8_lossy (se_name e), push_bit 16 (sr_start r) OR se_off e)) (sr_entries r)"

lemma slice_shift: "slice (pre @ xs @ post) (length pre + i) (length pre + j) = slice (xs @ post) i j"
  by (simp add: slice_def)

lemma dirent_fields:
  assumes "dirent_ok e"
  shows "sq_le_u16 (pre @ dirent_encode e @ post) (length pre) = Ok (se_off e)"
    and "sq_le_u16 (pre @ dirent_encode e @ post) (length pre + 6) = Ok (length (se_name e) - 1)"
    and "get_range (pre @ dirent_encode e @ post) (length pre + 8) (length pre + 8 + length (se_name e)) = Some (se_name e)"
proof -
  let ?d = "pre @ dirent_encode e @ post"
  have w: "length (se_misc e) = 4" "se_off e < 256 ^ 2" "length (se_name e) - 1 < 256 ^ 2"
    using assms by (auto simp: dirent_ok_def)
  have l: "length (dirent_encode e) = 8 + length (se_name e)" using w(1) by (simp add: dirent_encode_def)
  have "slice ?d (length pre) (length pre + 2) = to_le 2 (se_off e)"
    "slice ?d (length pre + 6) (length pre + 6 + 2) = to_le 2 (length (se_name e) - 1)"
    "slice ?d (length pre + 8) (length pre + 8 + length (se_name e)) = se_name e"
    using w(1) slice_shift [of pre "dirent_encode e" post 0 2] slice_shift [of pre "dirent_encode e" post 6 8]
      slice_shift [of pre "dirent_encode e" post 8 "8 + length (se_name e)"]
    by (simp_all add: dirent_encode_def slice_def add.assoc)
  then show "sq_le_u16 ?d (length pre) = Ok (se_off e)" "sq_le_u16 ?d (length pre + 6) = Ok (length (se_name e) - 1)"
    "get_range ?d (length pre + 8) (length pre + 8 + length (se_name e)) = Some (se_name e)"
    using l le_field_at [OF _ _ w(2)] le_field_at [OF _ _ w(3)] by (simp_all add: sq_le_u16_def get_range_def)
qed

lemma dir_run_encode:
  "\<forall>e \<in> set es. dirent_ok e \<Longrightarrow>
     dir_run (pre @ concat (map dirent_encode es) @ post) start (length es) (length pre) =
       Ok (map (\<lambda>e. (from_utf8_lossy (se_name e), push_bit 16 start OR se_off e)) es,
           length (pre @ concat (map dirent_encode es)))"
proof (induction es arbitrary: pre)
  case (Cons e es)
  let ?d = "pre @ dirent_encode e @ (concat (map dirent_encode es) @ post)"
  have ok: "dirent_ok e" using Cons.prems by simp
  note f = dirent_fields [OF ok, of pre "concat (map dirent_encode es) @ post"]
  have l: "length (dirent_encode e) = 8 + length (se_name e)" "length (se_name e) - 1 + 1 = length (se_name e)"
    using ok by (auto simp: dirent_ok_def dirent_encode_def)
  have "dir_run ?d start (length es) (length pre + 8 + length (se_name e)) =
      Ok (map (\<lambda>e. (from_utf8_lossy (se_name e), push_bit 16 start OR se_off e)) es,
          length (pre @ dirent_encode e @ concat (map dirent_encode es)))"
    using Cons.IH [of "pre @ dirent_encode e"] Cons.prems l(1) by (simp add: add.assoc)
  moreover have "\<not> length pre + 8 > length ?d" using l(1) by simp
  ultimately have "dir_run ?d start (Suc (length es)) (length pre) =
      Ok (map (\<lambda>e. (from_utf8_lossy (se_name e), push_bit 16 start OR se_off e)) (e # es),
          length (pre @ dirent_encode e @ concat (map dirent_encode es)))"
    unfolding dir_run.simps if_False Let_def f(1,2) and_then.simps l(2) f(3) by simp
  then show ?case by simp
qed simp

lemma dir_loop_encode:
  "\<forall>r \<in> set rs. run_ok r \<Longrightarrow>
     dir_loop (pre @ concat (map run_encode rs)) (length pre) = Ok (concat (map run_children rs))"
proof (induction rs arbitrary: pre)
  case Nil
  then show ?case by (subst dir_loop.simps) simp
next
  case (Cons r rs)
  let ?rest = "concat (map run_encode rs)"
  define hdr where "hdr = to_le 4 (length (sr_entries r) - 1) @ to_le 4 (sr_start r) @ sr_number r"
  let ?es = "concat (map dirent_encode (sr_entries r))"
  let ?d = "pre @ hdr @ (?es @ ?rest)"
  have ok: "sr_start r < 256 ^ 4" "length (sr_number r) = 4" "length (sr_entries r) - 1 < 256 ^ 4"
    "Suc (length (sr_entries r) - 1) = length (sr_entries r)" "\<forall>e \<in> set (sr_entries r). dirent_ok e"
    using Cons.prems by (auto simp: run_ok_def)
  have l: "length hdr = 12" using ok(2) by (simp add: hdr_def)
  have d: "pre @ concat (map run_encode (r # rs)) = ?d" by (simp add: run_encode_def hdr_def)
  have "slice ?d (length pre) (length pre + 4) = to_le 4 (length (sr_entries r) - 1)"
    "slice ?d (length pre + 4) (length pre + 4 + 4) = to_le 4 (sr_start r)"
    using slice_shift [of pre hdr "?es @ ?rest" 0 4] slice_shift [of pre hdr "?es @ ?rest" 4 8]
    by (simp_all add: hdr_def slice_def add.assoc)
  then have f: "sq_le_u32 ?d (length pre) = Ok (length (sr_entries r) - 1)" "sq_le_u32 ?d (length pre + 4) = Ok (sr_start r)"
    using l le_field_at [OF _ _ ok(3)] le_field_at [OF _ _ ok(1)] by (simp_all add: sq_le_u32_def)
  have run: "dir_run ?d (sr_start r) (length (sr_entries r)) (length pre + 12) =
      Ok (run_children r, length (pre @ hdr @ ?es))"
    using dir_run_encode [OF ok(5), of "pre @ hdr" ?rest "sr_start r"] l by (simp add: run_children_def)
  have IH: "dir_loop ?d (length (pre @ hdr @ ?es)) = Ok (concat (map run_children rs))"
    using Cons.IH [of "pre @ hdr @ ?es"] Cons.prems by simp
  have "length pre + 12 \<le> length ?d" using l by simp
  then have "dir_loop ?d (length pre) = Ok (run_children r @ concat (map run_children rs))"
    by (subst dir_loop.simps) (simp only: if_True f and_then.simps ok(4) run fst_conv snd_conv IH)
  then show ?case unfolding d by simp
qed

lemma squash_listing_recorded:
  assumes src: "sound_source (sq_src s)" and body: "sq_body dir = SqDir at off sz"
    and data: "meta_recorded lib s at off (concat (map run_encode rs))" "sz - 3 = length (concat (map run_encode rs))"
    and cap: "sz - 3 \<le> MAX_BOOT_FILE_BYTES" and rs: "\<forall>r \<in> set rs. run_ok r"
  shows "squash_listing lib s dir = Ok (concat (map run_children rs))"
  using read_meta_span_recorded [OF src data(1) _ cap] dir_loop_encode [OF rs, of "[]"] data(2) body
  by (simp add: squash_listing_def dir_entries_def)


section \<open>Files\<close>

text \<open>
  A block of a file: a hole, stored or packed. The raw size of the source's block list is its
  length on the medium, with a flag when it is stored.
\<close>

datatype chunk = Hole nat | Stored bytes | Packed bytes bytes

fun chunk_plain :: "chunk \<Rightarrow> bytes" where
  "chunk_plain (Hole n) = replicate n 0"
| "chunk_plain (Stored b) = b"
| "chunk_plain (Packed c b) = b"

fun chunk_disk :: "chunk \<Rightarrow> bytes" where
  "chunk_disk (Hole n) = []"
| "chunk_disk (Stored b) = b"
| "chunk_disk (Packed c b) = c"

fun chunk_raw :: "chunk \<Rightarrow> nat" where
  "chunk_raw (Hole n) = 0"
| "chunk_raw (Stored b) = 2 ^ 24 + length b"
| "chunk_raw (Packed c b) = length c"

fun chunk_ok :: "'r codec_lib \<Rightarrow> squash \<Rightarrow> chunk \<Rightarrow> bool" where
  "chunk_ok lib s (Hole n) \<longleftrightarrow> True"
| "chunk_ok lib s (Stored b) \<longleftrightarrow> b \<noteq> [] \<and> length b < 2 ^ 24"
| "chunk_ok lib s (Packed c b) \<longleftrightarrow> c \<noteq> [] \<and> length c < 2 ^ 24 \<and> decode lib (sq_codec s) c (sq_block_size s) = Ok b"

lemma chunk_raw_bits:
  assumes "chunk_ok lib s c"
  shows "chunk_raw c AND SIZE_MASK = length (chunk_disk c)" and "chunk_raw c < 2 ^ 32"
    and "chunk_raw c AND SIZE_UNCOMPRESSED \<noteq> 0 \<longleftrightarrow> (\<exists>b. c = Stored b)"
proof -
  have m: "n AND SIZE_MASK = n mod 2 ^ 24" for n using nat_and_mask [of n 24] by (simp add: SIZE_MASK_def)
  have h: "n AND SIZE_UNCOMPRESSED = n div 2 ^ 24 * 2 ^ 24" if "n < 2 ^ 25" for n
    using nat_and_high [of n 24 1] that by (simp add: SIZE_UNCOMPRESSED_def)
  show "chunk_raw c AND SIZE_MASK = length (chunk_disk c)" "chunk_raw c < 2 ^ 32"
    using assms by (cases c; simp add: m)+
  show "chunk_raw c AND SIZE_UNCOMPRESSED \<noteq> 0 \<longleftrightarrow> (\<exists>b. c = Stored b)"
    using assms h [of "chunk_raw c"] by (cases c) simp_all
qed

lemma read_data_block_recorded:
  assumes ok: "chunk_ok lib s c" and r: "recorded (sq_src s) at (chunk_disk c)" and "\<forall>n. c \<noteq> Hole n"
  shows "read_data_block lib s at (chunk_raw c) = Ok (chunk_plain c)" and "chunk_raw c AND SIZE_MASK \<noteq> 0"
proof -
  note b = chunk_raw_bits [OF ok]
  have ne: "chunk_disk c \<noteq> []" using ok assms(3) by (cases c) auto
  then show "chunk_raw c AND SIZE_MASK \<noteq> 0" by (simp add: b(1))
  have "(if chunk_raw c AND SIZE_UNCOMPRESSED \<noteq> 0 then Ok (chunk_disk c)
      else decode lib (sq_codec s) (chunk_disk c) (sq_block_size s)) = Ok (chunk_plain c)"
    unfolding b(3) using ok assms(3) by (cases c) auto
  then show "read_data_block lib s at (chunk_raw c) = Ok (chunk_plain c)"
    using r ne unfolding read_data_block_def Let_def b(1) recorded_def by simp
qed

lemma block_offsets_recorded:
  assumes src: "sound_source (sq_src s)"
  shows "\<forall>c \<in> set cs. chunk_ok lib s c \<Longrightarrow> recorded (sq_src s) at (concat (map chunk_disk cs)) \<Longrightarrow>
    \<exists>os. block_offsets at (map chunk_raw cs) = Ok os \<and> length os = length cs \<and>
      (\<forall>i < length cs. recorded (sq_src s) (os ! i) (chunk_disk (cs ! i)))"
proof (induction cs arbitrary: at)
  case (Cons c cs)
  have r: "recorded (sq_src s) at (chunk_disk c)"
    "recorded (sq_src s) (at + length (chunk_disk c)) (concat (map chunk_disk cs))"
    using recorded_append [OF src, of at "chunk_disk c" "concat (map chunk_disk cs)"] Cons.prems(2) by simp_all
  from Cons.IH [OF _ r(2)] Cons.prems(1) obtain os where os:
    "block_offsets (at + length (chunk_disk c)) (map chunk_raw cs) = Ok os" "length os = length cs"
    "\<forall>i < length cs. recorded (sq_src s) (os ! i) (chunk_disk (cs ! i))" by auto
  have m: "chunk_raw c AND SIZE_MASK = length (chunk_disk c)" using chunk_raw_bits(1) Cons.prems(1) by auto
  have "at + length (chunk_disk c) < 2 ^ 64" using recorded_bound [OF src r(1)] by simp
  then have "block_offsets at (map chunk_raw (c # cs)) = Ok (at # os)" using os(1) m by (simp add: uadd_def)
  moreover have "\<forall>i < length (c # cs). recorded (sq_src s) ((at # os) ! i) (chunk_disk ((c # cs) ! i))"
    using os(3) r(1) by (auto simp: nth_Cons split: nat.splits)
  ultimately show ?case using os(2) by simp
qed simp


text \<open>
  A file: its blocks, all of the volume's block size except that a file without a fragment may end
  in a shorter one, and the tail that a fragment holds.
\<close>

record sq_file =
  qf_ext :: bool
  qf_misc :: bytes
  qf_start :: nat
  qf_frag :: nat
  qf_frag_off :: nat
  qf_chunks :: "chunk list"
  qf_tail :: bytes

definition qf_content :: "sq_file \<Rightarrow> bytes" where
  "qf_content f = concat (map chunk_plain (qf_chunks f)) @ qf_tail f"

definition file_layout :: "nat \<Rightarrow> sq_file \<Rightarrow> bool" where
  "file_layout bs f \<longleftrightarrow>
     length (qf_tail f) < bs \<and> (qf_tail f \<noteq> [] \<longrightarrow> qf_frag f \<noteq> NO_FRAGMENT) \<and>
     (\<forall>i < length (qf_chunks f).
        if Suc i = length (qf_chunks f) \<and> qf_frag f = NO_FRAGMENT
        then 0 < length (chunk_plain (qf_chunks f ! i)) \<and> length (chunk_plain (qf_chunks f ! i)) \<le> bs
        else length (chunk_plain (qf_chunks f ! i)) = bs)"

lemma concat_full:
  "\<forall>i < n. length (xs ! i) = bs \<Longrightarrow> n \<le> length xs \<Longrightarrow> length (concat (take n xs)) = n * bs"
proof (induction n)
  case (Suc n)
  then have "take (Suc n) xs = take n xs @ [xs ! n]" by (simp add: take_Suc_conv_app_nth)
  with Suc show ?case by simp
qed simp

lemma file_layout_full:
  assumes "file_layout bs f" and "i < length (qf_chunks f)" and "Suc i \<noteq> length (qf_chunks f) \<or> qf_frag f \<noteq> NO_FRAGMENT"
  shows "length (chunk_plain (qf_chunks f ! i)) = bs"
  using assms by (auto simp: file_layout_def)

text \<open>Where the content of a block stands in the file's, and that the blocks are as many as the sizes say.\<close>

lemma qf_content_block:
  assumes lay: "file_layout bs f" and i: "i < length (qf_chunks f)"
  shows "slice (qf_content f) (i * bs) (min ((i + 1) * bs) (length (qf_content f))) = chunk_plain (qf_chunks f ! i)"
    and "min bs (length (qf_content f) - i * bs) = length (chunk_plain (qf_chunks f ! i))"
proof -
  let ?p = "map chunk_plain (qf_chunks f)"
  let ?pre = "concat (take i ?p)" and ?post = "concat (drop (Suc i) ?p) @ qf_tail f"
  let ?b = "chunk_plain (qf_chunks f ! i)"
  have c: "qf_content f = ?pre @ ?b @ ?post"
    using i id_take_nth_drop [of i ?p] by (metis (no_types, lifting) append.assoc concat.simps(2) concat_append length_map nth_map qf_content_def)
  have lp: "length ?pre = i * bs"
    using lay i file_layout_full [OF lay] by (intro concat_full) auto
  have b: "length ?b \<le> bs" using lay i by (auto simp: file_layout_def split: if_splits)
  have full: "length ?b = bs" if "?post \<noteq> []"
  proof (rule file_layout_full [OF lay i])
    show "Suc i \<noteq> length (qf_chunks f) \<or> qf_frag f \<noteq> NO_FRAGMENT" using that lay by (auto simp: file_layout_def)
  qed
  have lc: "length (qf_content f) = i * bs + length ?b + length ?post" using lp unfolding c by simp
  have m: "min ((i + 1) * bs) (length (qf_content f)) = i * bs + length ?b"
  proof (cases "?post = []")
    case True
    then have "length (qf_content f) = i * bs + length ?b" using lc by (simp only: list.size add_0_right)
    then show ?thesis using b by (simp add: min_def)
  next
    case False
    then show ?thesis using lc full by (simp add: min_def del: length_append length_concat)
  qed
  show "slice (qf_content f) (i * bs) (min ((i + 1) * bs) (length (qf_content f))) = ?b"
    unfolding m unfolding c by (rule slice_middle [OF lp])
  show "min bs (length (qf_content f) - i * bs) = length ?b" using m lc b by (simp add: min_def split: if_splits)
qed

lemma qf_content_length:
  assumes lay: "file_layout bs f" and "qf_frag f \<noteq> NO_FRAGMENT"
  shows "length (qf_content f) = length (qf_chunks f) * bs + length (qf_tail f)"
proof -
  have "\<forall>i < length (qf_chunks f). length (map chunk_plain (qf_chunks f) ! i) = bs"
    using file_layout_full [OF lay] assms(2) by simp
  from concat_full [OF this, of] show ?thesis by (simp add: qf_content_def)
qed

lemma qf_block_count:
  assumes lay: "file_layout (sq_block_size s) f" and bs: "0 < sq_block_size s"
  shows "block_count s (length (qf_content f)) (qf_frag f) = Ok (length (qf_chunks f))"
proof (cases "qf_frag f = NO_FRAGMENT")
  case False
  then show ?thesis using qf_content_length [OF lay False] lay bs by (simp add: block_count_def udiv_def file_layout_def)
next
  case True
  let ?bs = "sq_block_size s"
  have t: "qf_tail f = []" using lay True by (auto simp: file_layout_def)
  show ?thesis
  proof (cases "length (qf_chunks f)")
    case 0
    then show ?thesis using t True bs by (simp add: block_count_def udiv_ceil_def div_ceil_def qf_content_def)
  next
    case (Suc n)
    have "\<forall>i < n. length (map chunk_plain (qf_chunks f) ! i) = ?bs" using file_layout_full [OF lay] Suc by simp
    from concat_full [OF this] Suc have "length (concat (take n (map chunk_plain (qf_chunks f)))) = n * ?bs" by simp
    moreover have "map chunk_plain (qf_chunks f) = take n (map chunk_plain (qf_chunks f)) @ [chunk_plain (qf_chunks f ! n)]"
      using Suc take_Suc_conv_app_nth [of n "map chunk_plain (qf_chunks f)"] by simp
    then have "qf_content f = concat (take n (map chunk_plain (qf_chunks f))) @ chunk_plain (qf_chunks f ! n)"
      using t by (metis append.right_neutral concat.simps concat_append qf_content_def)
    moreover have "0 < length (chunk_plain (qf_chunks f ! n)) \<and> length (chunk_plain (qf_chunks f ! n)) \<le> ?bs"
      using lay Suc True by (auto simp: file_layout_def)
    ultimately obtain k where k: "length (qf_content f) = n * ?bs + k" "0 < k" "k \<le> ?bs" by simp
    have "div_ceil (n * ?bs + k) ?bs = Suc n"
    proof (cases "k = ?bs")
      case True
      then have "n * ?bs + k = Suc n * ?bs" by simp
      then show ?thesis using bs by (simp only: div_ceil_def) simp
    next
      case False
      then show ?thesis using k bs by (simp add: div_ceil_def)
    qed
    then show ?thesis using True Suc k(1) bs by (simp add: block_count_def udiv_ceil_def)
  qed
qed

lemma file_content_recorded:
  assumes src: "sound_source (sq_src s)" and lay: "file_layout (sq_block_size s) f" and bs: "0 < sq_block_size s"
    and cs: "\<forall>c \<in> set (qf_chunks f). chunk_ok lib s c" "recorded (sq_src s) (qf_start f) (concat (map chunk_disk (qf_chunks f)))"
    and tail: "qf_tail f \<noteq> [] \<Longrightarrow> read_fragment lib s (qf_frag f) = Ok frag \<and>
      qf_frag_off f + length (qf_tail f) \<le> length frag \<and>
      slice frag (qf_frag_off f) (qf_frag_off f + length (qf_tail f)) = qf_tail f"
    and offs: "block_offsets (qf_start f) (map chunk_raw (qf_chunks f)) = Ok os"
    and idx: "idx * sq_block_size s < length (qf_content f)"
  shows "file_piece lib s (map chunk_raw (qf_chunks f)) os (qf_frag f) (qf_frag_off f) idx 0
      (min (sq_block_size s) (length (qf_content f) - idx * sq_block_size s)) =
    Ok (slice (qf_content f) (idx * sq_block_size s) (min ((idx + 1) * sq_block_size s) (length (qf_content f))))"
proof (cases "idx < length (qf_chunks f)")
  case True
  let ?c = "qf_chunks f ! idx"
  from block_offsets_recorded [OF src cs] offs have os: "length os = length (qf_chunks f)"
    "recorded (sq_src s) (os ! idx) (chunk_disk ?c)" using True by auto
  have ok: "chunk_ok lib s ?c" using cs(1) True by simp
  have "file_piece lib s (map chunk_raw (qf_chunks f)) os (qf_frag f) (qf_frag_off f) idx 0 (length (chunk_plain ?c)) =
      Ok (chunk_plain ?c)"
  proof (cases "\<exists>n. ?c = Hole n")
    case h: True
    then show ?thesis using True by (auto simp: file_piece_def get_at_def)
  next
    case False
    then show ?thesis using True os read_data_block_recorded [OF ok os(2)]
      by (simp add: file_piece_def get_at_def index_at_def get_range_def)
  qed
  then show ?thesis by (simp only: qf_content_block [OF lay True])
next
  case False
  have "qf_frag f \<noteq> NO_FRAGMENT"
  proof
    assume "qf_frag f = NO_FRAGMENT"
    then have "div_ceil (length (qf_content f)) (sq_block_size s) = length (qf_chunks f)"
      using qf_block_count [OF lay bs] bs by (simp add: block_count_def udiv_ceil_def)
    then have "length (qf_content f) \<le> length (qf_chunks f) * sq_block_size s" using div_ceil_mult_ge [OF bs] by metis
    also have "\<dots> \<le> idx * sq_block_size s" using False by simp
    finally show False using idx by simp
  qed
  note l = qf_content_length [OF lay this]
  have tl: "length (qf_tail f) < sq_block_size s" using lay by (simp add: file_layout_def)
  have i: "idx = length (qf_chunks f)"
  proof (rule ccontr)
    assume "idx \<noteq> length (qf_chunks f)"
    with False have "Suc (length (qf_chunks f)) * sq_block_size s \<le> idx * sq_block_size s" by (intro mult_le_mono1) simp
    with idx l tl show False by simp
  qed
  then have ne: "qf_tail f \<noteq> []" using idx l by auto
  have "length (concat (map chunk_plain (qf_chunks f))) = length (qf_chunks f) * sq_block_size s"
    using l by (simp add: qf_content_def)
  then have sl: "slice (qf_content f) (idx * sq_block_size s) (min ((idx + 1) * sq_block_size s) (length (qf_content f))) = qf_tail f"
    using tl i by (simp add: qf_content_def slice_def)
  show ?thesis unfolding sl using tail [OF ne] i l tl \<open>qf_frag f \<noteq> NO_FRAGMENT\<close>
    by (simp add: file_piece_def get_at_def get_range_def min_def)
qed


text \<open>The inode of a file, basic or extended, as it stands in the inode table.\<close>

definition qf_encode :: "sq_file \<Rightarrow> bytes" where
  "qf_encode f =
     (if qf_ext f then
        to_le 2 9 @ qf_misc f @ to_le 8 (qf_start f) @ to_le 8 (length (qf_content f)) @ replicate 12 0 @
        to_le 4 (qf_frag f) @ to_le 4 (qf_frag_off f) @ replicate 4 0
      else
        to_le 2 2 @ qf_misc f @ to_le 4 (qf_start f) @ to_le 4 (qf_frag f) @ to_le 4 (qf_frag_off f) @
        to_le 4 (length (qf_content f))) @
     concat (map (\<lambda>c. to_le 4 (chunk_raw c)) (qf_chunks f))"

definition qf_ok :: "'r codec_lib \<Rightarrow> squash \<Rightarrow> sq_file \<Rightarrow> bool" where
  "qf_ok lib s f \<longleftrightarrow>
     length (qf_misc f) = 14 \<and> qf_frag f < 2 ^ 32 \<and> qf_frag_off f < 2 ^ 32 \<and>
     qf_start f < 2 ^ (if qf_ext f then 64 else 32) \<and> length (qf_content f) < 2 ^ (if qf_ext f then 63 else 32) \<and>
     56 + length (qf_chunks f) * 4 \<le> MAX_BOOT_FILE_BYTES \<and>
     file_layout (sq_block_size s) f \<and> (\<forall>c \<in> set (qf_chunks f). chunk_ok lib s c)"

lemma size_table:
  assumes "length hdr = h" and "\<forall>x \<in> set xs. x < 2 ^ 32"
  shows "map_result (\<lambda>i. sq_le_u32 (hdr @ concat (map (to_le 4) xs)) (h + i * 4)) [0..<length xs] = Ok xs"
proof -
  have "sq_le_u32 (hdr @ concat (map (to_le 4) xs)) (h + i * 4) = Ok (xs ! i)" if i: "i < length xs" for i
  proof -
    have x: "xs ! i < 256 ^ 4" using assms(2) i by simp
    have e: "map (to_le 4) xs = take i (map (to_le 4) xs) @ to_le 4 (xs ! i) # drop (Suc i) (map (to_le 4) xs)"
      using id_take_nth_drop [of i "map (to_le 4) xs"] i by simp
    define pre where "pre = hdr @ concat (take i (map (to_le 4) xs))"
    define post where "post = concat (drop (Suc i) (map (to_le 4) xs))"
    have d: "hdr @ concat (map (to_le 4) xs) = pre @ to_le 4 (xs ! i) @ post"
      by (subst e) (simp add: pre_def post_def)
    have "length (concat (take i (map (to_le 4) xs))) = i * 4" using i by (intro concat_full) auto
    then have l: "length pre = h + i * 4" using assms(1) by (simp add: pre_def)
    show ?thesis unfolding d sq_le_u32_def
      using slice_middle [OF l, of "to_le 4 (xs ! i)" post] l by (intro le_field_at [OF _ _ x]) simp_all
  qed
  then have "map_result (\<lambda>i. sq_le_u32 (hdr @ concat (map (to_le 4) xs)) (h + i * 4)) [0..<length xs] = Ok (map ((!) xs) [0..<length xs])"
    by (intro map_result_Ok) simp
  then show ?thesis by (simp add: map_nth)
qed

lemma file_inode_recorded:
  assumes src: "sound_source (sq_src s)" and bs: "0 < sq_block_size s" and ok: "qf_ok lib s f"
    and h: "qf_encode f = hdr @ concat (map (\<lambda>c. to_le 4 (chunk_raw c)) (qf_chunks f))" "length hdr = head" "head \<le> 56"
    and r: "meta_recorded lib s at off (qf_encode f)" and offs: "block_offsets (qf_start f) (map chunk_raw (qf_chunks f)) = Ok os"
  shows "file_inode lib s at off head (qf_start f) (length (qf_content f)) (qf_frag f) (qf_frag_off f) =
    Ok \<lparr>sq_kind = Regular, sq_size = length (qf_content f),
        sq_body = SqFile (map chunk_raw (qf_chunks f)) os (qf_frag f) (qf_frag_off f)\<rparr>"
proof -
  let ?n = "length (qf_chunks f)"
  have n: "block_count s (length (qf_content f)) (qf_frag f) = Ok ?n" using qf_block_count [OF _ bs] ok by (simp add: qf_ok_def)
  have cap: "head + ?n * 4 \<le> MAX_BOOT_FILE_BYTES" using ok h(3) by (simp add: qf_ok_def)
  have "concat (map (\<lambda>c. to_le 4 (chunk_raw c)) (qf_chunks f)) = concat (map (to_le 4) (map chunk_raw (qf_chunks f)))"
    by (simp add: comp_def)
  then have e: "qf_encode f = hdr @ concat (map (to_le 4) (map chunk_raw (qf_chunks f)))" using h(1) by simp
  have "length (concat (map (to_le 4) (map chunk_raw (qf_chunks f)))) = ?n * 4"
    by (induction "qf_chunks f") (simp_all add: length_concat sum_list_triv comp_def)
  then have l: "length (qf_encode f) = head + ?n * 4" using h(2) e by simp
  have span: "read_meta_span lib s at off (head + ?n * 4) = Ok (qf_encode f)"
    using read_meta_span_recorded [OF src r _ cap] l by simp
  have "\<forall>x \<in> set (map chunk_raw (qf_chunks f)). x < 2 ^ 32" using ok chunk_raw_bits(2) by (auto simp: qf_ok_def)
  from size_table [OF h(2) this]
  have t: "map_result (\<lambda>i. sq_le_u32 (qf_encode f) (head + i * 4)) [0..<?n] = Ok (map chunk_raw (qf_chunks f))"
    unfolding e by simp
  have u: "umul 64 ?n 4 = Ok (?n * 4)" "uadd 64 head (?n * 4) = Ok (head + ?n * 4)"
    using cap by (simp_all add: umul_def uadd_def MAX_BOOT_FILE_BYTES_def)
  show ?thesis by (simp only: file_inode_def Let_def n u and_then.simps span t offs)
qed


lemma parse_inode_recorded:
  assumes src: "sound_source (sq_src s)" and bs: "0 < sq_block_size s" and ok: "qf_ok lib s f"
    and at: "sq_inode_table s + drop_bit 16 k < 2 ^ 64"
    and r: "meta_recorded lib s (sq_inode_table s + drop_bit 16 k) (k AND 0xFFFF) (qf_encode f)"
    and offs: "block_offsets (qf_start f) (map chunk_raw (qf_chunks f)) = Ok os"
  shows "squash_parse_inode lib s k =
    Ok \<lparr>sq_kind = Regular, sq_size = length (qf_content f),
        sq_body = SqFile (map chunk_raw (qf_chunks f)) os (qf_frag f) (qf_frag_off f)\<rparr>"
proof -
  let ?at = "sq_inode_table s + drop_bit 16 k" and ?off = "k AND 0xFFFF"
  let ?tab = "concat (map (\<lambda>c. to_le 4 (chunk_raw c)) (qf_chunks f))"
  have u: "uadd 64 (sq_inode_table s) (drop_bit 16 k) = Ok ?at" using at by (simp add: uadd_def)
  have m: "length (qf_misc f) = 14" "qf_frag f < 256 ^ 4" "qf_frag_off f < 256 ^ 4"
    using ok by (simp_all add: qf_ok_def)
  have sp: "read_meta_span lib s ?at ?off len = Ok (take len (qf_encode f))" if "len \<le> length (qf_encode f)" "len \<le> 56" for len
    using read_meta_span_recorded [OF src r that(1)] that(2) by (simp add: MAX_BOOT_FILE_BYTES_def)
  show ?thesis
  proof (cases "qf_ext f")
    case True
    define hdr where "hdr = to_le 2 9 @ qf_misc f @ to_le 8 (qf_start f) @ to_le 8 (length (qf_content f)) @ replicate 12 0 @
        to_le 4 (qf_frag f) @ to_le 4 (qf_frag_off f) @ replicate 4 0"
    have h: "qf_encode f = hdr @ ?tab" "length hdr = 56" using True m(1) by (simp_all add: qf_encode_def hdr_def)
    have w: "qf_start f < 256 ^ 8" "length (qf_content f) < 256 ^ 8" using ok True by (simp_all add: qf_ok_def)
    have s: "take 2 (take 16 hdr) = to_le 2 9" "slice hdr 16 24 = to_le 8 (qf_start f)"
      "slice hdr 24 32 = to_le 8 (length (qf_content f))" "slice hdr 44 48 = to_le 4 (qf_frag f)"
      "slice hdr 48 52 = to_le 4 (qf_frag_off f)"
      using m(1) by (simp_all add: hdr_def slice_def)
    have "sq_le_u16 (take 16 hdr) 0 = Ok 9" "sq_le_u64 hdr 16 = Ok (qf_start f)" "sq_le_u64 hdr 24 = Ok (length (qf_content f))"
      "sq_le_u32 hdr 44 = Ok (qf_frag f)" "sq_le_u32 hdr 48 = Ok (qf_frag_off f)"
      using s h(2) le_field_at_0 [of 2 "take 16 hdr" 9] le_field_at [OF _ _ w(1), of hdr 16] le_field_at [OF _ _ w(2), of hdr 24]
        le_field_at [OF _ _ m(2), of hdr 44] le_field_at [OF _ _ m(3), of hdr 48]
      by (simp_all add: sq_le_u16_def sq_le_u32_def sq_le_u64_def)
    note f = this
    have sps: "read_meta_span lib s ?at ?off 16 = Ok (take 16 hdr)" "read_meta_span lib s ?at ?off 56 = Ok hdr"
      using sp [of 16] sp [of 56] h by simp_all
    note fi = file_inode_recorded [OF src bs ok h _ r offs]
    have ty: "(9 = (1 :: nat)) = False" "(9 = (8 :: nat)) = False" "(9 = (2 :: nat)) = False" "(9 = (9 :: nat)) = True" by simp_all
    show ?thesis
      unfolding squash_parse_inode_def Let_def u and_then.simps sps f ty if_False if_True using fi by simp
  next
    case False
    define hdr where "hdr = to_le 2 2 @ qf_misc f @ to_le 4 (qf_start f) @ to_le 4 (qf_frag f) @ to_le 4 (qf_frag_off f) @
        to_le 4 (length (qf_content f))"
    have h: "qf_encode f = hdr @ ?tab" "length hdr = 32" using False m(1) by (simp_all add: qf_encode_def hdr_def)
    have w: "qf_start f < 256 ^ 4" "length (qf_content f) < 256 ^ 4" using ok False by (simp_all add: qf_ok_def)
    have s: "take 2 (take 16 hdr) = to_le 2 2" "slice hdr 16 20 = to_le 4 (qf_start f)"
      "slice hdr 20 24 = to_le 4 (qf_frag f)" "slice hdr 24 28 = to_le 4 (qf_frag_off f)"
      "slice hdr 28 32 = to_le 4 (length (qf_content f))"
      using m(1) by (simp_all add: hdr_def slice_def)
    have "sq_le_u16 (take 16 hdr) 0 = Ok 2" "sq_le_u32 hdr 16 = Ok (qf_start f)" "sq_le_u32 hdr 28 = Ok (length (qf_content f))"
      "sq_le_u32 hdr 20 = Ok (qf_frag f)" "sq_le_u32 hdr 24 = Ok (qf_frag_off f)"
      using s h(2) le_field_at_0 [of 2 "take 16 hdr" 2] le_field_at [OF _ _ w(1), of hdr 16] le_field_at [OF _ _ w(2), of hdr 28]
        le_field_at [OF _ _ m(2), of hdr 20] le_field_at [OF _ _ m(3), of hdr 24]
      by (simp_all add: sq_le_u16_def sq_le_u32_def)
    note f = this
    have sps: "read_meta_span lib s ?at ?off 16 = Ok (take 16 hdr)" "read_meta_span lib s ?at ?off 32 = Ok hdr"
      using sp [of 16] sp [of 32] h by simp_all
    note fi = file_inode_recorded [OF src bs ok h _ r offs]
    have ty: "(2 = (1 :: nat)) = False" "(2 = (8 :: nat)) = False" "(2 = (2 :: nat)) = True" by simp_all
    show ?thesis
      unfolding squash_parse_inode_def Let_def u and_then.simps sps f ty if_False if_True using fi by simp
  qed
qed

text \<open>
  The bytes of the fragment block \<open>idx\<close>: the pointer in the table, the entry in a metadata chain,
  and the block.
\<close>

definition fragment_recorded :: "'r codec_lib \<Rightarrow> squash \<Rightarrow> nat \<Rightarrow> bytes \<Rightarrow> bool" where
  "fragment_recorded lib s idx frag \<longleftrightarrow>
     (\<exists>ptr start c rest. ptr < 2 ^ 64 \<and> start < 2 ^ 64 \<and> length rest = 4 \<and> chunk_ok lib s c \<and> (\<forall>n. c \<noteq> Hole n) \<and>
        recorded (sq_src s) (sq_fragment_table s + idx div 512 * 8) (to_le 8 ptr) \<and>
        meta_recorded lib s ptr (idx mod 512 * 16) (to_le 8 start @ to_le 4 (chunk_raw c) @ rest) \<and>
        recorded (sq_src s) start (chunk_disk c) \<and> frag = chunk_plain c)"

lemma read_fragment_recorded:
  assumes src: "sound_source (sq_src s)" and "fragment_recorded lib s idx frag"
  shows "read_fragment lib s idx = Ok frag"
proof -
  from assms(2) obtain ptr start c rest where
    w: "ptr < 256 ^ 8" "start < 256 ^ 8" "length rest = 4" and c: "chunk_ok lib s c" "\<forall>n. c \<noteq> Hole n"
    and r: "recorded (sq_src s) (sq_fragment_table s + idx div 512 * 8) (to_le 8 ptr)"
      "meta_recorded lib s ptr (idx mod 512 * 16) (to_le 8 start @ to_le 4 (chunk_raw c) @ rest)"
      "recorded (sq_src s) start (chunk_disk c)" and frag: "frag = chunk_plain c"
    by (auto simp: fragment_recorded_def)
  define fe where "fe = to_le 8 start @ to_le 4 (chunk_raw c) @ rest"
  have lf: "length fe = 16" using w(3) by (simp add: fe_def)
  have u: "uadd 64 (sq_fragment_table s) (idx div 512 * 8) = Ok (sq_fragment_table s + idx div 512 * 8)"
    using recorded_bound [OF src r(1)] by (simp add: uadd_def)
  have ptr: "src_read (sq_src s) (sq_fragment_table s + idx div 512 * 8) 8 = Ok (to_le 8 ptr)" "from_le (to_le 8 ptr) = ptr"
    using r(1) from_le_to_le [OF w(1)] by (simp_all add: recorded_def)
  have sp: "read_meta_span lib s ptr (idx mod 512 * 16) 16 = Ok fe"
    using read_meta_span_recorded [OF src r(2), of 16] lf by (simp add: fe_def MAX_BOOT_FILE_BYTES_def)
  have rw: "chunk_raw c < 256 ^ 4" using chunk_raw_bits(2) [OF c(1)] by simp
  have "slice fe 0 8 = to_le 8 start" "slice fe 8 12 = to_le 4 (chunk_raw c)" by (simp_all add: fe_def slice_def)
  then have f: "sq_le_u64 fe 0 = Ok start" "sq_le_u32 fe 8 = Ok (chunk_raw c)"
    using lf le_field_at [OF _ _ w(2), of fe 0] le_field_at [OF _ _ rw, of fe 8] by (simp_all add: sq_le_u64_def sq_le_u32_def)
  show ?thesis
    by (simp only: read_fragment_def u and_then.simps ptr sp f read_data_block_recorded(1) [OF c(1) r(3) c(2)] frag)
qed


lemma squash_recorded_content:
  assumes ok: "squash_ok lib s" and k: "bm_get (sq_by_ref s) k = Some n"
    and inode: "meta_recorded lib s (sq_inode_table s + drop_bit 16 k) (k AND 0xFFFF) (qf_encode f)" "qf_ok lib s f"
    and data: "recorded (sq_src s) (qf_start f) (concat (map chunk_disk (qf_chunks f)))"
    and tail: "qf_tail f \<noteq> [] \<longrightarrow> (\<exists>frag. fragment_recorded lib s (qf_frag f) frag \<and>
      qf_frag_off f + length (qf_tail f) \<le> length frag \<and>
      slice frag (qf_frag_off f) (qf_frag_off f + length (qf_tail f)) = qf_tail f)"
  shows "squash_content lib s n (qf_content f)"
proof -
  have src: "sound_source (sq_src s)" and bs: "0 < sq_block_size s" using ok by (simp_all add: squash_ok_def squash_base_def)
  have lay: "file_layout (sq_block_size s) f" and cs: "\<forall>c \<in> set (qf_chunks f). chunk_ok lib s c"
    using inode(2) by (simp_all add: qf_ok_def)
  from block_offsets_recorded [OF src cs data] obtain os where
    os: "block_offsets (qf_start f) (map chunk_raw (qf_chunks f)) = Ok os" by blast
  have at: "sq_inode_table s + drop_bit 16 k < 2 ^ 64" using meta_recorded_at [OF src inode(1)] by simp
  have t: "table_ok (squash_good lib s) (sq_nodes s) (sq_by_ref s)" using ok by (simp add: squash_ok_def)
  from table_okD(2) [OF t k] parse_inode_recorded [OF src bs inode(2) at inode(1) os]
  have i: "squash_inode_of s n = Ok \<lparr>sq_kind = Regular, sq_size = length (qf_content f),
      sq_body = SqFile (map chunk_raw (qf_chunks f)) os (qf_frag f) (qf_frag_off f)\<rparr>"
    by (simp add: squash_good_def squash_inode_of_def get_at_def)
  from tail obtain frag where frag: "qf_tail f \<noteq> [] \<Longrightarrow> read_fragment lib s (qf_frag f) = Ok frag \<and>
      qf_frag_off f + length (qf_tail f) \<le> length frag \<and>
      slice frag (qf_frag_off f) (qf_frag_off f + length (qf_tail f)) = qf_tail f"
    using read_fragment_recorded [OF src] by blast
  have "length (qf_content f) < 2 ^ 63" using inode(2) by (auto simp: qf_ok_def split: if_splits)
  then show ?thesis
    using i file_content_recorded [OF src lay bs cs data frag os] by (auto simp: squash_content_def)
qed


section \<open>A small volume\<close>

text \<open>
  Blocks of 4 bytes: a stored block, a packed fragment, the inode table with the root and a file of the
  block, a hole and a tail in the fragment, the root's listing, and the fragment's entry and
  pointer.
\<close>

definition small_sq_file :: sq_file where
  "small_sq_file = \<lparr>qf_ext = False, qf_misc = replicate 14 0, qf_start = 0, qf_frag = 0, qf_frag_off = 1,
     qf_chunks = [Stored [1, 2, 3, 4], Hole 4], qf_tail = [5, 6]\<rparr>"

definition small_sq_run :: sq_run where
  "small_sq_run = \<lparr>sr_start = 0, sr_number = replicate 4 0,
     sr_entries = [\<lparr>se_off = 32, se_misc = replicate 4 0, se_name = [0x61]\<rparr>]\<rparr>"

definition small_sq_root :: bytes where
  "small_sq_root = to_le 2 1 @ replicate 14 0 @ to_le 4 0 @ replicate 4 0 @ to_le 2 24 @ to_le 2 0 @ replicate 4 0"

definition small_sq_fragment :: bytes where
  "small_sq_fragment = to_le 8 4 @ to_le 4 (chunk_raw (Packed [9, 5, 6] [9, 5, 6])) @ replicate 4 0"

definition small_sq_image :: bytes where
  "small_sq_image = [1, 2, 3, 4] @ [9, 5, 6] @ meta_disk (MetaStored (small_sq_root @ qf_encode small_sq_file)) @
     meta_disk (MetaStored (run_encode small_sq_run)) @ meta_disk (MetaStored small_sq_fragment) @ to_le 8 104"

definition small_sq_root_inode :: squash_inode where
  "small_sq_root_inode = \<lparr>sq_kind = Directory, sq_size = 24, sq_body = SqDir 81 0 24\<rparr>"

definition small_sq_file_inode :: squash_inode where
  "small_sq_file_inode = \<lparr>sq_kind = Regular, sq_size = 10, sq_body = SqFile [2 ^ 24 + 4, 0] [0, 4] 0 1\<rparr>"

definition small_sq :: squash where
  "small_sq = \<lparr>sq_src = slice_source small_sq_image, sq_codec = Zlib, sq_block_size = 4, sq_inode_table = 7,
     sq_directory_table = 81, sq_fragment_table = 122, sq_nodes = [small_sq_root_inode, small_sq_file_inode],
     sq_by_ref = [(0, 0), (32, 1)]\<rparr>"

lemma small_sq_simps:
  "sq_src small_sq = slice_source small_sq_image" "sq_codec small_sq = Zlib" "sq_block_size small_sq = 4"
  "sq_inode_table small_sq = 7" "sq_directory_table small_sq = 81" "sq_fragment_table small_sq = 122"
  "sq_nodes small_sq = [small_sq_root_inode, small_sq_file_inode]" "sq_by_ref small_sq = [(0, 0), (32, 1)]"
  by (simp_all add: small_sq_def)

lemma small_sq_content: "qf_content small_sq_file = [1, 2, 3, 4, 0, 0, 0, 0, 5, 6]"
proof -
  have "replicate 4 (0 :: byte) = [0, 0, 0, 0]" by (simp add: numeral_eq_Suc)
  then show ?thesis by (simp add: qf_content_def small_sq_file_def)
qed

lemma small_sq_lengths:
  "length small_sq_root = 32" "length (qf_encode small_sq_file) = 40" "length (run_encode small_sq_run) = 21"
  "length small_sq_fragment = 16"
  by (simp_all add: small_sq_root_def qf_encode_def small_sq_file_def run_encode_def small_sq_run_def dirent_encode_def
      small_sq_fragment_def)

lemma small_sq_image_length: "length small_sq_image = 130"
  by (simp add: small_sq_image_def small_sq_lengths)

lemma small_sq_base: "squash_base small_sq"
  by (simp add: squash_base_def small_sq_simps sound_slice_source small_sq_image_length)

lemma recorded_slice:
  "recorded (slice_source img) at bs \<longleftrightarrow> slice img at (at + length bs) = bs \<and> at + length bs \<le> length img \<and> at + length bs < 2 ^ 64"
  by (auto simp: recorded_def slice_read_at_eq_Ok)

lemma small_sq_recorded:
  "recorded (sq_src small_sq) 0 [1, 2, 3, 4]" "recorded (sq_src small_sq) 4 [9, 5, 6]"
  "recorded (sq_src small_sq) 7 (meta_disk (MetaStored (small_sq_root @ qf_encode small_sq_file)))"
  "recorded (sq_src small_sq) 81 (meta_disk (MetaStored (run_encode small_sq_run)))"
  "recorded (sq_src small_sq) 104 (meta_disk (MetaStored small_sq_fragment))"
  "recorded (sq_src small_sq) 122 (to_le 8 104)"
  by (simp_all only: small_sq_simps recorded_slice small_sq_image_length)
    (simp_all add: small_sq_image_def slice_def small_sq_lengths)

lemma small_sq_meta:
  "meta_recorded lib small_sq 7 0 small_sq_root" "meta_recorded lib small_sq 7 32 (qf_encode small_sq_file)"
  "meta_recorded lib small_sq 81 0 (run_encode small_sq_run)" "meta_recorded lib small_sq 104 0 small_sq_fragment"
proof -
  have one: "meta_recorded lib small_sq at off bs"
    if "recorded (sq_src small_sq) at (meta_disk (MetaStored b))" "b \<noteq> []" "length b < 0x8000" "off + length bs \<le> length b"
      "slice b off (off + length bs) = bs" for at off bs b
    unfolding meta_recorded_def using that by (intro exI [of _ "MetaStored b"] exI [of _ "[]"]) auto
  show "meta_recorded lib small_sq 7 0 small_sq_root" "meta_recorded lib small_sq 7 32 (qf_encode small_sq_file)"
    by (rule one [OF small_sq_recorded(3)]; use small_sq_lengths in \<open>auto simp: slice_def\<close>)+
  show "meta_recorded lib small_sq 81 0 (run_encode small_sq_run)"
    by (rule one [OF small_sq_recorded(4)]; use small_sq_lengths in \<open>auto simp: slice_def\<close>)
  show "meta_recorded lib small_sq 104 0 small_sq_fragment"
    by (rule one [OF small_sq_recorded(5)]; use small_sq_lengths in \<open>auto simp: slice_def\<close>)
qed


lemma small_sq_file_simps:
  "qf_ext small_sq_file = False" "length (qf_misc small_sq_file) = 14" "qf_start small_sq_file = 0" "qf_frag small_sq_file = 0"
  "qf_frag_off small_sq_file = 1" "qf_chunks small_sq_file = [Stored [1, 2, 3, 4], Hole 4]" "qf_tail small_sq_file = [5, 6]"
  by (simp_all add: small_sq_file_def)

lemma small_sq_file_ok: "qf_ok lib small_sq small_sq_file"
proof -
  have "file_layout (sq_block_size small_sq) small_sq_file"
    by (auto simp: file_layout_def small_sq_file_simps small_sq_simps NO_FRAGMENT_def less_Suc_eq)
  then show ?thesis by (simp add: qf_ok_def small_sq_file_simps small_sq_content MAX_BOOT_FILE_BYTES_def)
qed

lemma small_sq_fragment_recorded: "fragment_recorded store_lib small_sq 0 [9, 5, 6]"
proof -
  have "chunk_ok store_lib small_sq (Packed [9, 5, 6] [9, 5, 6])"
    by (simp add: small_sq_simps decode_def checked_block_len_def checked_len_def MAX_DECOMPRESSED_BLOCK_BYTES_def usize_max_def
        inflate_zlib_def store_lib_def)
  then show ?thesis
    unfolding fragment_recorded_def
    using small_sq_recorded(2,6) small_sq_meta(4) [of store_lib]
    by (intro exI [of _ 104] exI [of _ 4] exI [of _ "Packed [9, 5, 6] [9, 5, 6]"] exI [of _ "replicate 4 0"])
      (simp add: small_sq_simps small_sq_fragment_def)
qed

lemma small_sq_root_fields:
  "sq_le_u16 (take 16 small_sq_root) 0 = Ok 1" "sq_le_u16 small_sq_root 24 = Ok 24" "sq_le_u32 small_sq_root 16 = Ok 0"
  "sq_le_u16 small_sq_root 26 = Ok 0"
proof -
  have "take 2 (take 16 small_sq_root) = to_le 2 1" "slice small_sq_root 24 26 = to_le 2 24" "slice small_sq_root 16 20 = to_le 4 0"
    "slice small_sq_root 26 28 = to_le 2 0"
    by (simp_all add: small_sq_root_def slice_def)
  then show "sq_le_u16 (take 16 small_sq_root) 0 = Ok 1" "sq_le_u16 small_sq_root 24 = Ok 24"
    "sq_le_u32 small_sq_root 16 = Ok 0" "sq_le_u16 small_sq_root 26 = Ok 0"
    using le_field_at_0 [of 2 "take 16 small_sq_root" 1] le_field_at [of small_sq_root 24 2 24] le_field_at [of small_sq_root 16 4 0]
      le_field_at [of small_sq_root 26 2 0] small_sq_lengths(1)
    by (simp_all add: sq_le_u16_def sq_le_u32_def)
qed

lemma small_sq_inodes:
  "squash_parse_inode lib small_sq 0 = Ok small_sq_root_inode" "squash_parse_inode lib small_sq 32 = Ok small_sq_file_inode"
proof -
  have src: "sound_source (sq_src small_sq)" using small_sq_base by (simp add: squash_base_def)
  have sp: "read_meta_span lib small_sq 7 0 n = Ok (take n small_sq_root)" if "n \<le> 32" for n
    using read_meta_span_recorded [OF src small_sq_meta(1)] that small_sq_lengths(1) by (simp add: MAX_BOOT_FILE_BYTES_def)
  have sp': "read_meta_span lib small_sq 7 0 32 = Ok small_sq_root" using sp [of 32] small_sq_lengths(1) by simp
  show "squash_parse_inode lib small_sq 0 = Ok small_sq_root_inode"
    by (simp add: squash_parse_inode_def small_sq_simps uadd_def sp' sp [of 16] small_sq_root_fields small_sq_root_inode_def)
  have offs: "block_offsets (qf_start small_sq_file) (map chunk_raw (qf_chunks small_sq_file)) = Ok [0, 4]"
    by (simp add: small_sq_file_def uadd_def SIZE_MASK_def)
  have r: "meta_recorded lib small_sq (sq_inode_table small_sq + drop_bit 16 32) (32 AND 0xFFFF) (qf_encode small_sq_file)"
    using small_sq_meta(2) by (simp add: small_sq_simps)
  have bs: "0 < sq_block_size small_sq" "sq_inode_table small_sq + drop_bit 16 32 < 2 ^ 64" by (simp_all add: small_sq_simps)
  from parse_inode_recorded [OF src bs(1) small_sq_file_ok bs(2) r offs]
  show "squash_parse_inode lib small_sq 32 = Ok small_sq_file_inode"
    by (simp add: small_sq_content small_sq_file_inode_def) (simp add: small_sq_file_def)
qed

lemma small_sq_ok: "squash_ok lib small_sq"
proof -
  have "table_ok (squash_good lib small_sq) [small_sq_root_inode] [(0, 0)]"
    using table_ok_add [of "squash_good lib small_sq" "[]" "[]" 0 small_sq_root_inode] small_sq_inodes(1) [of lib] by (simp add: squash_good_def)
  from table_ok_add [OF this, of 32 small_sq_file_inode] small_sq_inodes(2) [of lib]
  have "table_ok (squash_good lib small_sq) (sq_nodes small_sq) (sq_by_ref small_sq)"
    by (simp add: squash_good_def bm_get_def small_sq_simps)
  then show ?thesis using small_sq_base by (simp add: squash_ok_def small_sq_simps)
qed

text \<open>An image that mounts: a superblock and the inode table with a root directory.\<close>

definition small_sq_super :: bytes where
  "small_sq_super = to_le 4 SQUASH_MAGIC @ replicate 8 0 @ to_le 4 4 @ replicate 4 0 @ to_le 2 1 @ replicate 10 0 @
     to_le 8 0 @ replicate 24 0 @ to_le 8 96 @ to_le 8 0 @ to_le 8 0 @ replicate 8 0"

definition small_sq_disk :: bytes where
  "small_sq_disk = small_sq_super @ meta_disk (MetaStored small_sq_root)"

lemma small_sq_disk_mounts:
  "\<exists>s. squash_open lib (slice_source small_sq_disk) = Ok s \<and>
    squash_inode_of s 0 = Ok \<lparr>sq_kind = Directory, sq_size = 24, sq_body = SqDir 0 0 24\<rparr>"
proof -
  let ?src = "slice_source small_sq_disk" and ?i = "\<lparr>sq_kind = Directory, sq_size = 24, sq_body = SqDir 0 0 24\<rparr>"
  have ls: "length small_sq_super = 96" by (simp add: small_sq_super_def)
  have l: "length small_sq_disk = 130" by (simp add: small_sq_disk_def ls small_sq_lengths)
  have src: "sound_source ?src" by (simp add: sound_slice_source l)
  define me where "me = \<lparr>sq_src = ?src, sq_codec = Zlib, sq_block_size = 4, sq_inode_table = 96,
    sq_directory_table = 0, sq_fragment_table = 0, sq_nodes = [], sq_by_ref = []\<rparr>"
  have "take 4 small_sq_super = to_le 4 SQUASH_MAGIC" "slice small_sq_super 12 16 = to_le 4 4" "slice small_sq_super 20 22 = to_le 2 1"
    "slice small_sq_super 32 40 = to_le 8 0" "slice small_sq_super 64 72 = to_le 8 96" "slice small_sq_super 72 80 = to_le 8 0"
    "slice small_sq_super 80 88 = to_le 8 0"
    by (simp_all add: small_sq_super_def slice_def)
  then have f: "sq_le_u32 small_sq_super 0 = Ok SQUASH_MAGIC" "sq_le_u32 small_sq_super 12 = Ok 4" "sq_le_u16 small_sq_super 20 = Ok 1"
    "sq_le_u64 small_sq_super 32 = Ok 0" "sq_le_u64 small_sq_super 64 = Ok 96" "sq_le_u64 small_sq_super 72 = Ok 0"
    "sq_le_u64 small_sq_super 80 = Ok 0"
    using ls le_field_at_0 [of 4 small_sq_super SQUASH_MAGIC] le_field_at [of small_sq_super 12 4 4] le_field_at [of small_sq_super 20 2 1]
      le_field_at [of small_sq_super 32 8 0] le_field_at [of small_sq_super 64 8 96] le_field_at [of small_sq_super 72 8 0]
      le_field_at [of small_sq_super 80 8 0]
    by (simp_all add: sq_le_u16_def sq_le_u32_def sq_le_u64_def SQUASH_MAGIC_def)
  have "slice_read_at small_sq_disk 0 96 = Ok small_sq_super"
    using ls l by (simp add: slice_read_at_eq_Ok) (simp add: small_sq_disk_def slice_def)
  then have sup: "squash_super ?src = Ok (me, 0)"
    by (simp add: squash_super_def l f squash_codec_def me_def)
  have "recorded (sq_src me) 96 (meta_disk (MetaStored small_sq_root))"
    by (simp add: me_def recorded_slice l small_sq_lengths del: meta_disk.simps)
      (simp add: small_sq_disk_def slice_def ls small_sq_lengths)
  then have r: "meta_recorded lib me 96 0 small_sq_root"
    unfolding meta_recorded_def using small_sq_lengths(1)
    by (intro exI [of _ "MetaStored small_sq_root"] exI [of _ "[]"]) (auto simp: slice_def)
  have sp: "read_meta_span lib me 96 0 n = Ok (take n small_sq_root)" if "n \<le> 32" for n
    using read_meta_span_recorded [OF _ r, of n] src that small_sq_lengths(1) by (simp add: me_def MAX_BOOT_FILE_BYTES_def)
  have sp': "read_meta_span lib me 96 0 32 = Ok small_sq_root" using sp [of 32] small_sq_lengths(1) by simp
  have me: "sq_inode_table me = 96" "sq_directory_table me = 0" "sq_by_ref me = []" "sq_nodes me = []" by (simp_all add: me_def)
  have "squash_parse_inode lib me 0 = Ok ?i"
    by (simp add: squash_parse_inode_def me uadd_def sp' sp [of 16] small_sq_root_fields)
  then have "squash_open lib ?src = Ok (me\<lparr>sq_nodes := [?i], sq_by_ref := bm_insert 0 0 []\<rparr>)"
    by (simp add: squash_open_def sup squash_intern_def me bm_get_def)
  then show ?thesis by (simp add: squash_inode_of_def get_at_def)
qed


section \<open>Properties\<close>

text \<open>
  C27. A directory whose listing is recorded as runs of entries, at any place of a chain of stored or
  packed metadata blocks and across their borders, is listed as exactly those entries, in order,
  each with the kind of the inode that its run and offset refer to and a handle on it.
\<close>

theorem squash_directory_roundtrip:
  assumes "squash_ok lib s" and "squash_inode_of s d = Ok dir" and "sq_body dir = SqDir at off sz"
    and "meta_recorded lib s at off (concat (map run_encode rs))" and "sz - 3 = length (concat (map run_encode rs))"
    and "sz - 3 \<le> MAX_BOOT_FILE_BYTES" and "\<forall>r \<in> set rs. run_ok r"
    and "\<forall>e \<in> set (concat (map run_children rs)). squash_parse_inode lib s (snd e) = Ok (child (snd e))"
  shows "\<exists>out s'. squash_read_dir lib d s = (Ok out, s') \<and> squash_ok lib s' \<and>
    map (\<lambda>e. (de_name e, de_kind e)) out = map (\<lambda>e. (fst e, sq_kind (child (snd e)))) (concat (map run_children rs)) \<and>
    (\<forall>i < length out. squash_inode_of s' (de_node (out ! i)) = Ok (child (snd (concat (map run_children rs) ! i))))"
proof -
  have b: "squash_base s" "table_ok (squash_good lib s) (sq_nodes s) (sq_by_ref s)" using assms(1) by (simp_all add: squash_ok_def)
  then have src: "sound_source (sq_src s)" by (simp add: squash_base_def)
  have d: "get_at (sq_nodes s) d = Some dir" using assms(2) by (simp add: squash_inode_of_def ok_or_eq_Ok)
  from squash_tree.read_dir_lists [OF b d squash_listing_recorded [OF src assms(3-7)] assms(8)]
  show ?thesis using squash_read_dir_keeps(1) [OF assms(1)] by (auto simp: squash_inode_of_def ok_or_eq_Ok)
qed

theorem squash_directory_roundtrip_witness:
  "\<exists>out s'. squash_read_dir store_lib 0 small_sq = (Ok out, s') \<and> map (\<lambda>e. (de_name e, de_kind e)) out = [([0x61], Regular)]"
proof -
  have r: "squash_inode_of small_sq 0 = Ok small_sq_root_inode" "sq_body small_sq_root_inode = SqDir 81 0 24"
    by (simp_all add: squash_inode_of_def get_at_def small_sq_simps small_sq_root_inode_def)
  have m: "meta_recorded store_lib small_sq 81 0 (concat (map run_encode [small_sq_run]))" using small_sq_meta(3) by simp
  have l: "24 - 3 = length (concat (map run_encode [small_sq_run]))" using small_sq_lengths(3) by simp
  have "24 - 3 \<le> MAX_BOOT_FILE_BYTES" "\<forall>r \<in> set [small_sq_run]. run_ok r"
    by (simp_all add: MAX_BOOT_FILE_BYTES_def small_sq_run_def run_ok_def dirent_ok_def)
  note o = this
  have "utf8_valid [0x61]" by (rule utf8_valid_ascii) simp
  then have ch: "concat (map run_children [small_sq_run]) = [([0x61], 32)]"
    by (simp add: run_children_def small_sq_run_def from_utf8_lossy_id)
  have "\<forall>e \<in> set (concat (map run_children [small_sq_run])). squash_parse_inode store_lib small_sq (snd e) = Ok small_sq_file_inode"
    unfolding ch using small_sq_inodes(2) by simp
  from squash_directory_roundtrip [OF small_sq_ok r m l o this] show ?thesis
    unfolding ch by (auto simp: small_sq_file_inode_def)
qed

text \<open>
  C26. A file whose inode, basic or extended, is recorded in the inode table, whose blocks stand back
  to back on the medium as holes, stored or packed, and whose tail is a part of a recorded fragment,
  is read exactly: a read at any offset gives the bytes of its content from there on.
\<close>

theorem squash_file_roundtrip:
  assumes "squash_ok lib s" and "bm_get (sq_by_ref s) k = Some n"
    and "meta_recorded lib s (sq_inode_table s + drop_bit 16 k) (k AND 0xFFFF) (qf_encode f)" and "qf_ok lib s f"
    and "recorded (sq_src s) (qf_start f) (concat (map chunk_disk (qf_chunks f)))"
    and "qf_tail f \<noteq> [] \<longrightarrow> (\<exists>frag. fragment_recorded lib s (qf_frag f) frag \<and>
      qf_frag_off f + length (qf_tail f) \<le> length frag \<and>
      slice frag (qf_frag_off f) (qf_frag_off f + length (qf_tail f)) = qf_tail f)"
    and "off < length (qf_content f)" and "length buf < 2 ^ 63"
  shows "squash_read_at lib s n off buf =
    Ok (min (length buf) (length (qf_content f) - off),
        overwrite buf 0 (slice (qf_content f) off (off + min (length buf) (length (qf_content f) - off))))"
proof -
  let ?c = "qf_content f"
  have "off + min (length buf) (length ?c - off) = min (length ?c) (off + length buf)" using assms(7) by auto
  then show ?thesis
    using squash_read_at_content [OF assms(1) squash_recorded_content [OF assms(1-6)] assms(8), of off] assms(7)
    by (simp add: min_def)
qed

theorem squash_file_roundtrip_witness:
  "squash_read_at store_lib small_sq 1 2 (replicate 9 7) = Ok (8, [3, 4, 0, 0, 0, 0, 5, 6, 7])"
proof -
  have n: "bm_get (sq_by_ref small_sq) 32 = Some 1" by (simp add: small_sq_simps bm_get_def)
  have r: "meta_recorded store_lib small_sq (sq_inode_table small_sq + drop_bit 16 32) (32 AND 0xFFFF) (qf_encode small_sq_file)"
    using small_sq_meta(2) by (simp add: small_sq_simps)
  have d: "recorded (sq_src small_sq) (qf_start small_sq_file) (concat (map chunk_disk (qf_chunks small_sq_file)))"
    using small_sq_recorded(1) by (simp add: small_sq_file_def)
  have t: "qf_tail small_sq_file \<noteq> [] \<longrightarrow> (\<exists>frag. fragment_recorded store_lib small_sq (qf_frag small_sq_file) frag \<and>
      qf_frag_off small_sq_file + length (qf_tail small_sq_file) \<le> length frag \<and>
      slice frag (qf_frag_off small_sq_file) (qf_frag_off small_sq_file + length (qf_tail small_sq_file)) = qf_tail small_sq_file)"
    using small_sq_fragment_recorded by (intro impI exI [of _ "[9, 5, 6]"]) (simp add: small_sq_file_def slice_def)
  have "squash_read_at store_lib small_sq 1 2 (replicate 9 7) =
      Ok (min (length (replicate 9 7 :: bytes)) (length (qf_content small_sq_file) - 2), overwrite (replicate 9 7) 0
        (slice (qf_content small_sq_file) 2 (2 + min (length (replicate 9 7 :: bytes)) (length (qf_content small_sq_file) - 2))))"
    by (rule squash_file_roundtrip [OF small_sq_ok n r small_sq_file_ok d t]) (simp_all add: small_sq_content)
  also have "\<dots> = Ok (8, [3, 4, 0, 0, 0, 0, 5, 6, 7])" by (simp add: small_sq_content overwrite_0 slice_def numeral_eq_Suc)
  finally show ?thesis .
qed

text \<open>
  C28. Whatever the medium holds, the inodes that any use of a mounted volume makes known are small: a
  block list is within the read cap and goes with one offset for each block, a file is no longer
  than its blocks and one fragment can hold, and a link target is within the read cap. A read that
  starts inside a file therefore never overflows its end.
\<close>

theorem squash_inode_bounds:
  assumes "sound_source src" and "squash_open lib src = Ok s" and "frontend_run (squash_frontend lib) s s'"
    and "squash_inode_of s' n = Ok i"
  shows "sq_size i < 2 ^ 48 \<and>
    (case sq_body i of
       SqFile sizes offsets fi fo \<Rightarrow> length sizes * 4 \<le> MAX_BOOT_FILE_BYTES \<and> length offsets = length sizes \<and>
         sq_size i \<le> (length sizes + 1) * 2 ^ 20
     | SqSymlink t \<Rightarrow> length t \<le> MAX_BOOT_FILE_BYTES
     | _ \<Rightarrow> True)"
proof -
  have "squash_ok lib s'" using squash_open_ok(2) [OF assms(1,2)] squash.run_keeps [OF assms(3)] by blast
  from squash_inode_of_ok [OF this assms(4)] show ?thesis
    by (auto simp: squash_inode_ok_def MAX_BOOT_FILE_BYTES_def split: squash_body.splits)
qed


theorem squash_inode_bounds_witness:
  "\<exists>s i. squash_open store_lib (slice_source small_sq_disk) = Ok s \<and> squash_inode_of s 0 = Ok i \<and> sq_size i < 2 ^ 48"
proof -
  have "length small_sq_disk = 130" by (simp add: small_sq_disk_def small_sq_super_def small_sq_lengths)
  then have src: "sound_source (slice_source small_sq_disk)" by (simp add: sound_slice_source)
  from small_sq_disk_mounts [of store_lib] obtain s i where
    s: "squash_open store_lib (slice_source small_sq_disk) = Ok s" "squash_inode_of s 0 = Ok i" by blast
  from squash_inode_bounds [OF src s(1) _ s(2)] s show ?thesis by auto
qed

text \<open>
  C29. On a hostile volume the only panic is the overflow of an addition or a multiplication of values
  of the medium (table starts, block offsets, inode references, the length of a table of block sizes,
  which the source computes unchecked): in any use of any volume nothing is divided by a block size of
  zero, no subtraction goes below zero and no slice or list is indexed out of range, and metadata and
  link targets do not panic at all.
\<close>

theorem squash_only_overflow:
  assumes "sound_source src"
  shows "only_overflow (squash_open lib src) \<and>
    (\<forall>s s'. squash_open lib src = Ok s \<longrightarrow> frontend_run (squash_frontend lib) s s' \<longrightarrow>
       only_overflow (fst (squash_read_dir lib d s')) \<and> only_overflow (fst (squash_lookup lib d nm s')) \<and>
       only_overflow (squash_read_at lib s' n off buf) \<and> no_panic (squash_metadata s' n) \<and> no_panic (squash_read_link s' n))"
proof (intro conjI allI impI)
  show "only_overflow (squash_open lib src)" using squash_open_ok(1) [OF assms] .
  fix s s' assume "squash_open lib src = Ok s" "frontend_run (squash_frontend lib) s s'"
  then have ok: "squash_ok lib s'" using squash_open_ok(2) [OF assms] squash.run_keeps by blast
  show "only_overflow (fst (squash_read_dir lib d s'))" using squash_read_dir_only_overflow [OF ok] .
  then show "only_overflow (fst (squash_lookup lib d nm s'))" by (rule squash_tree.lookup_only_overflow)
  show "only_overflow (squash_read_at lib s' n off buf)" using squash_read_at_ok(1) [OF ok] .
  show "no_panic (squash_metadata s' n)" "no_panic (squash_read_link s' n)"
    by (simp_all add: squash_metadata_def squash_read_link_def squash_inode_of_def no_panic_simps)
qed

theorem squash_only_overflow_witness: "only_overflow (squash_open store_lib (slice_source small_sq_disk))"
proof -
  have "length small_sq_disk = 130" by (simp add: small_sq_disk_def small_sq_super_def small_sq_lengths)
  then have "sound_source (slice_source small_sq_disk)" by (simp add: sound_slice_source)
  from squash_only_overflow [OF this] show ?thesis by blast
qed

end
