(* ===== verification/Erofs_Index.thy ===== *)
theory Erofs_Index
  imports Codec Btree_Map
begin

text \<open>
  The compressed-cluster side of the EROFS reader (\<^verbatim>\<open>crates/lamfold-erofs/src/erofs.rs\<close>): the
  bit-packed compact index, its resolution into physical clusters, and the decoding of one cluster
  by each algorithm. Everything here is a function of bytes already read.
\<close>

definition ADVISE_BIG_PCLUSTER :: nat where "ADVISE_BIG_PCLUSTER = 0x0006"
definition COMPACT_LOBITS :: nat where "COMPACT_LOBITS = 12"
definition COMPACT_ENCBITS :: nat where "COMPACT_ENCBITS = 14"
definition COMPACT_CBLKCNT_FLAG :: nat where "COMPACT_CBLKCNT_FLAG = 0x0800"
definition ALGO_LZ4 :: nat where "ALGO_LZ4 = 0"
definition ALGO_LZMA :: nat where "ALGO_LZMA = 1"
definition ALGO_DEFLATE :: nat where "ALGO_DEFLATE = 2"
definition ALGO_ZSTD :: nat where "ALGO_ZSTD = 3"
definition LZMA_PROPS_MAX :: byte where "LZMA_PROPS_MAX = 224"
definition LC_TYPE_PLAIN :: nat where "LC_TYPE_PLAIN = 0"
definition LC_TYPE_HEAD1 :: nat where "LC_TYPE_HEAD1 = 1"
definition LC_TYPE_NONHEAD :: nat where "LC_TYPE_NONHEAD = 2"
definition LC_TYPE_HEAD2 :: nat where "LC_TYPE_HEAD2 = 3"
definition LZ4_WINDOW :: nat where "LZ4_WINDOW = 65536"

text \<open>One physical cluster, as the walk over the index yields it.\<close>

record pc_head =
  hd_start :: nat
  hd_ty :: nat
  hd_blkaddr :: nat
  hd_cblkcnt :: nat

record raw_entry =
  re_ty :: nat
  re_value :: nat
  re_region :: nat
  re_base :: nat


section \<open>Unpacking the compact index\<close>

text \<open>
  The entries of an 8-byte group, two at most, and of a 32-byte pack, sixteen at most; a run of
  groups or packs gives the entries with the place and the region behind it.
\<close>

definition half_entry :: "nat \<Rightarrow> nat \<Rightarrow> nat \<Rightarrow> raw_entry" where
  "half_entry half rid base =
     \<lparr>re_ty = drop_bit COMPACT_LOBITS half AND 3, re_value = half AND 0x0fff, re_region = rid, re_base = base\<rparr>"

function read_4b_groups :: "bytes \<Rightarrow> nat \<Rightarrow> nat \<Rightarrow> nat \<Rightarrow> (raw_entry list \<times> nat \<times> nat) result" where
  "read_4b_groups buf pos count rid =
     (if count = 0 then Ok ([], pos, rid)
      else
        and_then (ok_or (get_range buf pos (pos + 8)) (Corrupt ''erofs: compact 4b group out of range'')) (\<lambda>g.
        let base = from_le (slice g 4 8);
            es = map (\<lambda>half. half_entry half rid base) (take count [from_le (slice g 0 2), from_le (slice g 2 4)]) in
        and_then (read_4b_groups buf (pos + 8) (count - length es) (rid + 1)) (\<lambda>(rest, pos', rid').
          Ok (es @ rest, pos', rid'))))"
  by pat_completeness auto
termination
  by (relation "measure (\<lambda>(buf, pos, count, rid). count)") auto

declare read_4b_groups.simps [simp del]

text \<open>The loop of \<^verbatim>\<open>read_bits_lsb\<close> from its \<open>k\<close>-th bit on, \<open>n\<close> bits to go.\<close>

fun bits_loop :: "bytes \<Rightarrow> nat \<Rightarrow> nat \<Rightarrow> nat \<Rightarrow> nat \<Rightarrow> nat result" where
  "bits_loop buf bit_pos 0 k v = Ok v"
| "bits_loop buf bit_pos (Suc n) k v =
     (let bp = bit_pos + k in
      and_then (ok_or (get_at buf (drop_bit 3 bp)) (Corrupt ''erofs: compact bit offset out of range'')) (\<lambda>b.
        bits_loop buf bit_pos n (Suc k) (v OR push_bit k (drop_bit (bp AND 7) (unat b) AND 1))))"

definition read_bits_lsb :: "bytes \<Rightarrow> nat \<Rightarrow> nat result" where
  "read_bits_lsb buf bit_pos = bits_loop buf bit_pos COMPACT_ENCBITS 0 0"

function read_2b_packs :: "bytes \<Rightarrow> nat \<Rightarrow> nat \<Rightarrow> nat \<Rightarrow> (raw_entry list \<times> nat \<times> nat) result" where
  "read_2b_packs buf pos count rid =
     (if count = 0 then Ok ([], pos, rid)
      else
        and_then (ok_or (get_range buf pos (pos + 32)) (Corrupt ''erofs: compact 2b pack out of range'')) (\<lambda>pack.
        let base = from_le (slice pack 28 32) in
        and_then (map_result (\<lambda>s. and_then (read_bits_lsb pack (s * COMPACT_ENCBITS)) (\<lambda>v. Ok (half_entry v rid base)))
                    [0..<min 16 count]) (\<lambda>es.
        and_then (read_2b_packs buf (pos + 32) (count - min 16 count) (rid + 1)) (\<lambda>(rest, pos', rid').
          Ok (es @ rest, pos', rid')))))"
  by pat_completeness auto
termination
  by (relation "measure (\<lambda>(buf, pos, count, rid). count)") auto

declare read_2b_packs.simps [simp del]

text \<open>
  How many entries the three zones of an index of \<open>n_lc\<close> entries at \<open>ebase\<close> hold: groups up to a
  32-byte border, packs, and groups again.
\<close>

definition compact_zones :: "nat \<Rightarrow> nat \<Rightarrow> nat \<times> nat \<times> nat" where
  "compact_zones ebase n_lc =
     (let ebrem = ebase AND 31;
          c4i = min ((32 - ebrem) div 4 AND 7) n_lc;
          c2b = (n_lc - c4i) div 16 * 16
      in (c4i, c2b, n_lc - c4i - c2b))"

definition compact_length :: "nat \<times> nat \<times> nat \<Rightarrow> nat" where
  "compact_length z = (case z of (c4i, c2b, c4f) \<Rightarrow> div_ceil c4i 2 * 8 + c2b div 16 * 32 + div_ceil c4f 2 * 8)"

definition unpack_compact :: "bytes \<Rightarrow> nat \<times> nat \<times> nat \<Rightarrow> raw_entry list result" where
  "unpack_compact buf z =
     (case z of (c4i, c2b, c4f) \<Rightarrow>
       and_then (read_4b_groups buf 0 c4i 0) (\<lambda>(r1, pos, rid).
       and_then (read_2b_packs buf pos c2b rid) (\<lambda>(r2, pos, rid).
       and_then (read_4b_groups buf pos c4f rid) (\<lambda>(r3, pos, rid). Ok (r1 @ r2 @ r3)))))"


section \<open>Resolving the entries into clusters\<close>

text \<open>The state of the loop: the clusters so far, the heads seen in each region, the open cluster.\<close>

record resolve_state =
  rs_heads :: "pc_head list"
  rs_regions :: "(nat, nat) btree"
  rs_cur :: "nat option"

definition nonhead_entry :: "bool \<Rightarrow> raw_entry \<Rightarrow> resolve_state \<Rightarrow> resolve_state result" where
  "nonhead_entry big e st =
     (if big \<and> re_value e AND COMPACT_CBLKCNT_FLAG \<noteq> 0 then
        case rs_cur st of
          None \<Rightarrow> Ok st
        | Some h \<Rightarrow>
            let n = re_value e AND 0x07ff in
            and_then (index_at (rs_heads st) h) (\<lambda>old.
              if n = 0 then Err (Unsupported ''erofs: hole pcluster not supported'')
              else Ok (st\<lparr>rs_heads := (rs_heads st)[h := old\<lparr>hd_cblkcnt := n\<rparr>]\<rparr>))
      else Ok st)"

definition head_entry :: "bool \<Rightarrow> nat \<Rightarrow> nat \<Rightarrow> raw_entry \<Rightarrow> resolve_state \<Rightarrow> resolve_state result" where
  "head_entry big lcsize i e st =
     and_then (if rs_heads st = [] then Ok 0
               else and_then (umul 64 i lcsize) (\<lambda>x. uadd 64 x (re_value e))) (\<lambda>start.
     and_then (if big then Ok (0, rs_regions st)
               else
                 let c = (case bm_get (rs_regions st) (re_region e) of Some c \<Rightarrow> c | None \<Rightarrow> 0) in
                 and_then (ok_or (case checked_add 32 (re_base e) 1 of Some x \<Rightarrow> checked_add 32 x c | None \<Rightarrow> None)
                             (Corrupt ''erofs: compact blkaddr overflow'')) (\<lambda>b.
                 and_then (uadd 32 c 1) (\<lambda>c'. Ok (b, bm_insert (re_region e) c' (rs_regions st))))) (\<lambda>(blkaddr, regions).
       Ok \<lparr>rs_heads = rs_heads st @ [\<lparr>hd_start = start, hd_ty = re_ty e, hd_blkaddr = blkaddr, hd_cblkcnt = 1\<rparr>],
           rs_regions = regions, rs_cur = Some (length (rs_heads st))\<rparr>))"

fun resolve_entries :: "bool \<Rightarrow> nat \<Rightarrow> nat \<Rightarrow> raw_entry list \<Rightarrow> resolve_state \<Rightarrow> resolve_state result" where
  "resolve_entries big lcsize i [] st = Ok st"
| "resolve_entries big lcsize i (e # es) st =
     and_then (if re_ty e = LC_TYPE_NONHEAD then nonhead_entry big e st else head_entry big lcsize i e st) (\<lambda>st'.
       resolve_entries big lcsize (Suc i) es st')"

text \<open>The running sum of the block counts, for big clusters.\<close>

fun assign_blkaddrs :: "nat \<Rightarrow> pc_head list \<Rightarrow> pc_head list result" where
  "assign_blkaddrs blk [] = Ok []"
| "assign_blkaddrs blk [h] = Ok [h\<lparr>hd_blkaddr := blk\<rparr>]"
| "assign_blkaddrs blk (h # h' # hs) =
     and_then (ok_or (checked_add 32 blk (hd_cblkcnt h)) (Corrupt ''erofs: compact blkaddr overflow'')) (\<lambda>blk'.
     and_then (assign_blkaddrs blk' (h' # hs)) (\<lambda>rest. Ok (h\<lparr>hd_blkaddr := blk\<rparr> # rest)))"

definition resolve_compact_heads :: "raw_entry list \<Rightarrow> nat \<Rightarrow> nat \<Rightarrow> pc_head list result" where
  "resolve_compact_heads raw lcsize advise =
     (let big = (advise AND ADVISE_BIG_PCLUSTER \<noteq> 0);
          first_base = (case raw of [] \<Rightarrow> 0 | e # _ \<Rightarrow> re_base e) in
      and_then (resolve_entries big lcsize 0 raw \<lparr>rs_heads = [], rs_regions = [], rs_cur = None\<rparr>) (\<lambda>st.
        if big then assign_blkaddrs first_base (rs_heads st) else Ok (rs_heads st)))"


section \<open>Decoding a cluster\<close>

definition lz4_pcluster :: "'r codec_lib \<Rightarrow> bytes \<Rightarrow> nat \<Rightarrow> bytes \<Rightarrow> bool \<Rightarrow> bytes result" where
  "lz4_pcluster lib span outlen win zero_padding =
     and_then (if zero_padding then ok_or (position (\<lambda>b. b \<noteq> 0) span) (Corrupt ''erofs lz4: all-zero pcluster'')
               else Ok 0) (\<lambda>start.
     and_then (index_range span start (length span)) (\<lambda>tail.
     and_then (lz4_block_with_dict lib tail outlen win) (\<lambda>v.
       if length v = outlen then Ok v else Err (Corrupt ''erofs lz4: stream decoded to the wrong length''))))"

text \<open>The candidate starts in turn; \<open>pending\<close> is the error to give when none works.\<close>

fun deflate_starts :: "'r codec_lib \<Rightarrow> bytes \<Rightarrow> nat \<Rightarrow> nat list \<Rightarrow> fold_error \<Rightarrow> bytes result" where
  "deflate_starts lib span outlen [] pending = Err pending"
| "deflate_starts lib span outlen (start # starts) pending =
     (let tail = (case get_from span start of Some t \<Rightarrow> t | None \<Rightarrow> []) in
      case decode lib Deflate tail outlen of
        Ok v \<Rightarrow> if length v = outlen then Ok v else deflate_starts lib span outlen starts pending
      | Err e \<Rightarrow>
          (case e of
             Unsupported _ \<Rightarrow> Err e
           | FileTooLarge _ _ \<Rightarrow> Err e
           | _ \<Rightarrow> deflate_starts lib span outlen starts e)
      | Panic p \<Rightarrow> Panic p)"

definition deflate_pcluster :: "'r codec_lib \<Rightarrow> bytes \<Rightarrow> nat \<Rightarrow> bytes result" where
  "deflate_pcluster lib span outlen =
     (let fnz = (case position (\<lambda>b. b \<noteq> 0) span of Some i \<Rightarrow> i | None \<Rightarrow> 0) in
      deflate_starts lib span outlen [0, fnz] (Corrupt ''erofs deflate: no valid stream start''))"

definition ZSTD_MAGIC :: bytes where
  "ZSTD_MAGIC = [0x28, 0xB5, 0x2F, 0xFD]"

text \<open>\<^verbatim>\<open>windows(n)\<close>: every piece of \<open>n\<close> elements.\<close>

definition windows :: "nat \<Rightarrow> 'a list \<Rightarrow> 'a list list" where
  "windows n xs = map (\<lambda>i. slice xs i (i + n)) [0..<length xs + 1 - n]"

definition zstd_pcluster :: "'r codec_lib \<Rightarrow> bytes \<Rightarrow> nat \<Rightarrow> bytes result" where
  "zstd_pcluster lib span outlen =
     and_then (ok_or (position (\<lambda>w. w = ZSTD_MAGIC) (windows 4 span)) (Corrupt ''erofs zstd: frame magic not found'')) (\<lambda>start.
     and_then (index_range span start (length span)) (\<lambda>tail. decode lib Zstd tail outlen))"

definition lzma_pcluster :: "'r codec_lib \<Rightarrow> bytes \<Rightarrow> nat \<Rightarrow> nat \<Rightarrow> bytes result" where
  "lzma_pcluster lib span outlen dict_size =
     and_then (ok_or (position (\<lambda>b. b \<noteq> 0) span) (Corrupt ''erofs lzma: all-zero span'')) (\<lambda>start.
     and_then (index_at span start) (\<lambda>b.
     let props = NOT b in
     if props > LZMA_PROPS_MAX then Err (Corrupt ''erofs lzma: invalid properties byte'')
     else and_then (index_range span start (length span)) (\<lambda>tail. microlzma_block_decode lib tail props dict_size outlen)))"

definition decode_head :: "'r codec_lib \<Rightarrow> nat \<Rightarrow> bytes \<Rightarrow> nat \<Rightarrow> bytes \<Rightarrow> nat option \<Rightarrow> bool \<Rightarrow> bytes result" where
  "decode_head lib algo span outlen prior lzma_dict zero_padding =
     (if algo = ALGO_LZ4 then
        and_then (index_range prior (length prior - LZ4_WINDOW) (length prior)) (\<lambda>win.
          lz4_pcluster lib span outlen win zero_padding)
      else if algo = ALGO_DEFLATE then deflate_pcluster lib span outlen
      else if algo = ALGO_ZSTD then zstd_pcluster lib span outlen
      else if algo = ALGO_LZMA then
        and_then (ok_or lzma_dict (Unsupported ''erofs: lzma config unavailable'')) (\<lambda>dict. lzma_pcluster lib span outlen dict)
      else Err (Unsupported ''erofs: unknown compressed head algorithm''))"

definition decode_pcluster ::
  "'r codec_lib \<Rightarrow> nat \<Rightarrow> nat \<Rightarrow> bytes \<Rightarrow> nat \<Rightarrow> bytes \<Rightarrow> nat option \<Rightarrow> bool \<Rightarrow> bytes result"
where
  "decode_pcluster lib ty algo span outlen prior lzma_dict zero_padding =
     (if ty = LC_TYPE_PLAIN then
        and_then (checked_block_len outlen) (\<lambda>_.
          ok_or (get_range span 0 outlen) (Corrupt ''erofs: plain pcluster shorter than output''))
      else if ty = LC_TYPE_HEAD1 \<or> ty = LC_TYPE_HEAD2 then
        decode_head lib algo span outlen prior lzma_dict zero_padding
      else Err (Corrupt ''erofs: non-head pcluster in decode''))"


section \<open>Reading packed bits\<close>

lemma bit_from_le_Cons:
  "bit (from_le (b # bs)) n \<longleftrightarrow> (if n < 8 then bit b n else bit (from_le bs) (n - 8))"
proof -
  have "from_le (b # bs) = unat b + push_bit 8 (from_le bs)" by (simp add: push_bit_eq_mult)
  also have "\<dots> = unat b OR push_bit 8 (from_le bs)"
  proof (rule disjunctive_add_eq_or, rule bit_eqI)
    fix i
    show "bit (unat b AND push_bit 8 (from_le bs)) i = bit (0 :: nat) i"
      using bit_imp_le_length [of b i] by (auto simp: bit_simps)
  qed
  finally have "from_le (b # bs) = unat b OR push_bit 8 (from_le bs)" .
  then show ?thesis using bit_imp_le_length [of b n] by (auto simp: bit_simps)
qed

lemma bit_from_le: "bit (from_le bs) n \<longleftrightarrow> n div 8 < length bs \<and> bit (bs ! (n div 8)) (n mod 8)"
proof (induction bs arbitrary: n)
  case (Cons b bs)
  show ?case
  proof (cases "n < 8")
    case False
    then have "n div 8 = Suc ((n - 8) div 8)" "n mod 8 = (n - 8) mod 8" by (simp_all add: le_div_geq le_mod_geq)
    then show ?thesis using Cons.IH [of "n - 8"] False bit_from_le_Cons by simp
  next
    case True
    then show ?thesis using bit_from_le_Cons [of b bs n] by (simp del: from_le.simps)
  qed
qed simp

lemma bits_loop_eq:
  "bit_pos + k + n \<le> 8 * length buf \<Longrightarrow>
     bits_loop buf bit_pos n k v = Ok (v OR push_bit k (take_bit n (drop_bit (bit_pos + k) (from_le buf))))"
proof (induction n arbitrary: k v)
  case (Suc n)
  let ?p = "bit_pos + k" and ?F = "from_le buf"
  have p: "?p div 8 < length buf" using Suc.prems by linarith
  have d: "drop_bit 3 ?p = ?p div 8" "?p AND 7 = ?p mod 8"
    using nat_and_mask [of ?p 3] by (simp_all add: drop_bit_eq_div)
  define b where "b = drop_bit (?p mod 8) (unat (buf ! (?p div 8))) AND 1"
  have b: "bit b j \<longleftrightarrow> j = 0 \<and> bit ?F ?p" for j
    unfolding b_def bit_and_iff bit_1_iff using p by (auto simp: bit_drop_bit_eq bit_unsigned_iff bit_from_le)
  have IH: "bits_loop buf bit_pos n (Suc k) (v OR push_bit k b) =
      Ok ((v OR push_bit k b) OR push_bit (Suc k) (take_bit n (drop_bit (bit_pos + Suc k) ?F)))"
    by (rule Suc.IH) (use Suc.prems in simp)
  have "push_bit k b OR push_bit (Suc k) (take_bit n (drop_bit (bit_pos + Suc k) ?F)) =
      push_bit k (take_bit (Suc n) (drop_bit ?p ?F))"
  proof (rule bit_eqI)
    fix i
    have e: "?p + (i - k) = bit_pos + Suc k + (i - Suc k)" if "k < i" using that by simp
    show "bit (push_bit k b OR push_bit (Suc k) (take_bit n (drop_bit (bit_pos + Suc k) ?F))) i =
        bit (push_bit k (take_bit (Suc n) (drop_bit ?p ?F))) i"
      unfolding bit_or_iff bit_push_bit_iff bit_take_bit_iff bit_drop_bit_eq b comp_def
      using e by (cases i k rule: linorder_cases) auto
  qed
  moreover have "get_at buf (drop_bit 3 ?p) = Some (buf ! (?p div 8))" using p d(1) by (simp add: get_at_def)
  ultimately show ?case using IH by (simp only: bits_loop.simps Let_def ok_or_simps and_then.simps d(2) b_def [symmetric] or.assoc)
qed simp

lemma read_bits_lsb_eq:
  "bp + 14 \<le> 8 * length buf \<Longrightarrow> read_bits_lsb buf bp = Ok (take_bit 14 (drop_bit bp (from_le buf)))"
  using bits_loop_eq [of bp 0 14 buf 0] by (simp add: read_bits_lsb_def COMPACT_ENCBITS_def)



section \<open>Recorded indexes\<close>

text \<open>
  An index as it is written: each entry is a 14-bit code of its type and value, and each group or
  pack (a region) has a base. A group of one entry only is filled up.
\<close>

fun encode_groups :: "(nat \<Rightarrow> nat) \<Rightarrow> nat \<Rightarrow> nat list \<Rightarrow> bytes" where
  "encode_groups base rid [] = []"
| "encode_groups base rid [w] = to_le 2 w @ to_le 2 0 @ to_le 4 (base rid)"
| "encode_groups base rid (w # w' # ws) = to_le 2 w @ to_le 2 w' @ to_le 4 (base rid) @ encode_groups base (Suc rid) ws"

fun encode_packs :: "(nat \<Rightarrow> nat) \<Rightarrow> nat \<Rightarrow> nat list list \<Rightarrow> bytes" where
  "encode_packs base rid [] = []"
| "encode_packs base rid (p # ps) =
     to_le 28 (horner_sum (\<lambda>x. x) (2 ^ 14) p) @ to_le 4 (base rid) @ encode_packs base (Suc rid) ps"

text \<open>What they stand for.\<close>

fun group_entries :: "(nat \<Rightarrow> nat) \<Rightarrow> nat \<Rightarrow> nat list \<Rightarrow> raw_entry list" where
  "group_entries base rid [] = []"
| "group_entries base rid [w] = [half_entry w rid (base rid)]"
| "group_entries base rid (w # w' # ws) =
     half_entry w rid (base rid) # half_entry w' rid (base rid) # group_entries base (Suc rid) ws"

fun pack_entries :: "(nat \<Rightarrow> nat) \<Rightarrow> nat \<Rightarrow> nat list list \<Rightarrow> raw_entry list" where
  "pack_entries base rid [] = []"
| "pack_entries base rid (p # ps) = map (\<lambda>w. half_entry w rid (base rid)) p @ pack_entries base (Suc rid) ps"

lemma length_encode_groups: "length (encode_groups base rid ws) = div_ceil (length ws) 2 * 8"
  by (induction base rid ws rule: encode_groups.induct) (simp_all add: div_ceil_def)

lemma length_encode_packs: "length (encode_packs base rid ps) = length ps * 32"
  by (induction base rid ps rule: encode_packs.induct) simp_all

lemma group_fields:
  assumes "a < 2 ^ 16" and "b < 2 ^ 16" and "c < 2 ^ 32"
  defines "g \<equiv> to_le 2 a @ to_le 2 b @ to_le 4 c"
  shows "from_le (slice g 0 2) = a" "from_le (slice g 2 4) = b" "from_le (slice g 4 8) = c" "length g = 8"
proof -
  have "slice g 0 2 = to_le 2 a" "slice g 2 4 = to_le 2 b" "slice g 4 8 = to_le 4 c"
    by (simp_all add: g_def slice_def)
  then show "from_le (slice g 0 2) = a" "from_le (slice g 2 4) = b" "from_le (slice g 4 8) = c" "length g = 8"
    using assms by (simp_all add: from_le_to_le)
qed

lemma read_4b_groups_step:
  assumes "get_range buf pos (pos + 8) = Some g" and "from_le (slice g 0 2) = a" and "from_le (slice g 2 4) = b"
    and "from_le (slice g 4 8) = c"
  shows "read_4b_groups buf pos (Suc n) rid =
    and_then (read_4b_groups buf (pos + 8) (n - 1) (rid + 1)) (\<lambda>(rest, pos', rid').
      Ok (half_entry a rid c # (if n = 0 then [] else [half_entry b rid c]) @ rest, pos', rid'))"
  by (subst read_4b_groups.simps) (cases n; simp add: assms Let_def)

lemma read_4b_groups_encode:
  assumes base: "\<And>r. base r < 2 ^ 32"
  shows "\<forall>w \<in> set ws. w < 2 ^ 14 \<Longrightarrow>
    read_4b_groups (pre @ encode_groups base rid ws @ post) (length pre) (length ws) rid =
      Ok (group_entries base rid ws, length (pre @ encode_groups base rid ws), rid + div_ceil (length ws) 2)"
proof (induction ws arbitrary: pre rid rule: induct_list012)
  case 1
  then show ?case by (simp add: read_4b_groups.simps)
next
  case (2 w)
  let ?g = "to_le 2 w @ to_le 2 0 @ to_le 4 (base rid)"
  have "w < 2 ^ 16" "0 < (2 ^ 16 :: nat)" using "2.prems" by simp_all
  note f = group_fields [OF this base, of rid]
  have g: "get_range (pre @ ?g @ post) (length pre) (length pre + 8) = Some ?g"
    using slice_middle [of pre "length pre" ?g post] f(4) by (simp add: get_range_def)
  show ?case
    using read_4b_groups_step [OF g f(1) f(2) f(3), of 0 rid] f(4) by (simp add: read_4b_groups.simps [of _ _ 0] div_ceil_def)
next
  case (3 w w' ws)
  let ?g = "to_le 2 w @ to_le 2 w' @ to_le 4 (base rid)"
  let ?rest = "encode_groups base (Suc rid) ws"
  have "w < 2 ^ 16" "w' < 2 ^ 16" using "3.prems" by simp_all
  note f = group_fields [OF this base, of rid]
  have g: "get_range (pre @ ?g @ ?rest @ post) (length pre) (length pre + 8) = Some ?g"
    using slice_middle [of pre "length pre" ?g "?rest @ post"] f(4) by (simp add: get_range_def)
  have IH: "read_4b_groups (pre @ ?g @ ?rest @ post) (length pre + 8) (length ws) (Suc rid) =
      Ok (group_entries base (Suc rid) ws, length (pre @ ?g @ ?rest), Suc rid + div_ceil (length ws) 2)"
    using "3.IH"(1) [of "pre @ ?g" "Suc rid"] "3.prems" f(4) by simp
  have "div_ceil (Suc (Suc (length ws))) 2 = Suc (div_ceil (length ws) 2)" by (simp add: div_ceil_def)
  then show ?case using read_4b_groups_step [OF g f(1-3), of "Suc (length ws)" rid] IH f(4) by simp
qed


lemma packed_word:
  "\<forall>w \<in> set p. w < (2 ^ 14 :: nat) \<Longrightarrow> s < length p \<Longrightarrow> horner_sum (\<lambda>x. x) (2 ^ 14) p div 2 ^ (14 * s) mod 2 ^ 14 = p ! s"
proof (induction p arbitrary: s)
  case (Cons w p)
  let ?N = "horner_sum (\<lambda>x. x) (2 ^ 14) p"
  have w: "w < 2 ^ 14" using Cons.prems(1) by simp
  show ?case
  proof (cases s)
    case 0
    then show ?thesis using w by (simp add: mod_mult_self2 del: One_nat_def)
  next
    case (Suc t)
    have "(w + 2 ^ 14 * ?N) div 2 ^ (14 * Suc t) = (w + 2 ^ 14 * ?N) div 2 ^ 14 div 2 ^ (14 * t)"
      by (simp add: power_add div_mult2_eq)
    also have "(w + 2 ^ 14 * ?N) div 2 ^ 14 = ?N" using w by simp
    finally show ?thesis using Cons.IH [of t] Cons.prems Suc by simp
  qed
qed simp

lemma packed_less:
  "\<forall>w \<in> set p. w < 2 ^ 14 \<Longrightarrow> horner_sum (\<lambda>x. x) (2 ^ 14) p < (2 ^ (14 * length p) :: nat)"
proof (induction p)
  case (Cons w p)
  let ?N = "horner_sum (\<lambda>x. x) (2 ^ 14) p"
  have "w < 2 ^ 14" "?N + 1 \<le> 2 ^ (14 * length p)" using Cons by simp_all
  then have "w + 2 ^ 14 * ?N < 2 ^ 14 * (?N + 1)" "2 ^ 14 * (?N + 1) \<le> 2 ^ 14 * 2 ^ (14 * length p)" by simp_all
  then show ?case by (simp add: power_add)
qed simp

lemma from_le_append: "from_le (xs @ ys) = from_le xs + 256 ^ length xs * from_le ys"
  by (induction xs) (simp_all add: algebra_simps)

lemma read_bits_pack:
  assumes p: "\<forall>w \<in> set p. w < 2 ^ 14" "length p = 16" and s: "s < 16"
  shows "read_bits_lsb (to_le 28 (horner_sum (\<lambda>x. x) (2 ^ 14) p) @ to_le 4 b) (s * COMPACT_ENCBITS) = Ok (p ! s)"
proof -
  let ?N = "horner_sum (\<lambda>x. x) (2 ^ 14) p"
  have n: "?N < 256 ^ 28" using packed_less [OF p(1)] p(2) by simp
  define M where "M = from_le (to_le 4 b)"
  have "256 ^ 28 = (2 :: nat) ^ 224" by simp
  then have F: "from_le (to_le 28 ?N @ to_le 4 b) = ?N + 2 ^ 224 * M"
    using from_le_to_le [OF n] by (simp only: from_le_append length_to_le M_def)
  define k where "k = 224 - (14 * s + 14)"
  have e: "(2 :: nat) ^ 224 = 2 ^ (14 * s) * (2 ^ 14 * 2 ^ k)"
    using s by (simp add: k_def flip: power_add)
  have "(?N + 2 ^ 224 * M) div 2 ^ (14 * s) mod 2 ^ 14 = (?N + 2 ^ (14 * s) * (2 ^ 14 * (2 ^ k * M))) div 2 ^ (14 * s) mod 2 ^ 14"
    by (simp only: e mult.assoc)
  also have "\<dots> = (?N div 2 ^ (14 * s) + 2 ^ 14 * (2 ^ k * M)) mod 2 ^ 14"
    by (simp only: div_mult_self2 power_not_zero zero_neq_numeral [symmetric] not_False_eq_True add.commute)
  also have "\<dots> = ?N div 2 ^ (14 * s) mod 2 ^ 14" by (simp only: mod_mult_self2)
  also have "\<dots> = p ! s" using packed_word [OF p(1)] p(2) s by simp
  finally have "take_bit 14 (drop_bit (14 * s) (?N + 2 ^ 224 * M)) = p ! s"
    by (simp only: take_bit_eq_mod drop_bit_eq_div)
  moreover have "14 * s + 14 \<le> 8 * length (to_le 28 ?N @ to_le 4 b)" using s by simp
  ultimately show ?thesis
    using read_bits_lsb_eq [of "14 * s" "to_le 28 ?N @ to_le 4 b"] unfolding F by (simp add: COMPACT_ENCBITS_def mult.commute)
qed

lemma read_2b_packs_step:
  assumes "get_range buf pos (pos + 32) = Some pack" and "from_le (slice pack 28 32) = b" and "length p = 16"
    and "\<And>s. s < 16 \<Longrightarrow> read_bits_lsb pack (s * COMPACT_ENCBITS) = Ok (p ! s)"
  shows "read_2b_packs buf pos (16 + n) rid =
    and_then (read_2b_packs buf (pos + 32) n (rid + 1)) (\<lambda>(rest, pos', rid').
      Ok (map (\<lambda>w. half_entry w rid b) p @ rest, pos', rid'))"
proof -
  have "map_result (\<lambda>s. and_then (read_bits_lsb pack (s * COMPACT_ENCBITS)) (\<lambda>v. Ok (half_entry v rid b))) [0..<16] =
      Ok (map (\<lambda>s. half_entry (p ! s) rid b) [0..<16])"
    using assms(4) by (intro map_result_Ok) simp
  also have "map (\<lambda>s. half_entry (p ! s) rid b) [0..<16] = map (\<lambda>w. half_entry w rid b) p"
    by (rule nth_equalityI) (use assms(3) in simp_all)
  finally have m: "map_result (\<lambda>s. and_then (read_bits_lsb pack (s * COMPACT_ENCBITS)) (\<lambda>v. Ok (half_entry v rid b)))
      [0..<min 16 (16 + n)] = Ok (map (\<lambda>w. half_entry w rid b) p)" by simp
  have ne: "(16 + n = 0) = False" "16 + n - min 16 (16 + n) = n" by simp_all
  show ?thesis
    by (subst read_2b_packs.simps) (simp only: ne if_False assms(1,2) ok_or_simps and_then.simps Let_def m)
qed

lemma read_2b_packs_encode:
  assumes base: "\<And>r. base r < 2 ^ 32"
  shows "\<forall>p \<in> set ps. length p = 16 \<and> (\<forall>w \<in> set p. w < 2 ^ 14) \<Longrightarrow>
    read_2b_packs (pre @ encode_packs base rid ps @ post) (length pre) (16 * length ps) rid =
      Ok (pack_entries base rid ps, length (pre @ encode_packs base rid ps), rid + length ps)"
proof (induction ps arbitrary: pre rid)
  case Nil
  then show ?case by (simp add: read_2b_packs.simps)
next
  case (Cons p ps)
  let ?pk = "to_le 28 (horner_sum (\<lambda>x. x) (2 ^ 14) p) @ to_le 4 (base rid)"
  let ?rest = "encode_packs base (Suc rid) ps"
  have p: "length p = 16" "\<forall>w \<in> set p. w < 2 ^ 14" using Cons.prems by simp_all
  have g: "get_range (pre @ ?pk @ ?rest @ post) (length pre) (length pre + 32) = Some ?pk"
    using slice_middle [of pre "length pre" ?pk "?rest @ post"] by (simp add: get_range_def)
  have "slice ?pk 28 32 = to_le 4 (base rid)" by (simp add: slice_def)
  then have b: "from_le (slice ?pk 28 32) = base rid" using base [of rid] by (simp add: from_le_to_le)
  have IH: "read_2b_packs (pre @ ?pk @ ?rest @ post) (length pre + 32) (16 * length ps) (Suc rid) =
      Ok (pack_entries base (Suc rid) ps, length (pre @ ?pk @ ?rest), Suc rid + length ps)"
    using Cons.IH [of "pre @ ?pk" "Suc rid"] Cons.prems by simp
  have "16 * length (p # ps) = 16 + 16 * length ps" by simp
  then show ?case
    using read_2b_packs_step [OF g b p(1) read_bits_pack [OF p(2,1)], of "16 * length ps" rid] IH by simp
qed


definition compact_encode :: "(nat \<Rightarrow> nat) \<Rightarrow> nat list \<Rightarrow> nat list list \<Rightarrow> nat list \<Rightarrow> bytes" where
  "compact_encode base g1 ps g2 =
     (let r = div_ceil (length g1) 2 in
      encode_groups base 0 g1 @ encode_packs base r ps @ encode_groups base (r + length ps) g2)"

definition compact_entries :: "(nat \<Rightarrow> nat) \<Rightarrow> nat list \<Rightarrow> nat list list \<Rightarrow> nat list \<Rightarrow> raw_entry list" where
  "compact_entries base g1 ps g2 =
     (let r = div_ceil (length g1) 2 in
      group_entries base 0 g1 @ pack_entries base r ps @ group_entries base (r + length ps) g2)"

lemma unpack_compact_encode:
  assumes base: "\<And>r. base r < 2 ^ 32" and g1: "\<forall>w \<in> set g1. w < 2 ^ 14" and g2: "\<forall>w \<in> set g2. w < 2 ^ 14"
    and ps: "\<forall>p \<in> set ps. length p = 16 \<and> (\<forall>w \<in> set p. w < 2 ^ 14)"
  shows "unpack_compact (compact_encode base g1 ps g2) (length g1, 16 * length ps, length g2) = Ok (compact_entries base g1 ps g2)"
    and "length (compact_encode base g1 ps g2) = compact_length (length g1, 16 * length ps, length g2)"
proof -
  define r where "r = div_ceil (length g1) 2"
  let ?a = "encode_groups base 0 g1" and ?b = "encode_packs base r ps" and ?c = "encode_groups base (r + length ps) g2"
  have e: "compact_encode base g1 ps g2 = ?a @ ?b @ ?c" by (simp add: compact_encode_def r_def Let_def)
  have "read_4b_groups (?a @ ?b @ ?c) 0 (length g1) 0 = Ok (group_entries base 0 g1, length ?a, r)"
    using read_4b_groups_encode [of base g1 "[]" 0 "?b @ ?c"] base g1 by (simp add: r_def)
  moreover have "read_2b_packs (?a @ ?b @ ?c) (length ?a) (16 * length ps) r =
      Ok (pack_entries base r ps, length (?a @ ?b), r + length ps)"
    using read_2b_packs_encode [of base ps ?a r ?c] base ps by simp
  moreover have "read_4b_groups (?a @ ?b @ ?c) (length (?a @ ?b)) (length g2) (r + length ps) =
      Ok (group_entries base (r + length ps) g2, length ((?a @ ?b) @ ?c), r + length ps + div_ceil (length g2) 2)"
    using read_4b_groups_encode [of base g2 "?a @ ?b" "r + length ps" "[]"] base g2 by simp
  ultimately show "unpack_compact (compact_encode base g1 ps g2) (length g1, 16 * length ps, length g2) = Ok (compact_entries base g1 ps g2)"
    unfolding e by (simp add: unpack_compact_def compact_entries_def Let_def flip: r_def)
  show "length (compact_encode base g1 ps g2) = compact_length (length g1, 16 * length ps, length g2)"
    unfolding e by (simp add: compact_length_def length_encode_groups length_encode_packs)
qed


section \<open>What a resolved index is\<close>

text \<open>
  The clusters of an index without big clusters, entry by entry: every entry that is not a NONHEAD
  opens one; the first starts the file, and a cluster's block is its region's base, one, and the
  heads before it in the region.
\<close>

definition is_head :: "raw_entry list \<Rightarrow> nat \<Rightarrow> bool" where
  "is_head raw i \<longleftrightarrow> re_ty (raw ! i) \<noteq> LC_TYPE_NONHEAD"

definition heads_before :: "raw_entry list \<Rightarrow> nat \<Rightarrow> nat \<Rightarrow> nat" where
  "heads_before raw r i = length (filter (\<lambda>j. is_head raw j \<and> re_region (raw ! j) = r) [0..<i])"

definition small_head :: "raw_entry list \<Rightarrow> nat \<Rightarrow> nat \<Rightarrow> pc_head" where
  "small_head raw lcsize i =
     \<lparr>hd_start = (if filter (is_head raw) [0..<i] = [] then 0 else i * lcsize + re_value (raw ! i)),
      hd_ty = re_ty (raw ! i), hd_blkaddr = re_base (raw ! i) + 1 + heads_before raw (re_region (raw ! i)) i, hd_cblkcnt = 1\<rparr>"

definition small_heads :: "raw_entry list \<Rightarrow> nat \<Rightarrow> pc_head list" where
  "small_heads raw lcsize = map (small_head raw lcsize) (filter (is_head raw) [0..<length raw])"

lemma filter_snoc_same:
  "i \<le> length raw \<Longrightarrow> filter (is_head (raw @ [e])) [0..<i] = filter (is_head raw) [0..<i]"
  by (intro filter_cong) (auto simp: is_head_def nth_append)

lemma heads_before_snoc: "i \<le> length raw \<Longrightarrow> heads_before (raw @ [e]) r i = heads_before raw r i"
  unfolding heads_before_def by (intro arg_cong [where f = length] filter_cong) (auto simp: is_head_def nth_append)

lemma small_heads_snoc:
  "small_heads (raw @ [e]) lcsize = small_heads raw lcsize @
     (if re_ty e = LC_TYPE_NONHEAD then []
      else [\<lparr>hd_start = (if small_heads raw lcsize = [] then 0 else length raw * lcsize + re_value e), hd_ty = re_ty e,
             hd_blkaddr = re_base e + 1 + heads_before raw (re_region e) (length raw), hd_cblkcnt = 1\<rparr>])"
proof -
  have "map (small_head (raw @ [e]) lcsize) (filter (is_head raw) [0..<length raw]) = small_heads raw lcsize"
    unfolding small_heads_def by (intro map_cong) (auto simp: small_head_def nth_append filter_snoc_same heads_before_snoc)
  then show ?thesis
    by (simp add: small_heads_def filter_snoc_same) (simp add: is_head_def small_head_def filter_snoc_same heads_before_snoc)
qed

lemma resolve_entries_snoc:
  "resolve_entries big lcsize i (es @ [e]) st =
     and_then (resolve_entries big lcsize i es st) (resolve_entries big lcsize (i + length es) [e])"
  by (induction es arbitrary: i st) (simp_all add: and_then_assoc cong: if_cong)

lemma resolve_entries_small:
  assumes base: "\<forall>e \<in> set raw. re_base e + length raw < 2 ^ 32 \<and> re_value e < 2 ^ 12"
    and lc: "length raw * lcsize + 2 ^ 12 \<le> 2 ^ 64"
  shows "\<exists>st. resolve_entries False lcsize 0 raw \<lparr>rs_heads = [], rs_regions = [], rs_cur = None\<rparr> = Ok st \<and>
    rs_heads st = small_heads raw lcsize \<and> bm_ok (rs_regions st) \<and>
    (\<forall>r. (case bm_get (rs_regions st) r of Some c \<Rightarrow> c | None \<Rightarrow> 0) = heads_before raw r (length raw))"
  using assms
proof (induction raw rule: rev_induct)
  case Nil
  then show ?case by (simp add: small_heads_def heads_before_def bm_get_def bm_ok_def)
next
  case (snoc e raw)
  have lc: "length raw * lcsize + 2 ^ 12 \<le> 2 ^ 64"
    using snoc.prems(2) by (simp add: algebra_simps)
  from snoc.IH [OF _ lc] snoc.prems(1) obtain st where
    st: "resolve_entries False lcsize 0 raw \<lparr>rs_heads = [], rs_regions = [], rs_cur = None\<rparr> = Ok st"
      "rs_heads st = small_heads raw lcsize" "bm_ok (rs_regions st)"
      "\<And>r. (case bm_get (rs_regions st) r of Some c \<Rightarrow> c | None \<Rightarrow> 0) = heads_before raw r (length raw)"
    by fastforce
  let ?r = "re_region e"
  have hb: "heads_before (raw @ [e]) r (Suc (length raw)) =
      heads_before raw r (length raw) + (if re_ty e \<noteq> LC_TYPE_NONHEAD \<and> ?r = r then 1 else 0)" for r
    using heads_before_snoc [of "length raw" raw e r] by (simp add: heads_before_def is_head_def)
  have run: "resolve_entries False lcsize 0 (raw @ [e]) \<lparr>rs_heads = [], rs_regions = [], rs_cur = None\<rparr> =
      (if re_ty e = LC_TYPE_NONHEAD then nonhead_entry False e st else head_entry False lcsize (length raw) e st)"
    unfolding resolve_entries_snoc st(1) by (simp add: and_then_Ok_right)
  show ?case
  proof (cases "re_ty e = LC_TYPE_NONHEAD")
    case True
    then show ?thesis using run st by (simp add: nonhead_entry_def small_heads_snoc hb)
  next
    case False
    let ?c = "heads_before raw ?r (length raw)"
    have "?c \<le> length raw" unfolding heads_before_def by (rule le_trans [OF length_filter_le]) simp
    then have b: "re_base e + 1 + ?c < 2 ^ 32" "?c + 1 < 2 ^ 32" using snoc.prems(1) by simp_all
    have v: "length raw * lcsize + re_value e < 2 ^ 64" "re_value e < 2 ^ 12" using snoc.prems lc by auto
    have s: "(if rs_heads st = [] then Ok 0 else and_then (umul 64 (length raw) lcsize) (\<lambda>x. uadd 64 x (re_value e))) =
        Ok (if small_heads raw lcsize = [] then 0 else length raw * lcsize + re_value e)"
      using v st(2) by (simp add: umul_def uadd_def)
    have a: "(case checked_add 32 (re_base e) 1 of Some x \<Rightarrow> checked_add 32 x ?c | None \<Rightarrow> None) = Some (re_base e + 1 + ?c)"
      using b by (simp add: checked_add_def)
    have h: "head_entry False lcsize (length raw) e st =
        Ok \<lparr>rs_heads = small_heads (raw @ [e]) lcsize, rs_regions = bm_insert ?r (?c + 1) (rs_regions st),
            rs_cur = Some (length (small_heads raw lcsize))\<rparr>"
      unfolding head_entry_def s st(4) Let_def a using b(2) False st(2)
      by (simp add: uadd_def small_heads_snoc del: Suc_eq_plus1)
    have "(case bm_get (bm_insert ?r (?c + 1) (rs_regions st)) r of Some c \<Rightarrow> c | None \<Rightarrow> 0) =
        heads_before (raw @ [e]) r (Suc (length raw))" for r
      using st(4) [of r] False by (auto simp: bm_get_insert hb)
    then show ?thesis using run h False bm_ok_insert [OF st(3)] by simp
  qed
qed

lemma resolve_compact_small:
  assumes "\<forall>e \<in> set raw. re_base e + length raw < 2 ^ 32 \<and> re_value e < 2 ^ 12"
    and "length raw * lcsize + 2 ^ 12 \<le> 2 ^ 64" and "advise AND ADVISE_BIG_PCLUSTER = 0"
  shows "resolve_compact_heads raw lcsize advise = Ok (small_heads raw lcsize)"
  using resolve_entries_small [OF assms(1,2)] assms(3) by (auto simp: resolve_compact_heads_def)

text \<open>Big clusters follow each other on the medium.\<close>

lemma assign_blkaddrs_chain:
  "assign_blkaddrs blk hs = Ok hs' \<Longrightarrow> length hs' = length hs \<and> map hd_cblkcnt hs' = map hd_cblkcnt hs \<and>
     (\<forall>k < length hs. hd_blkaddr (hs' ! k) = blk + sum_list (map hd_cblkcnt (take k hs)))"
proof (induction blk hs arbitrary: hs' rule: assign_blkaddrs.induct)
  case (3 blk h h' hs)
  from "3.prems" obtain rest where r: "checked_add 32 blk (hd_cblkcnt h) = Some (blk + hd_cblkcnt h)"
    "assign_blkaddrs (blk + hd_cblkcnt h) (h' # hs) = Ok rest" "hs' = h\<lparr>hd_blkaddr := blk\<rparr> # rest"
    by (auto simp: and_then_eq_Ok ok_or_eq_Ok checked_add_eq_Some)
  from "3.IH" [OF _ r(2)] r(1,3) show ?case by (auto simp: nth_Cons split: nat.splits)
qed auto



section \<open>Safety\<close>

lemma no_panic_bits_loop: "no_panic (bits_loop buf bp n k v)"
  by (induction buf bp n k v rule: bits_loop.induct) (simp_all add: Let_def no_panic_and_then)

lemma no_panic_read_4b_groups: "no_panic (read_4b_groups buf pos count rid)"
proof (induction buf pos count rid rule: read_4b_groups.induct)
  case (1 buf pos count rid)
  then show ?case by (subst read_4b_groups.simps) (auto simp: no_panic_and_then Let_def split: prod.splits)
qed

lemma no_panic_read_2b_packs: "no_panic (read_2b_packs buf pos count rid)"
proof (induction buf pos count rid rule: read_2b_packs.induct)
  case (1 buf pos count rid)
  have "no_panic (map_result f xs)" if "\<And>x. no_panic (f x)" for f :: "nat \<Rightarrow> raw_entry result" and xs
    using that by (induction xs) (auto simp: no_panic_and_then)
  then have m: "no_panic (map_result (\<lambda>s. and_then (read_bits_lsb pack (s * COMPACT_ENCBITS)) (\<lambda>v. Ok (half_entry v rid base))) xs)"
    for pack base xs
    by (simp add: no_panic_and_then read_bits_lsb_def no_panic_bits_loop)
  show ?case using 1 by (subst read_2b_packs.simps) (auto simp: no_panic_and_then Let_def m split: prod.splits)
qed

lemma no_panic_unpack_compact: "no_panic (unpack_compact buf z)"
  by (auto simp: unpack_compact_def no_panic_and_then no_panic_read_4b_groups no_panic_read_2b_packs split: prod.splits)

lemma only_overflow_resolve_entries:
  "(\<forall>h. rs_cur st = Some h \<longrightarrow> h < length (rs_heads st)) \<Longrightarrow> only_overflow (resolve_entries big lcsize i es st)"
proof (induction es arbitrary: i st)
  case (Cons e es)
  let ?step = "if re_ty e = LC_TYPE_NONHEAD then nonhead_entry big e st else head_entry big lcsize i e st"
  have m: "only_overflow (umul 64 x y)" for x y by (simp add: umul_def)
  have "only_overflow ?step"
    using Cons.prems by (auto simp: nonhead_entry_def head_entry_def only_overflow_and_then index_at_def Let_def m split: option.splits)
  moreover have "\<forall>h. rs_cur st' = Some h \<longrightarrow> h < length (rs_heads st')" if "?step = Ok st'" for st'
    using that Cons.prems
    by (auto simp: nonhead_entry_def head_entry_def and_then_eq_Ok Let_def split: if_splits option.splits)
  ultimately show ?case using Cons.IH by (simp add: only_overflow_and_then)
qed simp

lemma only_overflow_resolve_compact: "only_overflow (resolve_compact_heads raw lcsize advise)"
proof -
  have "only_overflow (assign_blkaddrs blk hs)" for blk hs
    by (induction blk hs rule: assign_blkaddrs.induct) (simp_all add: only_overflow_and_then)
  then show ?thesis
    by (auto simp: resolve_compact_heads_def Let_def only_overflow_and_then intro: only_overflow_resolve_entries)
qed

lemma windows_position: "position P (windows n xs) = Some i \<Longrightarrow> i \<le> length xs"
  using position_less [of P "windows n xs" i] by (simp add: windows_def)

lemma no_panic_deflate_starts: "no_panic (deflate_starts lib span n starts pending)"
proof (induction starts arbitrary: pending)
  case (Cons st starts)
  let ?t = "case get_from span st of Some t \<Rightarrow> t | None \<Rightarrow> []"
  have "no_panic (decode lib Deflate ?t n)" by simp
  then show ?case using Cons by (cases "decode lib Deflate ?t n") (simp_all add: Let_def split: fold_error.splits)
qed simp

lemma no_panic_decode_pcluster: "no_panic (decode_pcluster lib ty algo span n prior dict zp)"
proof -
  have "no_panic (lz4_pcluster lib span n win zp)" for win
    using position_less [of "\<lambda>b. b \<noteq> 0" span]
    by (auto simp: lz4_pcluster_def no_panic_and_then no_panic_index ok_or_eq_Ok less_imp_le)
  moreover have "no_panic (deflate_pcluster lib span n)" by (simp add: deflate_pcluster_def Let_def no_panic_deflate_starts del: deflate_starts.simps)
  moreover have "no_panic (zstd_pcluster lib span n)"
    using windows_position by (auto simp: zstd_pcluster_def no_panic_and_then no_panic_index ok_or_eq_Ok)
  moreover have "no_panic (lzma_pcluster lib span n d)" for d
    using position_less [of "\<lambda>b. b \<noteq> 0" span]
    by (auto simp: lzma_pcluster_def no_panic_and_then no_panic_index ok_or_eq_Ok Let_def less_imp_le)
  ultimately show ?thesis
    by (auto simp: decode_pcluster_def decode_head_def no_panic_and_then no_panic_index)
qed

end
