(* ===== verification/Erofs.thy ===== *)
theory Erofs
  imports Erofs_Index Fold_Path
begin

text \<open>
  The EROFS reader (\<^verbatim>\<open>crates/lamfold-erofs/src/erofs.rs\<close>): superblock and features, inodes, flat,
  inlined, chunked and compressed data, directories, and the frontend, whose reads hand every block
  to the verifier before a byte of it is surfaced. A volume keeps two caches, of parsed inodes and
  of decoded files.
\<close>

definition SUPER_OFFSET :: nat where "SUPER_OFFSET = 1024"
definition EROFS_MAGIC :: nat where "EROFS_MAGIC = 0xE0F5E1E2"
definition SB_FEATURE_INCOMPAT :: nat where "SB_FEATURE_INCOMPAT = 80"
definition SB_EXTRA_DEVICES :: nat where "SB_EXTRA_DEVICES = 86"
definition SB_PACKED_NID :: nat where "SB_PACKED_NID = 96"
definition INCOMPAT_LZ4_0PADDING :: nat where "INCOMPAT_LZ4_0PADDING = 0x0001"
definition INCOMPAT_48BIT :: nat where "INCOMPAT_48BIT = 0x0080"
definition INCOMPAT_METABOX :: nat where "INCOMPAT_METABOX = 0x0100"
definition INCOMPAT_KNOWN :: nat where "INCOMPAT_KNOWN = 0x01FF"
definition FLAT_PLAIN :: nat where "FLAT_PLAIN = 0"
definition FLAT_INLINE :: nat where "FLAT_INLINE = 2"
definition CHUNK_BASED :: nat where "CHUNK_BASED = 4"
definition CHUNK_BLKBITS_MASK :: nat where "CHUNK_BLKBITS_MASK = 0x001F"
definition CHUNK_INDEXES :: nat where "CHUNK_INDEXES = 0x0020"
definition CHUNK_48BIT :: nat where "CHUNK_48BIT = 0x0040"
definition CHUNK_FORMAT_ALL :: nat where "CHUNK_FORMAT_ALL = 0x007F"
definition NULL_BLKADDR :: nat where "NULL_BLKADDR = 0xFFFFFFFF"
definition COMPRESSED_FULL :: nat where "COMPRESSED_FULL = 1"
definition COMPRESSED_COMPACT :: nat where "COMPRESSED_COMPACT = 3"
definition ADVISE_COMPACTED_2B :: nat where "ADVISE_COMPACTED_2B = 0x0001"
definition ADVISE_INLINE_PCLUSTER :: nat where "ADVISE_INLINE_PCLUSTER = 0x0008"
definition ADVISE_INTERLACED_PCLUSTER :: nat where "ADVISE_INTERLACED_PCLUSTER = 0x0010"
definition ADVISE_FRAGMENT :: nat where "ADVISE_FRAGMENT = 0x0020"
definition CLUSTERBITS_WHOLE_FILE_FRAGMENT :: byte where "CLUSTERBITS_WHOLE_FILE_FRAGMENT = 0x80"
definition COMPR_ALGS_OFF :: nat where "COMPR_ALGS_OFF = 1024 + 84"
definition SB_EXTSLOTS :: nat where "SB_EXTSLOTS = 13"
definition SB_BASE_SIZE :: nat where "SB_BASE_SIZE = 128"
definition SB_EXTSLOT_SIZE :: nat where "SB_EXTSLOT_SIZE = 16"
definition COMPR_ALG_LZMA_BIT :: nat where "COMPR_ALG_LZMA_BIT = 0x0002"
definition Z_EROFS_LEGACY_HEADER_SIZE :: nat where "Z_EROFS_LEGACY_HEADER_SIZE = 16"
definition LI_HOLE :: nat where "LI_HOLE = 2 ^ 14"

record erofs_inode =
  ei_kind :: file_kind
  ei_size :: nat
  ei_mode :: nat
  ei_layout :: nat
  ei_raw_blkaddr :: nat
  ei_inline_off :: nat

record erofs =
  er_src :: block_source
  er_block_size :: nat
  er_blkszbits :: nat
  er_zero_padding :: bool
  er_meta_off :: nat
  er_root_nid :: nat
  er_inodes :: "(nat, erofs_inode) btree"
  er_decoded :: "(nat, bytes) btree"
  er_lzma_dict :: "nat option"
  er_cfgs_off :: nat

definition er_le_u16 :: "bytes \<Rightarrow> nat \<Rightarrow> nat result" where
  "er_le_u16 = le_field ''erofs: truncated u16'' 2"

definition er_le_u32 :: "bytes \<Rightarrow> nat \<Rightarrow> nat result" where
  "er_le_u32 = le_field ''erofs: truncated u32'' 4"

definition er_le_u64 :: "bytes \<Rightarrow> nat \<Rightarrow> nat result" where
  "er_le_u64 = le_field ''erofs: truncated u64'' 8"


section \<open>Inodes\<close>

definition erofs_kind :: "nat \<Rightarrow> file_kind" where
  "erofs_kind mode =
     (let t = mode AND 0xF000 in
      if t = 0x8000 then Regular else if t = 0x4000 then Directory else if t = 0xA000 then Symlink else Other)"

text \<open>The body of \<^verbatim>\<open>parse_inode\<close> behind its cache: an inode of 32 bytes, or of 64 when extended.\<close>

definition fetch_inode :: "erofs \<Rightarrow> nat \<Rightarrow> erofs_inode result" where
  "fetch_inode s nid =
     and_then (ok_or (case checked_mul 64 nid 32 of Some x \<Rightarrow> checked_add 64 (er_meta_off s) x | None \<Rightarrow> None)
                 (Corrupt ''erofs: inode offset overflow'')) (\<lambda>off.
     and_then (src_read (er_src s) off 32) (\<lambda>h.
     and_then (er_le_u16 (h @ replicate 32 0) 0) (\<lambda>format.
     let extended = (format AND 1 \<noteq> 0) in
     and_then (if extended
               then and_then (uadd 64 off 32) (\<lambda>off2. and_then (src_read (er_src s) off2 32) (\<lambda>h2. Ok (h @ h2)))
               else Ok (h @ replicate 32 0)) (\<lambda>hdr.
     and_then (er_le_u16 hdr 2) (\<lambda>xattr_icount.
     let xattr_size = (if xattr_icount = 0 then 0 else 12 + (xattr_icount - 1) * 4) in
     and_then (er_le_u16 hdr 4) (\<lambda>mode.
     and_then (if extended then er_le_u64 hdr 8 else er_le_u32 hdr 8) (\<lambda>sz.
     and_then (er_le_u32 hdr 16) (\<lambda>raw_blkaddr.
     and_then (uadd 64 off (if extended then 64 else 32)) (\<lambda>x.
     and_then (uadd 64 x xattr_size) (\<lambda>inline_off.
       Ok \<lparr>ei_kind = erofs_kind mode, ei_size = sz, ei_mode = mode, ei_layout = drop_bit 1 format AND 7,
           ei_raw_blkaddr = raw_blkaddr, ei_inline_off = inline_off\<rparr>))))))))))"

definition erofs_parse_inode :: "nat \<Rightarrow> (erofs, unit) op" where
  "erofs_parse_inode nid s =
     (if bm_get (er_inodes s) nid \<noteq> None then (Ok (), s)
      else
        case fetch_inode s nid of
          Ok i \<Rightarrow> (Ok (), s\<lparr>er_inodes := bm_insert nid i (er_inodes s)\<rparr>)
        | Err e \<Rightarrow> (Err e, s)
        | Panic p \<Rightarrow> (Panic p, s))"

definition erofs_inode_of :: "erofs \<Rightarrow> nat \<Rightarrow> erofs_inode result" where
  "erofs_inode_of s nid = ok_or (bm_get (er_inodes s) nid) NotFound"


section \<open>Flat and chunked data\<close>

text \<open>The loop over whole blocks and the inlined rest, at \<open>p\<close>.\<close>

function inline_loop :: "block_source \<Rightarrow> nat \<Rightarrow> nat \<Rightarrow> nat \<Rightarrow> nat \<Rightarrow> nat \<Rightarrow> nat \<Rightarrow> bytes \<Rightarrow> bytes result" where
  "inline_loop src base inline_off full off stop p buf =
     (if p < stop then
        and_then (if p < full then and_then (uadd 64 base p) (\<lambda>disk. Ok (disk, min stop full))
                  else and_then (uadd 64 inline_off (p - full)) (\<lambda>disk. Ok (disk, stop))) (\<lambda>(disk, seg_end).
        and_then (src_read src disk (seg_end - p)) (\<lambda>piece.
          inline_loop src base inline_off full off stop seg_end (overwrite buf (p - off) piece)))
      else Ok buf)"
  by pat_completeness auto
termination
  by (relation "measure (\<lambda>(src, base, inline_off, full, off, stop, p, buf). stop - p)")
    (auto simp: and_then_eq_Ok split: if_splits)

declare inline_loop.simps [simp del]

text \<open>The \<open>n\<close> bytes of the chunk at \<open>blkaddr\<close> from \<open>within\<close> on; a hole reads as zeros.\<close>

definition chunk_piece :: "block_source \<Rightarrow> nat \<Rightarrow> nat \<Rightarrow> nat \<Rightarrow> nat \<Rightarrow> bytes result" where
  "chunk_piece src bs blkaddr within n =
     (if blkaddr = NULL_BLKADDR then Ok (replicate n 0)
      else
        and_then (umul 64 blkaddr bs) (\<lambda>base.
        and_then (uadd 64 base within) (\<lambda>disk. src_read src disk n)))"

function chunk_loop :: "block_source \<Rightarrow> nat \<Rightarrow> nat \<Rightarrow> nat \<Rightarrow> nat \<Rightarrow> nat \<Rightarrow> nat \<Rightarrow> bytes \<Rightarrow> bytes result" where
  "chunk_loop src bs chunk table off stop p buf =
     (if p < stop \<and> 0 < chunk then
        let idx = p div chunk; within = p mod chunk in
        and_then (umul 64 (idx + 1) chunk) (\<lambda>chunk_end.
        let seg_end = min stop chunk_end; n = seg_end - p in
        and_then (umul 64 idx 4) (\<lambda>x.
        and_then (uadd 64 table x) (\<lambda>at.
        and_then (src_read src at 4) (\<lambda>e.
        and_then (chunk_piece src bs (from_le e) within n) (\<lambda>piece.
          chunk_loop src bs chunk table off stop seg_end (overwrite buf (p - off) piece))))))
      else Ok buf)"
  by pat_completeness auto
termination
proof (relation "measure (\<lambda>(src, bs, chunk, table, off, stop, p, buf). stop - p)", goal_cases)
  case (2 src bs chunk table off stop p buf idx within chunk_end seg_end n x at e piece)
  then have c: "p < stop" "0 < chunk" "chunk_end = (p div chunk + 1) * chunk" by (simp_all add: umul_eq_Ok)
  have "p < (p div chunk + 1) * chunk" using dividend_less_div_times [OF c(2), of p] by simp
  with c(3) have "p < chunk_end" by simp
  with 2 c(1) show ?case by (auto simp: min_def)
qed simp

declare chunk_loop.simps [simp del]

text \<open>\<^verbatim>\<open>(inline_off + 3) & !3\<close>.\<close>

definition chunk_table :: "nat \<Rightarrow> nat result" where
  "chunk_table inline_off = and_then (uadd 64 inline_off 3) (\<lambda>x. Ok (x div 4 * 4))"

definition read_chunked :: "erofs \<Rightarrow> nat \<Rightarrow> nat \<Rightarrow> nat \<Rightarrow> nat \<Rightarrow> bytes \<Rightarrow> (nat \<times> bytes) result" where
  "read_chunked s raw_blkaddr inline_off off stop buf =
     (let format = raw_blkaddr AND 0xFFFF in
      if format AND (0xFFFF - CHUNK_FORMAT_ALL) \<noteq> 0 then Err (Corrupt ''erofs: unknown chunk format bits'')
      else if format AND CHUNK_48BIT \<noteq> 0 then Err (Unsupported ''erofs: 48-bit chunk indexes not supported'')
      else
        let chunkbits = er_blkszbits s + (format AND CHUNK_BLKBITS_MASK) in
        if chunkbits > 40 then Err (Corrupt ''erofs: implausible chunk size'')
        else if format AND CHUNK_INDEXES \<noteq> 0 then Err (Unsupported ''erofs: chunk indexes not supported'')
        else
          and_then (chunk_table inline_off) (\<lambda>table.
          and_then (chunk_loop (er_src s) (er_block_size s) (2 ^ chunkbits) table off stop off buf) (\<lambda>buf'.
            Ok (stop - off, buf'))))"


section \<open>Compressed data\<close>

text \<open>\<^verbatim>\<open>read_span\<close>: the blocks of a cluster, as far as the medium goes.\<close>

definition read_span :: "erofs \<Rightarrow> nat \<Rightarrow> nat \<Rightarrow> bytes result" where
  "read_span s blkaddr cblkcnt =
     and_then (umul 64 blkaddr (er_block_size s)) (\<lambda>phys.
     and_then (umul 64 cblkcnt (er_block_size s)) (\<lambda>want.
     let avail = min want (src_len (er_src s) - phys) in
     if avail = 0 then Err (Corrupt ''erofs: pcluster span out of range'')
     else src_read (er_src s) phys avail))"

text \<open>The legacy index: \<open>left\<close> entries from the \<open>i\<close>-th on, \<open>first\<close> while no cluster is open.\<close>

fun full_heads :: "block_source \<Rightarrow> nat \<Rightarrow> nat \<Rightarrow> nat \<Rightarrow> nat \<Rightarrow> bool \<Rightarrow> pc_head list result" where
  "full_heads src idx0 lcsize 0 i first = Ok []"
| "full_heads src idx0 lcsize (Suc left) i first =
     and_then (umul 64 i 8) (\<lambda>x.
     and_then (uadd 64 idx0 x) (\<lambda>at.
     and_then (src_read src at 8) (\<lambda>e.
     let advise = from_le (slice e 0 2); ty = advise AND 3 in
     if ty = LC_TYPE_NONHEAD then full_heads src idx0 lcsize left (Suc i) first
     else if advise AND LI_HOLE \<noteq> 0 then Err (Unsupported ''erofs: hole pcluster not supported'')
     else
       and_then (if first then Ok 0
                 else and_then (umul 64 i lcsize) (\<lambda>y. uadd 64 y (from_le (slice e 2 4)))) (\<lambda>start.
       and_then (full_heads src idx0 lcsize left (Suc i) False) (\<lambda>rest.
         Ok (\<lparr>hd_start = start, hd_ty = ty, hd_blkaddr = from_le (slice e 4 8), hd_cblkcnt = 1\<rparr> # rest))))))"

definition build_heads_full :: "erofs \<Rightarrow> nat \<Rightarrow> nat \<Rightarrow> nat \<Rightarrow> pc_head list result" where
  "build_heads_full s mh lcsize n_lc =
     and_then (uadd 64 mh Z_EROFS_LEGACY_HEADER_SIZE) (\<lambda>idx0. full_heads (er_src s) idx0 lcsize n_lc 0 True)"

definition build_heads_compact :: "erofs \<Rightarrow> nat \<Rightarrow> nat \<Rightarrow> nat \<Rightarrow> nat \<Rightarrow> pc_head list result" where
  "build_heads_compact s ebase lcsize n_lc advise =
     (let zones = compact_zones ebase n_lc in
      and_then (checked_full_read_len (compact_length zones)) (\<lambda>cap.
      and_then (src_read (er_src s) ebase cap) (\<lambda>buf.
      and_then (unpack_compact buf zones) (\<lambda>raw. resolve_compact_heads raw lcsize advise))))"

text \<open>The clusters in turn, with \<open>out\<close> decoded so far.\<close>

fun decode_heads :: "'r codec_lib \<Rightarrow> erofs \<Rightarrow> nat \<Rightarrow> nat \<Rightarrow> nat \<Rightarrow> pc_head list \<Rightarrow> bytes \<Rightarrow> bytes result" where
  "decode_heads lib s i_size algo1 algo2 [] out = Ok out"
| "decode_heads lib s i_size algo1 algo2 (h # hs) out =
     (let nxt = (case hs of [] \<Rightarrow> i_size | h' # _ \<Rightarrow> hd_start h') in
      if nxt < hd_start h then Err (Corrupt ''erofs: non-monotonic pcluster starts'')
      else
        let outlen = nxt - hd_start h in
        if outlen = 0 then decode_heads lib s i_size algo1 algo2 hs out
        else
          and_then (read_span s (hd_blkaddr h) (hd_cblkcnt h)) (\<lambda>span.
          and_then (decode_pcluster lib (hd_ty h) (if hd_ty h = LC_TYPE_HEAD2 then algo2 else algo1) span outlen out
                      (er_lzma_dict s) (er_zero_padding s)) (\<lambda>seg.
            decode_heads lib s i_size algo1 algo2 hs (out @ seg))))"

text \<open>\<^verbatim>\<open>(inline_off + 7) & !7\<close>.\<close>

definition map_header_at :: "nat \<Rightarrow> nat result" where
  "map_header_at inline_off = and_then (uadd 64 inline_off 7) (\<lambda>x. Ok (x div 8 * 8))"

definition cluster_heads :: "erofs \<Rightarrow> erofs_inode \<Rightarrow> nat \<Rightarrow> nat \<Rightarrow> nat \<Rightarrow> pc_head list result" where
  "cluster_heads s inode mh lcbits advise =
     (let n_lc = div_ceil (ei_size inode) (2 ^ lcbits) in
      if ei_layout inode = COMPRESSED_FULL then build_heads_full s mh (2 ^ lcbits) n_lc
      else if ei_layout inode = COMPRESSED_COMPACT then
        if lcbits > COMPACT_LOBITS then Err (Unsupported ''erofs: compact index with lclusterbits above 12'')
        else if advise AND ADVISE_COMPACTED_2B = 0 then
          Err (Unsupported ''erofs: all-4B compact index (COMPACTED_2B clear) not supported'')
        else and_then (uadd 64 mh 8) (\<lambda>ebase. build_heads_compact s ebase (2 ^ lcbits) n_lc advise)
      else Err (Corrupt ''erofs: inode is not compressed''))"

text \<open>The body of \<^verbatim>\<open>materialize_compressed\<close> behind its cache.\<close>

definition decode_inode_data :: "'r codec_lib \<Rightarrow> erofs \<Rightarrow> erofs_inode \<Rightarrow> bytes result" where
  "decode_inode_data lib s inode =
     and_then (map_header_at (ei_inline_off inode)) (\<lambda>mh.
     and_then (checked_full_read_len (ei_size inode)) (\<lambda>_.
     and_then (src_read (er_src s) mh 8) (\<lambda>hdr.
     let advise = from_le (slice hdr 4 6); algos = hdr ! 6; clusterbits = hdr ! 7 in
     if clusterbits AND CLUSTERBITS_WHOLE_FILE_FRAGMENT \<noteq> 0 \<or>
        advise AND (ADVISE_INLINE_PCLUSTER OR ADVISE_INTERLACED_PCLUSTER OR ADVISE_FRAGMENT) \<noteq> 0
     then Err (Unsupported ''erofs: ztailpacking / fragment / interlaced pclusters not supported'')
     else
       let lcbits = er_blkszbits s + unat (clusterbits AND 0x0F) in
       if lcbits > 30 then Err (Corrupt ''erofs: implausible lclusterbits'')
       else
         and_then (cluster_heads s inode mh lcbits advise) (\<lambda>heads.
           decode_heads lib s (ei_size inode) (unat (algos AND 0x0F)) (unat (drop_bit 4 algos AND 0x0F)) heads []))))"

definition materialize_compressed :: "'r codec_lib \<Rightarrow> nat \<Rightarrow> (erofs, unit) op" where
  "materialize_compressed lib nid s =
     (if bm_get (er_decoded s) nid \<noteq> None then (Ok (), s)
      else
        case and_then (erofs_inode_of s nid) (decode_inode_data lib s) of
          Ok out \<Rightarrow> (Ok (), s\<lparr>er_decoded := bm_insert nid out (er_decoded s)\<rparr>)
        | Err e \<Rightarrow> (Err e, s)
        | Panic p \<Rightarrow> (Panic p, s))"


section \<open>Reading an inode's data\<close>

definition decoded_part :: "erofs \<Rightarrow> nat \<Rightarrow> nat \<Rightarrow> nat \<Rightarrow> bytes \<Rightarrow> (nat \<times> bytes) result" where
  "decoded_part s nid off n buf =
     and_then (ok_or (bm_get (er_decoded s) nid) (Corrupt ''erofs: decode cache miss'')) (\<lambda>data.
     and_then (ok_or (get_range data off (off + n)) (Corrupt ''erofs: decoded read past end'')) (\<lambda>seg.
       Ok (n, overwrite buf 0 seg)))"

text \<open>The layouts that are read from the medium as they are, from \<open>off\<close> to \<open>stop\<close>.\<close>

definition flat_data :: "erofs \<Rightarrow> erofs_inode \<Rightarrow> nat \<Rightarrow> nat \<Rightarrow> bytes \<Rightarrow> (nat \<times> bytes) result" where
  "flat_data s inode off stop buf =
     (let n = stop - off; bs = er_block_size s in
      if ei_layout inode = FLAT_PLAIN then
        and_then (umul 64 (ei_raw_blkaddr inode) bs) (\<lambda>base.
        and_then (uadd 64 base off) (\<lambda>at.
        and_then (src_read (er_src s) at n) (\<lambda>piece. Ok (n, overwrite buf 0 piece))))
      else if ei_layout inode = FLAT_INLINE then
        and_then (umul 64 (ei_raw_blkaddr inode) bs) (\<lambda>base.
        and_then (inline_loop (er_src s) base (ei_inline_off inode) (ei_size inode div bs * bs) off stop off buf) (\<lambda>buf'.
          Ok (n, buf')))
      else if ei_layout inode = CHUNK_BASED then
        read_chunked s (ei_raw_blkaddr inode) (ei_inline_off inode) off stop buf
      else Err (Unsupported ''erofs: unknown datalayout''))"

definition compressed_layout :: "erofs_inode \<Rightarrow> bool" where
  "compressed_layout inode \<longleftrightarrow> ei_layout inode = COMPRESSED_FULL \<or> ei_layout inode = COMPRESSED_COMPACT"

definition read_inode_data :: "'r codec_lib \<Rightarrow> nat \<Rightarrow> nat \<Rightarrow> bytes \<Rightarrow> (erofs, nat \<times> bytes) op" where
  "read_inode_data lib nid off buf =
     (\<lambda>s. op_bind (op_return (erofs_inode_of s nid)) (\<lambda>inode.
       if off \<ge> ei_size inode then op_return (Ok (0, buf))
       else
         op_bind (op_return (uadd 64 off (length buf))) (\<lambda>lim.
         let stop = min lim (ei_size inode) in
         if compressed_layout inode then
           op_bind (materialize_compressed lib nid) (\<lambda>_ s'. (decoded_part s' nid off (stop - off) buf, s'))
         else op_return (flat_data s inode off stop buf))) s)"


section \<open>Directories\<close>

text \<open>The dirents of a block from the \<open>i\<close>-th on, \<open>left\<close> of them; a name ends at its first NUL.\<close>

fun dirents :: "bytes \<Rightarrow> nat \<Rightarrow> nat \<Rightarrow> nat \<Rightarrow> (bytes \<times> nat \<times> byte) list result" where
  "dirents block entries 0 i = Ok []"
| "dirents block entries (Suc left) i =
     and_then (er_le_u64 block (i * 12)) (\<lambda>nid.
     and_then (er_le_u16 block (i * 12 + 8)) (\<lambda>nameoff.
     and_then (ok_or (get_at block (i * 12 + 10)) (Corrupt ''erofs: dirent'')) (\<lambda>file_type.
     and_then (if i + 1 < entries then er_le_u16 block ((i + 1) * 12 + 8) else Ok (length block)) (\<lambda>name_end.
     and_then (ok_or (get_range block nameoff name_end) (Corrupt ''erofs: dirent name OOB'')) (\<lambda>raw.
     let name = takeWhile (\<lambda>b. b \<noteq> 0) raw in
     and_then (dirents block entries left (Suc i)) (\<lambda>rest.
       Ok (if name = [] \<or> name = [46] \<or> name = [46, 46] then rest
           else (from_utf8_lossy name, nid, file_type) # rest)))))))"

definition parse_dir_block :: "bytes \<Rightarrow> (bytes \<times> nat \<times> byte) list result" where
  "parse_dir_block block =
     (if length block < 12 then Ok []
      else and_then (er_le_u16 block 8) (\<lambda>first_nameoff.
        let entries = first_nameoff div 12 in dirents block entries entries 0))"

text \<open>The blocks of a directory from \<open>start\<close> on. The block size of a mounted volume is not zero.\<close>

function dir_blocks :: "nat \<Rightarrow> bytes \<Rightarrow> nat \<Rightarrow> (bytes \<times> nat \<times> byte) list result" where
  "dir_blocks bs data start =
     (if start < length data \<and> 0 < bs then
        let block_end = min (start + bs) (length data) in
        and_then (parse_dir_block (slice data start block_end)) (\<lambda>es.
        and_then (dir_blocks bs data block_end) (\<lambda>rest. Ok (es @ rest)))
      else Ok [])"
  by pat_completeness auto
termination
  by (relation "measure (\<lambda>(bs, data, start). length data - start)") auto

declare dir_blocks.simps [simp del]

definition ft_kind :: "byte \<Rightarrow> file_kind" where
  "ft_kind file_type =
     (if file_type = 1 then Regular else if file_type = 2 then Directory else if file_type = 7 then Symlink else Other)"


section \<open>Mounting\<close>

text \<open>
  The walk over the compression configs in the order of the algorithm bits. A failed read ends it
  without a window.
\<close>

fun lzma_cfg_walk :: "block_source \<Rightarrow> nat \<Rightarrow> nat list \<Rightarrow> nat \<Rightarrow> nat option result" where
  "lzma_cfg_walk src algs [] cur = Ok None"
| "lzma_cfg_walk src algs (alg # rest) cur =
     (if algs AND 2 ^ alg = 0 then lzma_cfg_walk src algs rest cur
      else case src_read src cur 2 of
        Ok sz \<Rightarrow>
          if alg = ALGO_LZMA then
            (case src_read src (cur + 2) 6 of
               Ok pay \<Rightarrow> Ok (if from_le (slice pay 4 6) = 0 then Some (from_le (slice pay 0 4)) else None)
             | Err e \<Rightarrow> Ok None
             | Panic p \<Rightarrow> Panic p)
          else lzma_cfg_walk src algs rest (cur + (2 + from_le sz))
      | Err e \<Rightarrow> Ok None
      | Panic p \<Rightarrow> Panic p)"

definition parse_lzma_cfg :: "erofs \<Rightarrow> erofs result" where
  "parse_lzma_cfg s =
     (case src_read (er_src s) COMPR_ALGS_OFF 2 of
        Ok algs \<Rightarrow>
          if from_le algs AND COMPR_ALG_LZMA_BIT = 0 then Ok s
          else and_then (lzma_cfg_walk (er_src s) (from_le algs) [0..<16] (er_cfgs_off s)) (\<lambda>d. Ok (s\<lparr>er_lzma_dict := d\<rparr>))
      | Err e \<Rightarrow> Ok s
      | Panic p \<Rightarrow> Panic p)"

definition refuse_unsupported_features :: "bytes \<Rightarrow> nat \<Rightarrow> unit result" where
  "refuse_unsupported_features sb incompat =
     (if incompat AND (2 ^ 32 - 1 - INCOMPAT_KNOWN) \<noteq> 0 then Err (Unsupported ''erofs: unknown incompatible feature'')
      else if incompat AND INCOMPAT_METABOX \<noteq> 0 then Err (Unsupported ''erofs: metabox not supported'')
      else if incompat AND INCOMPAT_48BIT \<noteq> 0 then Err (Unsupported ''erofs: 48-bit layout not supported'')
      else
        and_then (er_le_u16 sb SB_EXTRA_DEVICES) (\<lambda>devices.
        if devices \<noteq> 0 then Err (Unsupported ''erofs: extra devices not supported'')
        else
          and_then (er_le_u64 sb SB_PACKED_NID) (\<lambda>packed.
          if packed \<noteq> 0 then Err (Unsupported ''erofs: fragments (packed inode) not supported'')
          else Ok ())))"

definition erofs_probe :: "block_source \<Rightarrow> bool result" where
  "erofs_probe src =
     (if src_len src < SUPER_OFFSET + 4 then Ok False
      else and_then (src_read src SUPER_OFFSET 4) (\<lambda>m. Ok (from_le m = EROFS_MAGIC)))"

text \<open>The volume as \<^verbatim>\<open>open\<close> builds it, before the compression configs and the root inode.\<close>

definition erofs_super :: "block_source \<Rightarrow> erofs result" where
  "erofs_super src =
     (if src_len src < SUPER_OFFSET + 128 then Err (Corrupt ''erofs: source shorter than superblock'')
      else
        and_then (src_read src SUPER_OFFSET 128) (\<lambda>sb.
        and_then (er_le_u32 sb 0) (\<lambda>magic.
        if magic \<noteq> EROFS_MAGIC then Err (Corrupt ''erofs: bad magic'')
        else
          let blkszbits = unat (sb ! 12) in
          if \<not> (9 \<le> blkszbits \<and> blkszbits \<le> 16) then Err (Corrupt ''erofs: implausible blkszbits'')
          else
            and_then (er_le_u32 sb SB_FEATURE_INCOMPAT) (\<lambda>incompat.
            and_then (refuse_unsupported_features sb incompat) (\<lambda>_.
            and_then (er_le_u16 sb 14) (\<lambda>root_nid.
            and_then (er_le_u32 sb 40) (\<lambda>meta_blkaddr.
            and_then (umul 64 meta_blkaddr (2 ^ blkszbits)) (\<lambda>meta_off.
              Ok \<lparr>er_src = src, er_block_size = 2 ^ blkszbits, er_blkszbits = blkszbits,
                  er_zero_padding = (incompat AND INCOMPAT_LZ4_0PADDING \<noteq> 0), er_meta_off = meta_off,
                  er_root_nid = root_nid, er_inodes = [], er_decoded = [], er_lzma_dict = None,
                  er_cfgs_off = SUPER_OFFSET + SB_BASE_SIZE + unat (sb ! SB_EXTSLOTS) * SB_EXTSLOT_SIZE\<rparr>))))))))"

definition erofs_open :: "block_source \<Rightarrow> erofs result" where
  "erofs_open src =
     and_then (erofs_super src) (\<lambda>me0.
     and_then (parse_lzma_cfg me0) (\<lambda>me.
       case erofs_parse_inode (er_root_nid me) me of
         (Ok _, me') \<Rightarrow> Ok me'
       | (Err e, _) \<Rightarrow> Err e
       | (Panic p, _) \<Rightarrow> Panic p))"

definition erofs_root :: "erofs \<Rightarrow> node_id" where
  "erofs_root s = er_root_nid s"


section \<open>The methods of the trait\<close>

text \<open>\<^verbatim>\<open>self.parse_inode(nid)?\<close> and then \<^verbatim>\<open>self.inode(nid)?\<close>, with which every method begins.\<close>

definition inode_at :: "nat \<Rightarrow> (erofs, erofs_inode) op" where
  "inode_at nid = op_bind (erofs_parse_inode nid) (\<lambda>_ s. (erofs_inode_of s nid, s))"

text \<open>The whole data of an inode, for a listing or a link target.\<close>

definition whole_data :: "'r codec_lib \<Rightarrow> nat \<Rightarrow> erofs_inode \<Rightarrow> (erofs, bytes) op" where
  "whole_data lib nid inode =
     op_bind (op_return (checked_full_read_len (ei_size inode))) (\<lambda>sz.
     op_bind (read_inode_data lib nid 0 (replicate sz 0)) (\<lambda>(n, data). op_return (Ok data)))"

definition erofs_read_dir :: "'r codec_lib \<Rightarrow> node_id \<Rightarrow> (erofs, dir_entry list) op" where
  "erofs_read_dir lib dir =
     op_bind (inode_at dir) (\<lambda>inode.
       if ei_kind inode \<noteq> Directory then op_return (Err NotDirectory)
       else
         op_bind (whole_data lib dir inode) (\<lambda>data s.
           (and_then (dir_blocks (er_block_size s) data 0) (\<lambda>raw.
              Ok (map (\<lambda>(name, nid, file_type). \<lparr>de_name = name, de_node = nid, de_kind = ft_kind file_type\<rparr>) raw)), s)))"

definition erofs_lookup :: "'r codec_lib \<Rightarrow> node_id \<Rightarrow> bytes \<Rightarrow> (erofs, node_id option) op" where
  "erofs_lookup lib dir name = op_bind (erofs_read_dir lib dir) (\<lambda>es. op_return (Ok (find_entry name es)))"

definition erofs_metadata :: "node_id \<Rightarrow> (erofs, metadata) op" where
  "erofs_metadata node =
     op_bind (inode_at node) (\<lambda>inode.
       op_return (Ok \<lparr>md_kind = ei_kind inode, md_size = ei_size inode, md_mode = ei_mode inode AND 0xFFF\<rparr>))"

text \<open>
  The part of the block at \<open>block_start\<close> that lies in the window from \<open>off\<close> to \<open>stop\<close>, copied to its
  place in the caller's buffer, with the count of bytes.
\<close>

definition copy_block :: "nat \<Rightarrow> nat \<Rightarrow> nat \<Rightarrow> bytes \<Rightarrow> bytes \<Rightarrow> nat \<times> bytes" where
  "copy_block off stop block_start block buf =
     (let copy_start = max off block_start; copy_end = min stop (block_start + length block) in
      if copy_end > copy_start then
        (copy_end - copy_start,
         overwrite buf (copy_start - off) (slice block (copy_start - block_start) (copy_end - block_start)))
      else (0, buf))"

text \<open>
  The loop of \<^verbatim>\<open>read_at\<close>: a block is read whole and verified before a byte of it is copied.
  \<open>block\<close> is the buffer of one block that the turns share.
\<close>

function erofs_read_loop ::
  "'r codec_lib \<Rightarrow> verifier \<Rightarrow> node_id \<Rightarrow> nat \<Rightarrow> nat \<Rightarrow> nat \<Rightarrow> nat \<Rightarrow> nat \<Rightarrow> bytes \<Rightarrow> bytes \<Rightarrow> nat \<Rightarrow>
     (erofs, nat \<times> bytes) op"
where
  "erofs_read_loop lib vf node sz bs off stop block_start block buf produced s =
     (if block_start < stop \<and> 0 < bs then
        op_bind (read_inode_data lib node block_start (take (min bs (sz - block_start)) block)) (\<lambda>x s.
        op_bind (op_return (vf node block_start (snd x))) (\<lambda>_ s.
        let y = copy_block off stop block_start (snd x) buf in
        op_bind (op_return (uadd 64 block_start bs)) (\<lambda>nxt s.
          erofs_read_loop lib vf node sz bs off stop nxt (overwrite block 0 (snd x)) (snd y) (produced + fst y) s) s) s) s
      else (Ok (produced, buf), s))"
  by pat_completeness auto
termination
  by (relation "measure (\<lambda>(lib, vf, node, sz, bs, off, stop, block_start, block, buf, produced, s). stop - block_start)")
    (auto simp: uadd_def op_return_def split: if_splits)

declare erofs_read_loop.simps [simp del]

definition erofs_read_at ::
  "'r codec_lib \<Rightarrow> substrate_ctx \<Rightarrow> node_id \<Rightarrow> nat \<Rightarrow> bytes \<Rightarrow> (erofs, nat \<times> bytes) op"
where
  "erofs_read_at lib cx node off buf =
     op_bind (inode_at node) (\<lambda>inode.
       if ei_kind inode = Directory then op_return (Err IsDirectory)
       else if off \<ge> ei_size inode then op_return (Ok (0, buf))
       else
         op_bind (op_return (uadd 64 off (length buf))) (\<lambda>lim s.
           let bs = er_block_size s in
           erofs_read_loop lib (cx_verifier cx) node (ei_size inode) bs off (min lim (ei_size inode)) (off div bs * bs)
             (replicate bs 0) buf 0 s))"

definition erofs_read_link :: "'r codec_lib \<Rightarrow> node_id \<Rightarrow> (erofs, bytes option) op" where
  "erofs_read_link lib node =
     op_bind (inode_at node) (\<lambda>inode.
       if ei_kind inode \<noteq> Symlink then op_return (Ok None)
       else op_bind (whole_data lib node inode) (\<lambda>target. op_return (Ok (Some target))))"

definition erofs_frontend :: "'r codec_lib \<Rightarrow> erofs frontend" where
  "erofs_frontend lib =
     \<lparr>fe_root = erofs_root,
      fe_lookup = (\<lambda>cx. erofs_lookup lib),
      fe_read_dir = (\<lambda>cx. erofs_read_dir lib),
      fe_metadata = (\<lambda>cx. erofs_metadata),
      fe_read_at = erofs_read_at lib,
      fe_read_link = (\<lambda>cx. erofs_read_link lib)\<rparr>"

end
