(* ===== verification/Memo_Cache.thy ===== *)
theory Memo_Cache
  imports Btree_Map
begin

text \<open>
  A cache of computed values keyed by number, as the EROFS volume keeps two of: \<open>fill k\<close> computes
  the value of \<open>k\<close> unless it is there. The locale is what such a cache promises: it never holds
  anything but what the computation gives, and filling it changes nothing else.
\<close>

definition memo_valid :: "('s \<Rightarrow> (nat, 'v) btree) \<Rightarrow> ('s \<Rightarrow> nat \<Rightarrow> 'v result) \<Rightarrow> 's \<Rightarrow> bool" where
  "memo_valid cache compute s \<longleftrightarrow>
     bm_ok (cache s) \<and> (\<forall>k v. bm_get (cache s) k = Some v \<longrightarrow> compute s k = Ok v)"

lemma memo_validD: "memo_valid cache compute s \<Longrightarrow> bm_get (cache s) k = Some v \<Longrightarrow> compute s k = Ok v"
  by (simp add: memo_valid_def)

lemma memo_valid_empty [intro]: "cache s = [] \<Longrightarrow> memo_valid cache compute s"
  by (simp add: memo_valid_def)

locale memo_cache =
  fixes cache :: "'s \<Rightarrow> (nat, 'v) btree" and store :: "(nat, 'v) btree \<Rightarrow> 's \<Rightarrow> 's"
    and compute :: "'s \<Rightarrow> nat \<Rightarrow> 'v result" and fill :: "nat \<Rightarrow> ('s, unit) op"
  assumes cache_store: "cache (store m s) = m"
    and compute_store: "compute (store m s) = compute s"
    and fill_eq: "fill k s =
      (if bm_get (cache s) k \<noteq> None then (Ok (), s)
       else case compute s k of
           Ok v \<Rightarrow> (Ok (), store (bm_insert k v (cache s)) s)
         | Err e \<Rightarrow> (Err e, s)
         | Panic p \<Rightarrow> (Panic p, s))"
begin

lemma valid_store:
  assumes "memo_valid cache compute s" and "compute s k = Ok v"
  shows "memo_valid cache compute (store (bm_insert k v (cache s)) s)"
  using assms by (auto simp: memo_valid_def cache_store compute_store bm_ok_insert bm_get_insert)

lemma fill_outcome:
  assumes v: "memo_valid cache compute s" and f: "fill k s = (r, s')"
  shows "r = and_then (compute s k) (\<lambda>_. Ok ())" and "memo_valid cache compute s'"
    and "\<exists>m. s' = s \<or> s' = store m s" and "compute s' = compute s"
    and "compute s k = Ok v \<Longrightarrow> bm_get (cache s') k = Some v"
    and "bm_get (cache s) j = Some w \<Longrightarrow> bm_get (cache s') j = Some w"
proof -
  have "r = and_then (compute s k) (\<lambda>_. Ok ()) \<and> memo_valid cache compute s' \<and> (\<exists>m. s' = s \<or> s' = store m s) \<and>
    compute s' = compute s \<and> (\<forall>v. compute s k = Ok v \<longrightarrow> bm_get (cache s') k = Some v) \<and>
    (\<forall>j w. bm_get (cache s) j = Some w \<longrightarrow> bm_get (cache s') j = Some w)"
  proof (cases "bm_get (cache s) k")
    case (Some u)
    then show ?thesis using f v memo_validD [OF v Some] by (auto simp: fill_eq)
  next
    case None
    then show ?thesis
      using f v valid_store [OF v, of k]
      by (cases "compute s k") (auto simp: fill_eq cache_store compute_store bm_get_insert)
  qed
  then show "r = and_then (compute s k) (\<lambda>_. Ok ())" "memo_valid cache compute s'" "\<exists>m. s' = s \<or> s' = store m s"
    "compute s' = compute s" "compute s k = Ok v \<Longrightarrow> bm_get (cache s') k = Some v"
    "bm_get (cache s) j = Some w \<Longrightarrow> bm_get (cache s') j = Some w" by blast+
qed

text \<open>Filling twice is filling once.\<close>

lemma fill_again:
  assumes "memo_valid cache compute s" and "fill k s = (Ok (), s')"
  shows "fill k s' = (Ok (), s')"
proof -
  obtain v where "compute s k = Ok v" using fill_outcome(1) [OF assms] by (cases "compute s k") auto
  from fill_outcome(5) [OF assms this] show ?thesis by (simp add: fill_eq)
qed

end

end
