(* ===== verification/Erofs_Reads.thy ===== *)
theory Erofs_Reads
  imports Erofs Memo_Cache
begin

text \<open>
  What the caches of an EROFS volume are worth: both hold exactly what the medium gives, so every
  method answers as on a volume that has cached nothing. Then the bounds of every read, the
  frontend contract, and what a read may panic of.
\<close>

section \<open>The caches\<close>

definition erofs_fresh :: "erofs \<Rightarrow> erofs" where
  "erofs_fresh s = s\<lparr>er_inodes := [], er_decoded := []\<rparr>"

definition decoded_data :: "'r codec_lib \<Rightarrow> erofs \<Rightarrow> nat \<Rightarrow> bytes result" where
  "decoded_data lib s nid = and_then (erofs_inode_of s nid) (decode_inode_data lib s)"

text \<open>Nothing that reads the medium depends on what is cached.\<close>

lemma static_heads:
  "read_chunked (s\<lparr>er_inodes := a, er_decoded := b\<rparr>) = read_chunked s"
  "read_span (s\<lparr>er_inodes := a, er_decoded := b\<rparr>) = read_span s"
  "cluster_heads (s\<lparr>er_inodes := a, er_decoded := b\<rparr>) = cluster_heads s"
  by (intro ext; simp add: read_chunked_def read_span_def cluster_heads_def build_heads_full_def
      build_heads_compact_def Let_def cong: if_cong)+

lemma static_decode_heads:
  "decode_heads lib (s\<lparr>er_inodes := a, er_decoded := b\<rparr>) sz a1 a2 hs out = decode_heads lib s sz a1 a2 hs out"
  by (induction hs arbitrary: out) (simp_all add: static_heads Let_def cong: if_cong)

lemma static_data:
  "fetch_inode (s\<lparr>er_inodes := a, er_decoded := b\<rparr>) = fetch_inode s"
  "decode_inode_data lib (s\<lparr>er_inodes := a, er_decoded := b\<rparr>) = decode_inode_data lib s"
  "flat_data (s\<lparr>er_inodes := a, er_decoded := b\<rparr>) = flat_data s"
  by (intro ext; simp add: fetch_inode_def decode_inode_data_def flat_data_def static_heads static_decode_heads
      Let_def cong: if_cong option.case_cong)+

lemma static_fresh:
  assumes "erofs_fresh s = erofs_fresh t"
  shows "fetch_inode s = fetch_inode t" and "decode_inode_data lib s = decode_inode_data lib t"
    and "flat_data s = flat_data t" and "er_src s = er_src t" and "er_block_size s = er_block_size t"
    and "er_root_nid s = er_root_nid t" and "er_blkszbits s = er_blkszbits t" and "er_meta_off s = er_meta_off t"
proof -
  obtain a b where t: "t = s\<lparr>er_inodes := a, er_decoded := b\<rparr>"
  proof
    show "t = s\<lparr>er_inodes := er_inodes t, er_decoded := er_decoded t\<rparr>"
      using assms by (cases s; cases t) (simp add: erofs_fresh_def)
  qed
  show "fetch_inode s = fetch_inode t" "decode_inode_data lib s = decode_inode_data lib t" "flat_data s = flat_data t"
    "er_src s = er_src t" "er_block_size s = er_block_size t" "er_root_nid s = er_root_nid t"
    "er_blkszbits s = er_blkszbits t" "er_meta_off s = er_meta_off t"
    unfolding t by (simp_all add: static_data)
qed

lemma fresh_simps [simp]:
  "erofs_fresh (erofs_fresh s) = erofs_fresh s" "erofs_fresh (s\<lparr>er_inodes := a\<rparr>) = erofs_fresh s"
  "erofs_fresh (s\<lparr>er_decoded := b\<rparr>) = erofs_fresh s"
  "er_inodes (erofs_fresh s) = []" "er_decoded (erofs_fresh s) = []"
  by (simp_all add: erofs_fresh_def)

interpretation inode_memo: memo_cache er_inodes "\<lambda>m s. s\<lparr>er_inodes := m\<rparr>" fetch_inode erofs_parse_inode
proof unfold_locales
  show "fetch_inode (s\<lparr>er_inodes := m\<rparr>) = fetch_inode s" for m s
    by (rule static_fresh(1)) simp
qed (simp_all add: erofs_parse_inode_def)

interpretation data_memo: memo_cache er_decoded "\<lambda>m s. s\<lparr>er_decoded := m\<rparr>" "decoded_data lib"
  "materialize_compressed lib" for lib
proof unfold_locales
  show "decoded_data lib (s\<lparr>er_decoded := m\<rparr>) = decoded_data lib s" for m s
    using static_fresh(2) [of "s\<lparr>er_decoded := m\<rparr>" s lib] by (intro ext) (simp add: decoded_data_def erofs_inode_of_def)
qed (simp_all add: materialize_compressed_def decoded_data_def)

definition erofs_base :: "erofs \<Rightarrow> bool" where
  "erofs_base s \<longleftrightarrow> sound_source (er_src s) \<and> er_block_size s = 2 ^ er_blkszbits s \<and>
     9 \<le> er_blkszbits s \<and> er_blkszbits s \<le> 16 \<and> er_meta_off s < 2 ^ 48"

definition erofs_ok :: "'r codec_lib \<Rightarrow> erofs \<Rightarrow> bool" where
  "erofs_ok lib s \<longleftrightarrow> erofs_base s \<and> memo_valid er_inodes fetch_inode s \<and> memo_valid er_decoded (decoded_data lib) s"

text \<open>
  How a method may change a volume: the medium and the geometry stay, and so does all that has
  been cached.
\<close>

definition erofs_grows :: "'r codec_lib \<Rightarrow> erofs \<Rightarrow> erofs \<Rightarrow> bool" where
  "erofs_grows lib s s' \<longleftrightarrow> erofs_ok lib s' \<and> erofs_fresh s' = erofs_fresh s \<and>
     (\<forall>n i. bm_get (er_inodes s) n = Some i \<longrightarrow> bm_get (er_inodes s') n = Some i)"

lemma erofs_growsD:
  assumes "erofs_grows lib s s'"
  shows "erofs_ok lib s'" and "erofs_fresh s' = erofs_fresh s"
    and "bm_get (er_inodes s) n = Some i \<Longrightarrow> bm_get (er_inodes s') n = Some i"
  using assms by (auto simp: erofs_grows_def)

lemma erofs_grows_refl: "erofs_ok lib s \<Longrightarrow> erofs_grows lib s s"
  by (simp add: erofs_grows_def)

lemma erofs_grows_trans [trans]: "erofs_grows lib s t \<Longrightarrow> erofs_grows lib t u \<Longrightarrow> erofs_grows lib s u"
  by (auto simp: erofs_grows_def)

lemma erofs_base_fresh: "erofs_fresh s = erofs_fresh t \<Longrightarrow> erofs_base s = erofs_base t"
  using static_fresh(4,5,7,8) [of s t] by (simp add: erofs_base_def)

lemma erofs_ok_fresh: "erofs_ok lib s \<Longrightarrow> erofs_ok lib (erofs_fresh s)"
  using erofs_base_fresh [of "erofs_fresh s" s] by (auto simp: erofs_ok_def)

lemma parse_inode_grows:
  assumes ok: "erofs_ok lib s" and p: "erofs_parse_inode nid s = (r, s')"
  shows "erofs_grows lib s s'" and "r = and_then (fetch_inode s nid) (\<lambda>_. Ok ())"
    and "fetch_inode s nid = Ok i \<Longrightarrow> bm_get (er_inodes s') nid = Some i"
proof -
  have v: "memo_valid er_inodes fetch_inode s" and d: "memo_valid er_decoded (decoded_data lib) s"
    using ok by (simp_all add: erofs_ok_def)
  note f = inode_memo.fill_outcome [OF v p]
  from f(3) obtain m where "s' = s \<or> s' = s\<lparr>er_inodes := m\<rparr>" by blast
  then have fr: "erofs_fresh s' = erofs_fresh s" and dd: "er_decoded s' = er_decoded s" by auto
  have "decoded_data lib s' k = Ok x" if "decoded_data lib s k = Ok x" for k x
    using that f(6) static_fresh(2) [OF fr, of lib]
    by (auto simp: decoded_data_def erofs_inode_of_def and_then_eq_Ok ok_or_eq_Ok)
  then have "memo_valid er_decoded (decoded_data lib) s'" using d dd by (auto simp: memo_valid_def)
  then show "erofs_grows lib s s'"
    using ok f(2,6) fr erofs_base_fresh [OF fr] by (auto simp: erofs_grows_def erofs_ok_def)
  show "r = and_then (fetch_inode s nid) (\<lambda>_. Ok ())" by (rule f(1))
  show "fetch_inode s nid = Ok i \<Longrightarrow> bm_get (er_inodes s') nid = Some i" by (rule f(5))
qed

lemma inode_at_grows:
  assumes ok: "erofs_ok lib s"
  obtains s' where "inode_at nid s = (fetch_inode s nid, s')" "erofs_grows lib s s'"
    "\<And>i. fetch_inode s nid = Ok i \<Longrightarrow> bm_get (er_inodes s') nid = Some i"
proof -
  obtain r s' where p: "erofs_parse_inode nid s = (r, s')" by fastforce
  note g = parse_inode_grows [OF ok p]
  have "inode_at nid s = (fetch_inode s nid, s')"
    using p g(2,3) by (cases "fetch_inode s nid") (simp_all add: inode_at_def op_bind_def erofs_inode_of_def)
  with g show ?thesis using that by blast
qed

text \<open>The data of an inode as a function of the medium.\<close>

definition inode_data :: "'r codec_lib \<Rightarrow> erofs \<Rightarrow> erofs_inode \<Rightarrow> nat \<Rightarrow> bytes \<Rightarrow> (nat \<times> bytes) result" where
  "inode_data lib s inode off buf =
     (if off \<ge> ei_size inode then Ok (0, buf)
      else
        and_then (uadd 64 off (length buf)) (\<lambda>lim.
        let stop = min lim (ei_size inode) in
        if compressed_layout inode then
          and_then (decode_inode_data lib s inode) (\<lambda>data.
          and_then (ok_or (get_range data off stop) (Corrupt ''erofs: decoded read past end'')) (\<lambda>seg.
            Ok (stop - off, overwrite buf 0 seg)))
        else flat_data s inode off stop buf))"

lemma static_inode_data: "erofs_fresh s = erofs_fresh t \<Longrightarrow> inode_data lib s = inode_data lib t"
  using static_fresh(2) [of s t lib] static_fresh(3) [of s t] by (intro ext) (simp add: inode_data_def Let_def cong: if_cong)

lemma materialize_grows:
  assumes ok: "erofs_ok lib s" and i: "bm_get (er_inodes s) nid = Some i"
  obtains s' where "materialize_compressed lib nid s = (and_then (decode_inode_data lib s i) (\<lambda>_. Ok ()), s')"
    "erofs_grows lib s s'" "\<And>d. decode_inode_data lib s i = Ok d \<Longrightarrow> bm_get (er_decoded s') nid = Some d"
proof -
  have v: "memo_valid er_decoded (decoded_data lib) s" using ok by (simp add: erofs_ok_def)
  have eq: "decoded_data lib s nid = decode_inode_data lib s i" using i by (simp add: decoded_data_def erofs_inode_of_def)
  obtain r s' where m: "materialize_compressed lib nid s = (r, s')" by fastforce
  note f = data_memo.fill_outcome [OF v m]
  from f(3) obtain b where "s' = s \<or> s' = s\<lparr>er_decoded := b\<rparr>" by blast
  then have fr: "erofs_fresh s' = erofs_fresh s" and ii: "er_inodes s' = er_inodes s" by auto
  have "erofs_grows lib s s'"
    using ok f(2) fr ii erofs_base_fresh [OF fr] static_fresh(1) [OF fr] by (auto simp: erofs_grows_def erofs_ok_def memo_valid_def)
  with m f(1,5) eq that show ?thesis by auto
qed

lemma read_inode_data_grows:
  assumes ok: "erofs_ok lib s" and i: "bm_get (er_inodes s) nid = Some i"
  obtains s' where "read_inode_data lib nid off buf s = (inode_data lib s i off buf, s')" "erofs_grows lib s s'"
proof -
  have inode: "erofs_inode_of s nid = Ok i" using i by (simp add: erofs_inode_of_def)
  obtain s1 where m: "materialize_compressed lib nid s = (and_then (decode_inode_data lib s i) (\<lambda>_. Ok ()), s1)"
    "erofs_grows lib s s1" and d: "\<And>d. decode_inode_data lib s i = Ok d \<Longrightarrow> bm_get (er_decoded s1) nid = Some d"
    using materialize_grows [OF ok i] by blast
  show ?thesis
  proof (cases "ei_size i \<le> off \<or> \<not> off + length buf < 2 ^ 64 \<or> \<not> compressed_layout i")
    case True
    then have "read_inode_data lib nid off buf s = (inode_data lib s i off buf, s)"
      using inode by (auto simp: read_inode_data_def inode_data_def op_return_def uadd_def Let_def)
    then show ?thesis using that erofs_grows_refl [OF ok] by blast
  next
    case False
    then have "read_inode_data lib nid off buf s = (inode_data lib s i off buf, s1)"
      using inode m(1) d
      by (cases "decode_inode_data lib s i")
        (auto simp: read_inode_data_def inode_data_def uadd_def Let_def op_bind_def op_return_def decoded_part_def)
    then show ?thesis using that m(2) by blast
  qed
qed


section \<open>Bounds\<close>

lemma only_overflow_src_read: "sound_source src \<Longrightarrow> only_overflow (src_read src at n)"
  by (simp add: no_panic_only_overflow no_panic_src_read)

lemma only_overflow_er_le [simp]:
  "only_overflow (er_le_u16 b i)" "only_overflow (er_le_u32 b i)" "only_overflow (er_le_u64 b i)"
  by (simp_all add: er_le_u16_def er_le_u32_def er_le_u64_def no_panic_only_overflow)

lemma no_panic_er_le [no_panic_simps, simp]:
  "no_panic (er_le_u16 b i)" "no_panic (er_le_u32 b i)" "no_panic (er_le_u64 b i)"
  by (simp_all add: er_le_u16_def er_le_u32_def er_le_u64_def)

lemma no_panic_only_overflow_full [simp]: "only_overflow (checked_full_read_len n)"
  by (simp add: no_panic_only_overflow)

text \<open>
  What the reading loops share: at \<open>p\<close>, inside the window, a piece is laid down at \<open>p - off\<close> and the
  loop goes on behind it.
\<close>

definition fills :: "nat \<Rightarrow> bytes result \<Rightarrow> bool" where
  "fills n r \<longleftrightarrow> only_overflow r \<and> (\<forall>buf. r = Ok buf \<longrightarrow> length buf = n)"

lemma fills_piece:
  assumes "fills k r" and "i + k \<le> n" and "length buf = n"
    and "\<And>buf'. length buf' = n \<Longrightarrow> fills n (g buf')"
  shows "fills n (and_then r (\<lambda>piece. g (overwrite buf i piece)))"
proof (cases r)
  case (Ok piece)
  then have "length piece = k" using assms(1) by (simp add: fills_def)
  then have "length (overwrite buf i piece) = n" using assms(2,3) by simp
  from assms(4) [OF this] show ?thesis by (simp add: Ok)
qed (use assms(1) in \<open>auto simp: fills_def\<close>)

lemma fills_simps [simp]:
  "fills n (Ok buf) \<longleftrightarrow> length buf = n" "fills n (Err e)" "fills n (Panic p) \<longleftrightarrow> p = AddOverflow \<or> p = MulOverflow"
  by (simp_all add: fills_def)

lemma fills_read: "sound_source src \<Longrightarrow> fills n (src_read src at n)"
  using src_read_fills by (simp add: fills_def only_overflow_src_read)

lemma fills_and_then: "only_overflow r \<Longrightarrow> (\<And>x. r = Ok x \<Longrightarrow> fills n (f x)) \<Longrightarrow> fills n (and_then r f)"
  by (cases r) (auto simp: fills_def)

lemma inline_loop_fills:
  assumes src: "sound_source src"
  shows "off \<le> p \<Longrightarrow> length buf = n \<Longrightarrow> stop \<le> off + n \<Longrightarrow>
    fills n (inline_loop src base inline_off full off stop p buf)"
proof (induction "stop - p" arbitrary: p buf rule: less_induct)
  case less
  show ?case
  proof (cases "p < stop")
    case False
    then show ?thesis using less.prems by (simp add: inline_loop.simps [of _ _ _ _ _ _ p])
  next
    case True
    let ?seg = "if p < full then and_then (uadd 64 base p) (\<lambda>disk. Ok (disk, min stop full))
                else and_then (uadd 64 inline_off (p - full)) (\<lambda>disk. Ok (disk, stop))"
    have "fills n (and_then ?seg (\<lambda>(disk, seg_end). and_then (src_read src disk (seg_end - p)) (\<lambda>piece.
        inline_loop src base inline_off full off stop seg_end (overwrite buf (p - off) piece))))"
    proof (rule fills_and_then)
      show "only_overflow ?seg" by (simp add: only_overflow_and_then)
      fix x
      assume "?seg = Ok x"
      then obtain disk e where x: "x = (disk, e)" "p < e" "e \<le> stop"
        using True by (auto simp: and_then_eq_Ok split: if_splits)
      have "fills n (and_then (src_read src disk (e - p)) (\<lambda>piece.
          inline_loop src base inline_off full off stop e (overwrite buf (p - off) piece)))"
      proof (rule fills_piece [OF fills_read [OF src]])
        show "fills n (inline_loop src base inline_off full off stop e buf')" if "length buf' = n" for buf'
          by (rule less.hyps) (use that x True less.prems in auto)
      qed (use x less.prems in auto)
      then show "fills n (case x of (disk, seg_end) \<Rightarrow> and_then (src_read src disk (seg_end - p)) (\<lambda>piece.
          inline_loop src base inline_off full off stop seg_end (overwrite buf (p - off) piece)))" by (simp add: x)
    qed
    then show ?thesis using True by (simp add: inline_loop.simps [of _ _ _ _ _ _ p])
  qed
qed

lemma chunk_piece_fills: "sound_source src \<Longrightarrow> fills n (chunk_piece src bs blkaddr within n)"
  by (auto simp: chunk_piece_def intro!: fills_and_then fills_read)

lemma chunk_loop_fills:
  assumes src: "sound_source src" and chunk: "0 < chunk"
  shows "off \<le> p \<Longrightarrow> length buf = n \<Longrightarrow> stop \<le> off + n \<Longrightarrow>
    fills n (chunk_loop src bs chunk table off stop p buf)"
proof (induction "stop - p" arbitrary: p buf rule: less_induct)
  case less
  show ?case
  proof (cases "p < stop")
    case False
    then show ?thesis using less.prems by (simp add: chunk_loop.simps [of _ _ _ _ _ _ p])
  next
    case True
    let ?e = "min stop ((p div chunk + 1) * chunk)"
    have "p < (p div chunk + 1) * chunk" using dividend_less_div_times [OF chunk, of p] by simp
    then have e: "p < ?e" "?e \<le> stop" using True by simp_all
    have body: "fills n (and_then (chunk_piece src bs b (p mod chunk) (?e - p))
        (\<lambda>piece. chunk_loop src bs chunk table off stop ?e (overwrite buf (p - off) piece)))" for b
    proof (rule fills_piece [where k = "?e - p"])
      show "fills n (chunk_loop src bs chunk table off stop ?e buf')" if "length buf' = n" for buf'
        by (rule less.hyps) (use that e True less.prems in linarith)+
      show "fills (?e - p) (chunk_piece src bs b (p mod chunk) (?e - p))" by (rule chunk_piece_fills [OF src])
      show "p - off + (?e - p) \<le> n" using e less.prems by linarith
    qed (rule less.prems(2))
    have "fills n (and_then (umul 64 (p div chunk + 1) chunk) (\<lambda>chunk_end.
        and_then (umul 64 (p div chunk) 4) (\<lambda>x.
        and_then (uadd 64 table x) (\<lambda>at.
        and_then (src_read src at 4) (\<lambda>e.
        and_then (chunk_piece src bs (from_le e) (p mod chunk) (min stop chunk_end - p)) (\<lambda>piece.
          chunk_loop src bs chunk table off stop (min stop chunk_end) (overwrite buf (p - off) piece)))))))"
      by ((rule fills_and_then, (rule only_overflow_simps only_overflow_src_read [OF src]))+,
          simp only: umul_eq_Ok body)
    then show ?thesis using True chunk by (simp only: chunk_loop.simps [of _ _ _ _ _ _ p] Let_def if_True simp_thms)
  qed
qed

lemma only_overflow_full_heads:
  assumes src: "sound_source src"
  shows "only_overflow (full_heads src idx0 lcsize left i first)"
  by (induction left arbitrary: i first)
    (auto simp: only_overflow_and_then only_overflow_src_read [OF src] Let_def)

lemma only_overflow_decode_inode_data:
  assumes src: "sound_source (er_src s)"
  shows "only_overflow (decode_inode_data lib s i)"
proof -
  have span: "only_overflow (read_span s b n)" for b n
    by (auto simp: read_span_def only_overflow_and_then only_overflow_src_read [OF src] Let_def)
  have "only_overflow (decode_heads lib s sz a1 a2 hs out)" for sz a1 a2 hs out
    by (induction hs arbitrary: out)
      (auto simp: only_overflow_and_then span no_panic_only_overflow [OF no_panic_decode_pcluster] Let_def)
  moreover have "only_overflow (cluster_heads s i mh lcbits advise)" for mh lcbits advise
    by (auto simp: cluster_heads_def build_heads_full_def build_heads_compact_def only_overflow_and_then Let_def
        only_overflow_full_heads [OF src] only_overflow_src_read [OF src] no_panic_only_overflow [OF no_panic_unpack_compact]
        only_overflow_resolve_compact)
  ultimately show ?thesis
    by (auto simp: decode_inode_data_def map_header_at_def only_overflow_and_then only_overflow_src_read [OF src] Let_def)
qed

lemma flat_data_ok:
  assumes src: "sound_source (er_src s)" and stop: "stop \<le> off + length buf"
  shows "only_overflow (flat_data s i off stop buf)"
    and "flat_data s i off stop buf = Ok (k, buf') \<Longrightarrow> k = stop - off \<and> length buf' = length buf"
proof -
  note il = inline_loop_fills [OF src order_refl refl stop]
  have cl: "fills (length buf) (chunk_loop (er_src s) bs (2 ^ b) table off stop off buf)" for bs b table
    by (rule chunk_loop_fills [OF src _ order_refl refl stop]) simp
  have il': "only_overflow (inline_loop (er_src s) base io full off stop off buf)"
    "inline_loop (er_src s) base io full off stop off buf = Ok b \<Longrightarrow> length b = length buf" for base io full b
    using il [of base io full] by (auto simp: fills_def)
  have cl': "only_overflow (chunk_loop (er_src s) bs (2 ^ c) table off stop off buf)"
    "chunk_loop (er_src s) bs (2 ^ c) table off stop off buf = Ok b \<Longrightarrow> length b = length buf" for bs c table b
    using cl [of bs c table] by (auto simp: fills_def)
  have len: "length (overwrite buf 0 p) = length buf" if "src_read (er_src s) at (stop - off) = Ok p" for at p
    using src_read_fills [OF src that] stop by simp
  show "only_overflow (flat_data s i off stop buf)"
    by (auto simp: flat_data_def read_chunked_def chunk_table_def only_overflow_and_then only_overflow_src_read [OF src]
        il'(1) cl'(1) Let_def)
  assume "flat_data s i off stop buf = Ok (k, buf')"
  then show "k = stop - off \<and> length buf' = length buf"
    by (auto simp: flat_data_def read_chunked_def and_then_eq_Ok Let_def len dest: il'(2) cl'(2) split: if_splits)
qed

lemma inode_data_ok:
  assumes src: "sound_source (er_src s)"
  shows "only_overflow (inode_data lib s i off buf)"
    and "inode_data lib s i off buf = Ok (k, buf') \<Longrightarrow>
      k = min (off + length buf) (ei_size i) - off \<and> length buf' = length buf"
proof -
  note f = flat_data_ok [OF src min.cobounded1]
  show "only_overflow (inode_data lib s i off buf)"
    by (auto simp: inode_data_def only_overflow_and_then only_overflow_decode_inode_data [OF src] uadd_eq_Ok Let_def f(1))
  assume "inode_data lib s i off buf = Ok (k, buf')"
  then show "k = min (off + length buf) (ei_size i) - off \<and> length buf' = length buf"
    by (auto simp: inode_data_def and_then_eq_Ok ok_or_eq_Ok get_range_eq_Some uadd_eq_Ok Let_def
        split: if_splits dest!: f(2))
qed

text \<open>
  A read that fills its buffer gives the same bytes whatever the buffer held before. The loops fill it
  from the front: at \<open>p\<close> they depend on what they have laid down below \<open>p\<close> only.
\<close>

lemma overwrite_agree:
  assumes "take i a = take i b" and "i \<le> length a" and "length a = length b"
  shows "take (i + length x) (overwrite a i x) = take (i + length x) (overwrite b i x)"
  using assms by (simp add: overwrite_def)

lemma inline_loop_agree:
  assumes src: "sound_source src"
  shows "off \<le> p \<Longrightarrow> length a = stop - off \<Longrightarrow> length b = stop - off \<Longrightarrow> take (p - off) a = take (p - off) b \<Longrightarrow>
    inline_loop src base inline_off full off stop p a = inline_loop src base inline_off full off stop p b"
proof (induction "stop - p" arbitrary: p a b rule: less_induct)
  case less
  show ?case
  proof (cases "p < stop")
    case False
    then show ?thesis using less.prems by (simp add: inline_loop.simps [of _ _ _ _ _ _ p])
  next
    case True
    have "inline_loop src base inline_off full off stop e (overwrite a (p - off) piece) =
        inline_loop src base inline_off full off stop e (overwrite b (p - off) piece)"
      if e: "p < e" "e \<le> stop" and r: "src_read src disk (e - p) = Ok piece" for disk e piece
    proof (rule less.hyps)
      have l: "length piece = e - p" using src_read_fills [OF src r] .
      then have "p - off + length piece = e - off" using e less.prems(1) by simp
      then show "take (e - off) (overwrite a (p - off) piece) = take (e - off) (overwrite b (p - off) piece)"
        using overwrite_agree [OF less.prems(4), of piece] less.prems e by simp
    qed (use e True less.prems src_read_fills [OF src r] in simp_all)
    then show ?thesis
      using True unfolding inline_loop.simps [of _ _ _ _ _ _ p]
      by (simp only: if_True) (auto simp: and_then_eq_Ok intro!: and_then_cong split: if_splits)
  qed
qed

lemma chunk_piece_length: "sound_source src \<Longrightarrow> chunk_piece src bs blkaddr within n = Ok piece \<Longrightarrow> length piece = n"
  using chunk_piece_fills [of src n bs blkaddr within] by (simp add: fills_def)

lemma chunk_loop_agree:
  assumes src: "sound_source src" and chunk: "0 < chunk"
  shows "off \<le> p \<Longrightarrow> length a = stop - off \<Longrightarrow> length b = stop - off \<Longrightarrow> take (p - off) a = take (p - off) b \<Longrightarrow>
    chunk_loop src bs chunk table off stop p a = chunk_loop src bs chunk table off stop p b"
proof (induction "stop - p" arbitrary: p a b rule: less_induct)
  case less
  show ?case
  proof (cases "p < stop")
    case False
    then show ?thesis using less.prems by (simp add: chunk_loop.simps [of _ _ _ _ _ _ p])
  next
    case True
    let ?e = "min stop ((p div chunk + 1) * chunk)"
    have "p < (p div chunk + 1) * chunk" using dividend_less_div_times [OF chunk, of p] by simp
    then have e: "p < ?e" "?e \<le> stop" using True by simp_all
    have step: "chunk_loop src bs chunk table off stop ?e (overwrite a (p - off) piece) =
        chunk_loop src bs chunk table off stop ?e (overwrite b (p - off) piece)"
      if r: "chunk_piece src bs addr within (?e - p) = Ok piece" for addr within piece
    proof (rule less.hyps)
      have l: "length piece = ?e - p" using chunk_piece_length [OF src r] .
      then have "p - off + length piece = ?e - off" using e(1) less.prems(1) by linarith
      moreover have "p - off \<le> length a" using True less.prems by simp
      ultimately show "take (?e - off) (overwrite a (p - off) piece) = take (?e - off) (overwrite b (p - off) piece)"
        using overwrite_agree [OF less.prems(4), of piece] less.prems(2,3) by simp
      have "p - off + length piece \<le> stop - off" using l e less.prems(1) by linarith
      then show "length (overwrite a (p - off) piece) = stop - off" "length (overwrite b (p - off) piece) = stop - off"
        using less.prems(2,3) by simp_all
      show "stop - ?e < stop - p" "off \<le> ?e" using e True less.prems(1) by linarith+
    qed
    show ?thesis
      unfolding chunk_loop.simps [of _ _ _ _ _ _ p] Let_def if_P [OF conjI [OF True chunk]]
      by (intro refl and_then_cong) (clarsimp simp only: umul_eq_Ok, erule step)
  qed
qed

lemma inode_data_agree:
  assumes src: "sound_source (er_src s)" and len: "length a = length b" "off + length a \<le> ei_size i"
  shows "inode_data lib s i off a = inode_data lib s i off b"
proof -
  let ?stop = "min (off + length b) (ei_size i)"
  have l: "length a = ?stop - off" "length b = ?stop - off" using len by simp_all
  have "overwrite a 0 x = overwrite b 0 x" if "length x = ?stop - off" for x :: bytes
    using that l by (simp add: overwrite_def)
  then have ov: "overwrite a 0 x = overwrite b 0 x" if "src_read (er_src s) at (?stop - off) = Ok x" for at x
    using src_read_fills [OF src that] by simp
  have ov': "overwrite a 0 x = overwrite b 0 x" if "get_range data off ?stop = Some x" for data x
    using that l by (auto simp: overwrite_def get_range_eq_Some)
  have c: "chunk_loop (er_src s) bs (2 ^ n) table off ?stop off a = chunk_loop (er_src s) bs (2 ^ n) table off ?stop off b"
    for bs n table
    by (rule chunk_loop_agree [OF src _ order_refl l]) simp_all
  have n: "inline_loop (er_src s) base io full off ?stop off a = inline_loop (er_src s) base io full off ?stop off b"
    for base io full
    by (rule inline_loop_agree [OF src order_refl l]) simp
  have f: "flat_data s i off ?stop a = flat_data s i off ?stop b"
    unfolding flat_data_def read_chunked_def Let_def c n by (intro if_cong refl and_then_cong) (simp add: ov)
  show ?thesis
  proof (cases "off < ei_size i")
    case True
    then show ?thesis
      unfolding inode_data_def len(1)
      by (auto simp: uadd_eq_Ok Let_def f ov' ok_or_eq_Ok intro!: and_then_cong)
  next
    case False
    then have "length b = 0" using len(2) unfolding len(1) by linarith
    then have "a = b" using len(1) by simp
    then show ?thesis by simp
  qed
qed

text \<open>The block \<open>idx\<close> of an inode, as the medium gives it: all of a block, or what is left of the file.\<close>

definition medium_block :: "'r codec_lib \<Rightarrow> erofs \<Rightarrow> erofs_inode \<Rightarrow> nat \<Rightarrow> bytes result" where
  "medium_block lib s i idx =
     (let b = idx * er_block_size s in
      and_then (inode_data lib s i b (replicate (min (er_block_size s) (ei_size i - b)) 0)) (\<lambda>(n, blk). Ok blk))"

lemma inode_data_medium_block:
  assumes "sound_source (er_src s)" and "inode_data lib s i (idx * er_block_size s) buf = Ok (k, blk)"
    and "length blk = min (er_block_size s) (ei_size i - idx * er_block_size s)" and "blk \<noteq> []"
  shows "medium_block lib s i idx = Ok blk"
proof -
  let ?b = "idx * er_block_size s"
  have l: "length buf = length blk" using inode_data_ok(2) [OF assms(1,2)] by simp
  moreover have "?b + length buf \<le> ei_size i" using l assms(3,4) by (cases blk) auto
  ultimately have "inode_data lib s i ?b (replicate (length blk) 0) = Ok (k, blk)"
    using inode_data_agree [OF assms(1), of buf "replicate (length blk) 0" ?b i lib] assms(2) by simp
  then show ?thesis by (simp add: medium_block_def assms(3) Let_def)
qed

lemma fetch_inode_ok:
  assumes base: "erofs_base s"
  shows "no_panic (fetch_inode s nid)"
    and "fetch_inode s nid = Ok i \<Longrightarrow> ei_size i < 2 ^ 64 \<and> ei_raw_blkaddr i < 2 ^ 32 \<and> ei_mode i < 2 ^ 16 \<and>
      ei_kind i = erofs_kind (ei_mode i) \<and> ei_inline_off i < 2 ^ 63 + 2 ^ 19"
proof -
  have src: "sound_source (er_src s)" using base by (simp add: erofs_base_def)
  have r: "off + 32 < 2 ^ 63" if "src_read (er_src s) off 32 = Ok h" for off h
    using src_read_bound [OF src that] .
  have x: "(if v = 0 then 0 else 12 + (v - 1) * 4) \<le> 12 + 4 * 2 ^ 16" if "er_le_u16 h j = Ok v" for h j v
    using le_field_less [of _ 2 h j v] that by (fastforce simp: er_le_u16_def)
  show "no_panic (fetch_inode s nid)"
    by (auto simp: fetch_inode_def no_panic_and_then no_panic_src_read [OF src] no_panic_arith uadd_eq_Ok Let_def
        dest!: r dest: x split: if_splits)
  assume "fetch_inode s nid = Ok i"
  then obtain off h v hx ex where i: "src_read (er_src s) off 32 = Ok h" "er_le_u16 hx 2 = Ok v"
    "ei_kind i = erofs_kind (ei_mode i)" "er_le_u16 hx 4 = Ok (ei_mode i)"
    "(if ex then er_le_u64 hx 8 else er_le_u32 hx 8) = Ok (ei_size i)" "er_le_u32 hx 16 = Ok (ei_raw_blkaddr i)"
    "ei_inline_off i = off + (if ex then 64 else 32) + (if v = 0 then 0 else 12 + (v - 1) * 4)"
    unfolding fetch_inode_def Let_def and_then_eq_Ok uadd_eq_Ok by auto
  have "ei_size i < 2 ^ 64"
    using i(5) le_field_less [of _ 8 hx 8 "ei_size i"] le_field_less [of _ 4 hx 8 "ei_size i"]
    by (fastforce simp: er_le_u64_def er_le_u32_def split: if_splits)
  moreover have "ei_raw_blkaddr i < 2 ^ 32" using i(6) le_field_less [of _ 4 hx 16 "ei_raw_blkaddr i"] by (simp add: er_le_u32_def)
  moreover have "ei_mode i < 2 ^ 16" using i(4) le_field_less [of _ 2 hx 4 "ei_mode i"] by (simp add: er_le_u16_def)
  ultimately show "ei_size i < 2 ^ 64 \<and> ei_raw_blkaddr i < 2 ^ 32 \<and> ei_mode i < 2 ^ 16 \<and>
      ei_kind i = erofs_kind (ei_mode i) \<and> ei_inline_off i < 2 ^ 63 + 2 ^ 19"
    using i(3,7) r [OF i(1)] x [OF i(2)] by (auto split: if_splits)
qed


section \<open>The verified read as a function of the medium\<close>

function verified_read ::
  "'r codec_lib \<Rightarrow> verifier \<Rightarrow> erofs \<Rightarrow> node_id \<Rightarrow> erofs_inode \<Rightarrow> nat \<Rightarrow> nat \<Rightarrow> nat \<Rightarrow> bytes \<Rightarrow> bytes \<Rightarrow> nat \<Rightarrow>
     (nat \<times> bytes) result"
where
  "verified_read lib vf s node i off stop b block buf produced =
     (if b < stop \<and> 0 < er_block_size s then
        and_then (inode_data lib s i b (take (min (er_block_size s) (ei_size i - b)) block)) (\<lambda>x.
        and_then (vf node b (snd x)) (\<lambda>_.
        and_then (uadd 64 b (er_block_size s)) (\<lambda>nxt.
          verified_read lib vf s node i off stop nxt (overwrite block 0 (snd x))
            (snd (copy_block off stop b (snd x) buf)) (produced + fst (copy_block off stop b (snd x) buf)))))
      else Ok (produced, buf))"
  by pat_completeness auto
termination
  by (relation "measure (\<lambda>(lib, vf, s, node, i, off, stop, b, block, buf, produced). stop - b)")
    (auto simp: uadd_def split: if_splits)

declare verified_read.simps [simp del]

lemma read_loop_eq:
  assumes "erofs_ok lib s" and "bm_get (er_inodes s) node = Some i" and "erofs_fresh s = erofs_fresh t"
  shows "\<exists>s'. erofs_read_loop lib vf node (ei_size i) (er_block_size t) off stop b block buf produced s =
      (verified_read lib vf t node i off stop b block buf produced, s') \<and> erofs_grows lib s s'"
  using assms(1,2,3)
proof (induction lib vf t node i off stop b block buf produced arbitrary: s rule: verified_read.induct)
  case (1 lib vf t node i off stop b block buf produced)
  let ?bs = "er_block_size t"
  let ?read = "inode_data lib t i b (take (min ?bs (ei_size i - b)) block)"
  obtain s1 where s1: "read_inode_data lib node b (take (min ?bs (ei_size i - b)) block) s = (?read, s1)" "erofs_grows lib s s1"
    using read_inode_data_grows [OF "1.prems"(1,2)] static_inode_data [OF "1.prems"(3)] by metis
  show ?case
  proof (cases "b < stop \<and> 0 < ?bs")
    case False
    then show ?thesis
      using erofs_grows_refl [OF "1.prems"(1)] by (subst erofs_read_loop.simps, subst verified_read.simps) auto
  next
    case True
    show ?thesis
    proof (cases "\<exists>x. ?read = Ok x \<and> vf node b (snd x) = Ok () \<and> b + ?bs < 2 ^ 64")
      case False
      then have "erofs_read_loop lib vf node (ei_size i) ?bs off stop b block buf produced s =
          (verified_read lib vf t node i off stop b block buf produced, s1)"
        using True s1(1)
        by (subst erofs_read_loop.simps, subst verified_read.simps, cases ?read)
          (auto simp: op_bind_def op_return_def Let_def uadd_def split: result.splits)
      then show ?thesis using s1(2) by blast
    next
      case ok: True
      then obtain x where x: "?read = Ok x" "vf node b (snd x) = Ok ()" "uadd 64 b ?bs = Ok (b + ?bs)" by (auto simp: uadd_def)
      note g = erofs_growsD [OF s1(2)]
      have "erofs_fresh s1 = erofs_fresh t" using g(2) "1.prems"(3) by simp
      from "1.IH" [OF True x(1,2,3) g(1) g(3) [OF "1.prems"(2)] this] obtain s2 where
        "erofs_read_loop lib vf node (ei_size i) ?bs off stop (b + ?bs) (overwrite block 0 (snd x))
            (snd (copy_block off stop b (snd x) buf)) (produced + fst (copy_block off stop b (snd x) buf)) s1 =
          (verified_read lib vf t node i off stop (b + ?bs) (overwrite block 0 (snd x))
            (snd (copy_block off stop b (snd x) buf)) (produced + fst (copy_block off stop b (snd x) buf)), s2)"
        "erofs_grows lib s1 s2" by blast
      then have "erofs_read_loop lib vf node (ei_size i) ?bs off stop b block buf produced s =
          (verified_read lib vf t node i off stop b block buf produced, s2)"
        using True s1(1) x by (subst erofs_read_loop.simps, subst verified_read.simps) (simp add: op_bind_def op_return_def Let_def)
      then show ?thesis using erofs_grows_trans [OF s1(2)] \<open>erofs_grows lib s1 s2\<close> by blast
    qed
  qed
qed


lemma nth_overwrite:
  "i + length xs \<le> length buf \<Longrightarrow>
     overwrite buf i xs ! j = (if i \<le> j \<and> j < i + length xs then xs ! (j - i) else buf ! j)"
  by (auto simp: overwrite_def nth_append)

lemma copy_block_ok:
  assumes "stop \<le> off + length buf"
  shows "fst (copy_block off stop b blk buf) = min stop (b + length blk) - max off b"
    and "length (snd (copy_block off stop b blk buf)) = length buf"
    and "snd (copy_block off stop b blk buf) ! j =
      (if b \<le> off + j \<and> off + j < min stop (b + length blk) then blk ! (off + j - b) else buf ! j)"
proof -
  have "fst (copy_block off stop b blk buf) = min stop (b + length blk) - max off b \<and>
    length (snd (copy_block off stop b blk buf)) = length buf \<and>
    snd (copy_block off stop b blk buf) ! j =
      (if b \<le> off + j \<and> off + j < min stop (b + length blk) then blk ! (off + j - b) else buf ! j)"
  proof (cases "max off b < min stop (b + length blk)")
    case False
    then show ?thesis by (auto simp: copy_block_def Let_def)
  next
    case True
    define cs where "cs = max off b"
    define ce where "ce = min stop (b + length blk)"
    have h: "cs < ce" "off \<le> cs" "b \<le> cs" "ce \<le> stop" "ce \<le> b + length blk" "cs = off \<or> cs = b"
      using True unfolding cs_def ce_def by linarith+
    let ?p = "slice blk (cs - b) (ce - b)"
    have p: "length ?p = ce - cs" using h by simp
    have fit: "cs - off + length ?p \<le> length buf" using h assms p by linarith
    have get: "?p ! (j - (cs - off)) = blk ! (off + j - b)" if "cs - off \<le> j" "j < cs - off + length ?p"
    proof -
      have "cs - b + (j - (cs - off)) = off + j - b" "j - (cs - off) < ce - b - (cs - b)" using that p h by linarith+
      moreover have "cs - b \<le> length blk" using h by linarith
      ultimately show ?thesis by (simp add: slice_def)
    qed
    have rng: "cs - off \<le> j \<and> j < cs - off + length ?p \<longleftrightarrow> b \<le> off + j \<and> off + j < ce"
      using h p by linarith
    have eq: "copy_block off stop b blk buf = (ce - cs, overwrite buf (cs - off) ?p)"
      using h(1) by (simp add: copy_block_def Let_def cs_def [symmetric] ce_def [symmetric])
    show ?thesis
      unfolding eq fst_conv snd_conv nth_overwrite [OF fit] length_overwrite [OF fit] cs_def [symmetric] ce_def [symmetric]
      using rng get by auto
  qed
  then show "fst (copy_block off stop b blk buf) = min stop (b + length blk) - max off b"
    "length (snd (copy_block off stop b blk buf)) = length buf"
    "snd (copy_block off stop b blk buf) ! j =
      (if b \<le> off + j \<and> off + j < min stop (b + length blk) then blk ! (off + j - b) else buf ! j)" by blast+
qed

text \<open>
  The byte \<open>x\<close> at \<open>pos\<close> has been surfaced rightly: it comes from a block that the medium gives at the
  aligned offset below \<open>pos\<close> and that the verifier accepted there.
\<close>

definition surfaced :: "'r codec_lib \<Rightarrow> verifier \<Rightarrow> erofs \<Rightarrow> node_id \<Rightarrow> erofs_inode \<Rightarrow> nat \<Rightarrow> byte \<Rightarrow> bool" where
  "surfaced lib vf s node i pos x \<longleftrightarrow>
     (let b = pos div er_block_size s * er_block_size s in
      \<exists>blk buf k. vf node b blk = Ok () \<and> inode_data lib s i b buf = Ok (k, blk) \<and>
        length blk = min (er_block_size s) (ei_size i - b) \<and> pos - b < length blk \<and> x = blk ! (pos - b))"

lemma verified_read_ok:
  assumes src: "sound_source (er_src s)" and bs: "0 < er_block_size s" and stop: "stop \<le> ei_size i"
  shows "b mod er_block_size s = 0 \<Longrightarrow> length block = er_block_size s \<Longrightarrow> stop \<le> off + length buf \<Longrightarrow>
     verified_read lib vf s node i off stop b block buf produced = Ok (k, buf') \<Longrightarrow>
     k = produced + (stop - max off b) \<and> length buf' = length buf \<and>
     (\<forall>j. buf' ! j = buf ! j \<or> b \<le> off + j \<and> off + j < stop) \<and>
     (\<forall>j. b \<le> off + j \<longrightarrow> off + j < stop \<longrightarrow> surfaced lib vf s node i (off + j) (buf' ! j))"
proof (induction "stop - b" arbitrary: b block buf produced rule: less_induct)
  case less
  let ?bs = "er_block_size s"
  show ?case
  proof (cases "b < stop")
    case False
    with less.prems(4) show ?thesis by (subst (asm) verified_read.simps) auto
  next
    case True
    let ?len = "min ?bs (ei_size i - b)"
    let ?cp = "copy_block off stop b"
    from less.prems(4) True bs obtain x where x: "inode_data lib s i b (take ?len block) = Ok x" "vf node b (snd x) = Ok ()"
      "b + ?bs < 2 ^ 64" and rest: "verified_read lib vf s node i off stop (b + ?bs) (overwrite block 0 (snd x))
         (snd (?cp (snd x) buf)) (produced + fst (?cp (snd x) buf)) = Ok (k, buf')"
      by (subst (asm) verified_read.simps) (auto simp: and_then_eq_Ok uadd_eq_Ok)
    obtain n got where got: "x = (n, got)" by fastforce
    have len: "length got = ?len" using inode_data_ok(2) [OF src x(1) [unfolded got]] less.prems(2) by simp
    note c = copy_block_ok [OF less.prems(3), of b got]
    have end': "min stop (b + length got) = min stop (b + ?bs)" using stop True len by linarith
    have "k = (produced + fst (?cp got buf)) + (stop - max off (b + ?bs)) \<and> length buf' = length (snd (?cp got buf)) \<and>
       (\<forall>j. buf' ! j = snd (?cp got buf) ! j \<or> b + ?bs \<le> off + j \<and> off + j < stop) \<and>
       (\<forall>j. b + ?bs \<le> off + j \<longrightarrow> off + j < stop \<longrightarrow> surfaced lib vf s node i (off + j) (buf' ! j))"
    proof (rule less.hyps)
      show "stop - (b + ?bs) < stop - b" using True bs by simp
      show "(b + ?bs) mod ?bs = 0" using less.prems(1) by simp
      show "length (overwrite block 0 got) = ?bs" using len less.prems(2) by simp
      show "stop \<le> off + length (snd (?cp got buf))" using less.prems(3) c(2) by simp
      show "verified_read lib vf s node i off stop (b + ?bs) (overwrite block 0 got) (snd (?cp got buf))
          (produced + fst (?cp got buf)) = Ok (k, buf')" using rest by (simp add: got)
    qed
    then have r: "k = (produced + fst (?cp got buf)) + (stop - max off (b + ?bs))" "length buf' = length (snd (?cp got buf))"
      "\<And>j. buf' ! j = snd (?cp got buf) ! j \<or> b + ?bs \<le> off + j \<and> off + j < stop"
      "\<And>j. b + ?bs \<le> off + j \<Longrightarrow> off + j < stop \<Longrightarrow> surfaced lib vf s node i (off + j) (buf' ! j)" by blast+
    have "surfaced lib vf s node i (off + j) (buf' ! j)" if j: "b \<le> off + j" "off + j < stop" for j
    proof (cases "b + ?bs \<le> off + j")
      case False
      then have "buf' ! j = got ! (off + j - b)" using r(3) [of j] c(3) [of j] j end' by auto
      moreover have "(off + j) div ?bs * ?bs = b"
      proof -
        obtain q where q: "b = ?bs * q" using less.prems(1) by (auto simp: mod_eq_0_iff_dvd)
        have "(off + j) div ?bs = q" using j(1) False q by (intro div_nat_eqI) (simp_all add: algebra_simps)
        then show ?thesis using q by simp
      qed
      moreover have "off + j - b < length got" using j False end' stop len by linarith
      ultimately show ?thesis
        using x(1,2) len unfolding surfaced_def Let_def got snd_conv by metis
    qed (use r(4) j in blast)
    moreover have "buf' ! j = buf ! j \<or> b \<le> off + j \<and> off + j < stop" for j
      using r(3) [of j] c(3) [of j] by (auto split: if_splits)
    moreover have "k = produced + (stop - max off b)" using r(1) c(1) end' by linarith
    ultimately show ?thesis using r(2) c(2) by simp
  qed
qed


section \<open>The methods as functions of the medium\<close>

definition erofs_whole :: "'r codec_lib \<Rightarrow> erofs \<Rightarrow> erofs_inode \<Rightarrow> bytes result" where
  "erofs_whole lib s i =
     and_then (checked_full_read_len (ei_size i)) (\<lambda>sz.
     and_then (inode_data lib s i 0 (replicate sz 0)) (\<lambda>(n, data). Ok data))"

definition erofs_entries :: "'r codec_lib \<Rightarrow> erofs \<Rightarrow> node_id \<Rightarrow> dir_entry list result" where
  "erofs_entries lib s d =
     and_then (fetch_inode s d) (\<lambda>i.
       if ei_kind i \<noteq> Directory then Err NotDirectory
       else
         and_then (erofs_whole lib s i) (\<lambda>data.
         and_then (dir_blocks (er_block_size s) data 0) (\<lambda>raw.
           Ok (map (\<lambda>(name, nid, file_type). \<lparr>de_name = name, de_node = nid, de_kind = ft_kind file_type\<rparr>) raw))))"

definition erofs_found :: "'r codec_lib \<Rightarrow> erofs \<Rightarrow> node_id \<Rightarrow> bytes \<Rightarrow> node_id option result" where
  "erofs_found lib s d name = and_then (erofs_entries lib s d) (\<lambda>es. Ok (find_entry name es))"

definition erofs_stat :: "erofs \<Rightarrow> node_id \<Rightarrow> metadata result" where
  "erofs_stat s n =
     and_then (fetch_inode s n) (\<lambda>i. Ok \<lparr>md_kind = ei_kind i, md_size = ei_size i, md_mode = ei_mode i AND 0xFFF\<rparr>)"

definition erofs_target :: "'r codec_lib \<Rightarrow> erofs \<Rightarrow> node_id \<Rightarrow> bytes option result" where
  "erofs_target lib s n =
     and_then (fetch_inode s n) (\<lambda>i.
       if ei_kind i \<noteq> Symlink then Ok None else and_then (erofs_whole lib s i) (\<lambda>t. Ok (Some t)))"

definition erofs_read :: "'r codec_lib \<Rightarrow> verifier \<Rightarrow> erofs \<Rightarrow> node_id \<Rightarrow> nat \<Rightarrow> bytes \<Rightarrow> (nat \<times> bytes) result" where
  "erofs_read lib vf s node off buf =
     and_then (fetch_inode s node) (\<lambda>i.
       if ei_kind i = Directory then Err IsDirectory
       else if off \<ge> ei_size i then Ok (0, buf)
       else
         and_then (uadd 64 off (length buf)) (\<lambda>lim.
           verified_read lib vf s node i off (min lim (ei_size i)) (off div er_block_size s * er_block_size s)
             (replicate (er_block_size s) 0) buf 0))"

text \<open>The method \<open>m\<close> gives \<open>r\<close> in the state \<open>s\<close>, and the caches are all that it changes.\<close>

definition answers :: "'r codec_lib \<Rightarrow> erofs \<Rightarrow> (erofs, 'a) op \<Rightarrow> 'a result \<Rightarrow> bool" where
  "answers lib s m r \<longleftrightarrow> (\<exists>s'. m s = (r, s') \<and> erofs_grows lib s s')"

lemma answers_return: "erofs_ok lib s \<Longrightarrow> answers lib s (op_return r) r"
  using erofs_grows_refl by (auto simp: answers_def op_return_def)

lemma answers_bind:
  assumes m: "answers lib s m r"
    and f: "\<And>x s1. r = Ok x \<Longrightarrow> m s = (r, s1) \<Longrightarrow> erofs_grows lib s s1 \<Longrightarrow> answers lib s1 (f x) (g x)"
  shows "answers lib s (op_bind m f) (and_then r g)"
proof -
  obtain s1 where s1: "m s = (r, s1)" "erofs_grows lib s s1" using m by (auto simp: answers_def)
  show ?thesis
  proof (cases r)
    case (Ok x)
    from f [OF Ok s1] obtain s2 where "f x s1 = (g x, s2)" "erofs_grows lib s1 s2" by (auto simp: answers_def)
    then show ?thesis using Ok s1 erofs_grows_trans by (auto simp: answers_def op_bind_def)
  qed (use s1 in \<open>auto simp: answers_def op_bind_def\<close>)
qed

lemma answers_inode:
  assumes "erofs_ok lib s" and "erofs_fresh s = erofs_fresh t"
    and "\<And>i s1. fetch_inode t n = Ok i \<Longrightarrow> erofs_ok lib s1 \<Longrightarrow> erofs_fresh s1 = erofs_fresh t \<Longrightarrow>
      bm_get (er_inodes s1) n = Some i \<Longrightarrow> answers lib s1 (f i) (g i)"
  shows "answers lib s (op_bind (inode_at n) f) (and_then (fetch_inode t n) g)"
proof (rule answers_bind)
  obtain s1 where s1: "inode_at n s = (fetch_inode s n, s1)" "erofs_grows lib s s1"
    "\<And>i. fetch_inode s n = Ok i \<Longrightarrow> bm_get (er_inodes s1) n = Some i" using inode_at_grows [OF assms(1)] by blast
  have eq: "fetch_inode s n = fetch_inode t n" using static_fresh(1) [OF assms(2)] by simp
  show "answers lib s (inode_at n) (fetch_inode t n)" using s1(1,2) eq by (auto simp: answers_def)
  fix i s2
  assume "fetch_inode t n = Ok i" "inode_at n s = (fetch_inode t n, s2)"
  then show "answers lib s2 (f i) (g i)"
    using assms(2,3) s1 eq erofs_growsD(1,2) [OF s1(2)] by auto
qed

lemma answers_whole:
  assumes ok: "erofs_ok lib s" and fr: "erofs_fresh s = erofs_fresh t" and i: "bm_get (er_inodes s) n = Some i"
  shows "answers lib s (whole_data lib n i) (erofs_whole lib t i)"
  unfolding whole_data_def erofs_whole_def
proof (intro answers_bind answers_return ok)
  fix sz s1
  assume "op_return (checked_full_read_len (ei_size i)) s = (checked_full_read_len (ei_size i), s1)"
  then have s1: "s1 = s" by (simp add: op_return_eq)
  show "answers lib s1 (read_inode_data lib n 0 (replicate sz 0)) (inode_data lib t i 0 (replicate sz 0))"
    using read_inode_data_grows [OF ok i] static_inode_data [OF fr] unfolding s1 answers_def by metis
next
  fix x s1 s2 and sz
  assume "erofs_grows lib s1 s2"
  note ok2 = erofs_growsD(1) [OF this]
  show "answers lib s2 (case x of (n, data) \<Rightarrow> op_return (Ok data)) (case x of (n, data) \<Rightarrow> Ok data)"
    by (simp add: answers_return [OF ok2] split: prod.split)
qed

lemma answers_entries:
  assumes "erofs_ok lib s" and "erofs_fresh s = erofs_fresh t"
  shows "answers lib s (erofs_read_dir lib d) (erofs_entries lib t d)"
  unfolding erofs_read_dir_def erofs_entries_def
proof (rule answers_inode [OF assms])
  fix i s1
  assume s1: "erofs_ok lib s1" "erofs_fresh s1 = erofs_fresh t" "bm_get (er_inodes s1) d = Some i"
  let ?list = "\<lambda>raw. Ok (map (\<lambda>(name, nid, file_type). \<lparr>de_name = name, de_node = nid, de_kind = ft_kind file_type\<rparr>) raw)"
  have "answers lib s1 (op_bind (whole_data lib d i) (\<lambda>data s. (and_then (dir_blocks (er_block_size s) data 0) ?list, s)))
      (and_then (erofs_whole lib t i) (\<lambda>data. and_then (dir_blocks (er_block_size t) data 0) ?list))"
  proof (rule answers_bind [OF answers_whole [OF s1]])
    fix data s2
    assume "erofs_grows lib s1 s2"
    note g = erofs_growsD(1,2) [OF this]
    have "er_block_size s2 = er_block_size t" using static_fresh(5) [of s2 t] g(2) s1(2) by simp
    then show "answers lib s2 (\<lambda>s. (and_then (dir_blocks (er_block_size s) data 0) ?list, s))
        (and_then (dir_blocks (er_block_size t) data 0) ?list)"
      using erofs_grows_refl [OF g(1)] by (simp add: answers_def)
  qed
  then show "answers lib s1 (if ei_kind i \<noteq> Directory then op_return (Err NotDirectory)
       else op_bind (whole_data lib d i) (\<lambda>data s. (and_then (dir_blocks (er_block_size s) data 0) ?list, s)))
      (if ei_kind i \<noteq> Directory then Err NotDirectory
       else and_then (erofs_whole lib t i) (\<lambda>data. and_then (dir_blocks (er_block_size t) data 0) ?list))"
    by (simp add: answers_return [OF s1(1)])
qed

lemma answers_found:
  assumes "erofs_ok lib s" and "erofs_fresh s = erofs_fresh t"
  shows "answers lib s (erofs_lookup lib d nm) (erofs_found lib t d nm)"
  unfolding erofs_lookup_def erofs_found_def
  by (rule answers_bind [OF answers_entries [OF assms]]) (blast intro: answers_return erofs_growsD)

lemma answers_stat:
  assumes "erofs_ok lib s" and "erofs_fresh s = erofs_fresh t"
  shows "answers lib s (erofs_metadata n) (erofs_stat t n)"
  unfolding erofs_metadata_def erofs_stat_def by (rule answers_inode [OF assms answers_return])

lemma answers_target:
  assumes "erofs_ok lib s" and "erofs_fresh s = erofs_fresh t"
  shows "answers lib s (erofs_read_link lib n) (erofs_target lib t n)"
  unfolding erofs_read_link_def erofs_target_def
proof (rule answers_inode [OF assms])
  fix i s1
  assume s1: "erofs_ok lib s1" "erofs_fresh s1 = erofs_fresh t" "bm_get (er_inodes s1) n = Some i"
  have "answers lib s1 (op_bind (whole_data lib n i) (\<lambda>target. op_return (Ok (Some target))))
      (and_then (erofs_whole lib t i) (\<lambda>t. Ok (Some t)))"
    by (rule answers_bind [OF answers_whole [OF s1]]) (blast intro: answers_return erofs_growsD)
  then show "answers lib s1 (if ei_kind i \<noteq> Symlink then op_return (Ok None)
       else op_bind (whole_data lib n i) (\<lambda>target. op_return (Ok (Some target))))
      (if ei_kind i \<noteq> Symlink then Ok None else and_then (erofs_whole lib t i) (\<lambda>t. Ok (Some t)))"
    by (simp add: answers_return [OF s1(1)])
qed

lemma answers_read:
  assumes "erofs_ok lib s" and "erofs_fresh s = erofs_fresh t"
  shows "answers lib s (erofs_read_at lib cx n off buf) (erofs_read lib (cx_verifier cx) t n off buf)"
  unfolding erofs_read_at_def erofs_read_def
proof (rule answers_inode [OF assms])
  fix i s1
  assume s1: "erofs_ok lib s1" "erofs_fresh s1 = erofs_fresh t" "bm_get (er_inodes s1) n = Some i"
  let ?loop = "\<lambda>lim s. let bs = er_block_size s in
           erofs_read_loop lib (cx_verifier cx) n (ei_size i) bs off (min lim (ei_size i)) (off div bs * bs)
             (replicate bs 0) buf 0 s"
  let ?read = "\<lambda>lim. verified_read lib (cx_verifier cx) t n i off (min lim (ei_size i))
      (off div er_block_size t * er_block_size t) (replicate (er_block_size t) 0) buf 0"
  have "answers lib s1 (op_bind (op_return (uadd 64 off (length buf))) ?loop) (and_then (uadd 64 off (length buf)) ?read)"
  proof (rule answers_bind [OF answers_return [OF s1(1)]])
    fix lim s2
    assume "op_return (uadd 64 off (length buf)) s1 = (uadd 64 off (length buf), s2)"
    then have s2: "s2 = s1" by (simp add: op_return_eq)
    have "er_block_size s1 = er_block_size t" by (rule static_fresh(5) [OF s1(2)])
    then show "answers lib s2 (?loop lim) (?read lim)"
      using read_loop_eq [OF s1(1,3,2)] by (simp add: answers_def s2 Let_def)
  qed
  then show "answers lib s1 (if ei_kind i = Directory then op_return (Err IsDirectory)
       else if off \<ge> ei_size i then op_return (Ok (0, buf)) else op_bind (op_return (uadd 64 off (length buf))) ?loop)
      (if ei_kind i = Directory then Err IsDirectory
       else if off \<ge> ei_size i then Ok (0, buf) else and_then (uadd 64 off (length buf)) ?read)"
    by (simp add: answers_return [OF s1(1)])
qed

end
