(* ===== verification/Erofs_Frontend.thy ===== *)
theory Erofs_Frontend
  imports Erofs_Reads
begin

text \<open>
  The EROFS frontend against the contract of \<open>Fold_Frontend\<close>: its invariant from the mount on, the
  tree it shows, the contents of its files in each layout and what its methods may panic of.
\<close>

section \<open>The contract\<close>

lemma erofs_frontend_simps [simp]:
  "fe_root (erofs_frontend lib) = er_root_nid"
  "fe_lookup (erofs_frontend lib) cx = erofs_lookup lib" "fe_read_dir (erofs_frontend lib) cx = erofs_read_dir lib"
  "fe_metadata (erofs_frontend lib) cx = erofs_metadata" "fe_read_at (erofs_frontend lib) cx = erofs_read_at lib cx"
  "fe_read_link (erofs_frontend lib) cx = erofs_read_link lib"
  by (simp_all add: erofs_frontend_def erofs_root_def fun_eq_iff)

lemma answersD: "answers lib s m r \<Longrightarrow> m s = (r', s') \<Longrightarrow> r' = r \<and> erofs_grows lib s s'"
  by (auto simp: answers_def)

lemma answers_eq: "answers lib s m r \<Longrightarrow> answers lib s m r' \<Longrightarrow> r = r'"
  by (auto simp: answers_def)

lemma erofs_base_bs: "erofs_base s \<Longrightarrow> 2 ^ 9 \<le> er_block_size s \<and> er_block_size s \<le> 2 ^ 16"
  using power_increasing [of 9 "er_blkszbits s" "2 :: nat"] power_increasing [of "er_blkszbits s" 16 "2 :: nat"]
  by (simp add: erofs_base_def)

lemma erofs_ok_base: "erofs_ok lib s \<Longrightarrow> erofs_base s \<and> sound_source (er_src s) \<and> 0 < er_block_size s"
  using erofs_base_bs by (fastforce simp: erofs_ok_def erofs_base_def)

lemma erofs_read_ok:
  assumes base: "erofs_base s" and r: "erofs_read lib vf s n off buf = Ok (k, buf')"
  shows "\<exists>i. fetch_inode s n = Ok i \<and> ei_kind i \<noteq> Directory \<and>
     k = min (off + length buf) (ei_size i) - off \<and> length buf' = length buf \<and>
     (\<forall>j. k \<le> j \<longrightarrow> buf' ! j = buf ! j) \<and> (\<forall>j < k. surfaced lib vf s n i (off + j) (buf' ! j))"
proof -
  have src: "sound_source (er_src s)" and bs: "0 < er_block_size s"
    using base erofs_base_bs [OF base] by (auto simp: erofs_base_def)
  from r obtain i where i: "fetch_inode s n = Ok i" "ei_kind i \<noteq> Directory"
    by (auto simp: erofs_read_def and_then_eq_Ok split: if_splits)
  show ?thesis
  proof (cases "off < ei_size i")
    case False
    then show ?thesis using r i by (auto simp: erofs_read_def)
  next
    case True
    let ?b = "off div er_block_size s * er_block_size s" and ?stop = "min (off + length buf) (ei_size i)"
    have v: "verified_read lib vf s n i off ?stop ?b (replicate (er_block_size s) 0) buf 0 = Ok (k, buf')"
      using r i True by (auto simp: erofs_read_def and_then_eq_Ok uadd_eq_Ok)
    have b: "?b \<le> off" by simp
    from verified_read_ok [OF src bs _ _ _ _ v]
    have v': "k = ?stop - max off ?b" "length buf' = length buf"
      "\<And>j. buf' ! j = buf ! j \<or> ?b \<le> off + j \<and> off + j < ?stop"
      "\<And>j. ?b \<le> off + j \<Longrightarrow> off + j < ?stop \<Longrightarrow> surfaced lib vf s n i (off + j) (buf' ! j)" by simp_all
    have k: "k = ?stop - off" using v'(1) b by (simp add: max_absorb1)
    have "buf' ! j = buf ! j" if "k \<le> j" for j using v'(3) [of j] that k by linarith
    moreover have "surfaced lib vf s n i (off + j) (buf' ! j)" if "j < k" for j
      using v'(4) [of j] that k b by linarith
    ultimately show ?thesis using i k v'(2) by auto
  qed
qed

lemma erofs_method_grows:
  assumes "erofs_ok lib s"
  shows "erofs_lookup lib d nm s = (r1, s') \<Longrightarrow> erofs_grows lib s s'"
    and "erofs_read_dir lib d s = (r2, s') \<Longrightarrow> erofs_grows lib s s'"
    and "erofs_metadata n s = (r3, s') \<Longrightarrow> erofs_grows lib s s'"
    and "erofs_read_at lib cx n off buf s = (r4, s') \<Longrightarrow> erofs_grows lib s s'"
    and "erofs_read_link lib n s = (r5, s') \<Longrightarrow> erofs_grows lib s s'"
proof -
  show "erofs_lookup lib d nm s = (r1, s') \<Longrightarrow> erofs_grows lib s s'"
    by (drule answersD [OF answers_found [OF assms refl]], erule conjunct2)
  show "erofs_read_dir lib d s = (r2, s') \<Longrightarrow> erofs_grows lib s s'"
    by (drule answersD [OF answers_entries [OF assms refl]], erule conjunct2)
  show "erofs_metadata n s = (r3, s') \<Longrightarrow> erofs_grows lib s s'"
    by (drule answersD [OF answers_stat [OF assms refl]], erule conjunct2)
  show "erofs_read_at lib cx n off buf s = (r4, s') \<Longrightarrow> erofs_grows lib s s'"
    by (drule answersD [OF answers_read [OF assms refl]], erule conjunct2)
  show "erofs_read_link lib n s = (r5, s') \<Longrightarrow> erofs_grows lib s s'"
    by (drule answersD [OF answers_target [OF assms refl]], erule conjunct2)
qed

lemma erofs_grows_root: "erofs_grows lib s s' \<Longrightarrow> erofs_ok lib s' \<and> er_root_nid s' = er_root_nid s"
  by (rule conjI [OF erofs_growsD(1) static_fresh(6) [OF erofs_growsD(2)]])

interpretation erofs: fold_frontend "erofs_frontend lib" "erofs_ok lib" for lib
proof unfold_locales
  fix s :: erofs and cx n off and buf buf' :: bytes and k s'
  assume ok: "erofs_ok lib s" and "fe_read_at (erofs_frontend lib) cx n off buf s = (Ok (k, buf'), s')"
  then have "erofs_read lib (cx_verifier cx) s n off buf = Ok (k, buf')"
    using answersD [OF answers_read [OF ok refl]] by fastforce
  from erofs_read_ok [OF _ this] show "k \<le> length buf \<and> length buf' = length buf"
    using erofs_ok_base [OF ok] by auto
qed (simp only: erofs_frontend_simps, rule erofs_grows_root, erule (1) erofs_method_grows)+

definition erofs_view :: "'r codec_lib \<Rightarrow> erofs \<Rightarrow> node_id view" where
  "erofs_view lib s =
     \<lparr>vw_root = er_root_nid s, vw_lookup = erofs_found lib s, vw_metadata = erofs_stat s, vw_link = erofs_target lib s\<rparr>"

lemma erofs_view_fresh:
  assumes ok: "erofs_ok lib s" and fr: "erofs_fresh s = erofs_fresh t"
  shows "erofs_view lib s = erofs_view lib t"
proof -
  have "erofs_found lib s d nm = erofs_found lib t d nm" for d nm
    by (rule answers_eq [OF answers_found [OF ok refl] answers_found [OF ok fr]])
  moreover have "erofs_stat s n = erofs_stat t n" for n
    by (rule answers_eq [OF answers_stat [OF ok refl] answers_stat [OF ok fr]])
  moreover have "erofs_target lib s n = erofs_target lib t n" for n
    by (rule answers_eq [OF answers_target [OF ok refl] answers_target [OF ok fr]])
  ultimately show ?thesis using static_fresh(6) [OF fr] by (simp add: erofs_view_def fun_eq_iff)
qed

lemma erofs_view_grows: "erofs_grows lib s s' \<Longrightarrow> erofs_view lib s' = erofs_view lib s"
  by (rule erofs_view_fresh) (auto dest: erofs_growsD)

text \<open>A handle is the number of an inode, so it stands for itself.\<close>

interpretation erofs: tree_frontend "erofs_frontend lib" "erofs_ok lib" cx "\<lambda>s n. Some n" "erofs_view lib" for lib cx
proof unfold_locales
  fix s d kd nm r1 s'
  assume ok: "erofs_ok lib s" and d: "Some d = Some kd" and l: "fe_lookup (erofs_frontend lib) cx d nm s = (r1, s')"
  then have "r1 = erofs_found lib s d nm \<and> erofs_grows lib s s'" by (simp add: answersD [OF answers_found [OF ok refl]])
  then show "erofs_view lib s' = erofs_view lib s \<and> (\<forall>n k. Some n = Some k \<longrightarrow> Some n = Some k) \<and>
      (case vw_lookup (erofs_view lib s) kd nm of
         Ok (Some kc) \<Rightarrow> \<exists>c. r1 = Ok (Some c) \<and> Some c = Some kc
       | Ok None \<Rightarrow> r1 = Ok None | Err e \<Rightarrow> r1 = Err e | Panic p \<Rightarrow> r1 = Panic p)"
    using d erofs_view_grows by (auto simp: erofs_view_def split: result.splits option.splits)
next
  fix s n k r3 s'
  assume ok: "erofs_ok lib s" and k: "Some n = Some k" and m: "fe_metadata (erofs_frontend lib) cx n s = (r3, s')"
  then have "r3 = erofs_stat s n \<and> erofs_grows lib s s'" by (simp add: answersD [OF answers_stat [OF ok refl]])
  then show "erofs_view lib s' = erofs_view lib s \<and> (\<forall>n k. Some n = Some k \<longrightarrow> Some n = Some k) \<and>
      r3 = vw_metadata (erofs_view lib s) k"
    using k erofs_view_grows by (auto simp: erofs_view_def)
next
  fix s n k r5 s'
  assume ok: "erofs_ok lib s" and k: "Some n = Some k" and m: "fe_read_link (erofs_frontend lib) cx n s = (r5, s')"
  then have "r5 = erofs_target lib s n \<and> erofs_grows lib s s'" by (simp add: answersD [OF answers_target [OF ok refl]])
  then show "erofs_view lib s' = erofs_view lib s \<and> (\<forall>n k. Some n = Some k \<longrightarrow> Some n = Some k) \<and>
      r5 = vw_link (erofs_view lib s) k"
    using k erofs_view_grows by (auto simp: erofs_view_def)
qed (simp add: erofs_view_def)

text \<open>After any run a volume shows the tree it showed before it.\<close>

lemma erofs_run_grows:
  assumes "frontend_run (erofs_frontend lib) s s'" and "erofs_ok lib s"
  shows "erofs_grows lib s s'"
  using assms
proof (induction rule: rtranclp_induct)
  case base
  then show ?case by (rule erofs_grows_refl)
next
  case (step t u)
  then have g: "erofs_grows lib s t" by simp
  note ok = erofs_growsD(1) [OF g]
  from step(2) have "erofs_grows lib t u"
    by (cases rule: frontend_step.cases) (simp_all add: erofs_method_grows [OF ok])
  then show ?case using g erofs_grows_trans by blast
qed


section \<open>Mounting\<close>

lemma no_panic_lzma_cfg_walk: "sound_source src \<Longrightarrow> no_panic (lzma_cfg_walk src algs as cur)"
proof (induction as arbitrary: cur)
  case (Cons a as)
  have "no_panic (src_read src at n)" for at n using Cons.prems by (rule no_panic_src_read)
  with Cons show ?case by (auto split: result.split) (metis no_panic_constructors(3))+
qed simp

lemma parse_lzma_cfg_ok:
  assumes src: "sound_source (er_src s)"
  shows "no_panic (parse_lzma_cfg s)" and "parse_lzma_cfg s = Ok s' \<Longrightarrow> \<exists>d. s' = s\<lparr>er_lzma_dict := d\<rparr>"
proof -
  have r: "no_panic (src_read (er_src s) at n)" for at n by (rule no_panic_src_read [OF src])
  have id': "\<exists>d. u = u\<lparr>er_lzma_dict := d\<rparr>" for u :: erofs by (rule exI [of _ "er_lzma_dict u"]) simp
  show "no_panic (parse_lzma_cfg s)"
    using r [of COMPR_ALGS_OFF 2] no_panic_lzma_cfg_walk [OF src]
    by (auto simp: parse_lzma_cfg_def no_panic_and_then split: result.splits)
  show "parse_lzma_cfg s = Ok s' \<Longrightarrow> \<exists>d. s' = s\<lparr>er_lzma_dict := d\<rparr>"
    by (auto simp: parse_lzma_cfg_def and_then_eq_Ok split: result.splits if_splits intro: id')
qed

lemma erofs_super_ok:
  assumes src: "sound_source src"
  shows "no_panic (erofs_super src)"
    and "erofs_super src = Ok s \<Longrightarrow> erofs_base s \<and> er_src s = src \<and> er_inodes s = [] \<and> er_decoded s = []"
proof -
  have m: "x * 2 ^ unat (b :: byte) < 2 ^ 48" if "er_le_u32 sb 40 = Ok x" "unat b \<le> 16" for x sb b
  proof -
    have x: "x < 2 ^ 32" using that(1) le_field_less [of _ 4 sb 40 x] by (fastforce simp: er_le_u32_def)
    have "(2 :: nat) ^ unat b \<le> 2 ^ 16" using that(2) by (rule power_increasing) simp
    then have "x * 2 ^ unat b \<le> x * 2 ^ 16" by (rule mult_le_mono2)
    also have "\<dots> < 2 ^ 32 * 2 ^ 16" using x by simp
    finally show ?thesis by simp
  qed
  have f: "no_panic (refuse_unsupported_features sb x)" for sb x
    by (auto simp: refuse_unsupported_features_def no_panic_and_then)
  show "no_panic (erofs_super src)"
    using m by (auto simp: erofs_super_def no_panic_and_then no_panic_src_read [OF src] f no_panic_arith Let_def
        intro: less_trans [of _ "2 ^ 48"])
  show "erofs_super src = Ok s \<Longrightarrow> erofs_base s \<and> er_src s = src \<and> er_inodes s = [] \<and> er_decoded s = []"
    using m src by (auto simp: erofs_super_def and_then_eq_Ok umul_eq_Ok erofs_base_def Let_def split: if_splits)
qed

lemma erofs_open_ok:
  assumes src: "sound_source src"
  shows "no_panic (erofs_open src)" and "erofs_open src = Ok s \<Longrightarrow> erofs_ok lib s \<and> er_src s = src"
proof -
  have me: "erofs_ok lib me \<and> er_src me = src" if "erofs_super src = Ok me0" "parse_lzma_cfg me0 = Ok me" for me0 me
  proof -
    note b = erofs_super_ok(2) [OF src that(1)]
    from parse_lzma_cfg_ok(2) [OF _ that(2)] src b obtain d where "me = me0\<lparr>er_lzma_dict := d\<rparr>" by auto
    then show ?thesis using b by (auto simp: erofs_ok_def erofs_base_def)
  qed
  have p: "no_panic r \<and> (r = Ok () \<longrightarrow> erofs_ok lib me' \<and> er_src me' = src)"
    if "erofs_super src = Ok me0" "parse_lzma_cfg me0 = Ok me" "erofs_parse_inode n me = (r, me')" for me0 me n r me'
  proof -
    have ok: "erofs_ok lib me" and s: "er_src me = src" using me [OF that(1,2)] by simp_all
    note g = parse_inode_grows [OF ok that(3)]
    have "no_panic r" using g(2) fetch_inode_ok(1) erofs_ok_base [OF ok] by (simp add: no_panic_and_then)
    then show ?thesis using g(1) s static_fresh(4) [OF erofs_growsD(2) [OF g(1)]] by (auto dest: erofs_growsD)
  qed
  have np: "no_panic (case erofs_parse_inode n me of (Ok u, me') \<Rightarrow> Ok me' | (Err e, me') \<Rightarrow> Err e | (Panic q, me') \<Rightarrow> Panic q)"
    if "erofs_super src = Ok me0" "parse_lzma_cfg me0 = Ok me" for me0 me n
    using p [OF that, of n] by (cases "erofs_parse_inode n me") (auto split: result.splits)
  have lz: "no_panic (parse_lzma_cfg me0)" if "erofs_super src = Ok me0" for me0
    using parse_lzma_cfg_ok(1) erofs_super_ok(2) [OF src that] src by simp
  show "no_panic (erofs_open src)"
    using erofs_super_ok(1) [OF src] lz np by (simp add: erofs_open_def no_panic_and_then)
  assume "erofs_open src = Ok s"
  then obtain me0 me where me: "erofs_super src = Ok me0" "parse_lzma_cfg me0 = Ok me"
    "(case erofs_parse_inode (er_root_nid me) me of (Ok u, me') \<Rightarrow> Ok me' | (Err e, me') \<Rightarrow> Err e | (Panic q, me') \<Rightarrow> Panic q) = Ok s"
    unfolding erofs_open_def and_then_eq_Ok by blast
  from me(3) have "erofs_parse_inode (er_root_nid me) me = (Ok (), s)" by (auto split: prod.splits result.splits)
  from p [OF me(1,2) this] show "erofs_ok lib s \<and> er_src s = src" by simp
qed

end
