(* ===== verification/Erofs_Content.thy ===== *)
theory Erofs_Content
  imports Erofs_Frontend
begin

text \<open>
  What an EROFS inode's content is in each layout, and that a read gives it: flat data behind one
  address, with the rest of an inlined file behind the inode, chunks through their table, and
  compressed files as their clusters decode.
\<close>

section \<open>Contents on the medium\<close>

text \<open>The chunk \<open>idx\<close> of a content, and where its table says it is: nowhere for a hole, which is zeros.\<close>

definition chunk_recorded :: "erofs \<Rightarrow> nat \<Rightarrow> nat \<Rightarrow> bytes \<Rightarrow> nat \<Rightarrow> bool" where
  "chunk_recorded s table cs c idx \<longleftrightarrow>
     (\<exists>e. src_read (er_src s) (table + idx * 4) 4 = Ok e \<and>
        (let d = slice c (idx * cs) (min ((idx + 1) * cs) (length c)) in
         if from_le e = NULL_BLKADDR then d = replicate (length d) 0
         else recorded (er_src s) (from_le e * er_block_size s) d))"

definition stored :: "'r codec_lib \<Rightarrow> erofs \<Rightarrow> erofs_inode \<Rightarrow> bytes \<Rightarrow> bool" where
  "stored lib s i c \<longleftrightarrow> ei_size i = length c \<and> length c < 2 ^ 63 \<and>
     (if compressed_layout i then decode_inode_data lib s i = Ok c
      else if ei_layout i = FLAT_PLAIN then recorded (er_src s) (ei_raw_blkaddr i * er_block_size s) c
      else if ei_layout i = FLAT_INLINE then
        (let full = length c div er_block_size s * er_block_size s in
         recorded (er_src s) (ei_raw_blkaddr i * er_block_size s) (take full c) \<and>
         recorded (er_src s) (ei_inline_off i) (drop full c))
      else
        ei_layout i = CHUNK_BASED \<and>
        (let format = ei_raw_blkaddr i AND 0xFFFF; bits = er_blkszbits s + (format AND CHUNK_BLKBITS_MASK) in
         format AND (0xFFFF - CHUNK_FORMAT_ALL) = 0 \<and> format AND CHUNK_48BIT = 0 \<and> format AND CHUNK_INDEXES = 0 \<and>
         bits \<le> 40 \<and>
         (\<forall>idx. idx * 2 ^ bits < length c \<longrightarrow>
            chunk_recorded s ((ei_inline_off i + 3) div 4 * 4) (2 ^ bits) c idx)))"

lemma recorded_part:
  assumes "sound_source src" and "recorded src at c" and "a + n \<le> length c"
  shows "src_read src (at + a) n = Ok (slice c a (a + n))" and "at + a + n < 2 ^ 63"
proof -
  have r: "src_read src at (length c) = Ok c" using assms(2) by (simp add: recorded_def)
  show "src_read src (at + a) n = Ok (slice c a (a + n))" by (rule src_read_part [OF assms(1) r assms(3)])
  show "at + a + n < 2 ^ 63" using recorded_bound [OF assms(1,2)] assms(3) by simp
qed

lemma slice_take: "b \<le> n \<Longrightarrow> slice (take n xs) a b = slice xs a b"
  by (cases "a \<le> b") (simp_all add: slice_def take_drop min_def)

lemma slice_drop: "slice (drop n xs) a b = slice xs (n + a) (n + b)"
  by (simp add: slice_def add.commute)

lemma slice_replicate: "b \<le> n \<Longrightarrow> slice (replicate n x) a b = replicate (b - a) x"
  by (simp add: slice_def min_def)

text \<open>A turn of a reading loop that lays down the right piece, and the turns behind it.\<close>

lemma turn_data:
  assumes "off \<le> p" and "p \<le> e" and "e \<le> stop" and "stop \<le> length c" and "stop \<le> off + length buf"
    and rest: "\<And>buf'. length buf' = length buf \<Longrightarrow> f buf' = Ok (overwrite buf' (e - off) (slice c e stop))"
  shows "f (overwrite buf (p - off) (slice c p e)) = Ok (overwrite buf (p - off) (slice c p stop))"
proof -
  have "length (overwrite buf (p - off) (slice c p e)) = length buf" using assms(1-5) by simp
  from rest [OF this] have "f (overwrite buf (p - off) (slice c p e)) =
      Ok (overwrite (overwrite buf (p - off) (slice c p e)) (e - off) (slice c e stop))" .
  also have "overwrite (overwrite buf (p - off) (slice c p e)) (e - off) (slice c e stop) =
      overwrite buf (p - off) (slice c p stop)"
    by (rule overwrite_slices) (use assms(1-5) in auto)
  finally show ?thesis .
qed

lemma inline_loop_data:
  assumes src: "sound_source src" and stop: "stop \<le> length c" and full: "full \<le> length c"
    and head: "recorded src base (take full c)" and tail: "recorded src inline_off (drop full c)"
  shows "off \<le> p \<Longrightarrow> stop \<le> off + length buf \<Longrightarrow>
    inline_loop src base inline_off full off stop p buf = Ok (overwrite buf (p - off) (slice c p stop))"
proof (induction "stop - p" arbitrary: p buf rule: less_induct)
  case less
  show ?case
  proof (cases "p < stop")
    case False
    then have "slice c p stop = []" by (simp add: slice_def)
    then show ?thesis using False by (simp add: inline_loop.simps [of _ _ _ _ _ _ p])
  next
    case True
    have turn: "inline_loop src base inline_off full off stop e (overwrite buf (p - off) (slice c p e)) =
        Ok (overwrite buf (p - off) (slice c p stop))" if e: "p < e" "e \<le> stop" for e
    proof (rule turn_data)
      show "inline_loop src base inline_off full off stop e buf' = Ok (overwrite buf' (e - off) (slice c e stop))"
        if "length buf' = length buf" for buf'
        by (rule less.hyps) (use that e less.prems in auto)
    qed (use e less.prems stop in auto)
    show ?thesis
    proof (cases "p < full")
      case True
      let ?e = "min stop full"
      have "p + (?e - p) = ?e" "?e \<le> full" "p < ?e" "?e \<le> stop" using True \<open>p < stop\<close> by auto
      then have fit: "p + (?e - p) \<le> length (take full c)" using full by simp
      have "slice (take full c) p (p + (?e - p)) = slice c p ?e" using \<open>p + (?e - p) = ?e\<close> by (simp add: slice_take)
      with recorded_part [OF src head fit] have
        "src_read src (base + p) (?e - p) = Ok (slice c p ?e)" "base + p < 2 ^ 63" by simp_all
      then show ?thesis
        using turn [OF \<open>p < ?e\<close> \<open>?e \<le> stop\<close>] True \<open>p < stop\<close>
        by (subst inline_loop.simps) (simp add: uadd_def del: min_less_iff_conj)
    next
      case False
      then have fit: "p - full + (stop - p) \<le> length (drop full c)" "full + (p - full + (stop - p)) = stop" using True stop by simp_all
      from recorded_part [OF src tail fit(1)] fit(2) False have
        "src_read src (inline_off + (p - full)) (stop - p) = Ok (slice c p stop)"
        "inline_off + (p - full) + (stop - p) < 2 ^ 63" by (simp_all add: slice_drop)
      then have "src_read src (inline_off + (p - full)) (stop - p) = Ok (slice c p stop)"
        "uadd 64 inline_off (p - full) = Ok (inline_off + (p - full))" by (simp_all add: uadd_def)
      then show ?thesis
        using turn [OF True order_refl] True False by (subst inline_loop.simps) simp
    qed
  qed
qed

lemma chunk_piece_data:
  assumes src: "sound_source (er_src s)" and rec: "chunk_recorded s table cs c idx" and cs: "0 < cs"
    and e: "src_read (er_src s) (table + idx * 4) 4 = Ok e"
    and bs: "er_block_size s \<le> 2 ^ 16"
    and p: "idx * cs \<le> p" "p \<le> q" "q \<le> (idx + 1) * cs" "q \<le> length c"
  shows "chunk_piece (er_src s) (er_block_size s) (from_le e) (p - idx * cs) (q - p) = Ok (slice c p q)"
proof -
  let ?d = "slice c (idx * cs) (min ((idx + 1) * cs) (length c))"
  have len: "length ?d = min ((idx + 1) * cs) (length c) - idx * cs" using p by simp
  have part: "slice ?d (p - idx * cs) (p - idx * cs + (q - p)) = slice c p q"
    using slice_slice [of "idx * cs" "p - idx * cs" "q - p" "min ((idx + 1) * cs) (length c)" c] p by simp
  have fit: "p - idx * cs + (q - p) \<le> length ?d" using p len by simp
  show ?thesis
  proof (cases "from_le e = NULL_BLKADDR")
    case True
    then have "?d = replicate (length ?d) 0" using rec e by (simp add: chunk_recorded_def Let_def)
    then have "slice ?d (p - idx * cs) (p - idx * cs + (q - p)) =
        slice (replicate (length ?d) 0) (p - idx * cs) (p - idx * cs + (q - p))" by (rule arg_cong)
    also have "\<dots> = replicate (q - p) 0" by (subst slice_replicate [OF fit]) simp
    finally have "slice ?d (p - idx * cs) (p - idx * cs + (q - p)) = replicate (q - p) 0" .
    then show ?thesis using True part by (simp add: chunk_piece_def)
  next
    case False
    then have r: "recorded (er_src s) (from_le e * er_block_size s) ?d" using rec e by (simp add: chunk_recorded_def Let_def)
    from recorded_part [OF src r fit] have
      "src_read (er_src s) (from_le e * er_block_size s + (p - idx * cs)) (q - p) = Ok (slice c p q)"
      "from_le e * er_block_size s + (p - idx * cs) < 2 ^ 63" using part by simp_all
    then show ?thesis using False by (simp add: chunk_piece_def umul_def uadd_def)
  qed
qed


lemma chunk_loop_data:
  assumes src: "sound_source (er_src s)" and bs: "er_block_size s \<le> 2 ^ 16" and cs: "4 \<le> cs" "cs \<le> 2 ^ 40"
    and len: "length c < 2 ^ 63" and stop: "stop \<le> length c"
    and rec: "\<And>idx. idx * cs < length c \<Longrightarrow> chunk_recorded s table cs c idx"
  shows "off \<le> p \<Longrightarrow> stop \<le> off + length buf \<Longrightarrow>
    chunk_loop (er_src s) (er_block_size s) cs table off stop p buf = Ok (overwrite buf (p - off) (slice c p stop))"
proof (induction "stop - p" arbitrary: p buf rule: less_induct)
  case less
  show ?case
  proof (cases "p < stop")
    case False
    then have "slice c p stop = []" by (simp add: slice_def)
    then show ?thesis using False by (simp add: chunk_loop.simps [of _ _ _ _ _ _ p])
  next
    case True
    let ?i = "p div cs" and ?e = "min stop ((p div cs + 1) * cs)"
    have pos: "0 < cs" using cs by simp
    have ip: "?i * cs \<le> p" "p mod cs = p - ?i * cs" by (simp_all add: minus_div_mult_eq_mod)
    have up: "p < (?i + 1) * cs" using dividend_less_div_times [OF pos, of p] by simp
    have e: "p < ?e" "?e \<le> stop" "?e \<le> (?i + 1) * cs" using True up by simp_all
    have "?i * cs < length c" using ip True stop by linarith
    note r = rec [OF this]
    from r obtain ent where ent: "src_read (er_src s) (table + ?i * 4) 4 = Ok ent" by (auto simp: chunk_recorded_def)
    have piece: "chunk_piece (er_src s) (er_block_size s) (from_le ent) (p mod cs) (?e - p) = Ok (slice c p ?e)"
      unfolding ip(2)
      by (rule chunk_piece_data [OF src r pos ent bs ip(1)]) (use e stop in linarith)+
    have "?i * cs < 2 ^ 63" using ip(1) True stop len by linarith
    then have ov: "(?i + 1) * cs < 2 ^ 64" using cs(2) by simp
    have "?i * 4 \<le> ?i * cs" using cs(1) by simp
    then have "?i * 4 < 2 ^ 63" using ip(1) True stop len by linarith
    then have ov4: "?i * 4 < 2 ^ 64" by simp
    have ovt: "table + ?i * 4 < 2 ^ 64" using src_read_bound [OF src ent] by simp
    have "chunk_loop (er_src s) (er_block_size s) cs table off stop ?e (overwrite buf (p - off) (slice c p ?e)) =
        Ok (overwrite buf (p - off) (slice c p stop))"
    proof (rule turn_data)
      show "chunk_loop (er_src s) (er_block_size s) cs table off stop ?e buf' = Ok (overwrite buf' (?e - off) (slice c ?e stop))"
        if "length buf' = length buf" for buf'
        by (rule less.hyps) (use that e True less.prems in linarith)+
    qed (use e less.prems stop in linarith)+
    moreover have "umul 64 (?i + 1) cs = Ok ((?i + 1) * cs)" "umul 64 ?i 4 = Ok (?i * 4)"
      "uadd 64 table (?i * 4) = Ok (table + ?i * 4)"
      using ov ov4 ovt unfolding umul_def uadd_def by (simp_all only: if_True)
    ultimately show ?thesis
      unfolding chunk_loop.simps [of _ _ _ _ _ _ p] Let_def using True pos ent piece by (simp only: and_then.simps if_True simp_thms)
  qed
qed

lemma flat_data_stored:
  assumes base: "erofs_base s" and st: "stored lib s i c" and flat: "\<not> compressed_layout i"
    and stop: "off < stop" "stop \<le> length c" "stop \<le> off + length buf"
    and raw: "ei_raw_blkaddr i < 2 ^ 32" and inl: "ei_inline_off i < 2 ^ 63 + 2 ^ 19"
  shows "flat_data s i off stop buf = Ok (stop - off, overwrite buf 0 (slice c off stop))"
proof -
  have src: "sound_source (er_src s)" using base by (simp add: erofs_base_def)
  note bs = erofs_base_bs [OF base]
  have mul: "ei_raw_blkaddr i * er_block_size s < 2 ^ 64"
  proof -
    have "ei_raw_blkaddr i * er_block_size s \<le> ei_raw_blkaddr i * 2 ^ 16" using bs by simp
    also have "\<dots> < 2 ^ 32 * 2 ^ 16" using raw by simp
    finally show ?thesis by simp
  qed
  have sz: "ei_size i = length c" "length c < 2 ^ 63" using st by (simp_all add: stored_def)
  consider (plain) "ei_layout i = FLAT_PLAIN" | (inl) "ei_layout i = FLAT_INLINE" | (chunk) "ei_layout i = CHUNK_BASED"
    using st flat by (auto simp: stored_def split: if_splits)
  then show ?thesis
  proof cases
    case plain
    then have "recorded (er_src s) (ei_raw_blkaddr i * er_block_size s) c" using st flat by (simp add: stored_def)
    from recorded_part [OF src this, of off "stop - off"] stop have
      "src_read (er_src s) (ei_raw_blkaddr i * er_block_size s + off) (stop - off) = Ok (slice c off stop)"
      "ei_raw_blkaddr i * er_block_size s + off < 2 ^ 63" by simp_all
    then show ?thesis using plain mul by (simp add: flat_data_def umul_def uadd_def Let_def)
  next
    case inl
    let ?full = "length c div er_block_size s * er_block_size s"
    have "recorded (er_src s) (ei_raw_blkaddr i * er_block_size s) (take ?full c)" "recorded (er_src s) (ei_inline_off i) (drop ?full c)"
      using st flat inl by (simp_all add: stored_def Let_def FLAT_PLAIN_def FLAT_INLINE_def)
    from inline_loop_data [OF src stop(2) _ this order_refl stop(3)] have
      "inline_loop (er_src s) (ei_raw_blkaddr i * er_block_size s) (ei_inline_off i) ?full off stop off buf =
        Ok (overwrite buf 0 (slice c off stop))" by simp
    then show ?thesis using inl mul sz by (simp add: flat_data_def umul_def Let_def FLAT_PLAIN_def FLAT_INLINE_def)
  next
    case chunk
    define f where "f = ei_raw_blkaddr i AND 0xFFFF"
    define bits where "bits = er_blkszbits s + (f AND CHUNK_BLKBITS_MASK)"
    have h: "f AND (0xFFFF - CHUNK_FORMAT_ALL) = 0" "f AND CHUNK_48BIT = 0" "f AND CHUNK_INDEXES = 0" "bits \<le> 40"
      "\<And>idx. idx * 2 ^ bits < length c \<Longrightarrow> chunk_recorded s ((ei_inline_off i + 3) div 4 * 4) (2 ^ bits) c idx"
      using st flat chunk
      by (simp_all add: stored_def Let_def f_def bits_def FLAT_PLAIN_def FLAT_INLINE_def CHUNK_BASED_def)
    have "2 \<le> bits" using base by (simp add: bits_def erofs_base_def)
    then have cs: "4 \<le> (2 :: nat) ^ bits" "(2 :: nat) ^ bits \<le> 2 ^ 40"
      using power_increasing [of 2 bits "2 :: nat"] power_increasing [OF h(4), of "2 :: nat"] by simp_all
    have tab: "chunk_table (ei_inline_off i) = Ok ((ei_inline_off i + 3) div 4 * 4)"
      using inl by (simp add: chunk_table_def uadd_def)
    have "chunk_loop (er_src s) (er_block_size s) (2 ^ bits) ((ei_inline_off i + 3) div 4 * 4) off stop off buf =
        Ok (overwrite buf (off - off) (slice c off stop))"
      by (rule chunk_loop_data [OF src _ cs sz(2) stop(2) h(5) order_refl stop(3)]) (use bs in simp)
    then show ?thesis
      using chunk h(1-4) tab
      by (simp add: flat_data_def read_chunked_def Let_def f_def [symmetric] bits_def [symmetric]
          FLAT_PLAIN_def FLAT_INLINE_def CHUNK_BASED_def)
  qed
qed

lemma inode_data_stored:
  assumes base: "erofs_base s" and i: "fetch_inode s n = Ok i" and st: "stored lib s i c"
    and off: "off < length c" and fit: "off + length buf \<le> length c" and ne: "buf \<noteq> []"
  shows "inode_data lib s i off buf = Ok (length buf, slice c off (off + length buf))"
proof -
  note b = fetch_inode_ok(2) [OF base i]
  have sz: "ei_size i = length c" "length c < 2 ^ 63" using st by (simp_all add: stored_def)
  have all: "overwrite buf 0 (slice c off (off + length buf)) = slice c off (off + length buf)"
    using fit by (simp add: overwrite_0)
  have f: "flat_data s i off (off + length buf) buf = Ok (length buf, slice c off (off + length buf))" if "\<not> compressed_layout i"
    using flat_data_stored [OF base st that _ fit order_refl] b ne all by simp
  have d: "decode_inode_data lib s i = Ok c" if "compressed_layout i" using st that by (simp add: stored_def)
  have m: "min (off + length buf) (ei_size i) = off + length buf" using fit sz by simp
  show ?thesis
    using f d off fit sz all unfolding inode_data_def
    by (auto simp: uadd_def Let_def get_range_def m min_absorb1)
qed


section \<open>Verified reads of a stored file\<close>

text \<open>
  The content of a node under a verifier: the inode's stored data, each block of which the verifier
  accepts at its place.
\<close>

definition blocks_accepted :: "verifier \<Rightarrow> nat \<Rightarrow> node_id \<Rightarrow> bytes \<Rightarrow> bool" where
  "blocks_accepted vf bs n c \<longleftrightarrow>
     (\<forall>b. b mod bs = 0 \<longrightarrow> b < length c \<longrightarrow> vf n b (slice c b (min (b + bs) (length c))) = Ok ())"

lemma blocks_acceptedD:
  "blocks_accepted vf bs n c \<Longrightarrow> b mod bs = 0 \<Longrightarrow> b < length c \<Longrightarrow> vf n b (slice c b (min (b + bs) (length c))) = Ok ()"
  by (simp add: blocks_accepted_def)

definition erofs_content :: "'r codec_lib \<Rightarrow> verifier \<Rightarrow> erofs \<Rightarrow> node_id \<Rightarrow> bytes \<Rightarrow> bool" where
  "erofs_content lib vf s n c \<longleftrightarrow>
     (\<exists>i. fetch_inode s n = Ok i \<and> ei_kind i \<noteq> Directory \<and> stored lib s i c \<and>
        blocks_accepted vf (er_block_size s) n c)"

lemma verified_read_total:
  assumes base: "erofs_base s" and i: "fetch_inode s n = Ok i" and st: "stored lib s i c"
    and vf: "blocks_accepted vf (er_block_size s) n c"
    and stop: "stop \<le> length c"
  shows "b mod er_block_size s = 0 \<Longrightarrow> length block = er_block_size s \<Longrightarrow>
    \<exists>r. verified_read lib vf s n i off stop b block buf produced = Ok r"
proof (induction "stop - b" arbitrary: b block buf produced rule: less_induct)
  case less
  let ?bs = "er_block_size s"
  have bs: "0 < ?bs" "?bs \<le> 2 ^ 16" using erofs_base_bs [OF base] by simp_all
  have sz: "ei_size i = length c" "length c < 2 ^ 63" using st by (simp_all add: stored_def)
  show ?case
  proof (cases "b < stop")
    case False
    then show ?thesis by (subst verified_read.simps) simp
  next
    case True
    then have b: "b < length c" using stop by simp
    let ?len = "min ?bs (length c - b)"
    let ?blk = "slice c b (b + ?len)"
    have fit: "b + ?len = min (b + ?bs) (length c)" using b by simp
    have len: "length (take ?len block) = ?len" using less.prems(2) by simp
    have pos: "0 < ?len" using b bs(1) by simp
    have ne: "take ?len block \<noteq> []" using len pos by (metis length_greater_0_conv)
    have "b + length (take ?len block) \<le> length c" unfolding len fit by simp
    from inode_data_stored [OF base i st b this ne]
    have d: "inode_data lib s i b (take ?len block) = Ok (?len, ?blk)" unfolding len .
    have v: "vf n b ?blk = Ok ()" unfolding fit by (rule blocks_acceptedD [OF vf less.prems(1) b])
    have "length ?blk = ?len" using fit by simp
    then have ov: "length (overwrite block 0 ?blk) = ?bs" using less.prems(2) by simp
    have "\<exists>r. verified_read lib vf s n i off stop (b + ?bs) (overwrite block 0 ?blk)
        (snd (copy_block off stop b ?blk buf)) (produced + fst (copy_block off stop b ?blk buf)) = Ok r"
      by (rule less.hyps) (use True bs less.prems(1) ov in simp_all)
    moreover have "uadd 64 b ?bs = Ok (b + ?bs)" using b sz(2) bs(2) by (simp add: uadd_def)
    ultimately show ?thesis
      using True bs(1) d v sz(1) unfolding verified_read.simps [of _ _ _ _ _ _ _ b]
      by (simp del: min_less_iff_conj)
  qed
qed


lemma erofs_read_content:
  assumes base: "erofs_base s" and c: "erofs_content lib vf s n c" and off: "off < length c" and len: "length buf < 2 ^ 63"
  shows "erofs_read lib vf s n off buf =
    Ok (min (off + length buf) (length c) - off, overwrite buf 0 (slice c off (min (off + length buf) (length c))))"
proof -
  let ?bs = "er_block_size s" and ?stop = "min (off + length buf) (length c)"
  have bs: "0 < ?bs" "?bs \<le> 2 ^ 16" using erofs_base_bs [OF base] by simp_all
  from c obtain i where i: "fetch_inode s n = Ok i" "ei_kind i \<noteq> Directory" and st: "stored lib s i c"
    and vf: "blocks_accepted vf ?bs n c"
    by (auto simp: erofs_content_def)
  have sz: "ei_size i = length c" "length c < 2 ^ 63" using st by (simp_all add: stored_def)
  have aligned: "off div ?bs * ?bs mod ?bs = 0" and repl: "length (replicate ?bs (0 :: byte)) = ?bs" by simp_all
  obtain r where "verified_read lib vf s n i off ?stop (off div ?bs * ?bs) (replicate ?bs 0) buf 0 = Ok r"
    using verified_read_total [OF base i(1) st vf min.cobounded2 aligned repl] by blast
  then obtain k buf' where r: "erofs_read lib vf s n off buf = Ok (k, buf')"
    using i sz off len by (cases r) (auto simp: erofs_read_def uadd_def)
  have k: "k = ?stop - off" "length buf' = length buf" "\<And>j. k \<le> j \<Longrightarrow> buf' ! j = buf ! j"
    and sf: "\<And>j. j < k \<Longrightarrow> surfaced lib vf s n i (off + j) (buf' ! j)"
    using erofs_read_ok [OF base r] i(1) sz(1) by auto
  have byte: "buf' ! j = c ! (off + j)" if j: "j < k" for j
  proof -
    let ?b = "(off + j) div ?bs * ?bs"
    have oj: "off + j < length c" using j k(1) by linarith
    have e: "?b + (off + j) mod ?bs = off + j" by simp
    then have b: "?b \<le> off + j" "?b < length c" using oj by linarith+
    obtain blk b0 m where s: "inode_data lib s i ?b b0 = Ok (m, blk)" "length blk = min ?bs (ei_size i - ?b)"
      "off + j - ?b < length blk" "buf' ! j = blk ! (off + j - ?b)"
      using sf [OF j] by (auto simp: surfaced_def Let_def)
    have src: "sound_source (er_src s)" using base by (simp add: erofs_base_def)
    have lb: "length blk = length b0" using inode_data_ok(2) [OF src s(1)] by simp
    have fit: "?b + length b0 \<le> length c" using s(2) lb sz(1) b(2) by linarith
    have "b0 \<noteq> []" using s(3) lb by auto
    from inode_data_stored [OF base i(1) st b(2) fit this] s(1) have "blk = slice c ?b (?b + length b0)" by simp
    moreover have "slice c ?b (?b + length b0) ! (off + j - ?b) = c ! (?b + (off + j - ?b))"
      using s(3) lb b(2) by (simp add: slice_def)
    ultimately show ?thesis using s(4) b(1) by simp
  qed
  have "buf' = overwrite buf 0 (slice c off ?stop)"
  proof (rule nth_equalityI)
    have d: "length (slice c off ?stop) = k" using k(1) off by simp
    have fit: "0 + length (slice c off ?stop) \<le> length buf" using d k(1) off by linarith
    show "length buf' = length (overwrite buf 0 (slice c off ?stop))" using k(2) length_overwrite [OF fit] by simp
    show "buf' ! j = overwrite buf 0 (slice c off ?stop) ! j" if "j < length buf'" for j
    proof (cases "j < k")
      case True
      then have "slice c off ?stop ! j = c ! (off + j)" using k(1) off by (simp add: slice_def)
      then show ?thesis using True byte [OF True] unfolding nth_overwrite [OF fit] d by simp
    next
      case False
      then show ?thesis using k(3) [of j] unfolding nth_overwrite [OF fit] d by simp
    qed
  qed
  with r k(1) show ?thesis by simp
qed

lemma erofs_content_fresh:
  assumes fr: "erofs_fresh s = erofs_fresh t" and c: "erofs_content lib vf s n c"
  shows "erofs_content lib vf t n c"
proof -
  note f = static_fresh [OF fr]
  have "chunk_recorded s = chunk_recorded t" using f(4,5) by (simp add: chunk_recorded_def fun_eq_iff)
  then have "stored lib s = stored lib t"
    using f(2) [of lib] f(4,5,7) by (simp add: stored_def fun_eq_iff Let_def cong: if_cong)
  then show ?thesis using c f(1,5) by (simp add: erofs_content_def)
qed

interpretation erofs: content_frontend "erofs_frontend lib" "erofs_ok lib" cx
  "erofs_content lib (cx_verifier cx)" for lib cx
proof unfold_locales
  fix s n c
  assume ok: "erofs_ok lib s" and c: "erofs_content lib (cx_verifier cx) s n c"
  obtain s' where m: "erofs_metadata n s = (erofs_stat s n, s')" "erofs_grows lib s s'"
    using answers_stat [OF ok refl, of n] by (auto simp: answers_def)
  have c': "erofs_content lib (cx_verifier cx) s' n c" by (rule erofs_content_fresh [OF erofs_growsD(2) [OF m(2), symmetric] c])
  from c obtain i where "fetch_inode s n = Ok i" "ei_kind i \<noteq> Directory" "ei_size i = length c"
    by (auto simp: erofs_content_def stored_def)
  then show "\<exists>md s'. fe_metadata (erofs_frontend lib) cx n s = (Ok md, s') \<and> md_kind md \<noteq> Directory \<and>
      md_size md = length c \<and> erofs_content lib (cx_verifier cx) s' n c"
    using m(1) c' by (simp add: erofs_stat_def)
next
  fix s n c off and buf :: bytes
  assume ok: "erofs_ok lib s" and c: "erofs_content lib (cx_verifier cx) s n c" and off: "off < length c"
    and buf: "buf \<noteq> []" "length buf < 2 ^ 63"
  let ?k = "min (off + length buf) (length c) - off"
  obtain s' where m: "erofs_read_at lib cx n off buf s = (erofs_read lib (cx_verifier cx) s n off buf, s')" "erofs_grows lib s s'"
    using answers_read [OF ok refl, of cx n off buf] by (auto simp: answers_def)
  have c': "erofs_content lib (cx_verifier cx) s' n c" by (rule erofs_content_fresh [OF erofs_growsD(2) [OF m(2), symmetric] c])
  have k: "off + ?k = min (off + length buf) (length c)" "0 < ?k" "?k \<le> length buf" "off + ?k \<le> length c" using off buf(1) by auto
  have "erofs_read lib (cx_verifier cx) s n off buf = Ok (?k, overwrite buf 0 (slice c off (off + ?k)))"
    using erofs_read_content [OF _ c off buf(2)] erofs_ok_base [OF ok] unfolding k(1) by blast
  then show "\<exists>k s'. fe_read_at (erofs_frontend lib) cx n off buf s = (Ok (k, overwrite buf 0 (slice c off (off + k))), s') \<and>
      0 < k \<and> k \<le> length buf \<and> off + k \<le> length c \<and> erofs_content lib (cx_verifier cx) s' n c"
    using m(1) c' k(2-4) by (intro exI [of _ ?k] exI [of _ s']) simp
qed

end
