(* ===== verification/Erofs_Dirs.thy ===== *)
theory Erofs_Dirs
  imports Erofs_Content
begin

text \<open>
  Recorded EROFS directories: dirent blocks as a writer lays them out, and that the block parser and
  the walk over the blocks give their entries back.
\<close>

section \<open>Dirent blocks\<close>

text \<open>
  A directory entry as it is recorded (number, name, type) and a block of them: the dirents, each
  with the place of its name, the names back to back, and zeros behind the last.
\<close>

type_synonym er_dirent = "nat \<times> bytes \<times> byte"

fun dirent_table :: "nat \<Rightarrow> er_dirent list \<Rightarrow> bytes" where
  "dirent_table nameoff [] = []"
| "dirent_table nameoff ((nid, name, file_type) # es) =
     to_le 8 nid @ to_le 2 nameoff @ [file_type, 0] @ dirent_table (nameoff + length name) es"

definition er_names :: "er_dirent list \<Rightarrow> bytes" where
  "er_names es = concat (map (\<lambda>(nid, name, file_type). name) es)"

definition er_block_encode :: "er_dirent list \<Rightarrow> nat \<Rightarrow> bytes" where
  "er_block_encode es pad = dirent_table (12 * length es) es @ er_names es @ replicate pad 0"

definition er_block_ok :: "er_dirent list \<Rightarrow> bool" where
  "er_block_ok es \<longleftrightarrow> es \<noteq> [] \<and> 12 * length es + length (er_names es) < 2 ^ 16 \<and>
     (\<forall>(nid, name, file_type) \<in> set es. nid < 2 ^ 64 \<and> 0 \<notin> set name \<and> utf8_valid name)"

definition er_listed :: "er_dirent \<Rightarrow> bool" where
  "er_listed e = (case e of (nid, name, file_type) \<Rightarrow> name \<noteq> [] \<and> name \<noteq> [46] \<and> name \<noteq> [46, 46])"

lemma er_names_simps [simp]: "er_names [] = []" "er_names ((nid, name, t) # es) = name @ er_names es"
  by (simp_all add: er_names_def)

lemma length_dirent_table [simp]: "length (dirent_table nameoff es) = 12 * length es"
  by (induction nameoff es rule: dirent_table.induct) simp_all

lemma drop_dirent_table:
  "i \<le> length es \<Longrightarrow> drop (i * 12) (dirent_table nameoff es) = dirent_table (nameoff + length (er_names (take i es))) (drop i es)"
proof (induction i arbitrary: nameoff es)
  case (Suc i)
  then obtain nid name t es' where es: "es = (nid, name, t) # es'" by (cases es) auto
  have "drop (Suc i * 12) (dirent_table nameoff es) =
      drop (i * 12) (drop 12 (to_le 8 nid @ to_le 2 nameoff @ [t, 0] @ dirent_table (nameoff + length name) es'))"
    by (simp add: es del: to_le.simps)
  also have "\<dots> = drop (i * 12) (dirent_table (nameoff + length name) es')" by (simp del: to_le.simps)
  finally show ?case using Suc by (simp add: es add.assoc)
qed simp

lemma drop_er_names: "i \<le> length es \<Longrightarrow> drop (length (er_names (take i es))) (er_names es) = er_names (drop i es)"
proof (induction i arbitrary: es)
  case (Suc i)
  then obtain nid name t es' where "es = (nid, name, t) # es'" by (cases es) auto
  then show ?case using Suc by simp
qed simp

lemma length_er_names_take: "length (er_names (take i es)) \<le> length (er_names es)"
proof -
  have "er_names es = er_names (take i es) @ er_names (drop i es)"
    unfolding er_names_def concat_append [symmetric] map_append [symmetric] append_take_drop_id ..
  then show ?thesis by simp
qed

lemma slice_drop_shift: "slice xs (n + a) (n + b) = slice (drop n xs) a b"
  by (simp add: slice_def add.commute)

text \<open>The fields of the \<open>i\<close>-th dirent.\<close>

lemma er_dirent_fields:
  assumes ok: "er_block_ok es" and i: "i < length es" and e: "es ! i = (nid, name, t)"
  shows "er_le_u64 (er_block_encode es pad) (i * 12) = Ok nid"
    and "er_le_u16 (er_block_encode es pad) (i * 12 + 8) = Ok (12 * length es + length (er_names (take i es)))"
    and "get_at (er_block_encode es pad) (i * 12 + 10) = Some t"
proof -
  let ?blk = "er_block_encode es pad" and ?off = "12 * length es + length (er_names (take i es))"
  have d: "drop i es = (nid, name, t) # drop (Suc i) es" using i e by (metis Cons_nth_drop_Suc)
  obtain rest where rest: "drop (i * 12) ?blk = to_le 8 nid @ to_le 2 ?off @ [t, 0] @ rest"
    using i drop_dirent_table [of i es "12 * length es"] by (auto simp: er_block_encode_def d simp del: to_le.simps)
  have len: "length ?blk = i * 12 + (12 + length rest)"
  proof -
    have "length ?blk - i * 12 = 12 + length rest" using arg_cong [OF rest, of length] by simp
    moreover have "i * 12 \<le> length ?blk" using i by (simp add: er_block_encode_def)
    ultimately show ?thesis by linarith
  qed
  have "nid < 2 ^ 64" "?off < 2 ^ 16"
    using ok i e length_er_names_take [of i es] nth_mem [OF i] by (fastforce simp: er_block_ok_def)+
  moreover have "slice ?blk (i * 12) (i * 12 + 8) = to_le 8 nid"
    using slice_drop_shift [of ?blk "i * 12" 0 8] unfolding rest by (simp add: slice_def del: to_le.simps)
  moreover have "slice ?blk (i * 12 + 8) (i * 12 + 8 + 2) = to_le 2 ?off"
    using slice_drop_shift [of ?blk "i * 12" 8 10] unfolding rest by (simp add: slice_def del: to_le.simps)
  ultimately show "er_le_u64 ?blk (i * 12) = Ok nid" "er_le_u16 ?blk (i * 12 + 8) = Ok ?off"
    unfolding er_le_u64_def er_le_u16_def using len by (auto intro!: le_field_at simp del: to_le.simps)
  have "?blk ! (i * 12 + 10) = drop (i * 12) ?blk ! 10" using len by simp
  also have "\<dots> = t" unfolding rest by (simp add: nth_append del: to_le.simps)
  finally show "get_at ?blk (i * 12 + 10) = Some t" using len by (simp add: get_at_def)
qed

text \<open>The name of the \<open>i\<close>-th dirent, with the padding behind the last.\<close>

lemma dirent_name:
  assumes i: "i < length es" and e: "es ! i = (nid, name, t)"
  shows "get_range (er_block_encode es pad) (12 * length es + length (er_names (take i es)))
      (if i + 1 < length es then 12 * length es + length (er_names (take (i + 1) es)) else length (er_block_encode es pad)) =
    Some (name @ (if i + 1 < length es then [] else replicate pad 0))"
proof -
  let ?blk = "er_block_encode es pad" and ?off = "12 * length es + length (er_names (take i es))"
  have d: "drop i es = (nid, name, t) # drop (Suc i) es" using i e by (metis Cons_nth_drop_Suc)
  have rest: "drop ?off ?blk = name @ er_names (drop (Suc i) es) @ replicate pad 0"
    using drop_er_names [of i es] i length_er_names_take [of i es] by (simp add: er_block_encode_def d)
  have len: "length ?blk = ?off + (length name + length (er_names (drop (Suc i) es)) + pad)"
  proof -
    have "length ?blk - ?off = length name + length (er_names (drop (Suc i) es)) + pad"
      using arg_cong [OF rest, of length] by simp
    moreover have "?off \<le> length ?blk" using length_er_names_take [of i es] by (simp add: er_block_encode_def)
    ultimately show ?thesis by linarith
  qed
  have nxt: "12 * length es + length (er_names (take (i + 1) es)) = ?off + length name"
    using i e by (simp add: take_Suc_conv_app_nth er_names_def)
  show ?thesis
  proof (cases "i + 1 < length es")
    case True
    have "slice ?blk (?off + 0) (?off + length name) = name" unfolding slice_drop_shift rest by (simp add: slice_def)
    then show ?thesis using True len unfolding nxt by (simp add: get_range_def)
  next
    case False
    then have "er_names (drop (Suc i) es) = []" by simp
    then have "slice ?blk (?off + 0) (?off + (length name + pad)) = name @ replicate pad 0"
      unfolding slice_drop_shift rest by (simp add: slice_def)
    then show ?thesis using False len \<open>er_names (drop (Suc i) es) = []\<close> by (simp add: get_range_def)
  qed
qed

lemma dirents_encode:
  assumes ok: "er_block_ok es"
  shows "i + left = length es \<Longrightarrow> dirents (er_block_encode es pad) (length es) left i =
    Ok (map (\<lambda>(nid, name, t). (name, nid, t)) (filter er_listed (drop i es)))"
proof (induction left arbitrary: i)
  case (Suc left)
  then have i: "i < length es" by simp
  obtain nid name t where e: "es ! i = (nid, name, t)" by (cases "es ! i") auto
  have nm: "0 \<notin> set name" "utf8_valid name" using ok nth_mem [OF i] e by (fastforce simp: er_block_ok_def)+
  have d: "drop i es = (nid, name, t) # drop (Suc i) es" using i e by (metis Cons_nth_drop_Suc)
  let ?stop = "if i + 1 < length es then 12 * length es + length (er_names (take (i + 1) es))
      else length (er_block_encode es pad)"
  have next_off: "(if i + 1 < length es then er_le_u16 (er_block_encode es pad) ((i + 1) * 12 + 8)
      else Ok (length (er_block_encode es pad))) = Ok ?stop"
  proof (cases "i + 1 < length es")
    case True
    obtain nid' name' t' where "es ! (i + 1) = (nid', name', t')" by (cases "es ! (i + 1)") auto
    from er_dirent_fields(2) [OF ok True this] show ?thesis using True by simp
  qed simp
  have tw: "takeWhile (\<lambda>b. b \<noteq> 0) (name @ (if i + 1 < length es then [] else replicate pad 0)) = name"
  proof -
    have a: "takeWhile (\<lambda>b. b \<noteq> 0) (name @ ys) = name @ takeWhile (\<lambda>b. b \<noteq> 0) ys" for ys
      by (rule takeWhile_append2) (use nm(1) in auto)
    have "takeWhile (\<lambda>b. b \<noteq> 0) (replicate pad (0 :: byte)) = []" by (cases pad) simp_all
    then show ?thesis by (simp add: a)
  qed
  show ?case
    unfolding dirents.simps er_dirent_fields [OF ok i e] and_then.simps ok_or_simps next_off dirent_name [OF i e] Let_def tw
      from_utf8_lossy_id [OF nm(2)]
    using Suc.IH [of "Suc i"] Suc.prems by (simp add: d er_listed_def)
qed simp

lemma parse_dir_block_encode:
  assumes ok: "er_block_ok es"
  shows "parse_dir_block (er_block_encode es pad) =
    Ok (map (\<lambda>(nid, name, t). (name, nid, t)) (filter er_listed es))"
proof -
  have ne: "0 < length es" using ok by (simp add: er_block_ok_def)
  then have l: "\<not> length (er_block_encode es pad) < 12" by (cases es) (simp_all add: er_block_encode_def)
  obtain nid name t where e: "es ! 0 = (nid, name, t)" by (cases "es ! 0") auto
  have "er_le_u16 (er_block_encode es pad) 8 = Ok (12 * length es)" using er_dirent_fields(2) [OF ok ne e, of pad] by simp
  then show ?thesis using l dirents_encode [OF ok, of 0 "length es" pad] by (simp add: parse_dir_block_def)
qed

text \<open>A directory of several blocks: every block but the last fills the block size.\<close>

fun er_dir_shape :: "nat \<Rightarrow> (er_dirent list \<times> nat) list \<Rightarrow> bool" where
  "er_dir_shape bs [] = True"
| "er_dir_shape bs ((es, pad) # blks) \<longleftrightarrow>
     er_block_ok es \<and> length (er_block_encode es pad) \<le> bs \<and>
     (blks \<noteq> [] \<longrightarrow> length (er_block_encode es pad) = bs) \<and> er_dir_shape bs blks"

definition er_dir_encode :: "(er_dirent list \<times> nat) list \<Rightarrow> bytes" where
  "er_dir_encode blks = concat (map (\<lambda>(es, pad). er_block_encode es pad) blks)"

lemma dir_blocks_encode:
  assumes bs: "0 < bs"
  shows "er_dir_shape bs blks \<Longrightarrow> dir_blocks bs (pre @ er_dir_encode blks) (length pre) =
    Ok (map (\<lambda>(nid, name, t). (name, nid, t)) (filter er_listed (concat (map fst blks))))"
proof (induction blks arbitrary: pre)
  case Nil
  then show ?case by (simp add: er_dir_encode_def dir_blocks.simps)
next
  case (Cons b blks)
  obtain es pad where b: "b = (es, pad)" by fastforce
  let ?blk = "er_block_encode es pad"
  have ok: "er_block_ok es" "length ?blk \<le> bs" "blks \<noteq> [] \<Longrightarrow> length ?blk = bs" "er_dir_shape bs blks"
    using Cons.prems by (auto simp: b)
  have ne: "0 < length ?blk" using ok(1) by (cases es) (auto simp: er_block_ok_def er_block_encode_def)
  have data: "pre @ er_dir_encode (b # blks) = pre @ ?blk @ er_dir_encode blks" by (simp add: er_dir_encode_def b)
  have e: "min (length pre + bs) (length (pre @ er_dir_encode (b # blks))) = length pre + length ?blk"
  proof (cases "blks = []")
    case True
    then show ?thesis using ok(2) by (simp add: er_dir_encode_def b)
  qed (use ok(3) in \<open>simp add: er_dir_encode_def b\<close>)
  have sl: "slice (pre @ er_dir_encode (b # blks)) (length pre) (length pre + length ?blk) = ?blk"
    unfolding data by (rule slice_middle) simp
  have "dir_blocks bs ((pre @ ?blk) @ er_dir_encode blks) (length (pre @ ?blk)) =
      Ok (map (\<lambda>(nid, name, t). (name, nid, t)) (filter er_listed (concat (map fst blks))))"
    by (rule Cons.IH [OF ok(4)])
  then have rest: "dir_blocks bs (pre @ er_dir_encode (b # blks)) (length pre + length ?blk) =
      Ok (map (\<lambda>(nid, name, t). (name, nid, t)) (filter er_listed (concat (map fst blks))))" by (simp add: data)
  have lt: "length pre < length (pre @ er_dir_encode (b # blks)) \<and> 0 < bs" using ne bs by (simp add: data)
  show ?case
    unfolding dir_blocks.simps [of bs _ "length pre"] if_P [OF lt] Let_def e sl parse_dir_block_encode [OF ok(1)] and_then.simps rest
    by (simp add: b)
qed

lemma erofs_whole_stored:
  assumes base: "erofs_base s" and i: "fetch_inode s n = Ok i" and st: "stored lib s i c"
    and cap: "length c \<le> MAX_BOOT_FILE_BYTES"
  shows "erofs_whole lib s i = Ok c"
proof -
  have sz: "ei_size i = length c" using st by (simp add: stored_def)
  have full: "checked_full_read_len (length c) = Ok (length c)" using cap by (simp add: checked_full_read_len_eq_Ok)
  show ?thesis
  proof (cases "c = []")
    case True
    then show ?thesis using full by (simp add: erofs_whole_def sz inode_data_def)
  next
    case False
    then have "inode_data lib s i 0 (replicate (length c) 0) = Ok (length c, c)"
      using inode_data_stored [OF base i st, of 0 "replicate (length c) 0"] by simp
    then show ?thesis using full by (simp add: erofs_whole_def sz)
  qed
qed

end
