(* ===== verification/Erofs_Images.thy ===== *)
theory Erofs_Images
  imports Erofs_Dirs Fold_Verity
begin

text \<open>
  The properties of the EROFS reader: what it answers in use, what a verified read may surface, the
  formats it reads back (compact indexes, directories), and a small volume on which they are
  evaluated.
\<close>

section \<open>Compressed files with a compact index\<close>

text \<open>
  The clusters \<open>heads\<close> hold the content \<open>c\<close>: they follow each other from the start of the file to its
  end, and each decodes, with the content before it as its window, to its part of the content.
\<close>

definition clusters_hold :: "'r codec_lib \<Rightarrow> erofs \<Rightarrow> nat \<Rightarrow> nat \<Rightarrow> pc_head list \<Rightarrow> bytes \<Rightarrow> bool" where
  "clusters_hold lib s algo1 algo2 heads c \<longleftrightarrow>
     (\<forall>k < length heads.
        let h = heads ! k; start = hd_start h; nxt = (if Suc k < length heads then hd_start (heads ! Suc k) else length c) in
        start \<le> nxt \<and> nxt \<le> length c \<and>
        (start < nxt \<longrightarrow>
          (\<exists>span. read_span s (hd_blkaddr h) (hd_cblkcnt h) = Ok span \<and>
             decode_pcluster lib (hd_ty h) (if hd_ty h = LC_TYPE_HEAD2 then algo2 else algo1) span (nxt - start)
               (take start c) (er_lzma_dict s) (er_zero_padding s) = Ok (slice c start nxt))))"

lemma decode_heads_hold:
  assumes hold: "clusters_hold lib s algo1 algo2 heads c"
  shows "k < length heads \<Longrightarrow>
    decode_heads lib s (length c) algo1 algo2 (drop k heads) (take (hd_start (heads ! k)) c) = Ok c"
proof (induction "length heads - k" arbitrary: k)
  case (Suc m)
  let ?h = "heads ! k"
  let ?nxt = "if Suc k < length heads then hd_start (heads ! Suc k) else length c"
  have d: "drop k heads = ?h # drop (Suc k) heads" using Suc.prems by (simp add: Cons_nth_drop_Suc)
  have h: "hd_start ?h \<le> ?nxt" "?nxt \<le> length c"
    "hd_start ?h < ?nxt \<Longrightarrow> \<exists>span. read_span s (hd_blkaddr ?h) (hd_cblkcnt ?h) = Ok span \<and>
       decode_pcluster lib (hd_ty ?h) (if hd_ty ?h = LC_TYPE_HEAD2 then algo2 else algo1) span (?nxt - hd_start ?h)
         (take (hd_start ?h) c) (er_lzma_dict s) (er_zero_padding s) = Ok (slice c (hd_start ?h) ?nxt)"
    using hold Suc.prems by (simp_all add: clusters_hold_def Let_def)
  have nxt: "(case drop (Suc k) heads of [] \<Rightarrow> length c | h' # hs \<Rightarrow> hd_start h') = ?nxt"
    by (cases "Suc k < length heads") (simp_all add: Cons_nth_drop_Suc [symmetric])
  have rest: "decode_heads lib s (length c) algo1 algo2 (drop (Suc k) heads) (take ?nxt c) = Ok c"
    using Suc.hyps(1) [of "Suc k"] Suc.hyps(2) Suc.prems by (cases "Suc k < length heads") simp_all
  show ?case
  proof (cases "hd_start ?h < ?nxt")
    case True
    from h(3) [OF this] obtain span where
      "read_span s (hd_blkaddr ?h) (hd_cblkcnt ?h) = Ok span"
      "decode_pcluster lib (hd_ty ?h) (if hd_ty ?h = LC_TYPE_HEAD2 then algo2 else algo1) span (?nxt - hd_start ?h)
         (take (hd_start ?h) c) (er_lzma_dict s) (er_zero_padding s) = Ok (slice c (hd_start ?h) ?nxt)" by blast
    moreover have "take (hd_start ?h) c @ slice c (hd_start ?h) ?nxt = take ?nxt c"
      using h(1,2) slice_append [of 0 "hd_start ?h" ?nxt c] by (simp add: slice_def)
    ultimately show ?thesis
      unfolding d decode_heads.simps Let_def nxt using True rest by (simp only: and_then.simps if_False not_less) simp
  next
    case False
    then have "hd_start ?h = ?nxt" using h(1) by simp
    then show ?thesis unfolding d decode_heads.simps Let_def nxt using rest by simp
  qed
qed simp

definition no_refused_variant :: "nat \<Rightarrow> byte \<Rightarrow> bool" where
  "no_refused_variant advise clusterbits \<longleftrightarrow>
     clusterbits AND CLUSTERBITS_WHOLE_FILE_FRAGMENT = 0 \<and>
     advise AND (ADVISE_INLINE_PCLUSTER OR ADVISE_INTERLACED_PCLUSTER OR ADVISE_FRAGMENT) = 0"

lemma small_heads_start: "small_heads raw lcsize \<noteq> [] \<Longrightarrow> hd_start (small_heads raw lcsize ! 0) = 0"
proof -
  let ?f = "filter (is_head raw) [0..<length raw]"
  assume "small_heads raw lcsize \<noteq> []"
  then have ne: "?f \<noteq> []" by (simp add: small_heads_def)
  then obtain i rest where f: "?f = i # rest" by (cases ?f) simp_all
  then obtain us vs where u: "[0..<length raw] = us @ i # vs" "\<forall>u \<in> set us. \<not> is_head raw u"
    by (auto simp: filter_eq_Cons_iff)
  have "us = [0..<i]"
  proof -
    have i: "i = length us" using arg_cong [OF u(1), of "\<lambda>xs. xs ! length us"] u(1)
      by (metis add.left_neutral length_append length_upt list.size(4) minus_nat.diff_0 nth_append_length nth_upt
          less_add_Suc1 add_Suc_right)
    have "us = take (length us) [0..<length raw]" using u(1) by simp
    also have "\<dots> = [0..<length us]" using u(1) by (metis add.left_neutral append_eq_conv_conj i le_add1 length_append
          length_upt minus_nat.diff_0 take_upt)
    finally show ?thesis using i by simp
  qed
  then have "filter (is_head raw) [0..<i] = []" using u(2) by (simp add: filter_empty_conv)
  then show ?thesis by (simp add: small_heads_def f small_head_def)
qed


lemma div_ceil_2_le: "div_ceil n 2 * 8 \<le> 4 * n + 4"
  unfolding div_ceil_def by presburger

lemma compact_length_le: "compact_length (a, 16 * b, c) \<le> 4 * (a + 16 * b + c) + 8"
  using div_ceil_2_le [of a] div_ceil_2_le [of c] by (simp add: compact_length_def)

lemma length_group_entries: "length (group_entries base rid ws) = length ws"
  by (induction base rid ws rule: group_entries.induct) simp_all

lemma length_pack_entries: "\<forall>p \<in> set ps. length p = 16 \<Longrightarrow> length (pack_entries base rid ps) = 16 * length ps"
  by (induction base rid ps rule: pack_entries.induct) simp_all

lemma length_compact_entries:
  "\<forall>p \<in> set ps. length p = 16 \<Longrightarrow>
     length (compact_entries base g1 ps g2) = length g1 + 16 * length ps + length g2"
  by (simp add: compact_entries_def Let_def length_group_entries length_pack_entries)

lemma half_entry_bounds: "re_base (half_entry w r b) = b" "re_value (half_entry w r b) < 2 ^ 12"
  using nat_and_mask [of w 12] by (simp_all add: half_entry_def)

lemma compact_entries_bounds:
  "e \<in> set (compact_entries base g1 ps g2) \<Longrightarrow> (\<exists>r. re_base e = base r) \<and> re_value e < 2 ^ 12"
proof -
  have "e \<in> set (group_entries base r ws) \<Longrightarrow> \<exists>w r. e = half_entry w r (base r)" for ws r
    by (induction base r ws rule: group_entries.induct) auto
  moreover have "e \<in> set (pack_entries base r ps) \<Longrightarrow> \<exists>w r. e = half_entry w r (base r)" for ps r
    by (induction base r ps rule: pack_entries.induct) auto
  moreover assume "e \<in> set (compact_entries base g1 ps g2)"
  ultimately have "\<exists>w r. e = half_entry w r (base r)" by (auto simp: compact_entries_def Let_def)
  then show ?thesis using half_entry_bounds by auto
qed

text \<open>
  A compact index as it is written: its word lists and bases in the shape the base address and the
  number of clusters ask for.
\<close>

definition compact_shape :: "nat \<Rightarrow> nat \<Rightarrow> (nat \<Rightarrow> nat) \<Rightarrow> nat list \<Rightarrow> nat list list \<Rightarrow> nat list \<Rightarrow> bool" where
  "compact_shape ebase n_lc base g1 ps g2 \<longleftrightarrow>
     compact_zones ebase n_lc = (length g1, 16 * length ps, length g2) \<and> (\<forall>r. base r + n_lc < 2 ^ 32) \<and>
     (\<forall>w \<in> set g1 \<union> set g2 \<union> \<Union> (set (map set ps)). w < 2 ^ 14) \<and> (\<forall>p \<in> set ps. length p = 16)"

lemma compact_zones_total: "compact_zones e n = (a, b, c) \<Longrightarrow> a + b + c = n"
proof -
  have "(n - m) div 16 * 16 \<le> n - m" for m by simp
  moreover assume "compact_zones e n = (a, b, c)"
  ultimately show ?thesis
    unfolding compact_zones_def Let_def prod.inject by (metis le_add_diff_inverse min.cobounded2 add.assoc)
qed

lemma build_heads_compact_shape:
  assumes src: "sound_source (er_src s)" and shape: "compact_shape ebase n_lc base g1 ps g2"
    and rec: "recorded (er_src s) ebase (compact_encode base g1 ps g2)"
    and n: "n_lc \<le> 2 ^ 24" and bits: "lcbits \<le> 12" and small: "advise AND ADVISE_BIG_PCLUSTER = 0"
  shows "build_heads_compact s ebase (2 ^ lcbits) n_lc advise = Ok (small_heads (compact_entries base g1 ps g2) (2 ^ lcbits))"
proof -
  let ?z = "(length g1, 16 * length ps, length g2)"
  have z: "compact_zones ebase n_lc = ?z" and b: "\<And>r. base r + n_lc < 2 ^ 32" and p16: "\<forall>p \<in> set ps. length p = 16"
    and w: "\<forall>w \<in> set g1. w < 2 ^ 14" "\<forall>w \<in> set g2. w < 2 ^ 14" "\<forall>p \<in> set ps. length p = 16 \<and> (\<forall>w \<in> set p. w < 2 ^ 14)"
    using shape by (auto simp: compact_shape_def)
  have b32: "base r < 2 ^ 32" for r using b [of r] by simp
  note u = unpack_compact_encode [OF b32 w(1,2,3)]
  have total: "length g1 + 16 * length ps + length g2 = n_lc" by (rule compact_zones_total [OF z])
  have cap: "compact_length ?z \<le> MAX_BOOT_FILE_BYTES"
    using compact_length_le [of "length g1" "length ps" "length g2"] total n by (simp add: MAX_BOOT_FILE_BYTES_def)
  have "(2 :: nat) ^ lcbits \<le> 2 ^ 12" using bits by (rule power_increasing) simp
  then have "n_lc * 2 ^ lcbits \<le> 2 ^ 24 * 2 ^ 12" using n by (intro mult_le_mono)
  then have big: "length (compact_entries base g1 ps g2) * 2 ^ lcbits + 2 ^ 12 \<le> 2 ^ 64"
    by (simp add: length_compact_entries [OF p16] total)
  have e: "\<forall>e \<in> set (compact_entries base g1 ps g2).
      re_base e + length (compact_entries base g1 ps g2) < 2 ^ 32 \<and> re_value e < 2 ^ 12"
    using compact_entries_bounds b by (fastforce simp: length_compact_entries [OF p16] total)
  have rd: "src_read (er_src s) ebase (compact_length ?z) = Ok (compact_encode base g1 ps g2)"
    using rec u(2) by (simp add: recorded_def)
  have full: "checked_full_read_len (compact_length ?z) = Ok (compact_length ?z)"
    using cap by (simp add: checked_full_read_len_eq_Ok)
  show ?thesis
    unfolding build_heads_compact_def Let_def z full and_then.simps rd u(1) resolve_compact_small [OF e big small] ..
qed


lemma lcluster_count_le:
  assumes "n \<le> MAX_BOOT_FILE_BYTES" and "9 \<le> bits"
  shows "div_ceil n (2 ^ bits) \<le> 2 ^ 24"
proof -
  have "(2 :: nat) ^ 9 \<le> 2 ^ bits" using assms(2) by (rule power_increasing) simp
  then have "n div 2 ^ bits \<le> n div 2 ^ 9" by (rule div_le_mono2 [rotated]) simp
  then have "div_ceil n (2 ^ bits) \<le> n div 2 ^ 9 + 1" by (auto simp: div_ceil_def)
  also have "\<dots> \<le> 2 ^ 24" using assms(1) by (simp add: MAX_BOOT_FILE_BYTES_def)
  finally show ?thesis .
qed

text \<open>The map header, the index behind it and the clusters, decoded to the content.\<close>

lemma compact_data_decodes:
  assumes b: "erofs_base v" and src: "sound_source (er_src v)" and fi: "ei_inline_off i < 2 ^ 63 + 2 ^ 19"
    and i: "ei_layout i = COMPRESSED_COMPACT" "ei_size i = length c" "length c \<le> MAX_BOOT_FILE_BYTES"
    and m: "mh = (ei_inline_off i + 7) div 8 * 8"
    and hdr: "recorded (er_src v) mh (reserved @ to_le 2 advise @ [algos, clusterbits])" "length reserved = 4" "advise < 2 ^ 16"
    and adv: "no_refused_variant advise clusterbits" "advise AND ADVISE_COMPACTED_2B \<noteq> 0" "advise AND ADVISE_BIG_PCLUSTER = 0"
    and lc: "lcbits = er_blkszbits v + unat (clusterbits AND 0x0F)" "lcbits \<le> 12"
    and shape: "compact_shape (mh + 8) (div_ceil (length c) (2 ^ lcbits)) base g1 ps g2"
    and idx: "recorded (er_src v) (mh + 8) (compact_encode base g1 ps g2)"
    and h: "heads = small_heads (compact_entries base g1 ps g2) (2 ^ lcbits)" "heads \<noteq> []"
    and hold: "clusters_hold lib v (unat (algos AND 0x0F)) (unat (drop_bit 4 algos AND 0x0F)) heads c"
  shows "decode_inode_data lib v i = Ok c"
proof -
  let ?hdr = "reserved @ to_le 2 advise @ [algos, clusterbits]"
  have mh: "map_header_at (ei_inline_off i) = Ok mh" using fi m by (simp add: map_header_at_def uadd_def)
  have cap: "checked_full_read_len (length c) = Ok (length c)" using i(3) by (simp add: checked_full_read_len_eq_Ok)
  have rd: "src_read (er_src v) mh 8 = Ok ?hdr" using hdr(1,2) by (simp add: recorded_def)
  have "from_le (slice ?hdr 4 6) = from_le (to_le 2 advise)" using hdr(2) by (simp add: slice_def del: to_le.simps)
  moreover have "from_le (to_le 2 advise) = advise" by (rule from_le_to_le) (use hdr(3) in simp)
  ultimately have a: "from_le (slice ?hdr 4 6) = advise" by simp
  have al: "?hdr ! 6 = algos" "?hdr ! 7 = clusterbits" using hdr(2) by (simp_all add: nth_append del: to_le.simps)
  have mh63: "mh + 8 < 2 ^ 63" using recorded_bound [OF src hdr(1)] hdr(2) by simp
  have nlc: "div_ceil (length c) (2 ^ lcbits) \<le> 2 ^ 24"
    by (rule lcluster_count_le [OF i(3)]) (use b lc(1) in \<open>simp add: erofs_base_def\<close>)
  have "build_heads_compact v (mh + 8) (2 ^ lcbits) (div_ceil (length c) (2 ^ lcbits)) advise = Ok heads"
    unfolding h(1) by (rule build_heads_compact_shape [OF src shape idx nlc lc(2) adv(3)])
  then have ch: "cluster_heads v i mh lcbits advise = Ok heads"
    using i(1,2) adv(2) lc(2) mh63
    by (simp add: cluster_heads_def Let_def COMPRESSED_FULL_def COMPRESSED_COMPACT_def COMPACT_LOBITS_def uadd_def)
  have "hd_start (heads ! 0) = 0" unfolding h(1) by (rule small_heads_start) (use h in simp)
  then have dh: "decode_heads lib v (length c) (unat (algos AND 0x0F)) (unat (drop_bit 4 algos AND 0x0F)) heads [] = Ok c"
    using decode_heads_hold [OF hold, of 0] h(2) by simp
  show ?thesis
    unfolding decode_inode_data_def mh i(2) cap rd and_then.simps Let_def a al lc(1) [symmetric] ch dh
    using adv(1) lc(2) cap by (simp add: no_refused_variant_def)
qed

lemma verify_oversized:
  assumes "digest_fn sha" and "6 \<le> block_log" and "block_log < 64" and "merkle_over sha c block_log salt = Some (Ok mv)"
    and "b mod 2 ^ block_log = 0" and "b < length c" and "2 ^ block_log < length blk"
  shows "verify_block sha mv n b blk = Panic SubOverflow"
proof -
  have mv: "mv_block_size mv = 2 ^ block_log" "length (mv_leaves mv) = leaf_count c (2 ^ block_log)"
    using merkle_over_returns [OF assms(1-3), of c salt] assms(4) by auto
  have "b < leaf_count c (2 ^ block_log) * 2 ^ block_log"
    using div_ceil_mult_ge [of "2 ^ block_log" "length c"] assms(6) by (simp add: leaf_count_def)
  then have "b div 2 ^ block_log < leaf_count c (2 ^ block_log)" by (simp add: less_mult_imp_div_less)
  with mv assms(5,7) show ?thesis by (simp add: verify_block_def get_at_def hash_block_eq)
qed

section \<open>Properties\<close>

text \<open>
  C6. Reading a file at any offset, in any use of the mounted volume, gives exactly the bytes of its
  stored content from there on, for flat, inlined, chunked and compressed files alike, whenever the
  verifier accepts the blocks of that content; the rest of the buffer is left alone.
\<close>

theorem erofs_read_exact:
  assumes "sound_source src" and "erofs_open src = Ok v" and "frontend_run (erofs_frontend lib) v s"
    and "fetch_inode v n = Ok i" and "ei_kind i \<noteq> Directory" and "stored lib v i c"
    and "blocks_accepted (cx_verifier cx) (er_block_size v) n c"
    and "off < length c" and "length buf < 2 ^ 63"
  shows "fst (erofs_read_at lib cx n off buf s) =
    Ok (min (off + length buf) (length c) - off, overwrite buf 0 (slice c off (min (off + length buf) (length c))))"
proof -
  have ok: "erofs_ok lib v" by (rule conjunct1 [OF erofs_open_ok(2) [OF assms(1,2)]])
  note g = erofs_growsD(1,2) [OF erofs_run_grows [OF assms(3) ok]]
  have c: "erofs_content lib (cx_verifier cx) v n c" using assms(4-7) by (auto simp: erofs_content_def)
  have "erofs_base v" using erofs_ok_base [OF ok] by simp
  from erofs_read_content [OF this c assms(8,9)] answers_read [OF g, of cx n off buf]
  show ?thesis by (auto simp: answers_def)
qed

text \<open>
  C25. The caches are transparent: in any use of a mounted volume, every method answers exactly as it
  would on the volume as it was mounted.
\<close>

theorem erofs_caches_transparent:
  assumes "sound_source src" and "erofs_open src = Ok v" and "frontend_run (erofs_frontend lib) v s"
  shows "fst (erofs_lookup lib d nm s) = fst (erofs_lookup lib d nm v) \<and>
    fst (erofs_read_dir lib d s) = fst (erofs_read_dir lib d v) \<and>
    fst (erofs_metadata n s) = fst (erofs_metadata n v) \<and>
    fst (erofs_read_at lib cx n off buf s) = fst (erofs_read_at lib cx n off buf v) \<and>
    fst (erofs_read_link lib n s) = fst (erofs_read_link lib n v)"
proof -
  have ok: "erofs_ok lib v" by (rule conjunct1 [OF erofs_open_ok(2) [OF assms(1,2)]])
  note g = erofs_growsD(1,2) [OF erofs_run_grows [OF assms(3) ok]]
  have same: "fst (m s) = fst (m v)" if "answers lib s m r" "answers lib v m r" for m and r :: "'x result"
    using that by (auto simp: answers_def)
  show ?thesis
    using same [OF answers_found [OF g] answers_found [OF ok refl]] same [OF answers_entries [OF g] answers_entries [OF ok refl]]
      same [OF answers_stat [OF g] answers_stat [OF ok refl]] same [OF answers_read [OF g] answers_read [OF ok refl]]
      same [OF answers_target [OF g] answers_target [OF ok refl]] by blast
qed

text \<open>
  A forged block: \<open>blk\<close> differs from the genuine block \<open>idx\<close> of \<open>c\<close>, both padded to a whole block, and the
  hash of the two, behind the salt, is the same.
\<close>

definition forged :: "hash_fn \<Rightarrow> bytes \<Rightarrow> nat \<Rightarrow> bytes \<Rightarrow> nat \<Rightarrow> bytes \<Rightarrow> bool" where
  "forged sha salt bs c idx blk \<longleftrightarrow>
     padded_salt salt @ pad_block bs blk \<noteq> padded_salt salt @ pad_block bs (chunk c bs idx) \<and>
     sha (padded_salt salt @ pad_block bs blk) = sha (padded_salt salt @ pad_block bs (chunk c bs idx))"

lemma pad_block_nth: "j < length blk \<Longrightarrow> pad_block bs blk ! j = blk ! j"
  by (simp add: pad_block_def nth_append)

lemma pad_chunk_nth:
  assumes "idx * bs < length c" and "j < bs"
  shows "pad_block bs (chunk c bs idx) ! j = (c @ replicate bs 0) ! (idx * bs + j)"
proof (cases "idx * bs + j < length c")
  case True
  then have "j < length (chunk c bs idx)" using assms(2) by (simp add: chunk_def slice_def)
  then show ?thesis using True assms by (simp add: pad_block_nth) (simp add: chunk_def slice_def nth_append)
next
  case False
  then have m: "min (idx * bs + bs) (length c) = length c" using assms(2) by linarith
  have l: "length (chunk c bs idx) = length c - idx * bs" unfolding chunk_def m by (simp add: slice_def)
  then have "\<not> j < length (chunk c bs idx)" "j - length (chunk c bs idx) < bs - length (chunk c bs idx)"
    "idx * bs + j - length c < bs" using False assms by linarith+
  then show ?thesis using False by (simp add: pad_block_def nth_append)
qed

lemma surfaced_genuine:
  assumes src: "sound_source (er_src v)" and bs: "0 < er_block_size v" and sf: "surfaced lib vf v n i pos x"
    and vf: "\<And>off blk. vf n off blk = Ok () \<Longrightarrow>
      off mod er_block_size v = 0 \<and> off < length c \<and> length blk \<le> er_block_size v \<and>
      block_digest sha (padded_salt salt) (er_block_size v) blk =
      block_digest sha (padded_salt salt) (er_block_size v) (chunk c (er_block_size v) (off div er_block_size v))"
  shows "\<exists>blk. medium_block lib v i (pos div er_block_size v) = Ok blk \<and> pos mod er_block_size v < length blk \<and>
    x = blk ! (pos mod er_block_size v) \<and>
    (x = (c @ replicate (er_block_size v) 0) ! pos \<or> forged sha salt (er_block_size v) c (pos div er_block_size v) blk)"
proof -
  let ?bs = "er_block_size v"
  let ?idx = "pos div ?bs" and ?b = "pos div ?bs * ?bs"
  have pos: "pos - ?b = pos mod ?bs" "?b + pos mod ?bs = pos" by (simp_all add: minus_div_mult_eq_mod)
  obtain blk b0 k where s: "vf n ?b blk = Ok ()" "inode_data lib v i ?b b0 = Ok (k, blk)"
    "length blk = min ?bs (ei_size i - ?b)" "pos mod ?bs < length blk" "x = blk ! (pos mod ?bs)"
    using sf pos(1) by (auto simp: surfaced_def Let_def)
  have m: "medium_block lib v i ?idx = Ok blk"
    by (rule inode_data_medium_block [OF src s(2,3)]) (use s(4) in auto)
  have v: "?b < length c"
    "block_digest sha (padded_salt salt) ?bs blk = block_digest sha (padded_salt salt) ?bs (chunk c ?bs ?idx)"
    using vf [OF s(1)] bs by simp_all
  have "x = (c @ replicate ?bs 0) ! pos" if "\<not> forged sha salt ?bs c ?idx blk"
  proof -
    have "pad_block ?bs blk = pad_block ?bs (chunk c ?bs ?idx)"
      using that v(2) by (simp add: forged_def block_digest_def)
    then have "x = pad_block ?bs (chunk c ?bs ?idx) ! (pos mod ?bs)" using s(4,5) pad_block_nth by metis
    then show ?thesis using pad_chunk_nth [OF v(1), of "pos mod ?bs"] bs pos(2) by simp
  qed
  with m s(4,5) show ?thesis by blast
qed

text \<open>
  C7. Whatever the medium holds, a read under the Merkle verifier over trusted content, with the
  volume's block size, surfaces only bytes of blocks that the medium gives at their place, and each of
  them is the byte of the trusted content there (zeros, where its last block is padded), unless that
  very block of the medium is forged: it differs from the genuine block and, behind the salt, has the
  same hash, a collision of the hash function.
\<close>

theorem erofs_verified_read_genuine:
  assumes "sound_source src" and "erofs_open src = Ok v" and "frontend_run (erofs_frontend lib) v s"
    and "digest_fn sha" and "merkle_over sha c block_log salt = Some (Ok mv)" and "er_block_size v = 2 ^ block_log"
    and "fst (erofs_read_at lib (cx\<lparr>cx_verifier := verify_block sha mv\<rparr>) n off buf s) = Ok (k, buf')" and "j < k"
  shows "\<exists>i blk. fetch_inode v n = Ok i \<and> medium_block lib v i ((off + j) div 2 ^ block_log) = Ok blk \<and>
    (off + j) mod 2 ^ block_log < length blk \<and> buf' ! j = blk ! ((off + j) mod 2 ^ block_log) \<and>
    (buf' ! j = (c @ replicate (2 ^ block_log) 0) ! (off + j) \<or>
     forged sha salt (2 ^ block_log) c ((off + j) div 2 ^ block_log) blk)"
proof -
  have ok: "erofs_ok lib v" by (rule conjunct1 [OF erofs_open_ok(2) [OF assms(1,2)]])
  then have base: "erofs_base v" and src: "sound_source (er_src v)" and bs: "0 < er_block_size v"
    using erofs_ok_base by blast+
  note g = erofs_growsD(1,2) [OF erofs_run_grows [OF assms(3) ok]]
  have r: "erofs_read lib (verify_block sha mv) v n off buf = Ok (k, buf')"
    using answers_read [OF g, of "cx\<lparr>cx_verifier := verify_block sha mv\<rparr>" n off buf] assms(7) by (auto simp: answers_def)
  obtain i where i: "fetch_inode v n = Ok i" "surfaced lib (verify_block sha mv) v n i (off + j) (buf' ! j)"
    using erofs_read_ok [OF base r] assms(8) by blast
  have "(2 :: nat) ^ block_log = 2 ^ er_blkszbits v" using base assms(6) by (simp add: erofs_base_def)
  then have "block_log = er_blkszbits v" by simp
  then have log: "6 \<le> block_log" "block_log < 64" using base by (simp_all add: erofs_base_def)
  have vf: "off mod er_block_size v = 0 \<and> off < length c \<and> length blk \<le> er_block_size v \<and>
      block_digest sha (padded_salt salt) (er_block_size v) blk =
      block_digest sha (padded_salt salt) (er_block_size v) (chunk c (er_block_size v) (off div er_block_size v))"
    if "verify_block sha mv n off blk = Ok ()" for off blk
    using merkle_over_returns [OF assms(4) log, of c salt] assms(5,6) that
    by (auto simp: verify_block_eq_Ok [where data = c and bs = "2 ^ block_log"])
  show ?thesis using surfaced_genuine [OF src bs i(2) vf] i(1) unfolding assms(6) by blast
qed


text \<open>
  C24. A directory of one or more recorded dirent blocks is listed entry by entry, in order, without
  its \<^verbatim>\<open>.\<close> and \<^verbatim>\<open>..\<close>, with the recorded inode numbers as handles and the kinds of the dirents, in any
  use of the mounted volume.
\<close>

theorem erofs_directory_roundtrip:
  assumes "sound_source src" and "erofs_open src = Ok v" and "frontend_run (erofs_frontend lib) v s"
    and "fetch_inode v d = Ok i" and "ei_kind i = Directory" and "er_dir_shape (er_block_size v) blks"
    and "stored lib v i (er_dir_encode blks)" and "length (er_dir_encode blks) \<le> MAX_BOOT_FILE_BYTES"
  shows "fst (erofs_read_dir lib d s) =
    Ok (map (\<lambda>(nid, name, t). \<lparr>de_name = name, de_node = nid, de_kind = ft_kind t\<rparr>)
          (filter er_listed (concat (map fst blks))))"
proof -
  have ok: "erofs_ok lib v" by (rule conjunct1 [OF erofs_open_ok(2) [OF assms(1,2)]])
  then have base: "erofs_base v" and bs: "0 < er_block_size v" using erofs_ok_base by blast+
  note g = erofs_growsD(1,2) [OF erofs_run_grows [OF assms(3) ok]]
  have "dir_blocks (er_block_size v) (er_dir_encode blks) 0 =
      Ok (map (\<lambda>(nid, name, t). (name, nid, t)) (filter er_listed (concat (map fst blks))))"
    using dir_blocks_encode [OF bs assms(6), of "[]"] by simp
  then have "erofs_entries lib v d =
      Ok (map (\<lambda>(nid, name, t). \<lparr>de_name = name, de_node = nid, de_kind = ft_kind t\<rparr>)
            (filter er_listed (concat (map fst blks))))"
    using assms(4,5) erofs_whole_stored [OF base assms(4,7,8)] by (simp add: erofs_entries_def comp_def split_beta)
  then show ?thesis using answers_entries [OF g, of d] by (auto simp: answers_def)
qed

text \<open>
  C23. A file compressed with a compact index, without big clusters, is read exactly: its words and
  bases recorded behind the inode in the three zones that the place of the index asks for, and its
  clusters where the bases say, a cluster's block being its region's base plus one plus the heads
  before it in the region.
\<close>

theorem erofs_compact_file_roundtrip:
  assumes "sound_source src" and "erofs_open src = Ok v"
    and "fetch_inode v n = Ok i" and "ei_kind i \<noteq> Directory" and "ei_layout i = COMPRESSED_COMPACT"
    and "ei_size i = length c" and "length c \<le> MAX_BOOT_FILE_BYTES" and "mh = (ei_inline_off i + 7) div 8 * 8"
    and "recorded src mh (reserved @ to_le 2 advise @ [algos, clusterbits])" and "length reserved = 4" and "advise < 2 ^ 16"
    and "no_refused_variant advise clusterbits" and "advise AND ADVISE_COMPACTED_2B \<noteq> 0" and "advise AND ADVISE_BIG_PCLUSTER = 0"
    and "lcbits = er_blkszbits v + unat (clusterbits AND 0x0F)" and "lcbits \<le> 12"
    and "compact_shape (mh + 8) (div_ceil (length c) (2 ^ lcbits)) base g1 ps g2"
    and "recorded src (mh + 8) (compact_encode base g1 ps g2)"
    and "heads = small_heads (compact_entries base g1 ps g2) (2 ^ lcbits)" and "heads \<noteq> []"
    and "clusters_hold lib v (unat (algos AND 0x0F)) (unat (drop_bit 4 algos AND 0x0F)) heads c"
    and "off < length c" and "length buf < 2 ^ 63"
  shows "fst (erofs_read_at lib null_cx n off buf v) =
    Ok (min (off + length buf) (length c) - off, overwrite buf 0 (slice c off (min (off + length buf) (length c))))"
proof -
  have ok: "erofs_ok lib v" and vs: "er_src v = src" using erofs_open_ok(2) [OF assms(1,2), of lib] by simp_all
  then have b: "erofs_base v" using erofs_ok_base by blast
  have "ei_inline_off i < 2 ^ 63 + 2 ^ 19" using fetch_inode_ok(2) [OF b assms(3)] by simp
  from compact_data_decodes [OF b assms(1) [folded vs] this assms(5-8) assms(9) [folded vs] assms(10-17) assms(18) [folded vs] assms(19-21)]
  have "decode_inode_data lib v i = Ok c" .
  then have "stored lib v i c" using assms(5-7) by (simp add: stored_def compressed_layout_def MAX_BOOT_FILE_BYTES_def)
  moreover have "blocks_accepted (cx_verifier null_cx) (er_block_size v) n c"
    by (simp add: blocks_accepted_def null_cx_def no_verifier_def)
  ultimately have "erofs_content lib (cx_verifier null_cx) v n c" using assms(3,4) by (auto simp: erofs_content_def)
  from erofs_read_content [OF b this assms(22,23)] answers_read [OF ok refl, of null_cx n off buf]
  show ?thesis by (auto simp: answers_def)
qed

text \<open>
  C40. The block size is the medium's word, and the Merkle verifier does not expect a block longer
  than its own: when a volume claims larger blocks than the tree has, a read that reaches a block
  longer than the tree's panics instead of being refused.
\<close>

theorem erofs_oversized_block_panics:
  assumes "sound_source src" and "erofs_open src = Ok v" and "digest_fn sha"
    and "6 \<le> block_log" and "block_log < er_blkszbits v" and "merkle_over sha c block_log salt = Some (Ok mv)"
    and "fetch_inode v n = Ok i" and "ei_kind i \<noteq> Directory" and "stored lib v i d"
    and "off < length d" and "off < length c" and "buf \<noteq> []" and "length buf < 2 ^ 63"
    and "off div er_block_size v * er_block_size v + 2 ^ block_log < length d"
  shows "fst (erofs_read_at lib (cx\<lparr>cx_verifier := verify_block sha mv\<rparr>) n off buf v) = Panic SubOverflow"
proof -
  have ok: "erofs_ok lib v" by (rule conjunct1 [OF erofs_open_ok(2) [OF assms(1,2)]])
  then have base: "erofs_base v" and bs: "0 < er_block_size v" using erofs_ok_base by blast+
  let ?bs = "er_block_size v" and ?vf = "verify_block sha mv"
  let ?b = "off div ?bs * ?bs" and ?stop = "min (off + length buf) (length d)"
  have sz: "ei_size i = length d" "length d < 2 ^ 63" using assms(9) by (simp_all add: stored_def)
  have pow: "?bs = 2 ^ block_log * 2 ^ (er_blkszbits v - block_log)" and "block_log < 64"
    using base assms(5) by (simp_all add: erofs_base_def flip: power_add)
  have "2 ^ block_log < ?bs" using base assms(5) by (simp add: erofs_base_def)
  have bo: "?b \<le> off" by simp
  let ?len = "min ?bs (length d - ?b)"
  have len: "2 ^ block_log < ?len" using \<open>2 ^ block_log < ?bs\<close> assms(14) by simp
  let ?buf0 = "take ?len (replicate ?bs 0)"
  have l0: "length ?buf0 = ?len" by simp
  have "0 < ?len" using len by linarith
  then have ne: "?buf0 \<noteq> []" using l0 by (metis length_greater_0_conv)
  have bd: "?b < length d" using bo assms(10) by linarith
  have "?b + length ?buf0 \<le> length d" unfolding l0 using bd by linarith
  from inode_data_stored [OF base assms(7,9) bd this ne] obtain blk where
    data: "inode_data lib v i ?b ?buf0 = Ok (?len, blk)" "length blk = ?len"
    using inode_data_ok(2) [of v lib i ?b ?buf0] base l0 by (auto simp: erofs_base_def)
  have "?b mod 2 ^ block_log = 0" unfolding pow by (simp add: mult.assoc mult.left_commute)
  moreover have "?b < length c" using bo assms(11) by linarith
  moreover have "2 ^ block_log < length blk" using len data(2) by linarith
  ultimately have panic: "?vf n ?b blk = Panic SubOverflow"
    by (intro verify_oversized [OF assms(3,4) \<open>block_log < 64\<close> assms(6)])
  have "0 < length buf" using assms(12) by simp
  then have "?b < ?stop" using bo bd by linarith
  then have "verified_read lib ?vf v n i off ?stop ?b (replicate ?bs 0) buf 0 = Panic SubOverflow"
    unfolding verified_read.simps [of lib ?vf v n i off ?stop ?b] sz(1) data(1) using bs panic by (simp del: min_less_iff_conj)
  then have "erofs_read lib ?vf v n off buf = Panic SubOverflow"
    using assms(7,8,10,13) sz by (simp add: erofs_read_def uadd_def)
  then show ?thesis
    using answers_read [OF ok refl, of "cx\<lparr>cx_verifier := verify_block sha mv\<rparr>" n off buf] by (auto simp: answers_def)
qed


section \<open>A small volume\<close>

text \<open>
  Blocks of 512 bytes: a root with two files, one inlined behind its inode and one compressed with a
  compact index of a single stored cluster.
\<close>

definition er_inode_encode :: "nat \<Rightarrow> nat \<Rightarrow> nat \<Rightarrow> nat \<Rightarrow> bytes" where
  "er_inode_encode layout mode sz raw =
     to_le 2 (2 * layout) @ to_le 2 0 @ to_le 2 mode @ to_le 2 1 @ to_le 4 sz @ replicate 4 0 @ to_le 4 raw @ replicate 12 0"

lemma length_er_inode_encode [simp]: "length (er_inode_encode layout mode sz raw) = 32"
  by (simp add: er_inode_encode_def)

lemma er_inode_encode_fields:
  assumes "layout < 8" and "mode < 2 ^ 16" and "sz < 2 ^ 32" and "raw < 2 ^ 32"
  shows "er_le_u16 (er_inode_encode layout mode sz raw @ ys) 0 = Ok (2 * layout)"
    and "er_le_u16 (er_inode_encode layout mode sz raw @ ys) 2 = Ok 0"
    and "er_le_u16 (er_inode_encode layout mode sz raw @ ys) 4 = Ok mode"
    and "er_le_u32 (er_inode_encode layout mode sz raw @ ys) 8 = Ok sz"
    and "er_le_u32 (er_inode_encode layout mode sz raw @ ys) 16 = Ok raw"
  unfolding er_le_u16_def er_le_u32_def er_inode_encode_def
  using assms by (auto intro!: le_field_at le_field_at_0 simp: slice_def simp del: to_le.simps)

lemma fetch_inode_encode:
  assumes src: "sound_source (er_src s)" and h: "layout < 8" "mode < 2 ^ 16" "sz < 2 ^ 32" "raw < 2 ^ 32"
    and rec: "recorded (er_src s) (er_meta_off s + nid * 32) (er_inode_encode layout mode sz raw)"
  shows "fetch_inode s nid = Ok \<lparr>ei_kind = erofs_kind mode, ei_size = sz, ei_mode = mode, ei_layout = layout,
    ei_raw_blkaddr = raw, ei_inline_off = er_meta_off s + nid * 32 + 32\<rparr>"
proof -
  let ?at = "er_meta_off s + nid * 32"
  have b: "?at + 32 < 2 ^ 63" using recorded_bound [OF src rec] by simp
  have rd: "src_read (er_src s) ?at 32 = Ok (er_inode_encode layout mode sz raw)" using rec by (simp add: recorded_def)
  have lay: "drop_bit 1 (2 * layout) AND 7 = layout" using h(1) nat_and_mask [of layout 3] by (simp add: drop_bit_eq_div)
  have ext: "\<not> ((2 * layout) AND 1 \<noteq> 0)" by (simp add: and_one_eq)
  show ?thesis
    unfolding fetch_inode_def Let_def
    using b rd lay ext er_inode_encode_fields [OF h]
    by (simp add: checked_mul_def checked_add_def uadd_def)
qed

lemma recorded_middle:
  "length pre = at \<Longrightarrow> length (pre @ bs @ post) < 2 ^ 63 \<Longrightarrow> recorded (slice_source (pre @ bs @ post)) at bs"
  by (simp add: recorded_def slice_read_at_eq_Ok slice_def)

definition small_er_sb :: bytes where
  "small_er_sb = [0xE2, 0xE1, 0xF5, 0xE0] @ replicate 8 0 @ [9, 0, 0, 0] @ replicate 24 0 @ [3, 0, 0, 0] @ replicate 84 0"

definition small_er_dir :: "er_dirent list" where
  "small_er_dir = [(2, [0x61], 1), (7, [0x62], 1)]"

definition small_er_image :: bytes where
  "small_er_image = replicate 1024 0 @ small_er_sb @ replicate 384 0 @
     er_inode_encode FLAT_INLINE 0x41ED 26 0 @ er_block_encode small_er_dir 0 @ replicate 6 0 @
     er_inode_encode FLAT_INLINE 0x81A4 100 0 @ replicate 100 7 @ replicate 28 0 @
     er_inode_encode COMPRESSED_COMPACT 0x81A4 3 0 @ [0, 0, 0, 0, 1, 0, 0, 0] @ [0, 0, 0, 0, 3, 0, 0, 0] @
     replicate 240 0 @ [4, 5, 6]"

definition small_er_root :: erofs_inode where
  "small_er_root = \<lparr>ei_kind = Directory, ei_size = 26, ei_mode = 0x41ED, ei_layout = FLAT_INLINE, ei_raw_blkaddr = 0,
     ei_inline_off = 1568\<rparr>"

definition small_er :: erofs where
  "small_er = \<lparr>er_src = slice_source small_er_image, er_block_size = 512, er_blkszbits = 9, er_zero_padding = False,
     er_meta_off = 1536, er_root_nid = 0, er_inodes = [(0, small_er_root)], er_decoded = [], er_lzma_dict = None,
     er_cfgs_off = 1152\<rparr>"

lemma small_er_lengths: "length small_er_sb = 128" "length (er_block_encode small_er_dir 0) = 26" "length small_er_image = 2051"
  by (simp_all add: small_er_sb_def er_block_encode_def small_er_dir_def small_er_image_def)

lemma small_er_source: "sound_source (slice_source small_er_image)"
  by (rule sound_slice_source) (simp add: small_er_lengths)

lemma small_er_recorded:
  "recorded (slice_source small_er_image) 1024 small_er_sb"
  "recorded (slice_source small_er_image) 1536 (er_inode_encode FLAT_INLINE 0x41ED 26 0)"
  "recorded (slice_source small_er_image) 1568 (er_block_encode small_er_dir 0)"
  "recorded (slice_source small_er_image) 1600 (er_inode_encode FLAT_INLINE 0x81A4 100 0)"
  "recorded (slice_source small_er_image) 1632 (replicate 100 7)"
  "recorded (slice_source small_er_image) 1760 (er_inode_encode COMPRESSED_COMPACT 0x81A4 3 0)"
  "recorded (slice_source small_er_image) 1792 [0, 0, 0, 0, 1, 0, 0, 0]"
  "recorded (slice_source small_er_image) 1800 [0, 0, 0, 0, 3, 0, 0, 0]"
  "recorded (slice_source small_er_image) 2048 [4, 5, 6]"
  by (simp_all add: recorded_def slice_read_at_eq_Ok small_er_lengths)
    (simp_all add: small_er_image_def slice_def small_er_lengths)

lemma from_le_zeros [simp]: "from_le (replicate k 0) = 0"
  by (induction k) simp_all

lemma small_er_super:
  "erofs_super (slice_source small_er_image) = Ok (small_er\<lparr>er_inodes := []\<rparr>)"
proof -
  have rd: "slice_read_at small_er_image SUPER_OFFSET 128 = Ok small_er_sb"
    using small_er_recorded(1) by (simp add: recorded_def small_er_lengths SUPER_OFFSET_def)
  have f: "er_le_u32 small_er_sb 0 = Ok EROFS_MAGIC" "er_le_u32 small_er_sb SB_FEATURE_INCOMPAT = Ok 0"
    "er_le_u16 small_er_sb SB_EXTRA_DEVICES = Ok 0" "er_le_u64 small_er_sb SB_PACKED_NID = Ok 0"
    "er_le_u16 small_er_sb 14 = Ok 0" "er_le_u32 small_er_sb 40 = Ok 3" "small_er_sb ! 12 = 9" "small_er_sb ! SB_EXTSLOTS = 0"
    unfolding er_le_u16_def er_le_u32_def er_le_u64_def le_field_def
    by (simp_all add: small_er_sb_def get_range_def slice_def SB_FEATURE_INCOMPAT_def SB_EXTRA_DEVICES_def
        SB_PACKED_NID_def SB_EXTSLOTS_def EROFS_MAGIC_def nth_append)
  have "\<not> length small_er_image < SUPER_OFFSET + 128" by (simp add: SUPER_OFFSET_def small_er_lengths)
  then show ?thesis
    unfolding erofs_super_def slice_source_simps rd and_then.simps
    by (simp add: f refuse_unsupported_features_def umul_def Let_def small_er_def
        INCOMPAT_LZ4_0PADDING_def SUPER_OFFSET_def SB_BASE_SIZE_def SB_EXTSLOT_SIZE_def)
qed

lemma small_er_inodes:
  "fetch_inode small_er 0 = Ok small_er_root"
  "fetch_inode small_er 2 = Ok \<lparr>ei_kind = Regular, ei_size = 100, ei_mode = 0x81A4, ei_layout = FLAT_INLINE, ei_raw_blkaddr = 0,
     ei_inline_off = 1632\<rparr>"
  "fetch_inode small_er 7 = Ok \<lparr>ei_kind = Regular, ei_size = 3, ei_mode = 0x81A4, ei_layout = COMPRESSED_COMPACT,
     ei_raw_blkaddr = 0, ei_inline_off = 1792\<rparr>"
proof -
  have k: "erofs_kind 0x41ED = Directory" "erofs_kind 0x81A4 = Regular" by (simp_all add: erofs_kind_def Let_def)
  have s: "er_src small_er = slice_source small_er_image" "er_meta_off small_er = 1536" by (simp_all add: small_er_def)
  have src: "sound_source (er_src small_er)" using small_er_source s by simp
  show "fetch_inode small_er 0 = Ok small_er_root"
    using fetch_inode_encode [OF src, of FLAT_INLINE "0x41ED" 26 0 0] small_er_recorded(2)
    by (simp add: s k small_er_root_def FLAT_INLINE_def)
  show "fetch_inode small_er 2 = Ok \<lparr>ei_kind = Regular, ei_size = 100, ei_mode = 0x81A4, ei_layout = FLAT_INLINE,
     ei_raw_blkaddr = 0, ei_inline_off = 1632\<rparr>"
    using fetch_inode_encode [OF src, of FLAT_INLINE "0x81A4" 100 0 2] small_er_recorded(4) by (simp add: s k FLAT_INLINE_def)
  show "fetch_inode small_er 7 = Ok \<lparr>ei_kind = Regular, ei_size = 3, ei_mode = 0x81A4, ei_layout = COMPRESSED_COMPACT,
     ei_raw_blkaddr = 0, ei_inline_off = 1792\<rparr>"
    using fetch_inode_encode [OF src, of COMPRESSED_COMPACT "0x81A4" 3 0 7] small_er_recorded(6)
    by (simp add: s k COMPRESSED_COMPACT_def)
qed

lemma small_er_open: "erofs_open (slice_source small_er_image) = Ok small_er"
proof -
  let ?s = "small_er\<lparr>er_inodes := []\<rparr>"
  have "slice_read_at small_er_image COMPR_ALGS_OFF 2 = Ok [0, 0]"
    by (simp add: slice_read_at_eq_Ok small_er_lengths COMPR_ALGS_OFF_def)
      (simp add: small_er_image_def small_er_sb_def slice_def numeral_2_eq_2)
  then have lz: "parse_lzma_cfg ?s = Ok ?s" by (simp add: parse_lzma_cfg_def small_er_def)
  have "fetch_inode ?s = fetch_inode small_er" by (rule static_fresh(1)) simp
  then have "erofs_parse_inode 0 ?s = (Ok (), small_er)"
    using small_er_inodes(1) by (simp add: erofs_parse_inode_def small_er_def)
  moreover have "er_root_nid ?s = 0" by (simp add: small_er_def)
  ultimately show ?thesis by (simp add: erofs_open_def small_er_super lz)
qed


lemma small_er_ok: "erofs_ok lib small_er"
  by (rule conjunct1 [OF erofs_open_ok(2) [OF small_er_source small_er_open]])

lemma small_er_stored:
  "stored lib small_er \<lparr>ei_kind = Regular, ei_size = 100, ei_mode = 0x81A4, ei_layout = FLAT_INLINE, ei_raw_blkaddr = 0,
     ei_inline_off = 1632\<rparr> (replicate 100 7)"
  "stored lib small_er small_er_root (er_dir_encode [(small_er_dir, 0)])"
  using small_er_recorded(3,5)
  by (simp_all add: stored_def compressed_layout_def FLAT_INLINE_def FLAT_PLAIN_def COMPRESSED_FULL_def
      COMPRESSED_COMPACT_def small_er_def small_er_root_def er_dir_encode_def small_er_lengths Let_def)
    (simp_all add: recorded_def slice_read_at_eq_Ok small_er_lengths)

text \<open>The verifier over a content accepts the blocks of that content.\<close>

lemma genuine_accepted:
  assumes "digest_fn sha" and "6 \<le> block_log" and "block_log < 64" and "merkle_over sha c block_log salt = Some (Ok mv)"
  shows "blocks_accepted (verify_block sha mv) (2 ^ block_log) n c"
proof -
  have "verify_block sha mv n b (slice c b (min (b + 2 ^ block_log) (length c))) = Ok ()"
    if "b mod 2 ^ block_log = 0" "b < length c" for b
  proof -
    have b: "b div 2 ^ block_log * 2 ^ block_log = b" using that(1) by (metis add.right_neutral div_mult_mod_eq)
    have "chunk c (2 ^ block_log) (b div 2 ^ block_log) = slice c b (min (b + 2 ^ block_log) (length c))"
      unfolding chunk_def b ..
    then show ?thesis
      using merkle_over_returns [OF assms(1-3), of c salt] assms(4) that
      by (auto simp: verify_block_eq_Ok [where data = c and bs = "2 ^ block_log"])
  qed
  then show ?thesis by (simp add: blocks_accepted_def)
qed

lemma small_er_mv:
  obtains mv where "merkle_over toy_sha (replicate 100 7) 9 [] = Some (Ok mv)"
    "blocks_accepted (verify_block toy_sha mv) 512 2 (replicate 100 7)"
proof -
  obtain mv where mv: "merkle_over toy_sha (replicate 100 7) 9 [] = Some (Ok mv)"
    using merkle_over_returns [OF digest_toy_sha, of 9 "replicate 100 7" "[]"] by auto
  with genuine_accepted [OF digest_toy_sha _ _ mv, of 2] that show ?thesis by simp
qed

lemma small_er_block_size: "er_block_size small_er = 512" "er_blkszbits small_er = 9"
  by (simp_all add: small_er_def)

lemma small_er_tail: "overwrite [0, 0, 0, 0] 0 (slice (replicate 100 7) 98 100) = ([7, 7, 0, 0] :: bytes)"
proof -
  have "replicate 2 (7 :: byte) = [7, 7]" by (simp add: numeral_2_eq_2)
  then show ?thesis by (simp add: slice_def overwrite_def)
qed

theorem erofs_read_exact_witness:
  "\<exists>mv. merkle_over toy_sha (replicate 100 7) 9 [] = Some (Ok mv) \<and>
     fst (erofs_read_at store_lib (null_cx\<lparr>cx_verifier := verify_block toy_sha mv\<rparr>) 2 98 [0, 0, 0, 0] small_er) =
       Ok (2, [7, 7, 0, 0])"
proof -
  obtain mv where mv: "merkle_over toy_sha (replicate 100 7) 9 [] = Some (Ok mv)"
    "blocks_accepted (verify_block toy_sha mv) 512 2 (replicate 100 7)" by (rule small_er_mv)
  let ?c = "replicate 100 7 :: bytes" and ?buf = "[0, 0, 0, 0] :: bytes"
  have "fst (erofs_read_at store_lib (null_cx\<lparr>cx_verifier := verify_block toy_sha mv\<rparr>) 2 98 ?buf small_er) =
      Ok (min (98 + length ?buf) (length ?c) - 98, overwrite ?buf 0 (slice ?c 98 (min (98 + length ?buf) (length ?c))))"
    by (rule erofs_read_exact [OF small_er_source small_er_open rtranclp.rtrancl_refl small_er_inodes(2) _ small_er_stored(1)])
      (simp_all add: mv(2) small_er_block_size)
  then show ?thesis using mv(1) by (simp add: small_er_tail)
qed

theorem erofs_caches_transparent_witness:
  "fst (erofs_metadata 2 (snd (erofs_metadata 2 small_er))) = fst (erofs_metadata 2 small_er)"
proof -
  have "frontend_step (erofs_frontend store_lib) small_er (snd (erofs_metadata 2 small_er))"
    by (rule step_metadata [where cx = null_cx and n = 2 and r = "fst (erofs_metadata 2 small_er)"]) simp
  then have "frontend_run (erofs_frontend store_lib) small_er (snd (erofs_metadata 2 small_er))"
    by (rule r_into_rtranclp [of "frontend_step (erofs_frontend store_lib)"])
  from erofs_caches_transparent [OF small_er_source small_er_open this, where n = 2]
  show ?thesis by blast
qed

text \<open>The medium's block is the genuine one, so the theorem gives the genuine byte.\<close>

lemma small_er_block:
  "medium_block store_lib small_er \<lparr>ei_kind = Regular, ei_size = 100, ei_mode = 0x81A4, ei_layout = FLAT_INLINE,
     ei_raw_blkaddr = 0, ei_inline_off = 1632\<rparr> 0 = Ok (replicate 100 7)"
proof -
  have "erofs_base small_er" using erofs_ok_base [OF small_er_ok] by blast
  from inode_data_stored [OF this small_er_inodes(2) small_er_stored(1), of 0 "replicate 100 0" store_lib]
  show ?thesis by (simp add: medium_block_def small_er_block_size slice_def)
qed

theorem erofs_verified_read_genuine_witness:
  "\<exists>mv. merkle_over toy_sha (replicate 100 7) 9 [] = Some (Ok mv) \<and>
    fst (erofs_read_at store_lib (null_cx\<lparr>cx_verifier := verify_block toy_sha mv\<rparr>) 2 98 [0, 0, 0, 0] small_er) =
      Ok (2, [7, 7, 0, 0]) \<and>
    \<not> forged toy_sha [] 512 (replicate 100 7) 0 (replicate 100 7) \<and>
    [7, 7, 0, 0 :: byte] ! 1 = (replicate 100 7 @ replicate 512 0) ! 99"
proof -
  obtain mv where mv: "merkle_over toy_sha (replicate 100 7) 9 [] = Some (Ok mv)"
    "blocks_accepted (verify_block toy_sha mv) 512 2 (replicate 100 7)" by (rule small_er_mv)
  have ok: "erofs_ok store_lib small_er" by (rule small_er_ok)
  have "erofs_content store_lib (verify_block toy_sha mv) small_er 2 (replicate 100 7)"
    unfolding erofs_content_def using small_er_inodes(2) small_er_stored(1) mv(2) small_er_block_size by fastforce
  from erofs_read_content [OF _ this, of 98 "[0, 0, 0, 0]"] ok
  have "erofs_read store_lib (verify_block toy_sha mv) small_er 2 98 [0, 0, 0, 0] = Ok (2, [7, 7, 0, 0])"
    by (simp add: erofs_ok_base small_er_tail)
  then have r: "fst (erofs_read_at store_lib (null_cx\<lparr>cx_verifier := verify_block toy_sha mv\<rparr>) 2 98 [0, 0, 0, 0] small_er) =
      Ok (2, [7, 7, 0, 0])"
    using answers_read [OF ok refl, of "null_cx\<lparr>cx_verifier := verify_block toy_sha mv\<rparr>" 2 98 "[0, 0, 0, 0]"]
    by (auto simp: answers_def)
  have f: "\<not> forged toy_sha [] 512 (replicate 100 7) 0 (replicate 100 7)"
    by (simp add: forged_def chunk_def slice_def)
  have "er_block_size small_er = 2 ^ 9" by (simp add: small_er_def)
  from erofs_verified_read_genuine [OF small_er_source small_er_open rtranclp.rtrancl_refl digest_toy_sha mv(1) this r, of 1]
  obtain i blk where i: "fetch_inode small_er 2 = Ok i" "medium_block store_lib small_er i 0 = Ok blk"
    "[7, 7, 0, 0 :: byte] ! 1 = (replicate 100 7 @ replicate 512 0) ! 99 \<or> forged toy_sha [] 512 (replicate 100 7) 0 blk"
    by auto
  then have "blk = replicate 100 7" using small_er_inodes(2) small_er_block by simp
  then show ?thesis using i(3) f mv(1) r by blast
qed

theorem erofs_directory_roundtrip_witness:
  "fst (erofs_read_dir store_lib 0 small_er) =
    Ok [\<lparr>de_name = [0x61], de_node = 2, de_kind = Regular\<rparr>, \<lparr>de_name = [0x62], de_node = 7, de_kind = Regular\<rparr>]"
proof -
  have "er_dir_shape (er_block_size small_er) [(small_er_dir, 0)]"
    by (simp add: small_er_def small_er_lengths er_block_ok_def)
      (simp add: small_er_dir_def utf8_valid_ascii)
  from erofs_directory_roundtrip [OF small_er_source small_er_open rtranclp.rtrancl_refl small_er_inodes(1) _ this small_er_stored(2)]
  show ?thesis
    by (simp add: small_er_root_def er_dir_encode_def small_er_lengths MAX_BOOT_FILE_BYTES_def)
      (simp add: small_er_dir_def er_listed_def ft_kind_def)
qed

theorem erofs_oversized_block_panics_witness:
  "\<exists>mv. merkle_over toy_sha (replicate 100 7) 6 [] = Some (Ok mv) \<and>
     fst (erofs_read_at store_lib (null_cx\<lparr>cx_verifier := verify_block toy_sha mv\<rparr>) 2 0 [0, 0, 0, 0] small_er) =
       Panic SubOverflow"
proof -
  obtain mv where mv: "merkle_over toy_sha (replicate 100 7) 6 [] = Some (Ok mv)"
    using merkle_over_returns [OF digest_toy_sha, of 6 "replicate 100 7" "[]"] by auto
  have "fst (erofs_read_at store_lib (null_cx\<lparr>cx_verifier := verify_block toy_sha mv\<rparr>) 2 0 [0, 0, 0, 0] small_er) =
      Panic SubOverflow"
    by (rule erofs_oversized_block_panics [OF small_er_source small_er_open digest_toy_sha _ _ mv small_er_inodes(2) _ small_er_stored(1)])
      (simp_all add: small_er_block_size)
  with mv show ?thesis by blast
qed

lemma to_le_numeral: "to_le (numeral k) v = byte_of (v mod 256) # to_le (pred_numeral k) (v div 256)"
  by (subst numeral_eq_Suc) (rule to_le.simps(2))

theorem erofs_compact_file_roundtrip_witness:
  "fst (erofs_read_at store_lib null_cx 7 1 [0, 0] small_er) = Ok (2, [5, 6])"
proof -
  let ?raw = "compact_entries (\<lambda>r. 3) [0] [] []"
  have n: "div_ceil (length [4, 5, 6 :: byte]) (2 ^ 9) = 1" by (simp add: div_ceil_def)
  have shape: "compact_shape (1792 + 8) (div_ceil (length [4, 5, 6 :: byte]) (2 ^ 9)) (\<lambda>r. 3) [0] [] []"
    unfolding n by (simp add: compact_shape_def compact_zones_def Let_def)
  have enc: "compact_encode (\<lambda>r. 3) [0] [] [] = [0, 0, 0, 0, 3, 0, 0, 0]"
  proof -
    have "to_le 2 0 = [0, 0]" "to_le 4 3 = [3, 0, 0, 0]" by (simp_all add: to_le_numeral byte_of_def)
    then show ?thesis by (simp add: compact_encode_def Let_def)
  qed
  have heads: "small_heads ?raw (2 ^ 9) = [\<lparr>hd_start = 0, hd_ty = 0, hd_blkaddr = 4, hd_cblkcnt = 1\<rparr>]"
    by (simp add: compact_entries_def Let_def small_heads_def is_head_def half_entry_def small_head_def heads_before_def
        LC_TYPE_NONHEAD_def)
  have span: "read_span small_er 4 1 = Ok [4, 5, 6]"
    using small_er_recorded(9) by (simp add: read_span_def small_er_def umul_def Let_def small_er_lengths recorded_def
        numeral_3_eq_3)
  have hold: "clusters_hold store_lib small_er (unat (0 AND 0x0F :: byte)) (unat (drop_bit 4 0 AND 0x0F :: byte))
      (small_heads ?raw (2 ^ 9)) [4, 5, 6]"
    unfolding heads using span
    by (simp add: clusters_hold_def decode_pcluster_def LC_TYPE_PLAIN_def checked_block_len_eq_Ok and_then_eq_Ok
        ok_or_eq_Ok get_range_eq_Some slice_def MAX_DECOMPRESSED_BLOCK_BYTES_def)
  have "fst (erofs_read_at store_lib null_cx 7 1 [0, 0] small_er) =
      Ok (min (1 + length [0, 0 :: byte]) (length [4, 5, 6 :: byte]) - 1,
        overwrite [0, 0] 0 (slice [4, 5, 6] 1 (min (1 + length [0, 0 :: byte]) (length [4, 5, 6 :: byte]))))"
  proof (rule erofs_compact_file_roundtrip [OF small_er_source small_er_open small_er_inodes(3), where mh = 1792 and
          reserved = "[0, 0, 0, 0]" and advise = 1 and algos = 0 and clusterbits = 0 and lcbits = 9 and base = "\<lambda>r. 3" and
          ?g1.0 = "[0]" and ps = "[]" and ?g2.0 = "[]" and heads = "small_heads ?raw (2 ^ 9)" and c = "[4, 5, 6]"])
    have "to_le 2 1 = [1, 0]" by (simp add: to_le_numeral byte_of_def)
    then show "recorded (slice_source small_er_image) 1792 ([0, 0, 0, 0] @ to_le 2 1 @ [0, 0])"
      using small_er_recorded(7) by simp
    show "recorded (slice_source small_er_image) (1792 + 8) (compact_encode (\<lambda>r. 3) [0] [] [])"
      using small_er_recorded(8) by (simp add: enc)
    show "no_refused_variant 1 0"
      by (simp add: no_refused_variant_def CLUSTERBITS_WHOLE_FILE_FRAGMENT_def ADVISE_INLINE_PCLUSTER_def
          ADVISE_INTERLACED_PCLUSTER_def ADVISE_FRAGMENT_def)
    show "small_heads ?raw (2 ^ 9) \<noteq> []" unfolding heads by simp
    show "clusters_hold store_lib small_er (unat (0 AND 0x0F :: byte)) (unat (drop_bit 4 0 AND 0x0F :: byte))
      (small_heads ?raw (2 ^ 9)) [4, 5, 6]" by (rule hold)
  qed (use shape in \<open>simp_all add: small_er_block_size MAX_BOOT_FILE_BYTES_def ADVISE_COMPACTED_2B_def ADVISE_BIG_PCLUSTER_def\<close>)
  then show ?thesis by (simp add: slice_def overwrite_def)
qed

end
