(* ===== verification/Spec2Isabelle.thy ===== *)
theory Spec2Isabelle
  imports Fold_Verity Romfs Cramfs Cpio Iso_Images Udf_Images Squash_Images Erofs_Images
begin

text \<open>
  Verification of \<^verbatim>\<open>lamfold\<close>, a read-only media file-system stack in Rust: a substrate crate
  (\<^verbatim>\<open>crates/lamfold\<close>) with errors, byte sources, size caps, decompressors, a block cache, integrity
  checks and path resolution, and under it seven format readers that each parse one on-disk format
  and offer the same trait, \<^verbatim>\<open>FoldFrontend\<close>. The media are hostile input: the stack promises that
  no image makes it panic, hang or allocate without bound, and that a verified read surfaces only
  genuine bytes. The theorems say how far that holds and what a well-formed image reads back as.

  How the parts interact. A client mounts a source (\<open>X_open\<close>), and calls the methods of the mounted
  volume, by handle or, through \<^verbatim>\<open>path.rs\<close>, by path. A method reads the source, decompresses with
  \<^verbatim>\<open>codec.rs\<close> or \<^verbatim>\<open>stream.rs\<close> within the caps of \<^verbatim>\<open>read_cap.rs\<close>, and, in EROFS, asks the verifier of
  the call's context (\<^verbatim>\<open>verify.rs\<close>, \<^verbatim>\<open>verity.rs\<close>) before it surfaces a block. The handles of ISO 9660,
  UDF and SquashFS index a table of interned inodes that grows as directories are read; EROFS keeps
  its inodes and decoded files in two maps.

  Conventions.
  \<^item> A fallible computation is a \<open>result\<close>: \<open>Ok\<close>, \<open>Err\<close> with the source's error, or \<open>Panic\<close>. Panics
    are those of a build with overflow checks, each with its \<open>panic_kind\<close>: an index or slice out of
    range, \<open>uadd\<close>, \<open>umul\<close> and \<open>usub\<close> when the exact value leaves the type, \<open>udiv\<close> by zero, and a shift
    by the width or more. An addition, multiplication, subtraction or division that the sources leave
    unchecked is modelled by one of these wherever on-disk values or the caller's offsets could make it
    leave the type or its divisor zero.
  \<^item> Bytes are \<open>8 word\<close>, wider integers \<open>nat\<close> with their width in the arithmetic; \<^verbatim>\<open>usize\<close> has 64 bits.
    A string is its UTF-8 bytes (\<open>Rust_Text\<close>), a \<^verbatim>\<open>BTreeMap\<close> the sorted list of its entries
    (\<open>Btree_Map\<close>), a trait object the record of its methods.
  \<^item> A method on \<^verbatim>\<open>&mut self\<close> is an \<open>op\<close>: it returns its outcome with the volume it leaves behind. A
    method that writes a caller's buffer takes it and returns it with the count.
  \<^item> The decompression crates, SHA-256 and the \<^verbatim>\<open>cpio_reader\<close> crate are parameters: the records
    \<open>codec_lib\<close> and the functions of type \<open>hash_fn\<close> and \<open>bytes \<Rightarrow> old_entry list\<close>. What a property needs
    of them (a decoder returns at most the room it is given, a hash has 32 bytes) is a named
    hypothesis (\<open>codec_lib_ok\<close>, \<open>digest_fn\<close>), which the witnesses meet with \<open>store_lib\<close> and \<open>toy_sha\<close>.
    What a streaming decoder makes of its input is stated for the one reader of that input, which gives
    a byte string in pieces and ends or fails (\<open>reader_gives\<close>).

  The theories, in the order of the code.
  \<^item> \<open>Fold_Error\<close>, \<open>Fold_Prelude\<close>, \<open>Rust_Text\<close>, \<open>Btree_Map\<close>: \<^verbatim>\<open>error.rs\<close>, the result and state monads,
    checked arithmetic, slices, endian fields with their round trips, text, ordered maps.
  \<^item> \<open>Block_Source\<close> (\<^verbatim>\<open>source.rs\<close>): the source trait, the contract \<open>medium\<close> of a sound source, and the
    in-memory source that keeps it. \<open>recorded\<close> says that bytes lie at an offset of a source: every
    round trip is stated over it, for any sound source, not for a particular image.
  \<^item> \<open>Read_Cap\<close>, \<open>Block_Cache\<close>, \<open>Fold_Verify\<close>, \<open>Fold_Verity\<close> (\<^verbatim>\<open>read_cap.rs\<close>, \<^verbatim>\<open>cache.rs\<close>, \<^verbatim>\<open>verify.rs\<close>,
    \<^verbatim>\<open>verity.rs\<close>): the caps; the cache as a refinement of the textbook LRU list; the Merkle tree, its
    termination, and the verifier as an exact test against the genuine blocks.
  \<^item> \<open>Codec\<close>, \<open>Stream_Codec\<close> (\<^verbatim>\<open>codec.rs\<close>, \<^verbatim>\<open>stream.rs\<close>): block decoders and their dispatch, stream
    decoders, the magic sniffer, gzip framing and the table-driven CRC. The cargo features are
    booleans of the library: a codec that is not compiled in gives the source's stub, \<open>disabled\<close>.
  \<^item> \<open>Fold_Frontend\<close> (\<^verbatim>\<open>frontend.rs\<close>): the trait, its value types, runs of method calls
    (\<open>frontend_step\<close>), and the contracts as locales: \<open>fold_frontend\<close> (invariant and buffer laws),
    \<open>path_safe_frontend\<close> and \<open>panic_free_frontend\<close> (no panics), \<open>tree_frontend\<close> (a static tree behind
    the handles), \<open>content_frontend\<close> (files with a content), \<open>coherent_frontend\<close> (lookup, listing and
    metadata agree). \<open>Fold_Path\<close> (\<^verbatim>\<open>path.rs\<close>) proves its lemmas once inside them; each format
    interprets them on its own model.
  \<^item> \<open>Romfs\<close>, \<open>Cramfs\<close>, \<open>Cpio\<close> (\<^verbatim>\<open>romfs.rs\<close>, \<^verbatim>\<open>cramfs.rs\<close>, \<^verbatim>\<open>cpio.rs\<close>): whole readers. The cpio mount folds
    records into a tree of nodes, through chains of archives and compressed members; seen by paths, one
    record is the insertion \<open>insert_view\<close> (\<open>tree_view\<close>), and \<open>lookup_path\<close> says which paths can be followed.
  \<^item> \<open>Intern_Table\<close>: the interning of inodes that three formats share, as the locales \<open>intern_table\<close> and
    \<open>interned_tree\<close>. \<open>Memo_Cache\<close>: the memo maps of EROFS, as the locale \<open>memo_cache\<close>.
  \<^item> \<open>Rock_Ridge\<close>, \<open>El_Torito\<close>, \<open>Iso_Records\<close>, \<open>Iso9660\<close>, \<open>Iso_Images\<close> (\<^verbatim>\<open>rock_ridge.rs\<close>,
    \<^verbatim>\<open>el_torito.rs\<close>, \<^verbatim>\<open>iso9660.rs\<close>): the optical reader; the record scan with multi-extent chains, the
    mount and the frontend, and recorded directories with their System Use and continuation areas.
  \<^item> \<open>Udf\<close>, \<open>Udf_Images\<close> (\<^verbatim>\<open>udf.rs\<close>): descriptors, File Entries, names, reads; recorded structures.
  \<^item> \<open>Squash\<close>, \<open>Squash_Images\<close> (\<^verbatim>\<open>squash.rs\<close>): metadata spans, inodes, listings, fragments and blocks;
    recorded structures.
  \<^item> \<open>Erofs_Index\<close>, \<open>Erofs\<close>, \<open>Erofs_Reads\<close>, \<open>Erofs_Frontend\<close>, \<open>Erofs_Content\<close>, \<open>Erofs_Dirs\<close>,
    \<open>Erofs_Images\<close> (\<^verbatim>\<open>erofs.rs\<close>): the compact cluster index and the cluster decoders, the reader, the
    caches and what they are worth, the blocks the medium gives (\<open>medium_block\<close>, whatever the buffer
    held), the contracts, file contents in every layout, recorded directory blocks, and the properties.
  \<^item> This theory: the path layer over every format.

  What the lemmas show. For each reader: its invariant and that the mount establishes and every
  method keeps it; that every method returns (recursions are structural, or have a measure on the
  bytes left; no fuel is used except where the source itself bounds a loop: hops of a romfs hard
  link and headers of a listing, descriptor sectors of UDF, continuation areas of Rock Ridge, links
  of a path); which panics are possible; that records laid out as the format says are read back
  field by field, entry by entry and byte by byte at every offset. Safety is no panic at all for
  romfs, cpio and ISO 9660 and for cramfs by path; for UDF, SquashFS and EROFS the sources add
  and multiply on-disk values unchecked, and the theorem is that the overflow of an addition or a
  multiplication is the only panic (\<open>only_overflow\<close>). A cramfs read by handle panics in one more case, an EROFS read under a verifier
  with smaller blocks as well, and the Merkle root over more than one block of 32 bytes or less never
  returns: each is a theorem with a concrete witness.

  Recursion without a bound. The loops that could run forever are partial functions into
  options: \<open>merkle_levels\<close>, \<open>zstd_loop\<close> and \<open>insert_chain\<close>. Their termination is a theorem that
  the value is \<open>Some\<close>, for every input or under the condition the theorem names.

  Not modelled. The third-party crates, the crate roots (module declarations and re-exports), and
  the tests, fixtures and build files. Memory is unbounded, except for the caps and \<^verbatim>\<open>try_reserve\<close>, which
  is taken to succeed. Addition of a position in a buffer that the caller already holds and a
  constant is taken to be exact, since a Rust allocation has fewer than \<open>2 ^ 63\<close> bytes.
\<close>


section \<open>A mounted volume for the witnesses\<close>

lemma rom_volume_ok: "romfs_ok rom_volume"
  by (simp add: romfs_ok_def rom_volume_def sound_slice_source rom_image_def rom_encode_header_def ROMFS_MAGIC_def
      align16_eq)

lemma length_rom_encode_dot: "length (rom_encode_header a b c d e [x]) = 32"
  by (simp add: rom_encode_header_def align16_eq)

lemma rom_volume_headers:
  "read_header rom_volume 32 =
    Ok \<lparr>rh_next_off = 64, rh_ftype = 1, rh_info = 32, rh_size = 0, rh_name = dot, rh_data_off = 64\<rparr>"
  "read_header rom_volume 64 =
    Ok \<lparr>rh_next_off = 0, rh_ftype = 2, rh_info = 0, rh_size = 3, rh_name = [0x61], rh_data_off = 96\<rparr>"
proof -
  let ?pre = "ROMFS_MAGIC @ to_be 4 112 @ to_be 4 0 @ [0x76] @ replicate 15 0"
  let ?h1 = "rom_encode_header 64 1 32 0 0 [0x2E]" and ?h2 = "rom_encode_header 0 2 0 3 0 [0x61]"
  let ?post = "[1, 2, 3] @ replicate 13 0"
  have len: "length rom_image < 2 ^ 63" "length ?pre = 32" "length (?pre @ ?h1) = 64"
    by (simp_all add: rom_image_def ROMFS_MAGIC_def length_rom_encode_dot)
  have i1: "rom_image = ?pre @ ?h1 @ (?h2 @ ?post)" and i2: "rom_image = (?pre @ ?h1) @ ?h2 @ ?post"
    by (simp_all add: rom_image_def)
  show "read_header rom_volume 32 =
    Ok \<lparr>rh_next_off = 64, rh_ftype = 1, rh_info = 32, rh_size = 0, rh_name = dot, rh_data_off = 64\<rparr>"
    using read_header_encode [OF i1 len(1), of 32] len(2)
    by (simp add: rom_volume_def dot_def utf8_valid_ascii MAX_NAME_def length_rom_encode_dot)
  show "read_header rom_volume 64 =
    Ok \<lparr>rh_next_off = 0, rh_ftype = 2, rh_info = 0, rh_size = 3, rh_name = [0x61], rh_data_off = 96\<rparr>"
    using read_header_encode [OF i2 len(1), of 32] len(3)
    by (simp add: rom_volume_def utf8_valid_ascii MAX_NAME_def length_rom_encode_dot)
qed

lemma rom_volume_resolved:
  "resolved_header rom_volume 32 =
    Ok (32, \<lparr>rh_next_off = 64, rh_ftype = 1, rh_info = 32, rh_size = 0, rh_name = dot, rh_data_off = 64\<rparr>)"
  "resolved_header rom_volume 64 =
    Ok (64, \<lparr>rh_next_off = 0, rh_ftype = 2, rh_info = 0, rh_size = 3, rh_name = [0x61], rh_data_off = 96\<rparr>)"
  by (simp_all add: resolved_header_def FT_HARDLINK_def rom_volume_headers)

lemma rom_volume_listing:
  "romfs_read_dir rom_volume 32 = Ok [\<lparr>de_name = [0x61], de_node = 64, de_kind = Regular\<rparr>]"
proof -
  have "romfs_list rom_volume (Suc (Suc (Suc 999997))) 32 = Ok [\<lparr>de_name = [0x61], de_node = 64, de_kind = Regular\<rparr>]"
    by (simp only: romfs_list.simps)
      (simp add: rom_volume_headers rom_volume_resolved rom_kind_def FT_DIRECTORY_def FT_REGULAR_def dot_def dotdot_def)
  moreover have "Suc (Suc (Suc 999997)) = (1000000 :: nat)" by simp
  ultimately show ?thesis
    by (simp add: romfs_read_dir_def rom_volume_resolved FT_DIRECTORY_def)
qed

lemma rom_volume_resolve: "resolve romfs_frontend null_cx [0x2F, 0x61] rom_volume = (Ok 64, rom_volume)"
proof -
  have "components [0x2F, 0x61] = [[0x61]]" by (simp add: components_def slash_def dot_def)
  then show ?thesis
    by (simp add: resolve_def push_components_eq resolve_loop_Cons dotdot_def romfs_frontend_def romfs_root_def
        romfs_lookup_def romfs_metadata_def rom_volume_def [THEN arg_cong [where f = ro_first_hdr]]
        rom_volume_listing rom_volume_resolved find_entry_def rom_kind_def FT_DIRECTORY_def FT_REGULAR_def FT_SYMLINK_def)
qed

lemma rom_volume_content: "romfs_content rom_volume 64 [1, 2, 3]"
  by (auto simp: romfs_content_def rom_volume_resolved FT_DIRECTORY_def)
    (simp add: rom_volume_def slice_read_at_eq_Ok rom_image_def ROMFS_MAGIC_def length_rom_encode_dot slice_def)


section \<open>Properties of the path layer over every format\<close>

text \<open>
  C1. Over any format with a tree behind its handles, resolving a path finds exactly the key that
  the path names in that tree: symbolic links followed, relative to the directory that holds them
  or from the root, up to the limit, empty and \<^verbatim>\<open>.\<close> components skipped, \<^verbatim>\<open>..\<close> refused.
\<close>

theorem resolve_exact:
  assumes "tree_frontend fe ok cx repr vw" and "ok s"
  shows "(\<exists>n s'. resolve fe cx path s = (Ok n, s') \<and> repr s' n = Some k) \<longleftrightarrow>
    (\<exists>j \<le> MAX_SYMLINKS. walk (vw s) (vw_root (vw s)) (components path) j k)"
  using assms by (rule tree_frontend.resolve_iff_walk)

theorem resolve_exact_witness:
  "\<exists>j \<le> MAX_SYMLINKS. walk (romfs_view rom_volume) (vw_root (romfs_view rom_volume)) (components [0x2F, 0x61]) j 64"
  using resolve_exact [OF rom.tree_frontend_axioms rom_volume_ok, of null_cx "[0x2F, 0x61]" 64]
    rom_volume_resolve by simp

text \<open>
  C12. A path with a \<^verbatim>\<open>..\<close> component is never resolved, whatever the format answers: no path
  climbs out of the volume.
\<close>

theorem resolve_refuses_dotdot:
  assumes "dotdot \<in> set (components path)"
  shows "resolve fe cx path s \<noteq> (Ok n, s')"
  using assms resolve_loop_no_dotdot [of fe cx "fe_root fe s" "push_components path []" 0 s n s']
  by (auto simp: resolve_def push_components_eq)

theorem resolve_refuses_dotdot_witness:
  "resolve romfs_frontend null_cx [0x61, 0x2F, 0x2E, 0x2E, 0x2F, 0x61] rom_volume \<noteq> (Ok 64, rom_volume)"
  by (rule resolve_refuses_dotdot) (simp add: components_def slash_def dot_def dotdot_def)

text \<open>
  C11. Over a format whose methods keep their contract, reading a whole file, listing and stating by
  path never panic, and no file longer than the cap is returned.
\<close>

theorem paths_safe:
  assumes "path_safe_frontend fe ok safe_off" and "ok s"
  shows "no_panic (fst (read_path fe cx path s)) \<and> no_panic (fst (read_dir_path fe cx path s)) \<and>
    no_panic (fst (metadata_path fe cx path s)) \<and>
    (\<forall>bs s'. read_path fe cx path s = (Ok bs, s') \<longrightarrow> length bs \<le> MAX_BOOT_FILE_BYTES \<and> ok s')"
proof -
  have ff: "fold_frontend fe ok" using assms(1) by (simp add: path_safe_frontend_def)
  show ?thesis
    using path_safe_frontend.read_path_safe [OF assms] path_safe_frontend.read_dir_path_safe [OF assms]
      path_safe_frontend.metadata_path_safe [OF assms] fold_frontend.read_path_length [OF ff assms(2)] by blast
qed

theorem paths_safe_witness: "no_panic (fst (read_path romfs_frontend null_cx [0x2F, 0x62] rom_volume))"
  using paths_safe [OF rom.path_safe_frontend_axioms rom_volume_ok] by blast

text \<open>
  C2. A file that a path leads to is read back whole, through however many partial reads the format
  answers with; a file longer than the cap is refused with its size, before any of it is read.
\<close>

theorem read_path_whole:
  assumes "content_frontend fe ok cx has_content" and "ok s"
    and "resolve fe cx path s = (Ok node, s1)" and "has_content s1 node c"
  shows "fst (read_path fe cx path s) =
    (if length c \<le> MAX_BOOT_FILE_BYTES then Ok c else Err (FileTooLarge (length c) MAX_BOOT_FILE_BYTES))"
proof (cases "length c \<le> MAX_BOOT_FILE_BYTES")
  case True
  then show ?thesis using content_frontend.read_path_content [OF assms] by auto
next
  case False
  then show ?thesis using content_frontend.read_path_too_large [OF assms] by simp
qed

theorem read_path_whole_witness: "fst (read_path romfs_frontend null_cx [0x2F, 0x61] rom_volume) = Ok [1, 2, 3]"
  using read_path_whole [OF rom.content_frontend_axioms rom_volume_ok rom_volume_resolve rom_volume_content]
  by (simp add: MAX_BOOT_FILE_BYTES_def)

end
